(* ===== verification/Prelude.thy ===== *)
theory Prelude
  imports Main "HOL-Library.Word"
begin

text \<open>
  Shared vocabulary of the development: the widths of Rust's unsigned integers, saturating and
  truncating arithmetic on them, 32-bit sequence numbers, big-endian byte codecs, and the list
  lemmas the components use.

  Byte counts, windows, deadlines and indices are \<open>nat\<close> values with the saturation
  (\<open>saturating_add\<close>, \<open>saturating_mul\<close>) or the truncation of an \<open>as u16\<close> / \<open>as u32\<close> cast written
  out; \<open>saturating_sub\<close> is subtraction on \<open>nat\<close>. Sequence numbers, where the code relies on
  wrap-around, are \<open>32 word\<close>.
\<close>

unbundle bit_operations_syntax

section \<open>Integer widths\<close>

type_synonym u8 = "8 word"
type_synonym u16 = "16 word"
type_synonym u32 = "32 word"
type_synonym u64 = "64 word"
type_synonym bytes = "8 word list"

named_theorems width_simps \<open>the integer bounds and casts of the model\<close>

definition U16_MAX :: nat where [width_simps]: "U16_MAX = 65535"
definition U32_MAX :: nat where [width_simps]: "U32_MAX = 4294967295"
definition U64_MAX :: nat where [width_simps]: "U64_MAX = 18446744073709551615"

definition as_u8 :: "nat \<Rightarrow> nat" where [width_simps]: "as_u8 n = n mod 256"
definition as_u16 :: "nat \<Rightarrow> nat" where [width_simps]: "as_u16 n = n mod 65536"
definition as_u32 :: "nat \<Rightarrow> nat" where [width_simps]: "as_u32 n = n mod 4294967296"
definition as_u64 :: "nat \<Rightarrow> nat" where
  [width_simps]: "as_u64 n = n mod 18446744073709551616"

definition sat_add8 :: "nat \<Rightarrow> nat \<Rightarrow> nat" where
  [width_simps]: "sat_add8 a b = min (a + b) 255"
definition sat_add32 :: "nat \<Rightarrow> nat \<Rightarrow> nat" where
  [width_simps]: "sat_add32 a b = min (a + b) 4294967295"
definition sat_mul32 :: "nat \<Rightarrow> nat \<Rightarrow> nat" where
  [width_simps]: "sat_mul32 a b = min (a * b) 4294967295"
definition sat_add64 :: "nat \<Rightarrow> nat \<Rightarrow> nat" where
  [width_simps]: "sat_add64 a b = min (a + b) 18446744073709551615"
definition sat_mul64 :: "nat \<Rightarrow> nat \<Rightarrow> nat" where
  [width_simps]: "sat_mul64 a b = min (a * b) 18446744073709551615"

lemma as_u16_id: "n < 65536 \<Longrightarrow> as_u16 n = n"
  by (simp add: as_u16_def)

lemma as_u32_id: "n < 4294967296 \<Longrightarrow> as_u32 n = n"
  by (simp add: as_u32_def)

lemma as_u64_id: "n < 18446744073709551616 \<Longrightarrow> as_u64 n = n"
  by (simp add: as_u64_def)

lemma sat_add32_le: "sat_add32 a b \<le> U32_MAX"
  by (simp add: width_simps)

lemma sat_mul32_le: "sat_mul32 a b \<le> U32_MAX"
  by (simp add: width_simps)

lemma sat_mul32_mono: "a \<le> b \<Longrightarrow> sat_mul32 m a \<le> sat_mul32 m b"
  unfolding sat_mul32_def by (rule min.mono) simp_all

section \<open>List facts\<close>

lemma take_upt_min: "take k [a..<b] = [a..<min (a + k) b]"
  by (cases "a + k \<le> b") (simp_all add: min_def)

section \<open>Results\<close>

text \<open>A \<open>Result\<close> is a sum with the error on the left; \<open>and_then\<close> is the \<open>?\<close> operator, after \<open>map_err\<close> where the source
  converts the error.\<close>

definition and_then :: "'e + 'a \<Rightarrow> ('a \<Rightarrow> 'e + 'b) \<Rightarrow> 'e + 'b" where
  "and_then r f = (case r of Inl e \<Rightarrow> Inl e | Inr x \<Rightarrow> f x)"

definition map_err :: "('e \<Rightarrow> 'f) \<Rightarrow> 'e + 'a \<Rightarrow> 'f + 'a" where
  "map_err g r = (case r of Inl e \<Rightarrow> Inl (g e) | Inr x \<Rightarrow> Inr x)"

lemma and_then_simps [simp]: "and_then (Inl e) f = Inl e" "and_then (Inr x) f = f x"
  by (simp_all add: and_then_def)

lemma map_err_simps [simp]: "map_err g (Inl e) = Inl (g e)" "map_err g (Inr x) = Inr x"
  by (simp_all add: map_err_def)

lemma and_then_Inr: "and_then r f = Inr y \<longleftrightarrow> (\<exists>x. r = Inr x \<and> f x = Inr y)"
  by (cases r) simp_all

lemma map_err_Inr [simp]: "map_err g r = Inr y \<longleftrightarrow> r = Inr y"
  by (cases r) simp_all

end
