(* ===== verification/Congestion.thy ===== *)
theory Congestion
  imports Prelude
begin

text \<open>
  The congestion-control core \<open>crates/net/cc/src/lib.rs\<close> that TCP and QUIC share: the recovery
  episode, the NewReno and CUBIC controllers, and the \<open>Controller\<close> enum over the two. The trait
  \<open>CongestionControl\<close> is the locale \<open>congestion_control\<close> below; it is interpreted on each of the
  three implementations.

  A \<open>u32\<close> field is a \<open>nat\<close>; the saturating operations and the \<open>as u32\<close> casts are written out. The
  signed 128-bit arithmetic of CUBIC's curve is on \<open>int\<close> with the wrap-around of \<open>i128\<close>.
\<close>

section \<open>Windows and RTT inputs\<close>

record Rtt =
  smoothed_us :: nat
  min_us :: nat

definition DEFAULT_MSS :: nat where "DEFAULT_MSS = 1200"

definition min_u32 :: "nat \<Rightarrow> nat \<Rightarrow> nat" where
  "min_u32 a b = (if a < b then a else b)"

definition max_u32 :: "nat \<Rightarrow> nat \<Rightarrow> nat" where
  "max_u32 a b = (if a > b then a else b)"

definition initial_window :: "nat \<Rightarrow> nat" where
  "initial_window mss =
     (let ten = sat_mul32 mss 10;
          floor = max_u32 (sat_mul32 mss 2) 14600
      in min_u32 ten floor)"

definition minimum_window :: "nat \<Rightarrow> nat" where
  "minimum_window mss = sat_mul32 mss 2"

definition DEFAULT_MAX_WINDOW :: nat where "DEFAULT_MAX_WINDOW = 2097152"

section \<open>The recovery episode\<close>

record RecoveryEpisode =
  active :: bool
  rem_bytes :: nat

definition re_idle :: RecoveryEpisode where
  "re_idle = \<lparr>active = False, rem_bytes = 0\<rparr>"

definition re_begin :: "nat \<Rightarrow> RecoveryEpisode \<Rightarrow> RecoveryEpisode" where
  "re_begin window_bytes r = r\<lparr>active := True, rem_bytes := window_bytes\<rparr>"

text \<open>The flag returned is \<open>true\<close> while the episode holds.\<close>

definition absorb_ack :: "nat \<Rightarrow> RecoveryEpisode \<Rightarrow> bool \<times> RecoveryEpisode" where
  "absorb_ack bytes_acked r =
     (if \<not> active r then (False, r)
      else let rem = rem_bytes r - bytes_acked;
               r1 = r\<lparr>rem_bytes := rem\<rparr>
           in (True, if rem = 0 then r1\<lparr>active := False\<rparr> else r1))"

section \<open>NewReno\<close>

record NewReno =
  nr_mss :: nat
  nr_cwnd :: nat
  nr_ssthresh :: nat
  nr_recovery :: RecoveryEpisode
  nr_srtt_us :: nat
  nr_max_window :: nat
  nr_slow_start_cap :: nat

definition nr_new :: "nat \<Rightarrow> NewReno" where
  "nr_new mss0 =
     (let mss = (if mss0 = 0 then DEFAULT_MSS else mss0)
      in \<lparr>nr_mss = mss, nr_cwnd = initial_window mss, nr_ssthresh = U32_MAX,
          nr_recovery = re_idle, nr_srtt_us = 0,
          nr_max_window = max_u32 DEFAULT_MAX_WINDOW (initial_window mss),
          nr_slow_start_cap = 0\<rparr>)"

definition nr_set_max_window :: "nat \<Rightarrow> NewReno \<Rightarrow> NewReno" where
  "nr_set_max_window mx c = c\<lparr>nr_max_window := max_u32 mx (initial_window (nr_mss c))\<rparr>"

definition nr_set_slow_start_cap :: "nat \<Rightarrow> NewReno \<Rightarrow> NewReno" where
  "nr_set_slow_start_cap cap c = c\<lparr>nr_slow_start_cap := cap\<rparr>"

definition nr_in_slow_start :: "NewReno \<Rightarrow> bool" where
  "nr_in_slow_start c \<longleftrightarrow> nr_cwnd c < nr_ssthresh c"

definition enter_recovery :: "NewReno \<Rightarrow> NewReno" where
  "enter_recovery c =
     (let c1 = c\<lparr>nr_recovery :=
                   re_begin (max_u32 (nr_cwnd c) (minimum_window (nr_mss c))) (nr_recovery c)\<rparr>;
          half = nr_cwnd c1 div 2;
          c2 = c1\<lparr>nr_ssthresh := max_u32 half (minimum_window (nr_mss c1))\<rparr>
      in c2\<lparr>nr_cwnd := nr_ssthresh c2\<rparr>)"

definition nr_note_rtt :: "Rtt \<Rightarrow> NewReno \<Rightarrow> NewReno" where
  "nr_note_rtt rtt c = (if smoothed_us rtt \<noteq> 0 then c\<lparr>nr_srtt_us := smoothed_us rtt\<rparr> else c)"

definition slow_start_inc :: "nat \<Rightarrow> nat \<Rightarrow> nat \<Rightarrow> nat" where
  "slow_start_inc bytes_acked room cap =
     (let inc = min_u32 bytes_acked room in if cap \<noteq> 0 then min_u32 inc cap else inc)"

text \<open>The growth step of an acknowledgement outside an episode, with the final clip.\<close>

definition nr_grow :: "nat \<Rightarrow> NewReno \<Rightarrow> NewReno" where
  "nr_grow bytes_acked c =
     (let c1 =
        (if nr_in_slow_start c
         then c\<lparr>nr_cwnd := sat_add32 (nr_cwnd c)
                  (slow_start_inc bytes_acked (nr_ssthresh c - nr_cwnd c) (nr_slow_start_cap c))\<rparr>
         else let inc = as_u32 (nr_mss c * bytes_acked div nr_cwnd c)
              in c\<lparr>nr_cwnd := sat_add32 (nr_cwnd c) (max inc 1)\<rparr>)
      in c1\<lparr>nr_cwnd := min_u32 (nr_cwnd c1) (nr_max_window c1)\<rparr>)"

definition nr_on_ack :: "nat \<Rightarrow> nat \<Rightarrow> Rtt \<Rightarrow> nat \<Rightarrow> NewReno \<Rightarrow> NewReno" where
  "nr_on_ack bytes_acked in_flight rtt now c0 =
     (let c1 = nr_note_rtt rtt c0
      in if bytes_acked = 0 then c1
         else let (hold, r) = absorb_ack bytes_acked (nr_recovery c1);
                  c2 = c1\<lparr>nr_recovery := r\<rparr>
              in if hold then c2 else nr_grow bytes_acked c2)"

definition nr_on_loss :: "nat \<Rightarrow> bool \<Rightarrow> NewReno \<Rightarrow> NewReno" where
  "nr_on_loss bytes_lost persistent c =
     (if persistent
      then let c1 = c\<lparr>nr_ssthresh := nr_cwnd c div 2\<rparr>;
               c2 = c1\<lparr>nr_ssthresh := max_u32 (nr_ssthresh c1) (minimum_window (nr_mss c1))\<rparr>;
               c3 = c2\<lparr>nr_cwnd := minimum_window (nr_mss c2)\<rparr>
           in c3\<lparr>nr_recovery := re_begin (nr_cwnd c3) (nr_recovery c3)\<rparr>
      else if active (nr_recovery c) then c
      else enter_recovery c)"

definition nr_on_rto :: "NewReno \<Rightarrow> NewReno" where
  "nr_on_rto c = nr_on_loss 0 True c"

definition nr_window :: "NewReno \<Rightarrow> nat" where
  "nr_window c = min_u32 (max_u32 (nr_cwnd c) (minimum_window (nr_mss c))) (nr_max_window c)"

definition nr_pacing_rate :: "NewReno \<Rightarrow> nat" where
  "nr_pacing_rate c =
     (if nr_srtt_us c = 0 then 0
      else let n_num = (if nr_in_slow_start c then 2 else 5);
               n_den = (if nr_in_slow_start c then 1 else 4)
           in sat_mul64 (sat_mul64 (nr_window c) 1000000) n_num div (nr_srtt_us c * n_den))"

section \<open>The integer cube root\<close>

fun bit_length :: "nat \<Rightarrow> nat" where
  "bit_length x = (if x = 0 then 0 else Suc (bit_length (x div 2)))"

declare bit_length.simps [simp del]

definition div_ceil :: "nat \<Rightarrow> nat \<Rightarrow> nat" where
  "div_ceil a b = (a + b - 1) div b"

text \<open>The Newton loop: \<open>y\<close> strictly decreases until the step stops shrinking it.\<close>

function icbrt_newton :: "nat \<Rightarrow> nat \<Rightarrow> nat" where
  "icbrt_newton x y =
     (let nxt = (2 * y + x div (y * y)) div 3
      in if nxt \<ge> y then y else icbrt_newton x nxt)"
  by pat_completeness auto
termination
  by (relation "measure (\<lambda>(x, y). y)") (auto simp: Let_def)

declare icbrt_newton.simps [simp del]

text \<open>\<open>cube_le\<close>: both \<open>checked_mul\<close> calls are in range and the cube is at most \<open>x\<close>.\<close>

definition cube_le :: "nat \<Rightarrow> nat \<Rightarrow> bool" where
  "cube_le x c \<longleftrightarrow> c * c < 2 ^ 128 \<and> c * c * c < 2 ^ 128 \<and> c * c * c \<le> x"

fun icbrt_down :: "nat \<Rightarrow> nat \<Rightarrow> nat" where
  "icbrt_down x 0 = 0"
| "icbrt_down x (Suc y) = (if \<not> cube_le x (Suc y) then icbrt_down x y else Suc y)"

lemma cube_le_bound: "cube_le x c \<Longrightarrow> c \<le> x"
proof (cases c)
  case (Suc n)
  assume le: "cube_le x c"
  have "c \<le> c * c * c" using Suc by simp
  with le show "c \<le> x" unfolding cube_le_def by linarith
qed simp

function icbrt_up :: "nat \<Rightarrow> nat \<Rightarrow> nat" where
  "icbrt_up x y = (if cube_le x (y + 1) then icbrt_up x (y + 1) else y)"
  by pat_completeness auto
termination
  by (relation "measure (\<lambda>(x, y). x - y)") (auto dest: cube_le_bound)

declare icbrt_up.simps [simp del]

definition icbrt_u128 :: "nat \<Rightarrow> nat" where
  "icbrt_u128 x =
     (if x < 8 then (if x > 0 then 1 else 0)
      else let bits = bit_length x;
               y0 = 2 ^ div_ceil bits 3;
               y1 = icbrt_newton x y0
           in icbrt_up x (icbrt_down x y1))"

section \<open>CUBIC\<close>

definition BETA_NUM :: nat where "BETA_NUM = 717"
definition BETA_DEN :: nat where "BETA_DEN = 1024"

record Cubic =
  cu_mss :: nat
  cu_cwnd :: nat
  cu_ssthresh :: nat
  cu_w_max :: nat
  cu_w_last_max :: nat
  cu_origin_point :: nat
  cu_k_ms :: nat
  cu_epoch_start_ms :: nat
  cu_srtt_us :: nat
  cu_min_rtt_us :: nat
  cu_recovery :: RecoveryEpisode
  cu_max_window :: nat
  cu_slow_start_cap :: nat

definition cu_new :: "nat \<Rightarrow> Cubic" where
  "cu_new mss0 =
     (let mss = (if mss0 = 0 then DEFAULT_MSS else mss0)
      in \<lparr>cu_mss = mss, cu_cwnd = initial_window mss, cu_ssthresh = U32_MAX, cu_w_max = 0,
          cu_w_last_max = 0, cu_origin_point = 0, cu_k_ms = 0, cu_epoch_start_ms = 0,
          cu_srtt_us = 0, cu_min_rtt_us = 0, cu_recovery = re_idle,
          cu_max_window = max_u32 DEFAULT_MAX_WINDOW (initial_window mss),
          cu_slow_start_cap = 0\<rparr>)"

definition cu_set_max_window :: "nat \<Rightarrow> Cubic \<Rightarrow> Cubic" where
  "cu_set_max_window mx c = c\<lparr>cu_max_window := max_u32 mx (initial_window (cu_mss c))\<rparr>"

definition cu_set_slow_start_cap :: "nat \<Rightarrow> Cubic \<Rightarrow> Cubic" where
  "cu_set_slow_start_cap cap c = c\<lparr>cu_slow_start_cap := cap\<rparr>"

definition cu_in_slow_start :: "Cubic \<Rightarrow> bool" where
  "cu_in_slow_start c \<longleftrightarrow> cu_cwnd c < cu_ssthresh c"

definition cu_rtt_ms :: "Cubic \<Rightarrow> nat" where
  "cu_rtt_ms c =
     (let us = (if cu_min_rtt_us c \<noteq> 0 then cu_min_rtt_us c else cu_srtt_us c)
      in max_u32 (us div 1000) 1)"

text \<open>Two's-complement wrap-around at 128 bits, and Rust's division, which rounds towards zero.\<close>

definition as_i128 :: "int \<Rightarrow> int" where
  "as_i128 x = (x + 2 ^ 127) mod 2 ^ 128 - 2 ^ 127"

definition trunc_div :: "int \<Rightarrow> int \<Rightarrow> int" where
  "trunc_div a b = sgn a * sgn b * (\<bar>a\<bar> div \<bar>b\<bar>)"

definition w_cubic :: "nat \<Rightarrow> Cubic \<Rightarrow> nat" where
  "w_cubic t_ms c =
     (let dt = int t_ms - int (cu_k_ms c);
          cube = as_i128 (as_i128 (dt * dt) * dt);
          delta = trunc_div (as_i128 (as_i128 (int (cu_mss c) * cube) * 4)) 10000000000;
          w = as_i128 (int (cu_origin_point c) + delta);
          lo = int (minimum_window (cu_mss c));
          hi = int (cu_max_window c)
      in nat (if w < lo then lo else if w > hi then hi else w))"

definition w_est :: "nat \<Rightarrow> nat \<Rightarrow> Cubic \<Rightarrow> nat" where
  "w_est t_ms rtt_ms c =
     (let base = cu_w_max c * BETA_NUM div BETA_DEN;
          grow = as_u64 (as_u64 (921 * t_ms) * cu_mss c) div as_u64 (1741 * rtt_ms)
      in as_u32 (min (sat_add64 base grow) (cu_max_window c)))"

text \<open>The lazily set epoch: \<open>K\<close> and the origin of the curve.\<close>

definition cubic_epoch :: "nat \<Rightarrow> Cubic \<Rightarrow> Cubic" where
  "cubic_epoch now c =
     (if cu_epoch_start_ms c = 0
      then let c1 = c\<lparr>cu_epoch_start_ms := max now 1\<rparr>
           in if cu_cwnd c1 \<ge> cu_w_max c1
              then c1\<lparr>cu_k_ms := 0, cu_origin_point := cu_cwnd c1\<rparr>
              else let num = (cu_w_max c1 - cu_cwnd c1) * 2500000000 div cu_mss c1
                   in c1\<lparr>cu_k_ms := as_u64 (icbrt_u128 num), cu_origin_point := cu_w_max c1\<rparr>
      else c)"

text \<open>The larger of the curve one RTT ahead and the Reno-friendly estimate.\<close>

definition cubic_target :: "nat \<Rightarrow> Cubic \<Rightarrow> nat" where
  "cubic_target now c =
     (let t = now - cu_epoch_start_ms c;
          rtt_ms = cu_rtt_ms c
      in max_u32 (w_cubic (as_u64 (t + rtt_ms)) c) (w_est t rtt_ms c))"

definition cubic_avoid :: "nat \<Rightarrow> nat \<Rightarrow> Cubic \<Rightarrow> Cubic" where
  "cubic_avoid bytes_acked now c0 =
     (let c = cubic_epoch now c0;
          target = cubic_target now c
      in if target > cu_cwnd c
         then let inc0 = as_u32 ((target - cu_cwnd c) * bytes_acked div cu_cwnd c);
                  inc = max_u32 (min_u32 inc0 bytes_acked) 1
              in c\<lparr>cu_cwnd := min_u32 (sat_add32 (cu_cwnd c) inc) target\<rparr>
         else let inc = as_u32 (cu_mss c * bytes_acked div (100 * cu_cwnd c))
              in c\<lparr>cu_cwnd := sat_add32 (cu_cwnd c) inc\<rparr>)"

definition cu_note_rtt :: "Rtt \<Rightarrow> Cubic \<Rightarrow> Cubic" where
  "cu_note_rtt rtt c0 =
     (let c = (if smoothed_us rtt \<noteq> 0 then c0\<lparr>cu_srtt_us := smoothed_us rtt\<rparr> else c0)
      in if min_us rtt \<noteq> 0 then c\<lparr>cu_min_rtt_us := min_us rtt\<rparr> else c)"

definition cu_grow :: "nat \<Rightarrow> nat \<Rightarrow> Cubic \<Rightarrow> Cubic" where
  "cu_grow bytes_acked now c =
     (let c1 =
        (if cu_cwnd c < cu_ssthresh c
         then c\<lparr>cu_cwnd := sat_add32 (cu_cwnd c)
                  (slow_start_inc bytes_acked (cu_ssthresh c - cu_cwnd c) (cu_slow_start_cap c))\<rparr>
         else cubic_avoid bytes_acked now c)
      in c1\<lparr>cu_cwnd := min_u32 (cu_cwnd c1) (cu_max_window c1)\<rparr>)"

definition cu_on_ack :: "nat \<Rightarrow> nat \<Rightarrow> Rtt \<Rightarrow> nat \<Rightarrow> Cubic \<Rightarrow> Cubic" where
  "cu_on_ack bytes_acked in_flight rtt now c0 =
     (let c1 = cu_note_rtt rtt c0
      in if bytes_acked = 0 then c1
         else let (hold, r) = absorb_ack bytes_acked (cu_recovery c1);
                  c2 = c1\<lparr>cu_recovery := r\<rparr>
              in if hold then c2 else cu_grow bytes_acked now c2)"

definition beta_cut :: "nat \<Rightarrow> nat" where
  "beta_cut w = as_u32 (w * BETA_NUM div BETA_DEN)"

definition cu_on_loss :: "nat \<Rightarrow> bool \<Rightarrow> Cubic \<Rightarrow> Cubic" where
  "cu_on_loss bytes_lost persistent c =
     (if persistent
      then let c1 = c\<lparr>cu_ssthresh := max_u32 (beta_cut (cu_cwnd c)) (minimum_window (cu_mss c)),
                      cu_w_max := cu_cwnd c, cu_w_last_max := 0\<rparr>;
               c2 = c1\<lparr>cu_cwnd := minimum_window (cu_mss c1), cu_epoch_start_ms := 0\<rparr>
           in c2\<lparr>cu_recovery := re_begin (cu_cwnd c2) (cu_recovery c2)\<rparr>
      else if active (cu_recovery c) then c
      else let pre = cu_cwnd c;
               c1 = (if pre < cu_w_last_max c
                     then c\<lparr>cu_w_last_max := pre,
                            cu_w_max := as_u32 (pre * (BETA_DEN + BETA_NUM) div (2 * BETA_DEN))\<rparr>
                     else c\<lparr>cu_w_last_max := pre, cu_w_max := pre\<rparr>);
               c2 = c1\<lparr>cu_ssthresh := max_u32 (beta_cut pre) (minimum_window (cu_mss c1))\<rparr>;
               c3 = c2\<lparr>cu_cwnd := cu_ssthresh c2, cu_epoch_start_ms := 0\<rparr>
           in c3\<lparr>cu_recovery := re_begin (max_u32 pre (minimum_window (cu_mss c3))) (cu_recovery c3)\<rparr>)"

definition cu_on_rto :: "Cubic \<Rightarrow> Cubic" where
  "cu_on_rto c = cu_on_loss 0 True c"

definition cu_window :: "Cubic \<Rightarrow> nat" where
  "cu_window c = min_u32 (max_u32 (cu_cwnd c) (minimum_window (cu_mss c))) (cu_max_window c)"

definition cu_pacing_rate :: "Cubic \<Rightarrow> nat" where
  "cu_pacing_rate c =
     (if cu_srtt_us c = 0 then 0
      else let n_num = (if cu_in_slow_start c then 2 else 5);
               n_den = (if cu_in_slow_start c then 1 else 4)
           in sat_mul64 (sat_mul64 (cu_window c) 1000000) n_num div (cu_srtt_us c * n_den))"

section \<open>The runtime-selectable controller\<close>

datatype Algorithm = RenoAlg | CubicAlg

definition DEFAULT_ALGORITHM :: Algorithm where "DEFAULT_ALGORITHM = RenoAlg"

datatype Controller = CReno NewReno | CCubic Cubic

fun ctl_with :: "nat \<Rightarrow> Algorithm \<Rightarrow> Controller" where
  "ctl_with mss RenoAlg = CReno (nr_new mss)"
| "ctl_with mss CubicAlg = CCubic (cu_new mss)"

definition ctl_new :: "nat \<Rightarrow> Controller" where
  "ctl_new mss = ctl_with mss DEFAULT_ALGORITHM"

definition ctl_with_default_mss :: Controller where
  "ctl_with_default_mss = ctl_new DEFAULT_MSS"

fun ctl_algorithm :: "Controller \<Rightarrow> Algorithm" where
  "ctl_algorithm (CReno c) = RenoAlg"
| "ctl_algorithm (CCubic c) = CubicAlg"

fun ctl_set_max_window :: "nat \<Rightarrow> Controller \<Rightarrow> Controller" where
  "ctl_set_max_window mx (CReno c) = CReno (nr_set_max_window mx c)"
| "ctl_set_max_window mx (CCubic c) = CCubic (cu_set_max_window mx c)"

fun ctl_set_slow_start_cap :: "nat \<Rightarrow> Controller \<Rightarrow> Controller" where
  "ctl_set_slow_start_cap cap (CReno c) = CReno (nr_set_slow_start_cap cap c)"
| "ctl_set_slow_start_cap cap (CCubic c) = CCubic (cu_set_slow_start_cap cap c)"

fun ctl_ssthresh :: "Controller \<Rightarrow> nat" where
  "ctl_ssthresh (CReno c) = nr_ssthresh c"
| "ctl_ssthresh (CCubic c) = cu_ssthresh c"

fun ctl_in_slow_start :: "Controller \<Rightarrow> bool" where
  "ctl_in_slow_start (CReno c) = nr_in_slow_start c"
| "ctl_in_slow_start (CCubic c) = cu_in_slow_start c"

fun ctl_on_ack :: "nat \<Rightarrow> nat \<Rightarrow> Rtt \<Rightarrow> nat \<Rightarrow> Controller \<Rightarrow> Controller" where
  "ctl_on_ack acked fl rtt now (CReno c) = CReno (nr_on_ack acked fl rtt now c)"
| "ctl_on_ack acked fl rtt now (CCubic c) = CCubic (cu_on_ack acked fl rtt now c)"

fun ctl_on_loss :: "nat \<Rightarrow> bool \<Rightarrow> Controller \<Rightarrow> Controller" where
  "ctl_on_loss lost p (CReno c) = CReno (nr_on_loss lost p c)"
| "ctl_on_loss lost p (CCubic c) = CCubic (cu_on_loss lost p c)"

fun ctl_on_rto :: "Controller \<Rightarrow> Controller" where
  "ctl_on_rto (CReno c) = CReno (nr_on_rto c)"
| "ctl_on_rto (CCubic c) = CCubic (cu_on_rto c)"

fun ctl_window :: "Controller \<Rightarrow> nat" where
  "ctl_window (CReno c) = nr_window c"
| "ctl_window (CCubic c) = cu_window c"

fun ctl_pacing_rate :: "Controller \<Rightarrow> nat" where
  "ctl_pacing_rate (CReno c) = nr_pacing_rate c"
| "ctl_pacing_rate (CCubic c) = cu_pacing_rate c"

text \<open>The trait's default method, over any implementation's \<open>window\<close>.\<close>

definition can_send :: "('c \<Rightarrow> nat) \<Rightarrow> 'c \<Rightarrow> nat \<Rightarrow> nat \<Rightarrow> bool" where
  "can_send window c in_flight bytes \<longleftrightarrow> sat_add32 in_flight bytes \<le> window c"

section \<open>Facts about the windows and the recovery episode\<close>

named_theorems cc_simps \<open>unfolding rules of the window arithmetic\<close>

lemma min_u32_min [simp]: "min_u32 a b = min a b"
  by (simp add: min_u32_def min_def)

lemma max_u32_max [simp]: "max_u32 a b = max a b"
  by (simp add: max_u32_def max_def)

lemma minimum_window_pos: "0 < m \<Longrightarrow> 0 < minimum_window m"
  by (simp add: minimum_window_def sat_mul32_def)

lemma minimum_window_ge_mss: "m \<le> U32_MAX \<Longrightarrow> m \<le> minimum_window m"
  by (simp add: minimum_window_def width_simps)

lemma initial_window_ge_minimum: "minimum_window m \<le> initial_window m"
  by (auto simp: initial_window_def minimum_window_def width_simps Let_def)

lemma minimum_window_le: "minimum_window m \<le> U32_MAX"
  by (simp add: minimum_window_def sat_mul32_le)

lemma initial_window_le: "initial_window m \<le> U32_MAX"
  by (auto simp: initial_window_def width_simps Let_def)

text \<open>Bytes of fresh acknowledgements an episode still asks for; 0 when there is none.\<close>

definition episode_hold :: "RecoveryEpisode \<Rightarrow> nat" where
  "episode_hold r = (if active r then rem_bytes r else 0)"

definition episode_inv :: "RecoveryEpisode \<Rightarrow> bool" where
  "episode_inv r \<longleftrightarrow> (active r \<longrightarrow> 0 < rem_bytes r)"

lemma episode_begin:
  "episode_hold (re_begin w r) = w"
  "0 < w \<Longrightarrow> episode_inv (re_begin w r)"
  "active (re_begin w r)"
  by (simp_all add: episode_hold_def episode_inv_def re_begin_def)

lemma episode_idle:
  "episode_inv re_idle" "episode_hold re_idle = 0" "\<not> active re_idle"
  by (simp_all add: episode_inv_def episode_hold_def re_idle_def)

lemma episode_absorb [simp]:
  "fst (absorb_ack a r) = active r"
  "episode_hold (snd (absorb_ack a r)) = episode_hold r - a"
  "episode_inv r \<Longrightarrow> episode_inv (snd (absorb_ack a r))"
  by (auto simp: absorb_ack_def episode_hold_def episode_inv_def Let_def)

lemma episode_active_iff: "episode_inv r \<Longrightarrow> active r \<longleftrightarrow> 0 < episode_hold r"
  by (auto simp: episode_inv_def episode_hold_def)

section \<open>The trait as a locale\<close>

datatype cc_event = EvAck nat nat Rtt nat | EvLoss nat bool | EvRto

fun cc_step :: "(nat \<Rightarrow> nat \<Rightarrow> Rtt \<Rightarrow> nat \<Rightarrow> 'c \<Rightarrow> 'c) \<Rightarrow> (nat \<Rightarrow> bool \<Rightarrow> 'c \<Rightarrow> 'c) \<Rightarrow> ('c \<Rightarrow> 'c)
    \<Rightarrow> cc_event \<Rightarrow> 'c \<Rightarrow> 'c" where
  "cc_step on_ack on_loss on_rto (EvAck a f r now) c = on_ack a f r now c"
| "cc_step on_ack on_loss on_rto (EvLoss l p) c = on_loss l p c"
| "cc_step on_ack on_loss on_rto EvRto c = on_rto c"

definition cc_run :: "(nat \<Rightarrow> nat \<Rightarrow> Rtt \<Rightarrow> nat \<Rightarrow> 'c \<Rightarrow> 'c) \<Rightarrow> (nat \<Rightarrow> bool \<Rightarrow> 'c \<Rightarrow> 'c) \<Rightarrow> ('c \<Rightarrow> 'c)
    \<Rightarrow> cc_event list \<Rightarrow> 'c \<Rightarrow> 'c" where
  "cc_run on_ack on_loss on_rto = fold (cc_step on_ack on_loss on_rto)"

text \<open>The acknowledged byte counts are \<open>u32\<close> values.\<close>

fun ev_ok :: "cc_event \<Rightarrow> bool" where
  "ev_ok (EvAck a f r now) = (a \<le> U32_MAX)"
| "ev_ok (EvLoss l p) = True"
| "ev_ok EvRto = True"

text \<open>An event that is not a persistent-congestion signal.\<close>

fun ev_mild :: "cc_event \<Rightarrow> bool" where
  "ev_mild (EvAck a f r now) = (a \<le> U32_MAX)"
| "ev_mild (EvLoss l p) = (\<not> p)"
| "ev_mild EvRto = False"

fun ev_acked :: "cc_event \<Rightarrow> nat" where
  "ev_acked (EvAck a f r now) = a"
| "ev_acked (EvLoss l p) = 0"
| "ev_acked EvRto = 0"

locale congestion_control =
  fixes invar :: "'c \<Rightarrow> bool"
    and on_ack :: "nat \<Rightarrow> nat \<Rightarrow> Rtt \<Rightarrow> nat \<Rightarrow> 'c \<Rightarrow> 'c"
    and on_loss :: "nat \<Rightarrow> bool \<Rightarrow> 'c \<Rightarrow> 'c"
    and on_rto :: "'c \<Rightarrow> 'c"
    and window :: "'c \<Rightarrow> nat"
    and lower :: "'c \<Rightarrow> nat"
    and upper :: "'c \<Rightarrow> nat"
    and hold :: "'c \<Rightarrow> nat"
  assumes invar_ack: "invar c \<Longrightarrow> a \<le> U32_MAX \<Longrightarrow> invar (on_ack a f r now c)"
    and invar_loss: "invar c \<Longrightarrow> invar (on_loss l p c)"
    and rto_is_loss: "on_rto c = on_loss 0 True c"
    and bounds: "invar c \<Longrightarrow> lower c \<le> window c \<and> window c \<le> upper c"
    and lower_ack: "lower (on_ack a f r now c) = lower c"
    and upper_ack: "upper (on_ack a f r now c) = upper c"
    and lower_loss: "lower (on_loss l p c) = lower c"
    and upper_loss: "upper (on_loss l p c) = upper c"
    and growth: "invar c \<Longrightarrow> a \<le> U32_MAX \<Longrightarrow> window (on_ack a f r now c) \<le> window c + a"
    and ack_hold: "invar c \<Longrightarrow> 0 < hold c \<Longrightarrow>
      window (on_ack a f r now c) = window c \<and> hold (on_ack a f r now c) = hold c - a"
    and loss_hold: "invar c \<Longrightarrow> 0 < hold c \<Longrightarrow> on_loss l False c = c"
    and loss_shrinks: "invar c \<Longrightarrow> window (on_loss l p c) \<le> window c"
    and loss_begins: "invar c \<Longrightarrow> hold c = 0 \<Longrightarrow> window c \<le> hold (on_loss l False c)"
begin

abbreviation run where
  "run \<equiv> cc_run on_ack on_loss on_rto"

abbreviation step where
  "step \<equiv> cc_step on_ack on_loss on_rto"

lemma run_simps [simp]:
  "run [] c = c" "run (e # es) c = run es (step e c)"
  by (simp_all add: cc_run_def)

lemma step_invar: "invar c \<Longrightarrow> ev_ok e \<Longrightarrow> invar (step e c)"
  by (cases e) (auto intro: invar_ack invar_loss simp: rto_is_loss)

lemma step_frame: "lower (step e c) = lower c" "upper (step e c) = upper c"
  by (cases e; simp add: lower_ack upper_ack lower_loss upper_loss rto_is_loss)+

lemma step_growth: "invar c \<Longrightarrow> ev_ok e \<Longrightarrow> window (step e c) \<le> window c + ev_acked e"
  by (cases e) (auto simp: rto_is_loss intro: growth loss_shrinks le_trans)

lemma run_invar: "invar c \<Longrightarrow> list_all ev_ok es \<Longrightarrow> invar (run es c)"
  by (induction es arbitrary: c) (auto intro: step_invar)

lemma run_frame: "lower (run es c) = lower c \<and> upper (run es c) = upper c"
  by (induction es arbitrary: c) (simp_all add: step_frame)

lemma run_bounds:
  assumes "invar c" "list_all ev_ok es"
  shows "lower c \<le> window (run es c) \<and> window (run es c) \<le> upper c"
  using bounds [OF run_invar [OF assms]] run_frame [of es c] by simp

lemma run_growth:
  "invar c \<Longrightarrow> list_all ev_ok es \<Longrightarrow> window (run es c) \<le> window c + sum_list (map ev_acked es)"
proof (induction es arbitrary: c)
  case (Cons e es)
  then have "window (run es (step e c)) \<le> window (step e c) + sum_list (map ev_acked es)"
    by (simp add: step_invar)
  with step_growth [of c e] Cons.prems show ?case by simp
qed simp

text \<open>While the episode holds, losses and acknowledgements leave the window alone.\<close>

lemma run_hold:
  "invar c \<Longrightarrow> list_all ev_mild es \<Longrightarrow> sum_list (map ev_acked es) < hold c \<Longrightarrow>
    window (run es c) = window c"
proof (induction es arbitrary: c)
  case (Cons e es)
  show ?case
  proof (cases e)
    case (EvAck a f r now)
    with Cons.prems have pos: "0 < hold c" and a: "a \<le> U32_MAX" by auto
    have "window (run es (on_ack a f r now c)) = window (on_ack a f r now c)"
      using Cons.prems EvAck ack_hold [OF Cons.prems(1) pos, of a f r now] a
      by (intro Cons.IH) (auto intro: invar_ack)
    with ack_hold [OF Cons.prems(1) pos, of a f r now] EvAck show ?thesis by simp
  next
    case (EvLoss l p)
    with Cons.prems show ?thesis
      by (simp add: Cons.IH loss_hold)
  next
    case EvRto
    with Cons.prems show ?thesis by simp
  qed
qed simp

lemma cluster_reduces_once:
  assumes "invar c" "hold c = 0" "list_all ev_mild es" "sum_list (map ev_acked es) < window c"
  shows "window (run (EvLoss l False # es) c) = window (on_loss l False c)"
proof -
  have "sum_list (map ev_acked es) < hold (on_loss l False c)"
    using loss_begins [OF assms(1,2), of l] assms(4) by simp
  with run_hold [OF invar_loss [OF assms(1)] assms(3)] show ?thesis by simp
qed

end

section \<open>NewReno implements the trait\<close>

definition nr_inv :: "NewReno \<Rightarrow> bool" where
  "nr_inv c \<longleftrightarrow> 0 < nr_mss c \<and> nr_mss c \<le> U32_MAX \<and> minimum_window (nr_mss c) \<le> nr_cwnd c
     \<and> nr_cwnd c \<le> U32_MAX \<and> initial_window (nr_mss c) \<le> nr_max_window c
     \<and> episode_inv (nr_recovery c)"

definition nr_hold :: "NewReno \<Rightarrow> nat" where
  "nr_hold c = episode_hold (nr_recovery c)"

lemma share_le: "m \<le> w \<Longrightarrow> m * (a::nat) div w \<le> a"
proof (cases "w = 0")
  case False
  assume "m \<le> w"
  then have "m * a div w \<le> w * a div w" by (intro div_le_mono mult_le_mono1)
  with False show ?thesis by simp
qed simp

lemma as_u32_le: "as_u32 n \<le> n"
  by (simp add: as_u32_def)

lemma nr_note_rtt_frame [simp]:
  "nr_mss (nr_note_rtt r c) = nr_mss c" "nr_cwnd (nr_note_rtt r c) = nr_cwnd c"
  "nr_max_window (nr_note_rtt r c) = nr_max_window c" "nr_recovery (nr_note_rtt r c) = nr_recovery c"
  by (simp_all add: nr_note_rtt_def Let_def)

lemma nr_grow_frame [simp]:
  "nr_mss (nr_grow a c) = nr_mss c" "nr_max_window (nr_grow a c) = nr_max_window c"
  "nr_recovery (nr_grow a c) = nr_recovery c"
  by (simp_all add: nr_grow_def Let_def)

lemma nr_ack_frame:
  "nr_mss (nr_on_ack a f r now c) = nr_mss c"
  "nr_max_window (nr_on_ack a f r now c) = nr_max_window c"
  by (simp_all add: nr_on_ack_def Let_def split: prod.split)

lemma nr_ack_recovery: "nr_recovery (nr_on_ack a f r now c)
    = (if a = 0 then nr_recovery c else snd (absorb_ack a (nr_recovery c)))"
  by (simp add: nr_on_ack_def Let_def split: prod.split)

lemma nr_ack_cwnd_eq: "nr_cwnd (nr_on_ack a f r now c) =
    (if a = 0 \<or> active (nr_recovery c) then nr_cwnd c
     else nr_cwnd (nr_grow a ((nr_note_rtt r c)\<lparr>nr_recovery := snd (absorb_ack a (nr_recovery c))\<rparr>)))"
  by (simp add: nr_on_ack_def Let_def case_prod_beta)

lemma slow_start_inc_le: "slow_start_inc a room cap \<le> a"
  by (simp add: slow_start_inc_def Let_def min.coboundedI1)

lemma nr_grow_step:
  assumes "nr_mss c \<le> nr_cwnd c" "0 < a"
  shows "\<exists>i\<le>a. nr_cwnd (nr_grow a c) = min (sat_add32 (nr_cwnd c) i) (nr_max_window c)"
proof (cases "nr_in_slow_start c")
  case True
  then show ?thesis by (auto simp: nr_grow_def Let_def intro!: exI slow_start_inc_le)
next
  case False
  have "max (as_u32 (nr_mss c * a div nr_cwnd c)) 1 \<le> a"
    using le_trans [OF as_u32_le share_le [OF assms(1)]] assms(2) by simp
  then show ?thesis using False
    by (intro exI [of _ "max (as_u32 (nr_mss c * a div nr_cwnd c)) 1"]) (simp add: nr_grow_def Let_def)
qed

lemma nr_ack_step:
  assumes "nr_mss c \<le> nr_cwnd c"
  shows "\<exists>i\<le>a. nr_cwnd (nr_on_ack a f r now c) \<in>
    {nr_cwnd c, min (sat_add32 (nr_cwnd c) i) (nr_max_window c)}"
proof (cases "a = 0 \<or> active (nr_recovery c)")
  case False
  then show ?thesis unfolding nr_ack_cwnd_eq
    using nr_grow_step [of "(nr_note_rtt r c)\<lparr>nr_recovery := snd (absorb_ack a (nr_recovery c))\<rparr>" a]
      assms by auto
qed (auto simp: nr_ack_cwnd_eq)

text \<open>What one acknowledgement may do to a window: it stays, or grows by at most the bytes
  acknowledged, saturated and clipped at the maximum.\<close>

lemma step_window:
  assumes "i \<le> a" "w' \<in> {w, min (sat_add32 w i) m}" "w \<le> U32_MAX"
  shows "min w m \<le> w'" "w' \<le> w + a" "w' \<le> U32_MAX"
  using assms by (auto simp: sat_add32_def U32_MAX_def)

lemma nr_ack_cwnd:
  assumes inv: "nr_inv c"
  shows "min (nr_cwnd c) (nr_max_window c) \<le> nr_cwnd (nr_on_ack a f r now c)"
    and "nr_cwnd (nr_on_ack a f r now c) \<le> nr_cwnd c + a"
    and "nr_cwnd (nr_on_ack a f r now c) \<le> U32_MAX"
proof -
  have cw: "nr_mss c \<le> nr_cwnd c" "nr_cwnd c \<le> U32_MAX"
    using inv minimum_window_ge_mss [of "nr_mss c"] by (auto simp: nr_inv_def)
  obtain i where "i \<le> a" "nr_cwnd (nr_on_ack a f r now c) \<in>
      {nr_cwnd c, min (sat_add32 (nr_cwnd c) i) (nr_max_window c)}"
    using nr_ack_step [OF cw(1)] by blast
  from step_window [OF this cw(2)]
  show "min (nr_cwnd c) (nr_max_window c) \<le> nr_cwnd (nr_on_ack a f r now c)"
    "nr_cwnd (nr_on_ack a f r now c) \<le> nr_cwnd c + a"
    "nr_cwnd (nr_on_ack a f r now c) \<le> U32_MAX" .
qed

lemma nr_inv_ack: "nr_inv c \<Longrightarrow> a \<le> U32_MAX \<Longrightarrow> nr_inv (nr_on_ack a f r now c)"
  using nr_ack_cwnd [of c a f r now] initial_window_ge_minimum [of "nr_mss c"]
  by (auto simp: nr_inv_def nr_ack_frame nr_ack_recovery)

lemma nr_loss_simps:
  "nr_mss (nr_on_loss l p c) = nr_mss c"
  "nr_max_window (nr_on_loss l p c) = nr_max_window c"
  "nr_cwnd (nr_on_loss l p c) =
     (if p then minimum_window (nr_mss c)
      else if active (nr_recovery c) then nr_cwnd c
      else max (nr_cwnd c div 2) (minimum_window (nr_mss c)))"
  "nr_recovery (nr_on_loss l p c) =
     (if p then re_begin (minimum_window (nr_mss c)) (nr_recovery c)
      else if active (nr_recovery c) then nr_recovery c
      else re_begin (max (nr_cwnd c) (minimum_window (nr_mss c))) (nr_recovery c))"
  by (simp_all add: nr_on_loss_def enter_recovery_def Let_def)

lemma nr_inv_loss: "nr_inv c \<Longrightarrow> nr_inv (nr_on_loss l p c)"
  using minimum_window_pos [of "nr_mss c"] minimum_window_le [of "nr_mss c"]
  by (auto simp: nr_inv_def nr_loss_simps max_def intro!: episode_begin(2))

lemma nr_inv_new: "mss \<le> U32_MAX \<Longrightarrow> nr_inv (nr_new mss)"
  by (auto simp: nr_inv_def nr_new_def Let_def DEFAULT_MSS_def U32_MAX_def episode_idle
      initial_window_ge_minimum initial_window_le [unfolded U32_MAX_def])

lemma nr_inv_setters:
  "nr_inv c \<Longrightarrow> nr_inv (nr_set_max_window mx c)"
  "nr_inv c \<Longrightarrow> nr_inv (nr_set_slow_start_cap cap c)"
  by (simp_all add: nr_inv_def nr_set_max_window_def nr_set_slow_start_cap_def)

lemma nr_window_bounds: "nr_inv c \<Longrightarrow> minimum_window (nr_mss c) \<le> nr_window c \<and> nr_window c \<le> nr_max_window c"
  using initial_window_ge_minimum [of "nr_mss c"] by (auto simp: nr_inv_def nr_window_def)

lemma nr_growth:
  "nr_inv c \<Longrightarrow> a \<le> U32_MAX \<Longrightarrow> nr_window (nr_on_ack a f r now c) \<le> nr_window c + a"
  using nr_ack_cwnd(2) [of c a f r now] by (auto simp: nr_window_def nr_ack_frame nr_inv_def)

lemma nr_hold_active: "0 < nr_hold c \<Longrightarrow> active (nr_recovery c)"
  by (auto simp: nr_hold_def episode_hold_def split: if_splits)

lemma nr_ack_hold:
  assumes "0 < nr_hold c"
  shows "nr_window (nr_on_ack a f r now c) = nr_window c \<and> nr_hold (nr_on_ack a f r now c) = nr_hold c - a"
proof -
  have "nr_cwnd (nr_on_ack a f r now c) = nr_cwnd c"
    using nr_hold_active [OF assms] by (simp add: nr_ack_cwnd_eq)
  then show ?thesis by (auto simp: nr_window_def nr_ack_frame nr_hold_def nr_ack_recovery)
qed

lemma nr_loss_hold: "0 < nr_hold c \<Longrightarrow> nr_on_loss l False c = c"
  using nr_hold_active [of c] by (simp add: nr_on_loss_def)

lemma nr_loss_shrinks: "nr_inv c \<Longrightarrow> nr_window (nr_on_loss l p c) \<le> nr_window c"
   by (auto simp: nr_window_def nr_loss_simps nr_inv_def)

lemma nr_loss_begins:
  assumes "nr_inv c" "nr_hold c = 0"
  shows "nr_window c \<le> nr_hold (nr_on_loss l False c)"
proof -
  have "\<not> active (nr_recovery c)"
    using assms by (simp add: nr_inv_def nr_hold_def episode_active_iff)
  then show ?thesis by (simp add: nr_hold_def nr_loss_simps episode_begin nr_window_def)
qed

interpretation reno: congestion_control nr_inv nr_on_ack nr_on_loss nr_on_rto nr_window
  "\<lambda>c. minimum_window (nr_mss c)" nr_max_window nr_hold
  by unfold_locales
    (simp_all add: nr_inv_ack nr_inv_loss nr_on_rto_def nr_window_bounds nr_ack_frame nr_loss_simps
      nr_growth nr_ack_hold nr_loss_hold nr_loss_shrinks nr_loss_begins)

section \<open>CUBIC implements the trait\<close>

definition cu_inv :: "Cubic \<Rightarrow> bool" where
  "cu_inv c \<longleftrightarrow> 0 < cu_mss c \<and> cu_mss c \<le> U32_MAX \<and> minimum_window (cu_mss c) \<le> cu_cwnd c
     \<and> cu_cwnd c \<le> U32_MAX \<and> initial_window (cu_mss c) \<le> cu_max_window c
     \<and> episode_inv (cu_recovery c)"

definition cu_hold :: "Cubic \<Rightarrow> nat" where
  "cu_hold c = episode_hold (cu_recovery c)"

lemma cubic_epoch_frame [simp]:
  "cu_mss (cubic_epoch now c) = cu_mss c"
  "cu_cwnd (cubic_epoch now c) = cu_cwnd c"
  "cu_max_window (cubic_epoch now c) = cu_max_window c"
  "cu_recovery (cubic_epoch now c) = cu_recovery c"
  by (simp_all add: cubic_epoch_def Let_def)

lemma cubic_avoid_frame [simp]:
  "cu_mss (cubic_avoid a now c) = cu_mss c"
  "cu_max_window (cubic_avoid a now c) = cu_max_window c"
  "cu_recovery (cubic_avoid a now c) = cu_recovery c"
  by (simp_all add: cubic_avoid_def Let_def)

text \<open>In congestion avoidance the window moves up by at least nothing and at most the bytes
  acknowledged, whatever the curve's target is.\<close>

lemma cubic_avoid_step:
  assumes "cu_mss c \<le> cu_cwnd c" "0 < a"
  shows "\<exists>i\<le>a. cu_cwnd (cubic_avoid a now c) = sat_add32 (cu_cwnd c) i"
proof (cases "cubic_target now (cubic_epoch now c) > cu_cwnd c")
  case True
  define t where "t = cubic_target now (cubic_epoch now c)"
  define i where "i = max (min (as_u32 ((t - cu_cwnd c) * a div cu_cwnd c)) a) 1"
  have i: "i \<le> a" using assms(2) by (simp add: i_def)
  have "cu_cwnd (cubic_avoid a now c) = min (sat_add32 (cu_cwnd c) i) t"
    using True by (simp add: cubic_avoid_def Let_def t_def i_def)
  moreover have "min (sat_add32 (cu_cwnd c) i) t = sat_add32 (cu_cwnd c) (min i (t - cu_cwnd c))"
    using True by (auto simp: sat_add32_def t_def)
  ultimately show ?thesis using i by (metis min.coboundedI1)
next
  case False
  have "as_u32 (cu_mss c * a div (100 * cu_cwnd c)) \<le> a"
    by (rule le_trans [OF as_u32_le share_le]) (use assms(1) in simp)
  then show ?thesis using False by (auto simp: cubic_avoid_def Let_def)
qed

lemma cu_note_rtt_frame [simp]:
  "cu_mss (cu_note_rtt r c) = cu_mss c" "cu_cwnd (cu_note_rtt r c) = cu_cwnd c"
  "cu_max_window (cu_note_rtt r c) = cu_max_window c" "cu_recovery (cu_note_rtt r c) = cu_recovery c"
  by (simp_all add: cu_note_rtt_def Let_def)

lemma cu_grow_frame [simp]:
  "cu_mss (cu_grow a now c) = cu_mss c" "cu_max_window (cu_grow a now c) = cu_max_window c"
  "cu_recovery (cu_grow a now c) = cu_recovery c"
  by (simp_all add: cu_grow_def Let_def)

lemma cu_ack_frame:
  "cu_mss (cu_on_ack a f r now c) = cu_mss c"
  "cu_max_window (cu_on_ack a f r now c) = cu_max_window c"
  by (simp_all add: cu_on_ack_def Let_def split: prod.split)

lemma cu_ack_recovery: "cu_recovery (cu_on_ack a f r now c)
    = (if a = 0 then cu_recovery c else snd (absorb_ack a (cu_recovery c)))"
  by (simp add: cu_on_ack_def Let_def split: prod.split)

lemma cu_ack_cwnd_eq: "cu_cwnd (cu_on_ack a f r now c) =
    (if a = 0 \<or> active (cu_recovery c) then cu_cwnd c
     else cu_cwnd (cu_grow a now ((cu_note_rtt r c)\<lparr>cu_recovery := snd (absorb_ack a (cu_recovery c))\<rparr>)))"
  by (simp add: cu_on_ack_def Let_def case_prod_beta)

lemma cu_grow_step:
  assumes "cu_mss c \<le> cu_cwnd c" "0 < a"
  shows "\<exists>i\<le>a. cu_cwnd (cu_grow a now c) = min (sat_add32 (cu_cwnd c) i) (cu_max_window c)"
proof (cases "cu_cwnd c < cu_ssthresh c")
  case True
  then show ?thesis by (auto simp: cu_grow_def Let_def intro!: exI slow_start_inc_le)
next
  case False
  with cubic_avoid_step [OF assms, of now] show ?thesis
    by (auto simp: cu_grow_def Let_def)
qed

lemma cu_ack_step:
  assumes "cu_mss c \<le> cu_cwnd c"
  shows "\<exists>i\<le>a. cu_cwnd (cu_on_ack a f r now c) \<in>
    {cu_cwnd c, min (sat_add32 (cu_cwnd c) i) (cu_max_window c)}"
proof (cases "a = 0 \<or> active (cu_recovery c)")
  case False
  then show ?thesis unfolding cu_ack_cwnd_eq
    using cu_grow_step [of "(cu_note_rtt r c)\<lparr>cu_recovery := snd (absorb_ack a (cu_recovery c))\<rparr>" a now]
      assms by auto
qed (auto simp: cu_ack_cwnd_eq)

lemma cu_ack_cwnd:
  assumes inv: "cu_inv c"
  shows "min (cu_cwnd c) (cu_max_window c) \<le> cu_cwnd (cu_on_ack a f r now c)"
    and "cu_cwnd (cu_on_ack a f r now c) \<le> cu_cwnd c + a"
    and "cu_cwnd (cu_on_ack a f r now c) \<le> U32_MAX"
proof -
  have cw: "cu_mss c \<le> cu_cwnd c" "cu_cwnd c \<le> U32_MAX"
    using inv minimum_window_ge_mss [of "cu_mss c"] by (auto simp: cu_inv_def)
  obtain i where "i \<le> a" "cu_cwnd (cu_on_ack a f r now c) \<in>
      {cu_cwnd c, min (sat_add32 (cu_cwnd c) i) (cu_max_window c)}"
    using cu_ack_step [OF cw(1)] by blast
  from step_window [OF this cw(2)]
  show "min (cu_cwnd c) (cu_max_window c) \<le> cu_cwnd (cu_on_ack a f r now c)"
    "cu_cwnd (cu_on_ack a f r now c) \<le> cu_cwnd c + a"
    "cu_cwnd (cu_on_ack a f r now c) \<le> U32_MAX" .
qed

lemma cu_inv_ack: "cu_inv c \<Longrightarrow> cu_inv (cu_on_ack a f r now c)"
  using cu_ack_cwnd [of c a f r now] initial_window_ge_minimum [of "cu_mss c"]
  by (auto simp: cu_inv_def cu_ack_frame cu_ack_recovery)

lemma beta_cut_le: "beta_cut w \<le> w"
  using share_le [of BETA_NUM BETA_DEN w] as_u32_le [of "w * BETA_NUM div BETA_DEN"]
  by (simp add: beta_cut_def mult.commute BETA_NUM_def BETA_DEN_def)

lemma cu_loss_simps:
  "cu_mss (cu_on_loss l p c) = cu_mss c"
  "cu_max_window (cu_on_loss l p c) = cu_max_window c"
  "cu_cwnd (cu_on_loss l p c) =
     (if p then minimum_window (cu_mss c)
      else if active (cu_recovery c) then cu_cwnd c
      else max (beta_cut (cu_cwnd c)) (minimum_window (cu_mss c)))"
  "cu_recovery (cu_on_loss l p c) =
     (if p then re_begin (minimum_window (cu_mss c)) (cu_recovery c)
      else if active (cu_recovery c) then cu_recovery c
      else re_begin (max (cu_cwnd c) (minimum_window (cu_mss c))) (cu_recovery c))"
  by (simp_all add: cu_on_loss_def Let_def)

lemma cu_inv_loss: "cu_inv c \<Longrightarrow> cu_inv (cu_on_loss l p c)"
  using minimum_window_pos [of "cu_mss c"] minimum_window_le [of "cu_mss c"]
    beta_cut_le [of "cu_cwnd c"]
  by (auto simp: cu_inv_def cu_loss_simps max_def intro!: episode_begin(2))

lemma cu_inv_new: "mss \<le> U32_MAX \<Longrightarrow> cu_inv (cu_new mss)"
  by (auto simp: cu_inv_def cu_new_def Let_def DEFAULT_MSS_def U32_MAX_def episode_idle
      initial_window_ge_minimum initial_window_le [unfolded U32_MAX_def])

lemma cu_inv_setters:
  "cu_inv c \<Longrightarrow> cu_inv (cu_set_max_window mx c)"
  "cu_inv c \<Longrightarrow> cu_inv (cu_set_slow_start_cap cap c)"
  by (simp_all add: cu_inv_def cu_set_max_window_def cu_set_slow_start_cap_def)

lemma cu_window_bounds: "cu_inv c \<Longrightarrow> minimum_window (cu_mss c) \<le> cu_window c \<and> cu_window c \<le> cu_max_window c"
  using initial_window_ge_minimum [of "cu_mss c"] by (auto simp: cu_inv_def cu_window_def)

lemma cu_growth:
  "cu_inv c \<Longrightarrow> a \<le> U32_MAX \<Longrightarrow> cu_window (cu_on_ack a f r now c) \<le> cu_window c + a"
  using cu_ack_cwnd(2) [of c a f r now] by (auto simp: cu_window_def cu_ack_frame cu_inv_def)

lemma cu_hold_active: "0 < cu_hold c \<Longrightarrow> active (cu_recovery c)"
  by (auto simp: cu_hold_def episode_hold_def split: if_splits)

lemma cu_ack_hold:
  assumes "0 < cu_hold c"
  shows "cu_window (cu_on_ack a f r now c) = cu_window c \<and> cu_hold (cu_on_ack a f r now c) = cu_hold c - a"
proof -
  have "cu_cwnd (cu_on_ack a f r now c) = cu_cwnd c"
    using cu_hold_active [OF assms] by (simp add: cu_ack_cwnd_eq)
  then show ?thesis by (auto simp: cu_window_def cu_ack_frame cu_hold_def cu_ack_recovery)
qed

lemma cu_loss_hold: "0 < cu_hold c \<Longrightarrow> cu_on_loss l False c = c"
  using cu_hold_active [of c] by (simp add: cu_on_loss_def)

lemma cu_loss_shrinks: "cu_inv c \<Longrightarrow> cu_window (cu_on_loss l p c) \<le> cu_window c"
  using beta_cut_le [of "cu_cwnd c"] by (auto simp: cu_window_def cu_loss_simps cu_inv_def)

lemma cu_loss_begins:
  assumes "cu_inv c" "cu_hold c = 0"
  shows "cu_window c \<le> cu_hold (cu_on_loss l False c)"
proof -
  have "\<not> active (cu_recovery c)"
    using assms by (simp add: cu_inv_def cu_hold_def episode_active_iff)
  then show ?thesis by (simp add: cu_hold_def cu_loss_simps episode_begin cu_window_def)
qed

interpretation cubic: congestion_control cu_inv cu_on_ack cu_on_loss cu_on_rto cu_window
  "\<lambda>c. minimum_window (cu_mss c)" cu_max_window cu_hold
  by unfold_locales
    (simp_all add: cu_inv_ack cu_inv_loss cu_on_rto_def cu_window_bounds cu_ack_frame cu_loss_simps
      cu_growth cu_ack_hold cu_loss_hold cu_loss_shrinks cu_loss_begins)

section \<open>The controller implements the trait\<close>

fun ctl_inv :: "Controller \<Rightarrow> bool" where
  "ctl_inv (CReno c) = nr_inv c"
| "ctl_inv (CCubic c) = cu_inv c"

fun ctl_mss :: "Controller \<Rightarrow> nat" where
  "ctl_mss (CReno c) = nr_mss c"
| "ctl_mss (CCubic c) = cu_mss c"

fun ctl_max_window :: "Controller \<Rightarrow> nat" where
  "ctl_max_window (CReno c) = nr_max_window c"
| "ctl_max_window (CCubic c) = cu_max_window c"

fun ctl_hold :: "Controller \<Rightarrow> nat" where
  "ctl_hold (CReno c) = nr_hold c"
| "ctl_hold (CCubic c) = cu_hold c"

lemma ctl_inv_with: "mss \<le> U32_MAX \<Longrightarrow> ctl_inv (ctl_with mss alg)"
  by (cases alg) (simp_all add: nr_inv_new cu_inv_new)

lemma ctl_inv_setters:
  "ctl_inv c \<Longrightarrow> ctl_inv (ctl_set_max_window mx c)"
  "ctl_inv c \<Longrightarrow> ctl_inv (ctl_set_slow_start_cap cap c)"
  by (cases c; simp add: nr_inv_setters cu_inv_setters)+

interpretation controller: congestion_control ctl_inv ctl_on_ack ctl_on_loss ctl_on_rto ctl_window
  "\<lambda>c. minimum_window (ctl_mss c)" ctl_max_window ctl_hold
proof
  fix c and a f r now l p
  show "ctl_inv c \<Longrightarrow> a \<le> U32_MAX \<Longrightarrow> ctl_inv (ctl_on_ack a f r now c)"
    by (cases c) (simp_all add: nr_inv_ack cu_inv_ack)
  show "ctl_inv c \<Longrightarrow> ctl_inv (ctl_on_loss l p c)"
    by (cases c) (simp_all add: nr_inv_loss cu_inv_loss)
  show "ctl_on_rto c = ctl_on_loss 0 True c"
    by (cases c) (simp_all add: nr_on_rto_def cu_on_rto_def)
  show "ctl_inv c \<Longrightarrow> minimum_window (ctl_mss c) \<le> ctl_window c \<and> ctl_window c \<le> ctl_max_window c"
    by (cases c) (simp_all add: nr_window_bounds cu_window_bounds)
  show "minimum_window (ctl_mss (ctl_on_ack a f r now c)) = minimum_window (ctl_mss c)"
    "ctl_max_window (ctl_on_ack a f r now c) = ctl_max_window c"
    by (cases c; simp add: nr_ack_frame cu_ack_frame)+
  show "minimum_window (ctl_mss (ctl_on_loss l p c)) = minimum_window (ctl_mss c)"
    "ctl_max_window (ctl_on_loss l p c) = ctl_max_window c"
    by (cases c; simp add: nr_loss_simps cu_loss_simps)+
  show "ctl_inv c \<Longrightarrow> a \<le> U32_MAX \<Longrightarrow> ctl_window (ctl_on_ack a f r now c) \<le> ctl_window c + a"
    by (cases c) (simp_all add: nr_growth cu_growth)
  show "0 < ctl_hold c \<Longrightarrow> ctl_window (ctl_on_ack a f r now c) = ctl_window c
      \<and> ctl_hold (ctl_on_ack a f r now c) = ctl_hold c - a"
    by (cases c) (simp_all add: nr_ack_hold cu_ack_hold)
  show "0 < ctl_hold c \<Longrightarrow> ctl_on_loss l False c = c"
    by (cases c) (simp_all add: nr_loss_hold cu_loss_hold)
  show "ctl_inv c \<Longrightarrow> ctl_window (ctl_on_loss l p c) \<le> ctl_window c"
    by (cases c) (simp_all add: nr_loss_shrinks cu_loss_shrinks)
  show "ctl_inv c \<Longrightarrow> ctl_hold c = 0 \<Longrightarrow> ctl_window c \<le> ctl_hold (ctl_on_loss l False c)"
    by (cases c) (simp_all add: nr_loss_begins cu_loss_begins)
qed

abbreviation ctl_run :: "cc_event list \<Rightarrow> Controller \<Rightarrow> Controller" where
  "ctl_run \<equiv> cc_run ctl_on_ack ctl_on_loss ctl_on_rto"

section \<open>The cube root is exact\<close>

lemma cube_le_iff: "x < 2 ^ 128 \<Longrightarrow> cube_le x c \<longleftrightarrow> c ^ 3 \<le> x"
proof -
  assume x: "x < 2 ^ 128"
  have "c * c \<le> c * c * c" by (cases c) simp_all
  then have "c * c * c \<le> x \<Longrightarrow> c * c < 2 ^ 128 \<and> c * c * c < 2 ^ 128"
    using x by linarith
  then show ?thesis by (auto simp: cube_le_def power3_eq_cube)
qed

lemma icbrt_down_cube: "cube_le x (icbrt_down x y)"
proof (induction x y rule: icbrt_down.induct)
  case (1 x)
  then show ?case by (simp add: cube_le_def)
qed simp

lemma icbrt_up_cube:
  "cube_le x y \<Longrightarrow> cube_le x (icbrt_up x y) \<and> \<not> cube_le x (icbrt_up x y + 1)"
proof (induction x y rule: icbrt_up.induct)
  case (1 x y)
  then show ?case
    by (cases "cube_le x (y + 1)") (simp_all add: icbrt_up.simps [of x y])
qed

lemma icbrt_u128_cube: "cube_le x (icbrt_u128 x) \<and> \<not> cube_le x (icbrt_u128 x + 1)"
proof (cases "x < 8")
  case True
  then show ?thesis by (auto simp: icbrt_u128_def cube_le_def)
next
  case False
  then show ?thesis
    by (simp add: icbrt_u128_def Let_def icbrt_up_cube [OF icbrt_down_cube, simplified])
qed

section \<open>Properties\<close>

lemma ctl_with_fields:
  assumes "0 < mss"
  shows "ctl_mss (ctl_with mss alg) = mss"
    and "ctl_max_window (ctl_with mss alg) = max DEFAULT_MAX_WINDOW (initial_window mss)"
  using assms by (cases alg; simp add: nr_new_def cu_new_def Let_def)+

text \<open>The window variable itself, before the clamp of the accessor.\<close>

fun ctl_cwnd :: "Controller \<Rightarrow> nat" where
  "ctl_cwnd (CReno c) = nr_cwnd c"
| "ctl_cwnd (CCubic c) = cu_cwnd c"

lemma nr_capped:
  assumes "nr_inv c" "nr_cwnd c \<le> nr_max_window c"
  shows "nr_cwnd (nr_on_ack a f r now c) \<le> nr_max_window c" "nr_cwnd (nr_on_loss l p c) \<le> nr_max_window c"
proof -
  have "nr_mss c \<le> nr_cwnd c" using assms(1) minimum_window_ge_mss [of "nr_mss c"] by (auto simp: nr_inv_def)
  from nr_ack_step [OF this, of a f r now] show "nr_cwnd (nr_on_ack a f r now c) \<le> nr_max_window c" using assms(2) by auto
  show "nr_cwnd (nr_on_loss l p c) \<le> nr_max_window c"
    using assms initial_window_ge_minimum [of "nr_mss c"] by (auto simp: nr_inv_def nr_loss_simps)
qed

lemma cu_capped:
  assumes "cu_inv c" "cu_cwnd c \<le> cu_max_window c"
  shows "cu_cwnd (cu_on_ack a f r now c) \<le> cu_max_window c" "cu_cwnd (cu_on_loss l p c) \<le> cu_max_window c"
proof -
  have "cu_mss c \<le> cu_cwnd c" using assms(1) minimum_window_ge_mss [of "cu_mss c"] by (auto simp: cu_inv_def)
  from cu_ack_step [OF this, of a f r now] show "cu_cwnd (cu_on_ack a f r now c) \<le> cu_max_window c" using assms(2) by auto
  show "cu_cwnd (cu_on_loss l p c) \<le> cu_max_window c"
    using assms initial_window_ge_minimum [of "cu_mss c"] beta_cut_le [of "cu_cwnd c"] by (auto simp: cu_inv_def cu_loss_simps)
qed

lemma ctl_capped_step:
  assumes "ctl_inv c" "ctl_cwnd c \<le> ctl_max_window c"
  shows "ctl_cwnd (controller.step e c) \<le> ctl_max_window c"
  using assms nr_capped cu_capped by (cases e; cases c) (auto simp: nr_on_rto_def cu_on_rto_def)

lemma ctl_capped_run:
  "ctl_inv c \<Longrightarrow> ctl_cwnd c \<le> ctl_max_window c \<Longrightarrow> list_all ev_ok es \<Longrightarrow> ctl_cwnd (ctl_run es c) \<le> ctl_max_window c"
proof (induction es arbitrary: c)
  case (Cons e es)
  have "ctl_max_window (controller.step e c) = ctl_max_window c" by (rule controller.step_frame(2))
  then show ?case
    using Cons.IH [of "controller.step e c"] Cons.prems ctl_capped_step [OF Cons.prems(1,2), of e] controller.step_invar [of c e] by simp
qed simp

lemma ctl_cwnd_floor: "ctl_inv c \<Longrightarrow> minimum_window (ctl_mss c) \<le> ctl_cwnd c"
  by (cases c) (simp_all add: nr_inv_def cu_inv_def)

lemma ctl_window_cwnd: "ctl_inv c \<Longrightarrow> ctl_cwnd c \<le> ctl_max_window c \<Longrightarrow> ctl_window c = ctl_cwnd c"
  by (cases c) (simp_all add: nr_inv_def cu_inv_def nr_window_def cu_window_def)

lemma ctl_with_capped: "ctl_cwnd (ctl_with mss alg) \<le> ctl_max_window (ctl_with mss alg)"
  by (cases alg) (simp_all add: nr_new_def cu_new_def Let_def)

lemma beta_cut_eq: "w \<le> U32_MAX \<Longrightarrow> beta_cut w = w * 717 div 1024"
  by (simp add: beta_cut_def BETA_NUM_def BETA_DEN_def U32_MAX_def as_u32_def)

lemma ctl_loss_cwnd:
  assumes "ctl_inv c" "ctl_hold c = 0"
  shows "ctl_cwnd (ctl_on_loss l False c) = max (minimum_window (ctl_mss c))
      (case ctl_algorithm c of RenoAlg \<Rightarrow> ctl_cwnd c div 2 | CubicAlg \<Rightarrow> ctl_cwnd c * 717 div 1024)"
proof (cases c)
  case (CReno d)
  with assms have "\<not> active (nr_recovery d)" by (simp add: nr_inv_def nr_hold_def episode_active_iff)
  with CReno show ?thesis by (simp add: nr_loss_simps max.commute)
next
  case (CCubic d)
  with assms have "\<not> active (cu_recovery d)" "cu_cwnd d \<le> U32_MAX" by (simp_all add: cu_inv_def cu_hold_def episode_active_iff)
  with CCubic show ?thesis by (simp add: cu_loss_simps beta_cut_eq max.commute)
qed

text \<open>C12: The window variable keeps its bounds. In every state a controller reaches from its construction by any sequence of
  acknowledgements, losses (persistent or not) and retransmission timeouts, for either algorithm, the congestion window it stores is at least
  twice the MSS (saturated) and at most the configured maximum. So the clamp in the accessor never acts: the window reported is the
  window stored.\<close>

theorem controller_window_bounds:
  assumes "0 < mss" and "mss \<le> U32_MAX" and "list_all ev_ok es"
  shows "let c = ctl_run es (ctl_with mss alg)
    in minimum_window mss \<le> ctl_cwnd c \<and> ctl_cwnd c \<le> max DEFAULT_MAX_WINDOW (initial_window mss) \<and> ctl_window c = ctl_cwnd c"
proof -
  define c where "c = ctl_run es (ctl_with mss alg)"
  have inv: "ctl_inv c" unfolding c_def by (rule controller.run_invar [OF ctl_inv_with [OF assms(2)] assms(3)])
  have f: "ctl_max_window c = max DEFAULT_MAX_WINDOW (initial_window mss)" "minimum_window (ctl_mss c) = minimum_window mss"
    using controller.run_frame [of es "ctl_with mss alg"] ctl_with_fields [OF assms(1), of alg] by (simp_all add: c_def)
  have "ctl_cwnd c \<le> ctl_max_window c"
    using ctl_capped_run [OF ctl_inv_with [OF assms(2)] ctl_with_capped assms(3)] controller.run_frame [of es "ctl_with mss alg"]
    by (simp add: c_def)
  then show ?thesis using ctl_cwnd_floor [OF inv] ctl_window_cwnd [OF inv] f by (simp add: Let_def c_def)
qed

text \<open>At MSS 1460: an acknowledgement, a loss and a timeout.\<close>

theorem controller_window_bounds_witness:
  "let c = ctl_run [EvAck 2920 0 \<lparr>smoothed_us = 20000, min_us = 15000\<rparr> 5, EvLoss 1460 False, EvRto] (ctl_with 1460 CubicAlg)
   in 2920 \<le> ctl_cwnd c \<and> ctl_cwnd c \<le> 2097152"
  using controller_window_bounds [of 1460 "[EvAck 2920 0 \<lparr>smoothed_us = 20000, min_us = 15000\<rparr> 5,
        EvLoss 1460 False, EvRto]" CubicAlg]
  by (simp add: U32_MAX_def minimum_window_def initial_window_def DEFAULT_MAX_WINDOW_def
      sat_mul32_def Let_def)

text \<open>C13: One reduction per recovery episode. A loss that is not persistent arrives outside an episode, at a controller whose window is within
  its maximum (as it is in every state reached from construction). Then whatever further losses that are not persistent
  and whatever acknowledgements follow, as long as these acknowledge less than the window in force before the loss and no
  retransmission timeout or persistent loss intervenes, the window stays at the value the first loss set:
  half the window for NewReno and 717/1024 of it for CUBIC, never less than twice the MSS.\<close>

theorem loss_cluster_reduces_once:
  assumes "ctl_inv c" and "ctl_hold c = 0" and "list_all ev_mild es"
    and "sum_list (map ev_acked es) < ctl_window c"
    and "ctl_cwnd c \<le> ctl_max_window c"
  shows "ctl_window (ctl_run (EvLoss l False # es) c) =
    max (minimum_window (ctl_mss c))
      (case ctl_algorithm c of RenoAlg \<Rightarrow> ctl_window c div 2 | CubicAlg \<Rightarrow> ctl_window c * 717 div 1024)"
proof -
  let ?d = "ctl_on_loss l False c"
  have "ctl_cwnd ?d \<le> ctl_max_window ?d"
    using ctl_capped_step [OF assms(1,5), of "EvLoss l False"] controller.upper_loss [of l False c] by simp
  then have "ctl_window ?d = ctl_cwnd ?d" by (rule ctl_window_cwnd [OF controller.invar_loss [OF assms(1)]])
  then show ?thesis
    unfolding controller.cluster_reduces_once [OF assms(1-4)] ctl_window_cwnd [OF assms(1,5)] using ctl_loss_cwnd [OF assms(1,2), of l] by simp
qed

theorem loss_cluster_reduces_once_witness:
  "ctl_window (ctl_run [EvLoss 1460 False, EvLoss 2920 False,
      EvAck 14000 0 \<lparr>smoothed_us = 0, min_us = 0\<rparr> 9, EvLoss 1460 False] (ctl_with 1460 CubicAlg)) = 10222"
proof -
  let ?c = "ctl_with 1460 CubicAlg"
  have w: "ctl_window ?c = 14600" "ctl_hold ?c = 0" "ctl_mss ?c = 1460"
    by (simp_all add: cu_new_def cu_window_def Let_def initial_window_def minimum_window_def
        sat_mul32_def DEFAULT_MAX_WINDOW_def cu_hold_def episode_idle)
  show ?thesis
    using loss_cluster_reduces_once [of ?c "[EvLoss 2920 False,
        EvAck 14000 0 \<lparr>smoothed_us = 0, min_us = 0\<rparr> 9, EvLoss 1460 False]" 1460]
      ctl_inv_with [of 1460 CubicAlg] ctl_with_capped [of 1460 CubicAlg] w
    by (simp add: U32_MAX_def minimum_window_def sat_mul32_def)
qed

text \<open>C14: The window only ever grows by acknowledged bytes: after any run of events it exceeds the
  window at its start by at most the bytes acknowledged during the run.\<close>

theorem window_growth_is_ack_clocked:
  assumes "ctl_inv c" and "list_all ev_ok es"
  shows "ctl_window (ctl_run es c) \<le> ctl_window c + sum_list (map ev_acked es)"
  using controller.run_growth [OF assms] .

theorem window_growth_is_ack_clocked_witness:
  "ctl_window (ctl_run [EvAck 1000 0 \<lparr>smoothed_us = 0, min_us = 0\<rparr> 5, EvLoss 1460 False]
      (ctl_with 1460 RenoAlg)) \<le> ctl_window (ctl_with 1460 RenoAlg) + 1000"
  using window_growth_is_ack_clocked [of "ctl_with 1460 RenoAlg"
      "[EvAck 1000 0 \<lparr>smoothed_us = 0, min_us = 0\<rparr> 5, EvLoss 1460 False]"]
    ctl_inv_with [of 1460 RenoAlg]
  by (simp add: U32_MAX_def)

text \<open>The integer cube root behind CUBIC's \<open>K\<close> is exact for every 128-bit input: the result is
  the largest integer whose cube does not exceed the argument.\<close>

theorem icbrt_u128_exact:
  assumes "x < 2 ^ 128"
  shows "icbrt_u128 x ^ 3 \<le> x \<and> x < (icbrt_u128 x + 1) ^ 3"
  using icbrt_u128_cube [of x] cube_le_iff [OF assms] by (simp add: not_le)

theorem icbrt_u128_exact_witness:
  "icbrt_u128 2500000000 ^ 3 \<le> 2500000000 \<and> 2500000000 < (icbrt_u128 2500000000 + 1) ^ 3"
  using icbrt_u128_exact [of 2500000000] by simp

end
