(* ===== verification/Loss_Detection.thy ===== *)
theory Loss_Detection
  imports Prelude
begin

text \<open>
  The loss-detection decision core \<open>crates/net/cc/src/loss.rs\<close>, which the QUIC recovery and TCP's
  RACK share: the RFC 9002 thresholds and the walk over the units in flight. The callback \<open>lost\<close> is
  the list of its calls, in order; the ticks are \<open>u64\<close> values with saturating arithmetic.
\<close>

section \<open>Model\<close>

definition PACKET_THRESHOLD :: nat where "PACKET_THRESHOLD = 3"

datatype LostBy = PacketThreshold | TimeThreshold

record LossParams =
  packet_threshold :: nat
  time_threshold_ticks :: "nat option"

definition rfc9002 :: "nat \<Rightarrow> nat \<Rightarrow> nat \<Rightarrow> nat \<Rightarrow> LossParams" where
  "rfc9002 srtt latest_rtt granularity max_ack_delay =
     (let max_rtt = max srtt latest_rtt;
          tt = (if max_rtt > 0
                then Some (sat_add64 (max (sat_mul64 max_rtt 9 div 8) granularity) max_ack_delay)
                else None)
      in \<lparr>packet_threshold = PACKET_THRESHOLD, time_threshold_ticks = tt\<rparr>)"

fun detect_loop :: "LossParams \<Rightarrow> nat \<Rightarrow> nat \<Rightarrow> (nat \<times> nat) list \<Rightarrow> nat option
    \<Rightarrow> (nat \<times> LostBy) list \<times> nat option" where
  "detect_loop p largest_acked now [] next_deadline = ([], next_deadline)"
| "detect_loop p largest_acked now ((i, sent) # units) next_deadline =
     (if i \<ge> largest_acked then ([], next_deadline)
      else if sat_add64 i (packet_threshold p) \<le> largest_acked
      then (let (ls, d) = detect_loop p largest_acked now units next_deadline
            in ((i, PacketThreshold) # ls, d))
      else (case time_threshold_ticks p of
          Some tt \<Rightarrow>
            if now - sent > tt
            then (let (ls, d) = detect_loop p largest_acked now units next_deadline
                  in ((i, TimeThreshold) # ls, d))
            else (let dl = sat_add64 (sat_add64 sent tt) 1;
                      nd = Some (case next_deadline of None \<Rightarrow> dl | Some d \<Rightarrow> min d dl)
                  in detect_loop p largest_acked now units nd)
        | None \<Rightarrow> detect_loop p largest_acked now units next_deadline))"

definition detect :: "LossParams \<Rightarrow> nat \<Rightarrow> nat \<Rightarrow> (nat \<times> nat) list
    \<Rightarrow> (nat \<times> LostBy) list \<times> nat option" where
  "detect p largest_acked now units = detect_loop p largest_acked now units None"

section \<open>Reference verdict\<close>

text \<open>The verdict on a single unit below the largest acknowledged id, with no walk and no state.\<close>

definition verdict :: "LossParams \<Rightarrow> nat \<Rightarrow> nat \<Rightarrow> nat \<times> nat \<Rightarrow> LostBy option" where
  "verdict p la now u =
     (if fst u + packet_threshold p \<le> la then Some PacketThreshold
      else case time_threshold_ticks p of
          None \<Rightarrow> None
        | Some tt \<Rightarrow> if snd u + tt < now then Some TimeThreshold else None)"

definition losses :: "LossParams \<Rightarrow> nat \<Rightarrow> nat \<Rightarrow> (nat \<times> nat) list \<Rightarrow> (nat \<times> LostBy) list" where
  "losses p la now units =
     List.map_filter (\<lambda>u. map_option (Pair (fst u)) (verdict p la now u))
       (filter (\<lambda>u. fst u < la) units)"

text \<open>The ticks at which the units still awaiting a time verdict become lost.\<close>

definition due :: "LossParams \<Rightarrow> nat \<Rightarrow> nat \<Rightarrow> (nat \<times> nat) list \<Rightarrow> nat set" where
  "due p la now units = {snd u + tt + 1 | u tt. u \<in> set units \<and> fst u < la
     \<and> verdict p la now u = None \<and> time_threshold_ticks p = Some tt}"

definition units_ok :: "LossParams \<Rightarrow> nat \<Rightarrow> (nat \<times> nat) list \<Rightarrow> bool" where
  "units_ok p la units \<longleftrightarrow> sorted (map fst units) \<and> la < U64_MAX
     \<and> (\<forall>u \<in> set units. \<forall>tt. time_threshold_ticks p = Some tt \<longrightarrow> snd u + tt + 1 \<le> U64_MAX)"

lemma losses_stop:
  assumes "sorted (i # map fst units)" "la \<le> i"
  shows "losses p la now ((i, sent) # units) = []" "due p la now ((i, sent) # units) = {}"
proof -
  have "filter (\<lambda>u. fst u < la) ((i, sent) # units) = []"
    using assms by (fastforce simp: filter_empty_conv)
  then show "losses p la now ((i, sent) # units) = []" "due p la now ((i, sent) # units) = {}"
    using assms by (auto simp: losses_def due_def map_filter_simps filter_empty_conv)
qed

lemma losses_Cons:
  "i < la \<Longrightarrow> losses p la now ((i, sent) # units) =
    (case verdict p la now (i, sent) of None \<Rightarrow> [] | Some b \<Rightarrow> [(i, b)]) @ losses p la now units"
  by (simp add: losses_def map_filter_simps split: option.split)

lemma due_Cons:
  "i < la \<Longrightarrow> due p la now ((i, sent) # units) =
    (case (verdict p la now (i, sent), time_threshold_ticks p) of
        (None, Some tt) \<Rightarrow> insert (sent + tt + 1) (due p la now units)
      | _ \<Rightarrow> due p la now units)"
  by (auto simp: due_def split: option.split)

lemma due_finite: "finite (due p la now units)"
proof -
  have "due p la now units \<subseteq> (\<Union>u\<in>set units. case time_threshold_ticks p of None \<Rightarrow> {}
      | Some tt \<Rightarrow> {snd u + tt + 1})"
    by (auto simp: due_def)
  then show ?thesis by (rule finite_subset) (auto split: option.split)
qed

text \<open>The minimum of an optional bound and a finite set.\<close>

definition opt_Min :: "nat option \<Rightarrow> nat set \<Rightarrow> nat option" where
  "opt_Min d S = (if set_option d \<union> S = {} then None else Some (Min (set_option d \<union> S)))"

lemma opt_Min_insert:
  assumes "finite S"
  shows "opt_Min d (insert x S) = opt_Min (Some (case d of None \<Rightarrow> x | Some y \<Rightarrow> min y x)) S"
proof (cases d)
  case (Some y)
  have "Min (insert y (insert x S)) = Min (insert (min y x) S)"
    using assms by (cases "S = {}") (simp_all add: min.assoc)
  with Some show ?thesis by (simp add: opt_Min_def insert_commute)
qed (simp add: opt_Min_def)

lemma detect_loop_correct:
  "units_ok p la units \<Longrightarrow> detect_loop p la now units d =
    (losses p la now units, opt_Min d (due p la now units))"
proof (induction p la now units d rule: detect_loop.induct)
  case (1 p la now d)
  show ?case by (cases d) (simp_all add: losses_def due_def opt_Min_def map_filter_simps)
next
  case (2 p la now i sent units d)
  have ok: "units_ok p la units" and srt: "sorted (i # map fst units)" and la: "la < U64_MAX"
    and tt: "\<And>tt. time_threshold_ticks p = Some tt \<Longrightarrow> sent + tt + 1 \<le> U64_MAX"
    using "2.prems" by (auto simp: units_ok_def)
  have pk: "sat_add64 i (packet_threshold p) \<le> la \<longleftrightarrow> i + packet_threshold p \<le> la"
    using la by (auto simp: sat_add64_def U64_MAX_def)
  have dl: "time_threshold_ticks p = Some t \<Longrightarrow> sat_add64 (sat_add64 sent t) 1 = sent + t + 1" for t
    using tt [of t] by (simp add: sat_add64_def U64_MAX_def)
  have late: "t < now - sent \<longleftrightarrow> sent + t < now" for t by auto
  show ?case
  proof (cases "la \<le> i")
    case True
    then show ?thesis using losses_stop [OF srt True] by (cases d) (simp_all add: opt_Min_def)
  next
    case False
    then show ?thesis
      using "2.IH" ok dl
      by (auto simp: pk late verdict_def losses_Cons due_Cons opt_Min_insert due_finite Let_def
          split: option.split)
  qed
qed

lemma detect_correct:
  "units_ok p la units \<Longrightarrow> detect p la now units =
    (losses p la now units, opt_Min None (due p la now units))"
  by (simp add: detect_def detect_loop_correct)

section \<open>Ageing\<close>

lemma verdict_mono:
  "now \<le> t \<Longrightarrow> verdict p la now u = Some b \<Longrightarrow> verdict p la t u = Some b"
  by (auto simp: verdict_def split: if_splits option.splits)

lemma verdict_before_due:
  assumes "now \<le> t" "\<forall>x \<in> due p la now units. t < x" "u \<in> set units" "fst u < la"
  shows "verdict p la t u = verdict p la now u"
proof (cases "verdict p la now u")
  case None
  have "time_threshold_ticks p = Some tt \<Longrightarrow> t < snd u + tt + 1" for tt
    using assms(2-4) None by (fastforce simp: due_def)
  with None show ?thesis by (auto simp: verdict_def split: option.splits if_splits)
next
  case (Some b)
  with verdict_mono [OF assms(1)] show ?thesis by simp
qed

lemma losses_before_due:
  "now \<le> t \<Longrightarrow> \<forall>x \<in> due p la now units. t < x \<Longrightarrow> losses p la t units = losses p la now units"
  by (auto simp: losses_def verdict_before_due List.map_filter_def intro!: map_cong filter_cong)

lemma length_losses:
  "length (losses p la now units) = length (filter (\<lambda>u. fst u < la \<and> verdict p la now u \<noteq> None) units)"
  by (induction units) (auto simp: losses_def map_filter_simps split: option.split)

lemma due_after: "d \<in> due p la now units \<Longrightarrow> now < d"
  by (auto simp: due_def verdict_def split: if_splits)

lemma losses_at_due:
  assumes "now \<le> d" "d \<in> due p la now units"
  shows "length (losses p la now units) < length (losses p la d units)"
proof -
  let ?P = "\<lambda>n u. fst u < la \<and> verdict p la n u \<noteq> None"
  obtain u tt where u: "u \<in> set units" "fst u < la" "verdict p la now u = None"
    and tt: "time_threshold_ticks p = Some tt" "d = snd u + tt + 1"
    using assms(2) by (auto simp: due_def)
  then have new: "verdict p la d u \<noteq> None" by (simp add: verdict_def)
  have "filter (?P now) units = filter (?P now) (filter (?P d) units)"
    using verdict_mono [OF assms(1)] by (auto intro!: filter_cong)
  also have "length \<dots> < length (filter (?P d) units)"
    by (rule length_filter_less [of u]) (use u new in auto)
  finally show ?thesis by (simp add: length_losses)
qed

section \<open>Properties\<close>

text \<open>C15: The walk reports exactly the verdicts of the units. Over a flight in ascending order, with
  no tick beyond the 64-bit range, the units declared lost are, in order, those below the largest
  acknowledged id that trail it by the packet threshold or are older than the time threshold, with
  that reason; the deadline is the earliest tick at which a remaining unit becomes lost, and there
  is none when no unit awaits a time verdict.\<close>

theorem detect_matches_verdicts:
  assumes "units_ok p la units"
  shows "detect p la now units = (losses p la now units, opt_Min None (due p la now units))"
  by (rule detect_correct [OF assms])

theorem detect_matches_verdicts_witness:
  "detect (rfc9002 100 120 1 25) 9 400 [(3, 100), (7, 200), (8, 390)]
     = ([(3, PacketThreshold), (7, TimeThreshold)], Some 551)
   \<and> units_ok (rfc9002 100 120 1 25) 9 [(3, 100), (7, 200), (8, 390)]
   \<and> losses (rfc9002 100 120 1 25) 9 400 [(3, 100), (7, 200), (8, 390)]
     = [(3, PacketThreshold), (7, TimeThreshold)]"
proof -
  have ok: "units_ok (rfc9002 100 120 1 25) 9 [(3, 100), (7, 200), (8, 390)]"
    by (simp add: units_ok_def rfc9002_def U64_MAX_def Let_def sat_add64_def sat_mul64_def)
  have "detect (rfc9002 100 120 1 25) 9 400 [(3, 100), (7, 200), (8, 390)]
     = ([(3, PacketThreshold), (7, TimeThreshold)], Some 551)"
    by (simp add: detect_def rfc9002_def Let_def sat_add64_def sat_mul64_def PACKET_THRESHOLD_def)
  with detect_matches_verdicts [OF ok, of 400] ok show ?thesis by simp
qed

text \<open>The loss timer is exact. When detection returns a deadline, running it again on the same
  flight at any tick before the deadline declares the same units lost, and running it at the
  deadline declares at least one more.\<close>

theorem detect_deadline_exact:
  assumes "units_ok p la units" and "detect p la now units = (ls, Some d)"
  shows "(\<forall>t. now \<le> t \<and> t < d \<longrightarrow> fst (detect p la t units) = ls)
    \<and> length ls < length (fst (detect p la d units))"
proof -
  have ls: "ls = losses p la now units" and ne: "due p la now units \<noteq> {}"
    and d: "d = Min (due p la now units)"
    using assms(2) unfolding detect_correct [OF assms(1)] by (auto simp: opt_Min_def split: if_splits)
  have "d \<in> due p la now units" and "\<forall>x \<in> due p la now units. d \<le> x"
    using ne d due_finite by simp_all
  then show ?thesis
    using due_after [of d p la now units] unfolding ls detect_correct [OF assms(1)]
    by (fastforce intro: losses_before_due losses_at_due)
qed

theorem detect_deadline_exact_witness:
  "length (fst (detect (rfc9002 100 120 1 25) 9 551 [(3, 100), (7, 200), (8, 390)])) > 2"
proof -
  have "units_ok (rfc9002 100 120 1 25) 9 [(3, 100), (7, 200), (8, 390)]"
    by (simp add: units_ok_def rfc9002_def U64_MAX_def Let_def sat_add64_def sat_mul64_def)
  moreover have "detect (rfc9002 100 120 1 25) 9 400 [(3, 100), (7, 200), (8, 390)]
     = ([(3, PacketThreshold), (7, TimeThreshold)], Some 551)"
    by (simp add: detect_def rfc9002_def Let_def sat_add64_def sat_mul64_def PACKET_THRESHOLD_def)
  ultimately show ?thesis
    using detect_deadline_exact [of "rfc9002 100 120 1 25" 9 "[(3, 100), (7, 200), (8, 390)]" 400] by simp
qed

end
