(* ===== verification/Tcp_Types.thy ===== *)
theory Tcp_Types
  imports Prelude
begin

text \<open>
  The vocabulary of the TCP component, from \<open>crates/net/tcp/src/state.rs\<close>, \<open>send.rs\<close> and
  \<open>crates/net/src/types.rs\<close>: addresses, flags, states, the sizing constants, sequence-number
  comparison, the description of an outgoing segment, and the environment a handler runs in.

  An IPv4 address is the 32-bit and an IPv6 address the 128-bit big-endian reading of its octets.
  The environment holds what a handler reads or changes outside the connection: the millisecond
  clock (one reading per handler), the head of the core's armed-timer list, the segments handed to
  the driver, the wakers woken, and, as outcomes still to come, the results of fallible heap
  allocations and of TX-buffer acquisitions (an exhausted list stands for success). MAC resolution
  is a predicate on the destination address. For segmentation offload it has the largest payload the device takes and, for each
  super-segment handed to it, its place among the segments and the segment size it is cut by.
\<close>

section \<open>Addresses, flags and states\<close>

datatype IpAddr = V4 u32 | V6 "128 word"

definition V4_ANY :: IpAddr where "V4_ANY = V4 0"

definition TCP_FIN :: u8 where "TCP_FIN = 0x01"
definition TCP_SYN :: u8 where "TCP_SYN = 0x02"
definition TCP_RST :: u8 where "TCP_RST = 0x04"
definition TCP_PSH :: u8 where "TCP_PSH = 0x08"
definition TCP_ACK :: u8 where "TCP_ACK = 0x10"

datatype TcpState = Closed | Listen | SynReceived | Established | FinWait1 | FinWait2 | CloseWait
  | LastAck | TimeWait | SynSent

datatype ConnectFailure = NoFailure | Refused | TimedOut

section \<open>Constants\<close>

definition SEGMENT_SIZE :: nat where "SEGMENT_SIZE = 64"
definition MAX_SEGMENTS :: nat where "MAX_SEGMENTS = 1023"
definition NULL_SLOT :: nat where "NULL_SLOT = 65535"
definition RX_RING_BYTES :: nat where "RX_RING_BYTES = 16384"
definition MSS_V4 :: nat where "MSS_V4 = 1460"
definition MSS_V6 :: nat where "MSS_V6 = 1440"
definition MSS_MAX :: nat where "MSS_MAX = MSS_V4"

fun mss_for :: "IpAddr \<Rightarrow> nat" where
  "mss_for (V4 a) = MSS_V4"
| "mss_for (V6 a) = MSS_V6"

definition RTO_INITIAL_MS :: nat where "RTO_INITIAL_MS = 1000"
definition RTO_K :: nat where "RTO_K = 4"
definition RTO_MAX_MS :: nat where "RTO_MAX_MS = 60000"
definition TLP_MIN_MS :: nat where "TLP_MIN_MS = 10"
definition TLP_MAX_PROBES :: nat where "TLP_MAX_PROBES = 2"
definition RTX_MAX_RETRIES :: nat where "RTX_MAX_RETRIES = 8"
definition FIN_RETX_MAX :: nat where "FIN_RETX_MAX = 5"
definition PERSIST_MAX_PROBES :: nat where "PERSIST_MAX_PROBES = 8"
definition SYN_RETX_MAX :: nat where "SYN_RETX_MAX = 5"
definition TIME_WAIT_MS :: nat where "TIME_WAIT_MS = 60000"
definition OOO_MAX_SEGS :: nat where "OOO_MAX_SEGS = 32"
definition OOO_MAX_BYTES :: nat where "OOO_MAX_BYTES = RX_RING_BYTES"

named_theorems tcp_consts \<open>the numeric constants of the TCP component\<close>

declare SEGMENT_SIZE_def [tcp_consts] MAX_SEGMENTS_def [tcp_consts] NULL_SLOT_def [tcp_consts]
  RX_RING_BYTES_def [tcp_consts] MSS_V4_def [tcp_consts] MSS_V6_def [tcp_consts]
  MSS_MAX_def [tcp_consts] RTO_INITIAL_MS_def [tcp_consts] RTO_K_def [tcp_consts]
  RTO_MAX_MS_def [tcp_consts] TLP_MIN_MS_def [tcp_consts] TLP_MAX_PROBES_def [tcp_consts]
  RTX_MAX_RETRIES_def [tcp_consts] FIN_RETX_MAX_def [tcp_consts]
  PERSIST_MAX_PROBES_def [tcp_consts] SYN_RETX_MAX_def [tcp_consts] TIME_WAIT_MS_def [tcp_consts]
  OOO_MAX_SEGS_def [tcp_consts] OOO_MAX_BYTES_def [tcp_consts]

section \<open>Segments and the environment\<close>

record SegmentMeta =
  sm_local_ip :: IpAddr
  sm_dst_ip :: IpAddr
  sm_src_port :: u16
  sm_dst_port :: u16
  sm_seq :: u32
  sm_ack :: u32
  sm_flags :: u8
  sm_window :: nat

record sent_segment =
  seg_meta :: SegmentMeta
  seg_options :: bytes
  seg_payload :: bytes

record env =
  now_ms :: nat
  tick_head :: nat
  tx_log :: "sent_segment list"
  woken :: "nat list"
  alloc_results :: "bool list"
  txbuf_results :: "bool list"
  has_direct_fill :: bool
  mac_known :: "IpAddr \<Rightarrow> bool"
  tso_available :: bool
  tso_results :: "bool list"
  tso_cap :: nat
  tso_splits :: "(nat \<times> nat) list"

text \<open>One fallible allocation (\<open>try_reserve\<close>): its outcome and the environment after it.\<close>

definition try_alloc :: "env \<Rightarrow> bool \<times> env" where
  "try_alloc e = (case alloc_results e of
       [] \<Rightarrow> (True, e)
     | ok # rest \<Rightarrow> (ok, e\<lparr>alloc_results := rest\<rparr>))"

definition acquire_tx_buf :: "env \<Rightarrow> bool \<times> env" where
  "acquire_tx_buf e = (case txbuf_results e of
       [] \<Rightarrow> (True, e)
     | ok # rest \<Rightarrow> (ok, e\<lparr>txbuf_results := rest\<rparr>))"

definition acquire_tx_tso_buf :: "env \<Rightarrow> bool \<times> env" where
  "acquire_tx_tso_buf e = (case tso_results e of
       [] \<Rightarrow> (True, e)
     | ok # rest \<Rightarrow> (ok, e\<lparr>tso_results := rest\<rparr>))"

text \<open>A frame that reached the driver.\<close>

definition push_tx :: "SegmentMeta \<Rightarrow> bytes \<Rightarrow> bytes \<Rightarrow> env \<Rightarrow> env" where
  "push_tx m options payload e =
     e\<lparr>tx_log := tx_log e @ [\<lparr>seg_meta = m, seg_options = options, seg_payload = payload\<rparr>]\<rparr>"

text \<open>A full TX ring is reported only by a driver that fills frames in place; the copying fallback
  always takes the frame.\<close>

definition build_and_send_frame :: "SegmentMeta \<Rightarrow> bytes \<Rightarrow> bytes \<Rightarrow> env \<Rightarrow> bool \<times> env" where
  "build_and_send_frame m options payload e =
     (let (ok, e1) = acquire_tx_buf e
      in if ok then (True, push_tx m options payload e1)
         else if has_direct_fill e1 then (False, e1)
         else (True, push_tx m options payload e1))"

definition send_segment_opts :: "SegmentMeta \<Rightarrow> bytes \<Rightarrow> bytes \<Rightarrow> env \<Rightarrow> env" where
  "send_segment_opts m payload options e =
     (if \<not> mac_known e (sm_dst_ip m) then e
      else let payload_len = min (length payload) MSS_MAX
           in snd (build_and_send_frame m options (take payload_len payload) e))"

definition send_segment :: "SegmentMeta \<Rightarrow> bytes \<Rightarrow> env \<Rightarrow> env" where
  "send_segment m payload e = send_segment_opts m payload [] e"

definition send_rst :: "IpAddr \<Rightarrow> IpAddr \<Rightarrow> u16 \<Rightarrow> u16 \<Rightarrow> u32 \<Rightarrow> u32 \<Rightarrow> env \<Rightarrow> env" where
  "send_rst local_ip dst_ip src_port dst_port sq ak e =
     send_segment \<lparr>sm_local_ip = local_ip, sm_dst_ip = dst_ip, sm_src_port = src_port,
       sm_dst_port = dst_port, sm_seq = sq, sm_ack = ak, sm_flags = TCP_RST OR TCP_ACK,
       sm_window = 0\<rparr> [] e"

section \<open>Sequence numbers\<close>

definition seq_lt :: "u32 \<Rightarrow> u32 \<Rightarrow> bool" where
  "seq_lt a b \<longleftrightarrow> sint (a - b) < 0"

text \<open>The top bit decides: the difference is negative exactly when it is at least half the ring.\<close>

lemma seq_lt_unat: "seq_lt a b \<longleftrightarrow> 2147483648 \<le> unat (a - b)"
proof -
  have "sint w < 0 \<longleftrightarrow> bit w 31" for w :: u32
    using bit_last_iff [of w] by simp
  moreover have "bit w 31 \<longleftrightarrow> 2147483648 \<le> unat w" for w :: u32
  proof -
    have lt: "unat w < 4294967296" using unsigned_less [of w] by simp
    have "bit w 31 \<longleftrightarrow> odd (unat w div 2 ^ 31)"
      by (simp only: bit_iff_odd [of "unat w", symmetric] bit_unsigned_iff) simp
    also have "\<dots> \<longleftrightarrow> 2147483648 \<le> unat w"
    proof (cases "2147483648 \<le> unat w")
      case True
      then have "unat w div 2147483648 = 1" using lt by (intro div_nat_eqI) simp_all
      with True show ?thesis by simp
    qed simp
    finally show ?thesis .
  qed
  ultimately show ?thesis by (simp add: seq_lt_def)
qed

lemma seq_lt_irrefl [simp]: "\<not> seq_lt a a"
  by (simp add: seq_lt_def)

text \<open>Both sides given as offsets from one base: within half the ring the order is that of the
  offsets.\<close>

lemma unat_of_nat_diff:
  assumes "y \<le> x" "x - y < 4294967296"
  shows "unat ((b + of_nat x) - (b + of_nat y) :: u32) = x - y"
proof -
  have "(b + of_nat x) - (b + of_nat y) = (of_nat (x - y) :: u32)"
    using assms(1) by (simp add: of_nat_diff)
  with assms(2) show ?thesis by (simp add: unat_of_nat)
qed

lemma unat_of_nat_diff_neg:
  assumes "x < y" "y - x < 4294967296"
  shows "unat ((b + of_nat x) - (b + of_nat y) :: u32) = 4294967296 - (y - x)"
proof -
  have "(b + of_nat x) - (b + of_nat y) = - (of_nat (y - x) :: u32)"
    using assms(1) by (simp add: of_nat_diff)
  moreover define k where "k = y - x"
  moreover have "unat (0 - of_nat k :: u32) = 4294967296 - k"
    using assms by (subst unat_sub_if') (simp add: unat_of_nat k_def [symmetric], simp add: k_def)
  ultimately show ?thesis by simp
qed

lemma seq_lt_offsets:
  assumes "x < y + 2147483648" "y < x + 2147483648"
  shows "seq_lt (b + of_nat x) (b + of_nat y) \<longleftrightarrow> x < y"
proof (cases "x < y")
  case True
  with assms show ?thesis
    using unat_of_nat_diff_neg [of x y b] by (simp add: seq_lt_unat)
next
  case False
  with assms show ?thesis
    using unat_of_nat_diff [of y x b] by (simp add: seq_lt_unat)
qed

lemma sint_offsets:
  assumes "x < 2147483648" "y < 2147483648"
  shows "sint ((b + of_nat x) - (b + of_nat y) :: u32) = int x - int y"
proof -
  have "(b + of_nat x) - (b + of_nat y) = (word_of_int (int x - int y) :: u32)" by simp
  also have "sint \<dots> = signed_take_bit 31 (int x - int y)"
    unfolding sint_sbintrunc' by simp
  also have "\<dots> = int x - int y"
    using assms by (intro signed_take_bit_int_eq_self) simp_all
  finally show ?thesis .
qed

end
