(* ===== verification/Ooo_Queue.thy ===== *)
theory Ooo_Queue
  imports Tcp_Types
begin

text \<open>
  The out-of-order reassembly queue of \<open>crates/net/tcp/src/state.rs\<close> (\<open>OooSeg\<close>, \<open>OooQueue\<close>): a
  bounded list of segments sorted by their distance from the receive pointer. The invariant says
  that the segments are disjoint, lie strictly above the pointer and within one receive window, and
  that the cached byte count is their total. The content of the queue is read as a partial map from
  window offsets to bytes; insertion adds exactly the new segment's bytes to it and never replaces
  one, and taking a segment removes exactly that segment.
\<close>

section \<open>Model\<close>

record OooSeg =
  oo_seq_start :: u32
  oo_bytes :: bytes

record OooQueue =
  segs :: "OooSeg list"
  total_bytes :: nat

definition ooo_new :: OooQueue where
  "ooo_new = \<lparr>segs = [], total_bytes = 0\<rparr>"

definition ooo_is_empty :: "OooQueue \<Rightarrow> bool" where
  "ooo_is_empty q \<longleftrightarrow> segs q = []"

definition ooo_clear :: "OooQueue \<Rightarrow> OooQueue" where
  "ooo_clear q = q\<lparr>segs := [], total_bytes := 0\<rparr>"

definition seg_off :: "u32 \<Rightarrow> OooSeg \<Rightarrow> nat" where
  "seg_off rcv_nxt s = unat (oo_seq_start s - rcv_nxt)"

definition seg_end :: "u32 \<Rightarrow> OooSeg \<Rightarrow> nat" where
  "seg_end rcv_nxt s = seg_off rcv_nxt s + length (oo_bytes s)"

text \<open>The index of the first element satisfying the predicate, or the length.\<close>

fun position_or_len :: "('a \<Rightarrow> bool) \<Rightarrow> 'a list \<Rightarrow> nat" where
  "position_or_len P [] = 0"
| "position_or_len P (x # xs) = (if P x then 0 else Suc (position_or_len P xs))"

definition insert_at :: "nat \<Rightarrow> 'a \<Rightarrow> 'a list \<Rightarrow> 'a list" where
  "insert_at i x xs = take i xs @ x # drop i xs"

definition ooo_insert :: "u32 \<Rightarrow> u32 \<Rightarrow> bytes \<Rightarrow> OooQueue \<Rightarrow> bool \<times> OooQueue" where
  "ooo_insert rcv_nxt seq_start bytes0 q =
     (if bytes0 = [] \<or> length (segs q) \<ge> OOO_MAX_SEGS then (False, q)
      else let off = unat (seq_start - rcv_nxt)
      in if off = 0 \<or> off \<ge> OOO_MAX_BYTES then (False, q)
      else let avail = OOO_MAX_BYTES - off;
               bytes1 = (if length bytes0 > avail then take avail bytes0 else bytes0);
               tk = length bytes1;
               e = off + tk
      in if list_ex (\<lambda>s. off < seg_end rcv_nxt s \<and> seg_off rcv_nxt s < e) (segs q) then (False, q)
      else if total_bytes q + tk > OOO_MAX_BYTES then (False, q)
      else let pos = position_or_len (\<lambda>s. seg_off rcv_nxt s > off) (segs q)
      in (True, q\<lparr>total_bytes := total_bytes q + tk,
                  segs := insert_at pos \<lparr>oo_seq_start = seq_start, oo_bytes = bytes1\<rparr> (segs q)\<rparr>))"

text \<open>The loop of \<open>sack_blocks\<close>: the output array of \<open>cap\<close> entries is the list of blocks written so
  far, newest first.\<close>

fun sack_blocks_loop :: "nat \<Rightarrow> OooSeg list \<Rightarrow> (u32 \<times> u32) list \<Rightarrow> (u32 \<times> u32) list" where
  "sack_blocks_loop cap [] out = out"
| "sack_blocks_loop cap (s # ss) out =
     (let left = oo_seq_start s;
          right = oo_seq_start s + of_nat (length (oo_bytes s))
      in case out of
           (l, r) # rest \<Rightarrow>
             if r = left then sack_blocks_loop cap ss ((l, right) # rest)
             else if length out = cap then out
             else sack_blocks_loop cap ss ((left, right) # out)
         | [] \<Rightarrow>
             if cap = 0 then out
             else sack_blocks_loop cap ss [(left, right)])"

definition sack_blocks :: "nat \<Rightarrow> OooQueue \<Rightarrow> (u32 \<times> u32) list" where
  "sack_blocks cap q = rev (sack_blocks_loop cap (segs q) [])"

fun take_at_loop :: "u32 \<Rightarrow> OooSeg list \<Rightarrow> nat \<Rightarrow> OooSeg option \<times> OooSeg list \<times> nat" where
  "take_at_loop rcv_nxt [] tot = (None, [], tot)"
| "take_at_loop rcv_nxt (s # ss) tot =
     (let rel = sint (oo_seq_start s - rcv_nxt)
      in if rel > 0 then (None, s # ss, tot)
         else let tot' = tot - length (oo_bytes s)
              in if rel + int (length (oo_bytes s)) > 0 then (Some s, ss, tot')
                 else take_at_loop rcv_nxt ss tot')"

definition take_at :: "u32 \<Rightarrow> OooQueue \<Rightarrow> OooSeg option \<times> OooQueue" where
  "take_at rcv_nxt q =
     (let (r, ss, t) = take_at_loop rcv_nxt (segs q) (total_bytes q)
      in (r, q\<lparr>segs := ss, total_bytes := t\<rparr>))"

section \<open>Invariant and content\<close>

definition disjoint_segs :: "u32 \<Rightarrow> OooSeg list \<Rightarrow> bool" where
  "disjoint_segs r ss \<longleftrightarrow> sorted_wrt (\<lambda>a b. seg_end r a \<le> seg_off r b) ss"

definition seg_in_window :: "u32 \<Rightarrow> OooSeg \<Rightarrow> bool" where
  "seg_in_window r s \<longleftrightarrow> oo_bytes s \<noteq> [] \<and> 0 < seg_off r s \<and> seg_end r s \<le> OOO_MAX_BYTES"

definition ooo_inv :: "u32 \<Rightarrow> OooQueue \<Rightarrow> bool" where
  "ooo_inv r q \<longleftrightarrow> disjoint_segs r (segs q) \<and> list_all (seg_in_window r) (segs q)
     \<and> total_bytes q = sum_list (map (\<lambda>s. length (oo_bytes s)) (segs q))
     \<and> length (segs q) \<le> OOO_MAX_SEGS"

text \<open>The byte buffered at a distance from the receive pointer.\<close>

definition ooo_byte :: "u32 \<Rightarrow> OooQueue \<Rightarrow> nat \<Rightarrow> u8 option" where
  "ooo_byte r q k = (case List.find (\<lambda>s. seg_off r s \<le> k \<and> k < seg_end r s) (segs q) of
       None \<Rightarrow> None | Some s \<Rightarrow> Some (oo_bytes s ! (k - seg_off r s)))"

lemma ooo_inv_new: "ooo_inv r ooo_new"
  by (simp add: ooo_inv_def ooo_new_def disjoint_segs_def)

lemma ooo_inv_clear: "ooo_inv r (ooo_clear q)"
  by (simp add: ooo_inv_def ooo_clear_def disjoint_segs_def)

text \<open>Disjoint segments inside the window hold at most one window of bytes.\<close>

lemma disjoint_total:
  "disjoint_segs r ss \<Longrightarrow> \<forall>s \<in> set ss. lo \<le> seg_off r s \<and> seg_end r s \<le> hi \<Longrightarrow> lo \<le> hi \<Longrightarrow>
    sum_list (map (\<lambda>s. length (oo_bytes s)) ss) \<le> hi - lo"
proof (induction ss arbitrary: lo)
  case (Cons s ss)
  have "sum_list (map (\<lambda>s. length (oo_bytes s)) ss) \<le> hi - seg_end r s"
    using Cons.prems by (intro Cons.IH) (auto simp: disjoint_segs_def)
  moreover have "lo + length (oo_bytes s) \<le> seg_end r s" "seg_end r s \<le> hi"
    using Cons.prems(2) by (auto simp: seg_end_def)
  ultimately show ?case by simp
qed simp

section \<open>Insertion\<close>

lemma insert_at_position:
  "insert_at (position_or_len P xs) x xs = takeWhile (\<lambda>y. \<not> P y) xs @ x # dropWhile (\<lambda>y. \<not> P y) xs"
  by (induction xs) (auto simp: insert_at_def)

lemma set_insert_at_position [simp]:
  "set (insert_at (position_or_len P xs) x xs) = insert x (set xs)"
  by (induction xs) (auto simp: insert_at_def)

lemma length_insert_at [simp]: "length (insert_at i x xs) = Suc (length xs)"
  by (simp add: insert_at_def)

lemma sum_insert_at:
  "sum_list (map f (insert_at i x xs)) = f x + sum_list (map f xs :: nat list)"
proof -
  have "sum_list (map f xs) = sum_list (map f (take i xs)) + sum_list (map f (drop i xs))"
    by (metis append_take_drop_id map_append sum_list_append)
  then show ?thesis by (simp add: insert_at_def)
qed

lemma disjoint_segs_offs:
  assumes "disjoint_segs r ss" "s \<in> set (dropWhile (\<lambda>s. \<not> seg_off r s > off) ss)"
  shows "seg_off r s > off"
  using assms
proof (induction ss)
  case (Cons a ss)
  show ?case
  proof (cases "seg_off r a > off")
    case True
    then have "s \<in> set (a # ss)" using Cons.prems(2) by simp
    moreover have "t \<in> set ss \<Longrightarrow> seg_off r a \<le> seg_off r t" for t
      using Cons.prems(1) by (fastforce simp: disjoint_segs_def seg_end_def)
    ultimately show ?thesis using True by fastforce
  next
    case False
    with Cons show ?thesis by (simp add: disjoint_segs_def)
  qed
qed simp

lemma disjoint_insert:
  assumes d: "disjoint_segs r ss"
    and no: "\<forall>s \<in> set ss. \<not> (seg_off r n < seg_end r s \<and> seg_off r s < seg_end r n)"
    and ne: "oo_bytes n \<noteq> []"
  shows "disjoint_segs r (insert_at (position_or_len (\<lambda>s. seg_off r s > seg_off r n) ss) n ss)"
proof -
  let ?lo = "takeWhile (\<lambda>s. \<not> seg_off r s > seg_off r n) ss"
  let ?hi = "dropWhile (\<lambda>s. \<not> seg_off r s > seg_off r n) ss"
  have pos: "seg_off r n < seg_end r n" using ne by (simp add: seg_end_def)
  have lo: "seg_end r s \<le> seg_off r n" if "s \<in> set ?lo" for s
    using that no pos by (fastforce dest: set_takeWhileD)
  have hi: "seg_end r n \<le> seg_off r s" if "s \<in> set ?hi" for s
    using disjoint_segs_offs [OF d that] no set_dropWhileD [OF that] by (fastforce simp: seg_end_def)
  have "sorted_wrt (\<lambda>a b. seg_end r a \<le> seg_off r b) (?lo @ ?hi)"
    using d by (simp add: disjoint_segs_def)
  then show ?thesis
    unfolding disjoint_segs_def insert_at_position
    using lo hi pos by (fastforce simp: sorted_wrt_append)
qed

text \<open>The segment an accepted insertion adds.\<close>

definition ooo_new_seg :: "u32 \<Rightarrow> u32 \<Rightarrow> bytes \<Rightarrow> OooSeg" where
  "ooo_new_seg r sq bs = \<lparr>oo_seq_start = sq, oo_bytes = take (OOO_MAX_BYTES - unat (sq - r)) bs\<rparr>"

lemma ooo_insert_cases:
  assumes "ooo_insert r sq bs q = (ok, q')"
  shows "\<not> ok \<and> q' = q \<or>
    ok \<and> bs \<noteq> [] \<and> length (segs q) < OOO_MAX_SEGS \<and> 0 < unat (sq - r) \<and> unat (sq - r) < OOO_MAX_BYTES
    \<and> (\<forall>s \<in> set (segs q). \<not> (seg_off r (ooo_new_seg r sq bs) < seg_end r s
          \<and> seg_off r s < seg_end r (ooo_new_seg r sq bs)))
    \<and> segs q' = insert_at (position_or_len (\<lambda>s. seg_off r s > seg_off r (ooo_new_seg r sq bs)) (segs q))
         (ooo_new_seg r sq bs) (segs q)
    \<and> total_bytes q' = total_bytes q + length (oo_bytes (ooo_new_seg r sq bs))"
  using assms
  by (auto simp: ooo_insert_def Let_def ooo_new_seg_def seg_off_def seg_end_def list_ex_iff not_less
      split: if_splits)

lemma ooo_new_seg_window:
  assumes "bs \<noteq> []" "0 < unat (sq - r)" "unat (sq - r) < OOO_MAX_BYTES"
  shows "seg_in_window r (ooo_new_seg r sq bs)"
  using assms by (auto simp: seg_in_window_def ooo_new_seg_def seg_off_def seg_end_def)

lemma ooo_insert_inv:
  assumes inv: "ooo_inv r q" and ins: "ooo_insert r sq bs q = (ok, q')"
  shows "ooo_inv r q'"
proof -
  let ?n = "ooo_new_seg r sq bs"
  consider "q' = q" |
    "bs \<noteq> []" "length (segs q) < OOO_MAX_SEGS" "seg_in_window r ?n"
    "\<forall>s \<in> set (segs q). \<not> (seg_off r ?n < seg_end r s \<and> seg_off r s < seg_end r ?n)"
    "segs q' = insert_at (position_or_len (\<lambda>s. seg_off r s > seg_off r ?n) (segs q)) ?n (segs q)"
    "total_bytes q' = total_bytes q + length (oo_bytes ?n)"
    using ooo_insert_cases [OF ins] ooo_new_seg_window [of bs sq r] by blast
  then show ?thesis
  proof cases
    case 2
    have "disjoint_segs r (segs q')"
      unfolding 2(5) by (rule disjoint_insert) (use inv 2(3,4) in \<open>auto simp: ooo_inv_def seg_in_window_def\<close>)
    with 2 inv show ?thesis
      by (simp add: ooo_inv_def list_all_iff sum_insert_at)
  qed (use inv in simp)
qed

section \<open>Content\<close>

lemma disjoint_unique:
  assumes "disjoint_segs r ss" "s \<in> set ss" "t \<in> set ss"
    "seg_off r s \<le> k" "k < seg_end r s" "seg_off r t \<le> k" "k < seg_end r t"
  shows "s = t"
proof -
  obtain i j where i: "i < length ss" "s = ss ! i" and j: "j < length ss" "t = ss ! j"
    using assms(2,3) by (auto simp: in_set_conv_nth)
  consider "i < j" | "j < i" | "i = j" by linarith
  then show ?thesis
  proof cases
    case 1
    then have "seg_end r s \<le> seg_off r t"
      using assms(1) i j by (auto simp: disjoint_segs_def dest: sorted_wrt_nth_less)
    with assms show ?thesis by simp
  next
    case 2
    then have "seg_end r t \<le> seg_off r s"
      using assms(1) i j by (auto simp: disjoint_segs_def dest: sorted_wrt_nth_less)
    with assms show ?thesis by simp
  qed (use i j in simp)
qed

lemma ooo_byte_iff:
  assumes "disjoint_segs r (segs q)"
  shows "ooo_byte r q k = Some b \<longleftrightarrow>
    (\<exists>s \<in> set (segs q). seg_off r s \<le> k \<and> k < seg_end r s \<and> b = oo_bytes s ! (k - seg_off r s))"
proof (cases "List.find (\<lambda>s. seg_off r s \<le> k \<and> k < seg_end r s) (segs q)")
  case None
  then have "\<forall>s \<in> set (segs q). \<not> (seg_off r s \<le> k \<and> k < seg_end r s)"
    by (auto simp: find_None_iff)
  with None show ?thesis by (auto simp: ooo_byte_def)
next
  case (Some t)
  then have t: "t \<in> set (segs q)" "seg_off r t \<le> k" "k < seg_end r t"
    by (auto simp: find_Some_iff)
  with Some show ?thesis
    using disjoint_unique [OF assms] by (auto simp: ooo_byte_def)
qed

lemma ooo_insert_byte:
  assumes inv: "ooo_inv r q" and ins: "ooo_insert r sq bs q = (True, q')"
  shows "ooo_byte r q' k =
    (let off = unat (sq - r)
     in if off \<le> k \<and> k < min (off + length bs) OOO_MAX_BYTES then Some (bs ! (k - off))
        else ooo_byte r q k)"
proof -
  let ?n = "ooo_new_seg r sq bs"
  have d: "disjoint_segs r (segs q)" "disjoint_segs r (segs q')"
    using inv ooo_insert_inv [OF inv ins] by (simp_all add: ooo_inv_def)
  have st: "set (segs q') = insert ?n (set (segs q))" and off: "unat (sq - r) < OOO_MAX_BYTES"
    and no: "\<And>s. s \<in> set (segs q) \<Longrightarrow> \<not> (seg_off r ?n < seg_end r s \<and> seg_off r s < seg_end r ?n)"
    using ooo_insert_cases [OF ins] by auto
  have n: "seg_off r ?n = unat (sq - r)" "seg_end r ?n = min (unat (sq - r) + length bs) OOO_MAX_BYTES"
    using off by (auto simp: ooo_new_seg_def seg_off_def seg_end_def)
  show ?thesis
  proof (cases "seg_off r ?n \<le> k \<and> k < seg_end r ?n")
    case True
    then have "ooo_byte r q' k = Some (oo_bytes ?n ! (k - seg_off r ?n))"
      unfolding ooo_byte_iff [OF d(2)] st by blast
    with True n show ?thesis by (auto simp: ooo_new_seg_def)
  next
    case False
    then have "ooo_byte r q' k = Some b \<longleftrightarrow> ooo_byte r q k = Some b" for b
      unfolding ooo_byte_iff [OF d(1)] ooo_byte_iff [OF d(2)] st by auto
    then have "ooo_byte r q' k = ooo_byte r q k"
      by (cases "ooo_byte r q k"; cases "ooo_byte r q' k") auto
    with False n show ?thesis by auto
  qed
qed

text \<open>The byte cap adds nothing to the overlap and window checks: a segment that passes them always
  fits.\<close>

lemma ooo_byte_cap_redundant:
  assumes inv: "ooo_inv r q" and n: "seg_in_window r n"
    and no: "\<forall>s \<in> set (segs q). \<not> (seg_off r n < seg_end r s \<and> seg_off r s < seg_end r n)"
  shows "total_bytes q + length (oo_bytes n) < OOO_MAX_BYTES"
proof -
  let ?ss = "insert_at (position_or_len (\<lambda>s. seg_off r s > seg_off r n) (segs q)) n (segs q)"
  have "disjoint_segs r ?ss"
    by (rule disjoint_insert) (use inv n no in \<open>auto simp: ooo_inv_def seg_in_window_def\<close>)
  then have "sum_list (map (\<lambda>s. length (oo_bytes s)) ?ss) \<le> OOO_MAX_BYTES - 1"
    by (rule disjoint_total)
      (use inv n in \<open>auto simp: ooo_inv_def list_all_iff seg_in_window_def Suc_le_eq tcp_consts\<close>)
  with inv show ?thesis by (simp add: sum_insert_at ooo_inv_def tcp_consts)
qed

section \<open>Taking the segment at the receive pointer\<close>

lemma seg_start_off: "oo_seq_start s = r + of_nat (seg_off r s)"
  by (simp add: seg_off_def)

lemma seg_off_shift:
  "n \<le> seg_off b s \<Longrightarrow> seg_off (b + of_nat n) s = seg_off b s - n"
proof -
  assume n: "n \<le> seg_off b s"
  have lt: "seg_off b s < 4294967296" using unsigned_less [of "oo_seq_start s - b"] by (simp add: seg_off_def)
  have "oo_seq_start s - (b + of_nat n) = (b + of_nat (seg_off b s)) - (b + of_nat n)"
    by (simp add: seg_off_def)
  then have "seg_off (b + of_nat n) s = unat ((b + of_nat (seg_off b s)) - (b + of_nat n))"
    unfolding seg_off_def [of "b + of_nat n" s] by (rule arg_cong)
  also have "\<dots> = seg_off b s - n"
    by (rule unat_of_nat_diff) (use n lt in simp_all)
  finally show ?thesis .
qed

lemma disjoint_tail_above:
  "disjoint_segs b (s # ss) \<Longrightarrow> t \<in> set ss \<Longrightarrow> seg_end b s \<le> seg_off b t"
  by (simp add: disjoint_segs_def)

lemma filter_above:
  assumes "disjoint_segs b (s # ss)" "n < seg_end b s"
  shows "filter (\<lambda>s. n < seg_off b s) ss = ss"
  using disjoint_tail_above [OF assms(1)] assms(2) by (fastforce simp: filter_id_conv)

lemma take_at_loop_correct:
  assumes "n < 2147483648" "disjoint_segs b ss" "\<forall>s \<in> set ss. seg_off b s < 2147483648 \<and> oo_bytes s \<noteq> []"
    "take_at_loop (b + of_nat n) ss (sum_list (map (\<lambda>s. length (oo_bytes s)) ss)) = (res, ss', tot')"
  shows "ss' = filter (\<lambda>s. n < seg_off b s) ss \<and> tot' = sum_list (map (\<lambda>s. length (oo_bytes s)) ss')
    \<and> (case res of
        None \<Rightarrow> (\<forall>s \<in> set ss. seg_end b s \<le> n \<or> n < seg_off b s)
      | Some s \<Rightarrow> s \<in> set ss \<and> seg_off b s \<le> n \<and> n < seg_end b s)"
  using assms(2-4)
proof (induction ss)
  case (Cons s ss)
  have rel: "sint (oo_seq_start s - (b + of_nat n)) = int (seg_off b s) - int n"
    using sint_offsets [of "seg_off b s" n b] assms(1) Cons.prems(2)
    by (simp add: seg_start_off [of s b, symmetric])
  have d: "disjoint_segs b ss" using Cons.prems(1) by (simp add: disjoint_segs_def)
  consider (gap) "n < seg_off b s" | (hit) "seg_off b s \<le> n" "n < seg_end b s" | (old) "seg_end b s \<le> n"
    by linarith
  then show ?case
  proof cases
    case gap
    then have "n < seg_end b s" by (simp add: seg_end_def)
    with gap Cons.prems filter_above [OF Cons.prems(1)] disjoint_tail_above [OF Cons.prems(1)]
    show ?thesis by (fastforce simp: rel Let_def)
  next
    case hit
    with Cons.prems filter_above [OF Cons.prems(1)] show ?thesis
      by (auto simp: rel Let_def seg_end_def)
  next
    case old
    with Cons.prems Cons.IH [OF d] show ?thesis
      by (auto simp: rel Let_def seg_end_def split: option.splits)
  qed
qed simp

lemma seg_in_window_shift:
  "seg_in_window b s \<Longrightarrow> n < seg_off b s \<Longrightarrow> seg_in_window (b + of_nat n) s"
  by (auto simp: seg_in_window_def seg_end_def seg_off_shift)

lemma disjoint_shift:
  assumes "disjoint_segs b ss" "\<forall>s \<in> set ss. n < seg_off b s"
  shows "disjoint_segs (b + of_nat n) ss"
  unfolding disjoint_segs_def
proof (rule sorted_wrt_mono_rel)
  show "sorted_wrt (\<lambda>a t. seg_end b a \<le> seg_off b t) ss" using assms(1) by (simp add: disjoint_segs_def)
  show "seg_end (b + of_nat n) x \<le> seg_off (b + of_nat n) y"
    if "x \<in> set ss" "y \<in> set ss" "seg_end b x \<le> seg_off b y" for x y
    using assms(2) that by (fastforce simp: seg_end_def seg_off_shift)
qed

text \<open>Taking at a receive pointer that moved forward by \<open>n\<close>: what stays is exactly what starts above
  the pointer, the queue is well-formed for the new pointer, and the segment returned, if any,
  covers it.\<close>

lemma take_at_correct:
  assumes inv: "ooo_inv b q" and n: "n < 2147483648" and tk: "take_at (b + of_nat n) q = (res, q')"
  shows "segs q' = filter (\<lambda>s. n < seg_off b s) (segs q)"
    and "case res of
        None \<Rightarrow> (\<forall>s \<in> set (segs q). seg_end b s \<le> n \<or> n < seg_off b s)
      | Some s \<Rightarrow> s \<in> set (segs q) \<and> seg_off b s \<le> n \<and> n < seg_end b s"
    and "ooo_inv (b + of_nat n) q'"
proof -
  obtain ss' tot' where loop: "take_at_loop (b + of_nat n) (segs q) (total_bytes q) = (res, ss', tot')"
    and q': "q' = q\<lparr>segs := ss', total_bytes := tot'\<rparr>"
    using tk by (auto simp: take_at_def split: prod.splits)
  have win: "\<forall>s \<in> set (segs q). seg_off b s < 2147483648 \<and> oo_bytes s \<noteq> []"
    and d: "disjoint_segs b (segs q)"
    using inv by (auto simp: ooo_inv_def list_all_iff seg_in_window_def seg_end_def tcp_consts)
  note res = take_at_loop_correct [OF n d win, of res ss' tot']
  show 1: "segs q' = filter (\<lambda>s. n < seg_off b s) (segs q)"
    and "case res of
        None \<Rightarrow> (\<forall>s \<in> set (segs q). seg_end b s \<le> n \<or> n < seg_off b s)
      | Some s \<Rightarrow> s \<in> set (segs q) \<and> seg_off b s \<le> n \<and> n < seg_end b s"
    using res loop q' inv by (simp_all add: ooo_inv_def)
  have "disjoint_segs (b + of_nat n) (segs q')"
    unfolding 1 by (rule disjoint_shift) (use d in \<open>auto simp: disjoint_segs_def sorted_wrt_filter\<close>)
  moreover have "total_bytes q' = sum_list (map (\<lambda>s. length (oo_bytes s)) (segs q'))"
    using res loop q' inv by (simp add: ooo_inv_def)
  moreover have "length (segs q') \<le> OOO_MAX_SEGS" "list_all (seg_in_window (b + of_nat n)) (segs q')"
    using inv le_trans [OF length_filter_le [of "\<lambda>s. n < seg_off b s" "segs q"]]
    unfolding 1 by (simp_all add: ooo_inv_def list_all_iff seg_in_window_shift)
  ultimately show "ooo_inv (b + of_nat n) q'" by (simp add: ooo_inv_def)
qed

lemma take_at_shrinks:
  assumes "take_at r q = (Some s, q')"
  shows "length (segs q') < length (segs q)"
proof -
  have "take_at_loop r ss tot = (Some s, ss', tot') \<Longrightarrow> length ss' < length ss" for ss ss' tot tot'
    by (induction ss arbitrary: tot) (auto simp: Let_def split: if_splits intro: less_SucI)
  with assms show ?thesis by (fastforce simp: take_at_def split: prod.splits)
qed

section \<open>SACK blocks\<close>

text \<open>The set of window offsets a list of segments and a list of blocks cover.\<close>

definition segs_cover :: "u32 \<Rightarrow> OooSeg list \<Rightarrow> nat set" where
  "segs_cover r ss = (\<Union>s \<in> set ss. {seg_off r s ..< seg_end r s})"

definition blocks_cover :: "u32 \<Rightarrow> (u32 \<times> u32) list \<Rightarrow> nat set" where
  "blocks_cover r bs = (\<Union>(l, h) \<in> set bs. {unat (l - r) ..< unat (h - r)})"

lemma seg_right_edge:
  "seg_end r s < 4294967296 \<Longrightarrow> unat (oo_seq_start s + of_nat (length (oo_bytes s)) - r) = seg_end r s"
proof -
  assume e: "seg_end r s < 4294967296"
  have "oo_seq_start s + of_nat (length (oo_bytes s)) - r = of_nat (seg_end r s)"
    by (simp add: seg_end_def seg_off_def)
  with e show ?thesis by (simp add: unat_of_nat)
qed

text \<open>The loop covers what it covered before plus the segments up to where it stops; it stops only
  when the output is full.\<close>

lemma sack_blocks_loop_cover:
  assumes "\<forall>s \<in> set ss. seg_end r s < 4294967296"
    "\<forall>(l, h) \<in> set out. unat (l - r) \<le> unat (h - r)" "length out \<le> cap"
  shows "\<exists>cov_segs rest. ss = cov_segs @ rest
      \<and> blocks_cover r (sack_blocks_loop cap ss out) = blocks_cover r out \<union> segs_cover r cov_segs
      \<and> length (sack_blocks_loop cap ss out) \<le> cap
      \<and> (rest = [] \<or> length (sack_blocks_loop cap ss out) = cap)"
  using assms
proof (induction ss arbitrary: out)
  case Nil
  then show ?case by (simp add: segs_cover_def)
next
  case (Cons s ss)
  let ?l = "oo_seq_start s" and ?h = "oo_seq_start s + of_nat (length (oo_bytes s))"
  have e: "unat (?h - r) = seg_end r s" "unat (?l - r) = seg_off r s"
    using Cons.prems(1) seg_right_edge [of r s] by (simp_all add: seg_off_def)
  have extend: ?case if step: "sack_blocks_loop cap (s # ss) out = sack_blocks_loop cap ss out'"
    and cov: "blocks_cover r out' = blocks_cover r out \<union> {seg_off r s ..< seg_end r s}"
    and ok: "\<forall>(l, h) \<in> set out'. unat (l - r) \<le> unat (h - r)" "length out' \<le> cap" for out'
  proof -
    obtain cov_segs rest where "ss = cov_segs @ rest"
      "blocks_cover r (sack_blocks_loop cap ss out') = blocks_cover r out' \<union> segs_cover r cov_segs"
      "length (sack_blocks_loop cap ss out') \<le> cap"
      "rest = [] \<or> length (sack_blocks_loop cap ss out') = cap"
      using Cons.IH [OF _ ok] Cons.prems(1) by auto
    then show ?case
      unfolding step by (intro exI [of _ "s # cov_segs"] exI [of _ rest]) (auto simp: cov segs_cover_def)
  qed
  show ?case
  proof (cases out)
    case Nil
    show ?thesis
    proof (cases "cap = 0")
      case True
      with Nil show ?thesis
        by (intro exI [of _ "[]"] exI [of _ "s # ss"]) (simp add: segs_cover_def)
    next
      case False
      with Nil show ?thesis
        by (intro extend [of "[(?l, ?h)]"]) (auto simp: e blocks_cover_def seg_end_def)
    qed
  next
    case out: (Cons b bs)
    obtain l h where b: "b = (l, h)" by (cases b)
    consider "h = ?l" | "h \<noteq> ?l" "length out = cap" | "h \<noteq> ?l" "length out \<noteq> cap" by blast
    then show ?thesis
    proof cases
      case 1
      then have "{unat (l - r) ..< unat (?h - r)} = {unat (l - r) ..< unat (h - r)} \<union> {seg_off r s ..< seg_end r s}"
        using Cons.prems(2) e by (auto simp: out b seg_end_def ivl_disj_un)
      with 1 show ?thesis using Cons.prems
        by (intro extend [of "(l, ?h) # bs"]) (auto simp: e blocks_cover_def out b seg_end_def)
    next
      case 2
      then show ?thesis
        by (intro exI [of _ "[]"] exI [of _ "s # ss"]) (simp add: out b segs_cover_def)
    next
      case 3
      then show ?thesis using Cons.prems
        by (intro extend [of "(?l, ?h) # out"]) (auto simp: e blocks_cover_def out b seg_end_def Let_def)
    qed
  qed
qed

lemma sack_blocks_cover:
  assumes inv: "ooo_inv r q"
  shows "blocks_cover r (sack_blocks cap q) \<subseteq> segs_cover r (segs q)"
    and "length (sack_blocks cap q) \<le> cap"
    and "length (sack_blocks cap q) < cap \<Longrightarrow> blocks_cover r (sack_blocks cap q) = segs_cover r (segs q)"
proof -
  have "\<forall>s \<in> set (segs q). seg_end r s < 4294967296"
    using inv by (auto simp: ooo_inv_def list_all_iff seg_in_window_def tcp_consts)
  then have "\<exists>cov_segs rest. segs q = cov_segs @ rest
      \<and> blocks_cover r (sack_blocks_loop cap (segs q) []) = blocks_cover r [] \<union> segs_cover r cov_segs
      \<and> length (sack_blocks_loop cap (segs q) []) \<le> cap
      \<and> (rest = [] \<or> length (sack_blocks_loop cap (segs q) []) = cap)"
    by (rule sack_blocks_loop_cover) simp_all
  then obtain cov_segs rest where "segs q = cov_segs @ rest"
    "blocks_cover r (sack_blocks_loop cap (segs q) []) = blocks_cover r [] \<union> segs_cover r cov_segs"
    "length (sack_blocks_loop cap (segs q) []) \<le> cap"
    "rest = [] \<or> length (sack_blocks_loop cap (segs q) []) = cap"
    by (elim exE conjE)
  moreover have "blocks_cover r [] = {}" by (simp add: blocks_cover_def)
  moreover have "blocks_cover r (sack_blocks cap q) = blocks_cover r (sack_blocks_loop cap (segs q) [])"
    by (simp add: blocks_cover_def sack_blocks_def)
  ultimately show "blocks_cover r (sack_blocks cap q) \<subseteq> segs_cover r (segs q)"
    "length (sack_blocks cap q) \<le> cap"
    "length (sack_blocks cap q) < cap \<Longrightarrow> blocks_cover r (sack_blocks cap q) = segs_cover r (segs q)"
    by (auto simp: segs_cover_def sack_blocks_def)
qed

lemma segs_cover_bytes:
  "ooo_inv r q \<Longrightarrow> k \<in> segs_cover r (segs q) \<longleftrightarrow> ooo_byte r q k \<noteq> None"
  using ooo_byte_iff [of r q k] by (auto simp: segs_cover_def ooo_inv_def)

section \<open>Properties\<close>

text \<open>C16: Insertion into the reassembly queue keeps the queue well-formed (sorted, disjoint, inside
  one receive window above the pointer, byte count exact, at most 32 segments), whatever segment
  arrives. An accepted segment adds exactly its bytes, cut at the window's end, and changes no byte
  already buffered; a rejected one changes nothing.\<close>

theorem ooo_insert_correct:
  assumes "ooo_inv rcv_nxt q" and "ooo_insert rcv_nxt sq bs q = (ok, q')"
  shows "ooo_inv rcv_nxt q' \<and>
    (if ok then \<forall>k. ooo_byte rcv_nxt q' k =
        (let off = unat (sq - rcv_nxt)
         in if off \<le> k \<and> k < min (off + length bs) OOO_MAX_BYTES then Some (bs ! (k - off))
            else ooo_byte rcv_nxt q k)
     else q' = q)"
  using assms ooo_insert_inv [OF assms] ooo_insert_byte [OF assms(1), of sq bs q'] ooo_insert_cases [OF assms(2)]
  by (auto simp: Let_def)

theorem ooo_insert_correct_witness:
  "ooo_inv 1000 (snd (ooo_insert 1000 1100 [7, 8] ooo_new))
    \<and> ooo_byte 1000 (snd (ooo_insert 1000 1100 [7, 8] ooo_new)) 101 = Some 8"
proof -
  have "ooo_insert 1000 1100 [7, 8] ooo_new =
      (True, \<lparr>segs = [\<lparr>oo_seq_start = 1100, oo_bytes = [7, 8]\<rparr>], total_bytes = 2\<rparr>)"
    by (simp add: ooo_insert_def ooo_new_def tcp_consts Let_def insert_at_def)
  with ooo_insert_correct [OF ooo_inv_new this] show ?thesis by (simp add: tcp_consts)
qed

text \<open>A segment that passes the emptiness, count, window and overlap checks is always buffered:
  the separate cap on the total bytes never rejects one.\<close>

theorem ooo_insert_accepts:
  assumes inv: "ooo_inv rcv_nxt q" and "bs \<noteq> []" and "length (segs q) < OOO_MAX_SEGS"
    and off: "0 < unat (sq - rcv_nxt)" "unat (sq - rcv_nxt) < OOO_MAX_BYTES"
    and free: "\<And>k. unat (sq - rcv_nxt) \<le> k \<Longrightarrow> k < unat (sq - rcv_nxt) + length bs \<Longrightarrow>
      k < OOO_MAX_BYTES \<Longrightarrow> ooo_byte rcv_nxt q k = None"
  shows "fst (ooo_insert rcv_nxt sq bs q)"
proof -
  let ?n = "ooo_new_seg rcv_nxt sq bs"
  have n: "seg_in_window rcv_nxt ?n" by (rule ooo_new_seg_window [OF assms(2) off])
  have edges: "seg_off rcv_nxt ?n = unat (sq - rcv_nxt)"
    "seg_end rcv_nxt ?n = min (unat (sq - rcv_nxt) + length bs) OOO_MAX_BYTES"
    using off by (auto simp: ooo_new_seg_def seg_off_def seg_end_def)
  have no: "\<forall>s \<in> set (segs q). \<not> (seg_off rcv_nxt ?n < seg_end rcv_nxt s \<and> seg_off rcv_nxt s < seg_end rcv_nxt ?n)"
  proof (intro ballI notI)
    fix s assume s: "s \<in> set (segs q)"
      and ov: "seg_off rcv_nxt ?n < seg_end rcv_nxt s \<and> seg_off rcv_nxt s < seg_end rcv_nxt ?n"
    let ?k = "max (seg_off rcv_nxt ?n) (seg_off rcv_nxt s)"
    have "?k \<in> segs_cover rcv_nxt (segs q)"
      using s ov inv by (auto simp: segs_cover_def ooo_inv_def list_all_iff seg_in_window_def seg_end_def
          intro!: bexI [OF _ s])
    moreover have "ooo_byte rcv_nxt q ?k = None"
      using ov edges off assms(2) by (intro free) auto
    ultimately show False using segs_cover_bytes [OF inv] by blast
  qed
  from ooo_byte_cap_redundant [OF inv n no] no assms(2-5) show ?thesis
    by (auto simp: ooo_insert_def Let_def ooo_new_seg_def seg_off_def seg_end_def list_ex_iff)
qed

theorem ooo_insert_accepts_witness:
  "fst (ooo_insert 1000 1102 [9] (snd (ooo_insert 1000 1100 [7, 8] ooo_new)))"
proof -
  let ?q = "snd (ooo_insert 1000 1100 [7, 8] ooo_new)"
  have "?q = \<lparr>segs = [\<lparr>oo_seq_start = 1100, oo_bytes = [7, 8]\<rparr>], total_bytes = 2\<rparr>"
    by (simp add: ooo_insert_def ooo_new_def tcp_consts Let_def insert_at_def)
  moreover have "ooo_inv 1000 ?q" using ooo_insert_inv [OF ooo_inv_new] by (metis prod.collapse)
  ultimately show ?thesis
    by (intro ooo_insert_accepts) (auto simp: tcp_consts ooo_byte_def seg_off_def seg_end_def)
qed

text \<open>The SACK blocks announced are sound and, while the option has room, complete: every offset
  a block covers is buffered, at most \<open>cap\<close> blocks are written, and when fewer are written every
  buffered byte is inside a block.\<close>

theorem sack_blocks_exact:
  assumes "ooo_inv rcv_nxt q"
  shows "(\<forall>k \<in> blocks_cover rcv_nxt (sack_blocks cap q). ooo_byte rcv_nxt q k \<noteq> None)
    \<and> length (sack_blocks cap q) \<le> cap
    \<and> (length (sack_blocks cap q) < cap \<longrightarrow>
        (\<forall>k. ooo_byte rcv_nxt q k \<noteq> None \<longrightarrow> k \<in> blocks_cover rcv_nxt (sack_blocks cap q)))"
  using sack_blocks_cover [OF assms, of cap] segs_cover_bytes [OF assms] by blast

theorem sack_blocks_exact_witness:
  "sack_blocks 3 (snd (ooo_insert 1000 1102 [9] (snd (ooo_insert 1000 1100 [7, 8] ooo_new)))) = [(1100, 1103)]
   \<and> ooo_byte 1000 (snd (ooo_insert 1000 1102 [9] (snd (ooo_insert 1000 1100 [7, 8] ooo_new)))) 102 \<noteq> None"
proof -
  let ?q1 = "snd (ooo_insert 1000 1100 [7, 8] ooo_new)"
  let ?q = "snd (ooo_insert 1000 1102 [9] ?q1)"
  have "ooo_inv 1000 ?q1" using ooo_insert_inv [OF ooo_inv_new] by (metis prod.collapse)
  then have "ooo_inv 1000 ?q" using ooo_insert_inv by (metis prod.collapse)
  moreover have blk: "sack_blocks 3 ?q = [(1100, 1103)]"
    by (simp add: ooo_insert_def ooo_new_def tcp_consts Let_def insert_at_def sack_blocks_def
        seg_end_def seg_off_def)
  ultimately show ?thesis
    using sack_blocks_exact [of 1000 ?q 3] by (simp add: blocks_cover_def)
qed

end
