(* ===== verification/Tcp_Conn.thy ===== *)
theory Tcp_Conn
  imports Tcp_Types Ooo_Queue Congestion Loss_Detection
begin

text \<open>
  The connection control block \<open>TcpConnection\<close> of \<open>crates/net/tcp/src/state.rs\<close> and the receive-side
  methods on it: construction and reset, the receive ring, delivery, the draining of the
  out-of-order queue, and the window update.

  The record \<open>tcb\<close> has the fields of the struct. A waker is an opaque id; an \<open>IOBuf\<close> is the byte
  string it exposes. A method that also sends, reads the clock or arms a timer works on \<open>conn\<close>, the
  control block together with the environment of the handler.
\<close>

section \<open>Control block\<close>

record RtxEntry =
  rx_iobuf :: bytes
  re_seq_start :: u32
  re_len :: nat
  first_tx_ms :: nat
  last_tx_ms :: nat
  tx_count :: nat
  sacked :: bool

record tcb =
  state :: TcpState
  remote_ip :: IpAddr
  local_ip :: IpAddr
  local_port :: u16
  remote_port :: u16
  snd_nxt :: u32
  snd_una :: u32
  snd_wnd :: nat
  snd_wscale :: nat
  snd_mss :: nat
  wscale_ok :: bool
  sack_ok :: bool
  snd_wl1 :: u32
  snd_wl2 :: u32
  rcv_nxt :: u32
  rcv_wnd :: nat
  rx_ring :: "bytes option"
  rx_head :: nat
  rx_tail :: nat
  rx_used :: nat
  chunk_wanted :: bool
  pending_chunk :: "bytes option"
  listener_port :: u16
  accepted :: bool
  connect_failure :: ConnectFailure
  generation :: nat
  recv_waker :: "nat option"
  send_waker :: "nat option"
  rtx_queue :: "RtxEntry list"
  rtx_bytes_in_flight :: nat
  rtx_alloc_failed :: bool
  rto_ms :: nat
  rtx_deadline_ms :: nat
  rtx_backoff :: nat
  srtt_ms :: nat
  rttvar_ms :: nat
  rtt_seeded :: bool
  rtt_anchor_ms :: nat
  rtt_anchor_seq :: u32
  rtt_anchor_active :: bool
  lifecycle_deadline_ms :: nat
  fin_retx_count :: nat
  persist_deadline_ms :: nat
  persist_backoff :: nat
  tlp_deadline_ms :: nat
  tlp_count :: nat
  rack_deadline_ms :: nat
  rack_sack_hint :: bool
  cwnd :: nat
  dup_acks :: nat
  cc :: Controller
  next_free :: nat
  slot_index :: nat
  tick_next :: nat
  tick_in_list :: bool
  ooo :: OooQueue

definition tcb_new :: tcb where
  "tcb_new = \<lparr>state = Closed, remote_ip = V4_ANY, local_ip = V4_ANY, local_port = 0,
     remote_port = 0, snd_nxt = 0, snd_una = 0, snd_wnd = 0, snd_wscale = 0, snd_mss = MSS_MAX,
     wscale_ok = False, sack_ok = False, snd_wl1 = 0, snd_wl2 = 0, rcv_nxt = 0,
     rcv_wnd = RX_RING_BYTES, rx_ring = None, rx_head = 0, rx_tail = 0, rx_used = 0,
     chunk_wanted = False, pending_chunk = None, listener_port = 0, accepted = False,
     connect_failure = NoFailure, generation = 0, recv_waker = None, send_waker = None,
     rtx_queue = [], rtx_bytes_in_flight = 0, rtx_alloc_failed = False, rto_ms = RTO_INITIAL_MS,
     rtx_deadline_ms = 0, rtx_backoff = 0, srtt_ms = 0, rttvar_ms = 0, rtt_seeded = False,
     rtt_anchor_ms = 0, rtt_anchor_seq = 0, rtt_anchor_active = False, lifecycle_deadline_ms = 0,
     fin_retx_count = 0, persist_deadline_ms = 0, persist_backoff = 0, tlp_deadline_ms = 0,
     tlp_count = 0, rack_deadline_ms = 0, rack_sack_hint = False, cwnd = 0, dup_acks = 0,
     cc = ctl_with_default_mss, next_free = NULL_SLOT, slot_index = 0, tick_next = NULL_SLOT,
     tick_in_list = False, ooo = ooo_new\<rparr>"

definition reset_preserving :: "nat \<Rightarrow> tcb \<Rightarrow> tcb" where
  "reset_preserving next_gen c =
     (let ring = rx_ring c;
          q = ooo_clear (ooo c);
          slot = slot_index c
      in tcb_new\<lparr>generation := next_gen, rx_ring := ring, rtx_queue := [], ooo := q,
                 slot_index := slot\<rparr>)"

text \<open>The control block inside a handler.\<close>

record conn = tcb +
  cenv :: env

definition attach :: "tcb \<Rightarrow> env \<Rightarrow> conn" where
  "attach c e = tcb.extend c (conn.fields e)"

definition detach :: "conn \<Rightarrow> tcb \<times> env" where
  "detach c = (tcb.truncate c, cenv c)"

definition clock :: "conn \<Rightarrow> nat" where
  "clock c = now_ms (cenv c)"

definition emit :: "SegmentMeta \<Rightarrow> bytes \<Rightarrow> bytes \<Rightarrow> conn \<Rightarrow> conn" where
  "emit m payload options c = c\<lparr>cenv := send_segment_opts m payload options (cenv c)\<rparr>"

definition arm_for_tick :: "conn \<Rightarrow> conn" where
  "arm_for_tick c =
     (if tick_in_list c then c
      else c\<lparr>tick_next := tick_head (cenv c), tick_in_list := True,
             cenv := (cenv c)\<lparr>tick_head := slot_index c\<rparr>\<rparr>)"

section \<open>Receive ring\<close>

definition ensure_rx_ring :: "conn \<Rightarrow> bool \<times> conn" where
  "ensure_rx_ring c =
     (case rx_ring c of
        Some r \<Rightarrow> (True, c)
      | None \<Rightarrow> (let (ok, e) = try_alloc (cenv c); c1 = c\<lparr>cenv := e\<rparr>
                 in if \<not> ok then (False, c1)
                    else (True, c1\<lparr>rx_ring := Some (replicate RX_RING_BYTES 0)\<rparr>)))"

definition rx_free :: "'a tcb_scheme \<Rightarrow> nat" where
  "rx_free c = (RX_RING_BYTES - 1) - rx_used c"

text \<open>\<open>ring[pos .. pos + length src].copy_from_slice(src)\<close>\<close>

definition copy_into :: "nat \<Rightarrow> 'b list \<Rightarrow> 'b list \<Rightarrow> 'b list" where
  "copy_into pos src dst = take pos dst @ src @ drop (pos + length src) dst"

definition rx_ring_push :: "bytes \<Rightarrow> 'a tcb_scheme \<Rightarrow> nat \<times> 'a tcb_scheme" where
  "rx_ring_push payload c =
     (if payload = [] then (0, c)
      else let free = rx_free c
      in if free = 0 then (0, c)
      else let n = min (length payload) free
      in case rx_ring c of
          None \<Rightarrow> (0, c)
        | Some ring \<Rightarrow>
            let tail = rx_tail c;
                ring' = (if tail + n \<le> RX_RING_BYTES then copy_into tail (take n payload) ring
                  else let fst_len = RX_RING_BYTES - tail
                       in copy_into 0 (drop fst_len (take n payload))
                            (copy_into tail (take fst_len payload) ring))
            in (n, c\<lparr>rx_ring := Some ring', rx_tail := as_u16 ((tail + n) mod RX_RING_BYTES),
                    rx_used := as_u16 (rx_used c + as_u16 n)\<rparr>))"

definition deliver_payload :: "bytes \<Rightarrow> 'a tcb_scheme \<Rightarrow> nat \<times> 'a tcb_scheme" where
  "deliver_payload payload c = rx_ring_push payload c"

text \<open>The loop of \<open>drain_ooo\<close>; each round takes a segment off the queue.\<close>

function drain_ooo_loop :: "nat \<Rightarrow> 'a tcb_scheme \<Rightarrow> nat \<times> 'a tcb_scheme" where
  "drain_ooo_loop delivered c =
     (case take_at (rcv_nxt c) (ooo c) of
        (None, q) \<Rightarrow> (delivered, c\<lparr>ooo := q\<rparr>)
      | (Some seg, q) \<Rightarrow>
          (let c1 = c\<lparr>ooo := q\<rparr>;
               skip = unat (rcv_nxt c1 - oo_seq_start seg);
               tail = drop skip (oo_bytes seg);
               (pushed, c2) = rx_ring_push tail c1;
               c3 = c2\<lparr>rcv_nxt := rcv_nxt c2 + of_nat pushed\<rparr>
           in if pushed < length tail then (delivered + pushed, c3)
              else drain_ooo_loop (delivered + pushed) c3))"
  by pat_completeness auto

lemma rx_ring_push_frame:
  assumes "rx_ring_push p c = (n, c')"
  shows "ooo c' = ooo c" "rcv_nxt c' = rcv_nxt c" "tcb.more c' = tcb.more c"
  using assms by (auto simp: rx_ring_push_def Let_def split: if_splits option.splits)

termination drain_ooo_loop
  by (relation "measure (\<lambda>(d, c). length (segs (ooo c)))")
    (auto intro: take_at_shrinks [OF sym] simp: rx_ring_push_frame(1) [OF sym])

declare drain_ooo_loop.simps [simp del]

definition drain_ooo :: "'a tcb_scheme \<Rightarrow> nat \<times> 'a tcb_scheme" where
  "drain_ooo c = drain_ooo_loop 0 c"

definition seg_of :: "'a tcb_scheme \<Rightarrow> u32 \<Rightarrow> u8 \<Rightarrow> nat \<Rightarrow> SegmentMeta" where
  "seg_of c sq fl w =
     \<lparr>sm_local_ip = local_ip c, sm_dst_ip = remote_ip c, sm_src_port = local_port c,
      sm_dst_port = remote_port c, sm_seq = sq, sm_ack = rcv_nxt c, sm_flags = fl, sm_window = w\<rparr>"

definition maybe_send_window_update :: "conn \<Rightarrow> conn" where
  "maybe_send_window_update c =
     (if state c \<noteq> Established then c
      else let mss = as_u16 (mss_for (local_ip c));
               free = as_u16 (rx_free c)
           in if rcv_wnd c < mss \<and> free \<ge> mss
              then let c1 = c\<lparr>rcv_wnd := free\<rparr>
                   in emit (seg_of c1 (snd_nxt c1) TCP_ACK free) [] [] c1
              else c)"

text \<open>\<open>rx_pop\<close> with the output buffer as its length; the bytes copied out are the first result.\<close>

definition rx_pop :: "nat \<Rightarrow> conn \<Rightarrow> bytes \<times> conn" where
  "rx_pop out_len c =
     (if out_len = 0 \<or> rx_used c = 0 then ([], c)
      else case rx_ring c of
          None \<Rightarrow> ([], c)
        | Some ring \<Rightarrow>
            let tk = min out_len (rx_used c);
                head = rx_head c;
                out = (if head + tk \<le> RX_RING_BYTES then take tk (drop head ring)
                       else let fst_len = RX_RING_BYTES - head
                            in drop head ring @ take (tk - fst_len) ring);
                c1 = c\<lparr>rx_head := as_u16 ((head + tk) mod RX_RING_BYTES),
                       rx_used := rx_used c - as_u16 tk\<rparr>
            in (out, maybe_send_window_update c1))"

section \<open>The ring is a byte queue\<close>

definition rx_inv :: "'a tcb_scheme \<Rightarrow> bool" where
  "rx_inv c \<longleftrightarrow> rx_head c < RX_RING_BYTES \<and> rx_used c < RX_RING_BYTES
     \<and> rx_tail c = (rx_head c + rx_used c) mod RX_RING_BYTES
     \<and> (case rx_ring c of None \<Rightarrow> rx_used c = 0 | Some ring \<Rightarrow> length ring = RX_RING_BYTES)"

definition rx_content :: "'a tcb_scheme \<Rightarrow> bytes" where
  "rx_content c = (case rx_ring c of
       None \<Rightarrow> []
     | Some ring \<Rightarrow> map (\<lambda>i. ring ! ((rx_head c + i) mod RX_RING_BYTES)) [0..<rx_used c])"

lemma length_rx_content: "rx_inv c \<Longrightarrow> length (rx_content c) = rx_used c"
  by (auto simp: rx_content_def rx_inv_def split: option.split)

lemma length_copy_into:
  "pos + length src \<le> length dst \<Longrightarrow> length (copy_into pos src dst) = length dst"
  by (simp add: copy_into_def)

lemma nth_copy_into:
  assumes "pos + length src \<le> length dst" "i < length dst"
  shows "copy_into pos src dst ! i =
    (if pos \<le> i \<and> i < pos + length src then src ! (i - pos) else dst ! i)"
  using assms by (auto simp: copy_into_def nth_append min_def)

text \<open>Writing \<open>n\<close> bytes cyclically from \<open>tail\<close>, as one copy or as two.\<close>

definition ring_put :: "nat \<Rightarrow> nat \<Rightarrow> 'b list \<Rightarrow> 'b list \<Rightarrow> 'b list" where
  "ring_put tail n p ring = (if tail + n \<le> length ring then copy_into tail (take n p) ring
      else copy_into 0 (drop (length ring - tail) (take n p))
        (copy_into tail (take (length ring - tail) p) ring))"

lemma ring_put_length:
  assumes "tail < length ring" "n \<le> length p" "n \<le> length ring"
  shows "length (ring_put tail n p ring) = length ring"
  using assms by (auto simp: ring_put_def length_copy_into)

lemma ring_put_nth:
  assumes t: "tail < length ring" and n: "n \<le> length p" "n \<le> length ring" and j: "j < length ring"
  shows "ring_put tail n p ring ! ((tail + j) mod length ring) =
    (if j < n then p ! j else ring ! ((tail + j) mod length ring))"
proof (cases "tail + n \<le> length ring")
  case True
  have md: "(tail + j) mod length ring = (if tail + j < length ring then tail + j else tail + j - length ring)"
    using t j by (simp add: mod_if)
  show ?thesis using True t j n by (auto simp: ring_put_def nth_copy_into md)
next
  case False
  let ?N = "length ring"
  let ?mid = "copy_into tail (take (?N - tail) p) ring"
  have mid: "length ?mid = ?N" using False t n by (simp add: length_copy_into)
  have len: "length (drop (?N - tail) (take n p)) = n - (?N - tail)" using n by simp
  have put: "ring_put tail n p ring = copy_into 0 (drop (?N - tail) (take n p)) ?mid"
    using False by (simp add: ring_put_def)
  show ?thesis
  proof (cases "tail + j < ?N")
    case True
    have "\<not> tail + j < n - (?N - tail)" using n(2) t by linarith
    then have "ring_put tail n p ring ! (tail + j) = ?mid ! (tail + j)"
      unfolding put using mid len n(2) True by (subst nth_copy_into) (simp_all only: len, simp_all)
    also have "\<dots> = p ! j" using True False t n by (subst nth_copy_into) simp_all
    finally show ?thesis using True False by simp
  next
    case wrap: False
    then have md: "(tail + j) mod ?N = tail + j - ?N" using t j by (simp add: mod_if)
    show ?thesis
    proof (cases "j < n")
      case True
      then have "ring_put tail n p ring ! (tail + j - ?N) = drop (?N - tail) (take n p) ! (tail + j - ?N)"
        unfolding put using mid len n wrap t j by (subst nth_copy_into) auto
      also have "\<dots> = p ! j" using True wrap t n by simp
      finally show ?thesis using True md by simp
    next
      case False
      then have "ring_put tail n p ring ! (tail + j - ?N) = ?mid ! (tail + j - ?N)"
        unfolding put using mid len n wrap t j by (subst nth_copy_into) auto
      also have "\<dots> = ring ! (tail + j - ?N)"
        using wrap t j n \<open>\<not> tail + n \<le> ?N\<close> by (subst nth_copy_into) auto
      finally show ?thesis using False md by simp
    qed
  qed
qed

lemma rx_ring_push_eq:
  "rx_ring_push p c =
    (case rx_ring c of
       None \<Rightarrow> (0, c)
     | Some ring \<Rightarrow> let n = min (length p) (rx_free c)
        in if n = 0 then (0, c)
           else (n, c\<lparr>rx_ring := Some (if rx_tail c + n \<le> RX_RING_BYTES then copy_into (rx_tail c) (take n p) ring
                  else copy_into 0 (drop (RX_RING_BYTES - rx_tail c) (take n p))
                         (copy_into (rx_tail c) (take (RX_RING_BYTES - rx_tail c) p) ring)),
                 rx_tail := as_u16 ((rx_tail c + n) mod RX_RING_BYTES),
                 rx_used := as_u16 (rx_used c + as_u16 n)\<rparr>))"
  by (cases "p = [] \<or> rx_free c = 0") (auto simp: rx_ring_push_def Let_def min_def split: option.split)

text \<open>A push appends exactly the prefix it reports, which is all of the payload that fits.\<close>

lemma rx_ring_push_correct:
  assumes inv: "rx_inv c" and push: "rx_ring_push p c = (n, c')"
  shows "rx_inv c'" "rx_content c' = rx_content c @ take n p"
    "n = (if rx_ring c = None then 0 else min (length p) (rx_free c))" "n \<le> length p"
proof -
  have "rx_inv c' \<and> rx_content c' = rx_content c @ take n p
    \<and> n = (if rx_ring c = None then 0 else min (length p) (rx_free c))"
  proof (cases "rx_ring c")
    case None
    with push inv show ?thesis by (auto simp: rx_ring_push_eq)
  next
    case (Some ring)
    let ?N = RX_RING_BYTES
    let ?n = "min (length p) (rx_free c)"
    show ?thesis
    proof (cases "?n = 0")
      case True
      with push inv Some show ?thesis by (auto simp: rx_ring_push_eq)
    next
      case False
      have len: "length ring = ?N" and hd: "rx_head c < ?N" and us: "rx_used c < ?N"
        and tl: "rx_tail c = (rx_head c + rx_used c) mod ?N"
        using inv Some by (auto simp: rx_inv_def)
      have tlN: "rx_tail c < ?N" unfolding tl by (simp add: tcp_consts)
      have fit: "rx_used c + ?n < ?N" using us by (simp add: rx_free_def tcp_consts)
      have ids: "as_u16 ?n = ?n" "as_u16 (rx_used c + ?n) = rx_used c + ?n"
        "as_u16 ((rx_tail c + ?n) mod ?N) = (rx_tail c + ?n) mod ?N"
        using fit by (simp_all add: as_u16_def tcp_consts)
      have "rx_ring_push p c = (?n, c\<lparr>rx_ring := Some (ring_put (rx_tail c) ?n p ring),
          rx_tail := (rx_tail c + ?n) mod ?N, rx_used := rx_used c + ?n\<rparr>)"
        using False unfolding rx_ring_push_eq Some Let_def ring_put_def len ids
        by (simp only: option.case if_False)
      then have n: "n = ?n" and c': "c' = c\<lparr>rx_ring := Some (ring_put (rx_tail c) ?n p ring),
          rx_tail := (rx_tail c + ?n) mod ?N, rx_used := rx_used c + ?n\<rparr>"
        using push by simp_all
      have len': "length (ring_put (rx_tail c) ?n p ring) = ?N"
        using ring_put_length [of "rx_tail c" ring ?n p] tlN len fit by simp
      have "rx_inv c'"
        using hd fit len' by (simp add: c' rx_inv_def tl mod_simps add.assoc)
      moreover have "rx_content c' = rx_content c @ take n p"
      proof (rule nth_equalityI)
        show "length (rx_content c') = length (rx_content c @ take n p)"
          using Some n by (simp add: c' rx_content_def)
        fix i assume "i < length (rx_content c')"
        then have i: "i < rx_used c + ?n" by (simp add: c' rx_content_def)
        define j where "j = (if i < rx_used c then ?N - rx_used c + i else i - rx_used c)"
        have jN: "j < ?N" and jn: "j < ?n \<longleftrightarrow> \<not> i < rx_used c" using i fit us by (auto simp: j_def)
        have pos: "(rx_head c + i) mod ?N = (rx_tail c + j) mod ?N"
        proof (cases "i < rx_used c")
          case True
          then have "rx_head c + rx_used c + j = rx_head c + i + ?N" using us by (simp add: j_def)
          then show ?thesis by (metis tl mod_add_left_eq mod_add_self2)
        next
          case False
          then have "rx_head c + rx_used c + j = rx_head c + i" by (simp add: j_def)
          then show ?thesis by (metis tl mod_add_left_eq)
        qed
        have "rx_content c' ! i = ring_put (rx_tail c) ?n p ring ! ((rx_tail c + j) mod ?N)"
          using i by (simp add: c' rx_content_def pos)
        also have "\<dots> = (if j < ?n then p ! j else ring ! ((rx_tail c + j) mod ?N))"
          using ring_put_nth [of "rx_tail c" ring ?n p j] tlN len fit jN by simp
        also have "\<dots> = (rx_content c @ take n p) ! i"
          using i jn n Some by (auto simp: nth_append rx_content_def pos [symmetric]) (simp add: j_def)
        finally show "rx_content c' ! i = (rx_content c @ take n p) ! i" .
      qed
      ultimately show ?thesis using n Some by simp
    qed
  qed
  then show "rx_inv c'" "rx_content c' = rx_content c @ take n p"
    "n = (if rx_ring c = None then 0 else min (length p) (rx_free c))" "n \<le> length p" by simp_all
qed

lemma maybe_send_window_update_frame [simp]:
  "rx_ring (maybe_send_window_update c) = rx_ring c" "rx_head (maybe_send_window_update c) = rx_head c"
  "rx_tail (maybe_send_window_update c) = rx_tail c" "rx_used (maybe_send_window_update c) = rx_used c"
  "ooo (maybe_send_window_update c) = ooo c" "rcv_nxt (maybe_send_window_update c) = rcv_nxt c"
  "state (maybe_send_window_update c) = state c" "pending_chunk (maybe_send_window_update c) = pending_chunk c"
  by (simp_all add: maybe_send_window_update_def emit_def Let_def)

lemma rx_fields_cong:
  assumes "rx_ring c' = rx_ring c" "rx_head c' = rx_head c" "rx_tail c' = rx_tail c" "rx_used c' = rx_used c"
  shows "rx_inv c' = rx_inv c" "rx_content c' = rx_content c"
  using assms by (auto simp: rx_inv_def rx_content_def split: option.split)

lemma ring_get:
  assumes "head < length ring" "k \<le> length ring"
  shows "(if head + k \<le> length ring then take k (drop head ring)
      else drop head ring @ take (k - (length ring - head)) ring)
    = map (\<lambda>i. ring ! ((head + i) mod length ring)) [0..<k]"
proof (rule nth_equalityI)
  show "length (if head + k \<le> length ring then take k (drop head ring)
      else drop head ring @ take (k - (length ring - head)) ring)
    = length (map (\<lambda>i. ring ! ((head + i) mod length ring)) [0..<k])"
    using assms by simp
  fix i assume "i < length (if head + k \<le> length ring then take k (drop head ring)
      else drop head ring @ take (k - (length ring - head)) ring)"
  then have i: "i < k" using assms by (simp split: if_splits)
  have md: "(head + i) mod length ring = (if head + i < length ring then head + i else head + i - length ring)"
    using assms i by (simp add: mod_if)
  show "(if head + k \<le> length ring then take k (drop head ring)
      else drop head ring @ take (k - (length ring - head)) ring) ! i
    = map (\<lambda>i. ring ! ((head + i) mod length ring)) [0..<k] ! i"
  proof (cases "head + i < length ring")
    case True
    then show ?thesis using i assms by (auto simp: nth_append md)
  next
    case False
    then show ?thesis using i assms by (auto simp: nth_append md add.commute)
  qed
qed

text \<open>A pop returns the oldest bytes, as many as were asked for and are there, and removes them.\<close>

lemma rx_pop_correct:
  assumes inv: "rx_inv c" and pop: "rx_pop k c = (out, c')"
  shows "rx_inv c'" "out = take k (rx_content c)" "rx_content c' = drop k (rx_content c)"
proof -
  have "rx_inv c' \<and> out = take k (rx_content c) \<and> rx_content c' = drop k (rx_content c)"
  proof (cases "k = 0 \<or> rx_used c = 0")
    case True
    then show ?thesis using pop inv by (auto simp: rx_pop_def rx_content_def split: option.split)
  next
    case False
    then obtain ring where Some: "rx_ring c = Some ring"
      using inv by (auto simp: rx_inv_def split: option.splits)
    let ?N = RX_RING_BYTES and ?t = "min k (rx_used c)"
    have len: "length ring = ?N" and hd: "rx_head c < ?N" and us: "rx_used c < ?N"
      and tl: "rx_tail c = (rx_head c + rx_used c) mod ?N"
      using inv Some by (auto simp: rx_inv_def)
    define c1 where "c1 = c\<lparr>rx_head := (rx_head c + ?t) mod ?N, rx_used := rx_used c - ?t\<rparr>"
    have id: "as_u16 ((rx_head c + ?t) mod ?N) = (rx_head c + ?t) mod ?N" "as_u16 ?t = ?t"
      using us by (simp_all add: as_u16_def tcp_consts)
    have "?t \<le> length ring" using us len by simp
    from ring_get [OF hd [folded len] this]
    have out: "out = map (\<lambda>i. ring ! ((rx_head c + i) mod ?N)) [0..<?t]"
      and c': "c' = maybe_send_window_update c1"
      using pop False unfolding rx_pop_def Some Let_def id c1_def len
      by (simp_all only: option.case if_False prod.inject)
    have fields: "rx_ring c' = Some ring" "rx_head c' = (rx_head c + ?t) mod ?N" "rx_tail c' = rx_tail c"
      "rx_used c' = rx_used c - ?t"
      by (simp_all add: c' c1_def Some)
    have "((rx_head c + ?t) mod ?N + (rx_used c - ?t)) mod ?N = (rx_head c + ?t + (rx_used c - ?t)) mod ?N"
      by (rule mod_add_left_eq)
    then have "rx_inv c'"
      using us len by (simp add: rx_inv_def fields tl tcp_consts)
    moreover have "out = take k (rx_content c)"
      by (cases "k \<le> rx_used c") (simp_all add: out rx_content_def Some take_map min_def)
    moreover have "rx_content c' = drop k (rx_content c)"
      by (rule nth_equalityI) (auto simp: rx_content_def fields Some mod_simps min_def add.assoc)
    ultimately show ?thesis by blast
  qed
  then show "rx_inv c'" "out = take k (rx_content c)" "rx_content c' = drop k (rx_content c)" by simp_all
qed

section \<open>The queue interface\<close>

text \<open>A bounded byte queue: what its clients rely on. A run of pushes and pops hands out exactly the
  accepted bytes, in order, none lost and none repeated.\<close>

datatype q_op = Push bytes | Pop nat

text \<open>The accepted bytes, the bytes handed out, and the final state.\<close>

fun q_run :: "(bytes \<Rightarrow> 's \<Rightarrow> nat \<times> 's) \<Rightarrow> (nat \<Rightarrow> 's \<Rightarrow> bytes \<times> 's) \<Rightarrow> q_op list \<Rightarrow> 's
    \<Rightarrow> bytes \<times> bytes \<times> 's" where
  "q_run push pop [] s = ([], [], s)"
| "q_run push pop (Push p # ops) s =
     (let (n, s1) = push p s; (i, out, s2) = q_run push pop ops s1 in (take n p @ i, out, s2))"
| "q_run push pop (Pop k # ops) s =
     (let (b, s1) = pop k s; (i, out, s2) = q_run push pop ops s1 in (i, b @ out, s2))"

locale byte_queue =
  fixes invar :: "'s \<Rightarrow> bool"
    and content :: "'s \<Rightarrow> bytes"
    and push :: "bytes \<Rightarrow> 's \<Rightarrow> nat \<times> 's"
    and pop :: "nat \<Rightarrow> 's \<Rightarrow> bytes \<times> 's"
  assumes push_inv: "invar s \<Longrightarrow> push p s = (n, s') \<Longrightarrow> invar s'"
    and push_content: "invar s \<Longrightarrow> push p s = (n, s') \<Longrightarrow> content s' = content s @ take n p"
    and pop_inv: "invar s \<Longrightarrow> pop k s = (out, s') \<Longrightarrow> invar s'"
    and pop_out: "invar s \<Longrightarrow> pop k s = (out, s') \<Longrightarrow> out = take k (content s)"
    and pop_content: "invar s \<Longrightarrow> pop k s = (out, s') \<Longrightarrow> content s' = drop k (content s)"
begin

abbreviation qr where
  "qr \<equiv> q_run push pop"

lemma q_run_fifo:
  "invar s \<Longrightarrow> qr ops s = (accepted_bytes, popped, s') \<Longrightarrow>
    invar s' \<and> content s @ accepted_bytes = popped @ content s'"
proof (induction ops arbitrary: s accepted_bytes popped s')
  case (Cons op ops)
  show ?case
  proof (cases op)
    case (Push p)
    obtain n s1 where n: "push p s = (n, s1)" by fastforce
    obtain i out s2 where r: "qr ops s1 = (i, out, s2)" by (metis prod_cases3)
    from Cons.IH [OF push_inv [OF Cons.prems(1) n] r] push_content [OF Cons.prems(1) n]
    show ?thesis using Cons.prems(2) by (simp add: Push n r)
  next
    case (Pop k)
    obtain b s1 where b: "pop k s = (b, s1)" by fastforce
    obtain i out s2 where r: "qr ops s1 = (i, out, s2)" by (metis prod_cases3)
    have "content s = b @ content s1"
      using pop_out [OF Cons.prems(1) b] pop_content [OF Cons.prems(1) b] by simp
    with Cons.IH [OF pop_inv [OF Cons.prems(1) b] r]
    show ?thesis using Cons.prems(2) by (simp add: Pop b r)
  qed
qed simp

end

interpretation rxq: byte_queue rx_inv rx_content "rx_ring_push :: _ \<Rightarrow> conn \<Rightarrow> _" rx_pop
  by unfold_locales (fact rx_ring_push_correct(1,2) rx_pop_correct)+

section \<open>Reassembly delivers the peer's stream\<close>

text \<open>\<open>S\<close> is the peer's byte stream and \<open>p\<close> the stream position of the sequence number \<open>r\<close>: a
  buffered segment is genuine when it carries the stream's bytes for its place.\<close>

definition seg_genuine :: "(nat \<Rightarrow> u8) \<Rightarrow> nat \<Rightarrow> u32 \<Rightarrow> OooSeg \<Rightarrow> bool" where
  "seg_genuine S p r s \<longleftrightarrow> oo_bytes s = map S [p + seg_off r s ..< p + seg_end r s]"

definition q_genuine :: "(nat \<Rightarrow> u8) \<Rightarrow> nat \<Rightarrow> u32 \<Rightarrow> OooQueue \<Rightarrow> bool" where
  "q_genuine S p r q \<longleftrightarrow> list_all (seg_genuine S p r) (segs q)"

lemma seg_genuine_shift:
  "n < seg_off r s \<Longrightarrow> seg_genuine S p r s \<Longrightarrow> seg_genuine S (p + n) (r + of_nat n) s"
  by (simp add: seg_genuine_def seg_end_def seg_off_shift add.assoc)

lemma ooo_inv_advance:
  assumes "ooo_inv r q" "\<forall>s \<in> set (segs q). n < seg_off r s"
  shows "ooo_inv (r + of_nat n) q"
  using assms disjoint_shift [of r "segs q" n]
  by (auto simp: ooo_inv_def list_all_iff seg_in_window_shift)

lemma q_genuine_advance:
  "q_genuine S p r q \<Longrightarrow> \<forall>s \<in> set (segs q). n < seg_off r s \<Longrightarrow> q_genuine S (p + n) (r + of_nat n) q"
  by (auto simp: q_genuine_def list_all_iff seg_genuine_shift)

lemma q_genuine_insert:
  assumes "q_genuine S p r q" "bs = map S [p + unat (sq - r) ..< p + unat (sq - r) + length bs]"
    "ooo_insert r sq bs q = (ok, q')"
  shows "q_genuine S p r q'"
proof -
  have "take k bs = map S [p + unat (sq - r) ..< p + unat (sq - r) + min k (length bs)]" for k
    by (subst assms(2)) (simp add: take_map take_upt_min min_add_distrib_right)
  then have "seg_genuine S p r (ooo_new_seg r sq bs)"
    by (simp add: seg_genuine_def ooo_new_seg_def seg_off_def seg_end_def min.commute add.assoc)
  with ooo_insert_cases [OF assms(3)] assms(1) show ?thesis
    by (auto simp: q_genuine_def list_all_iff)
qed

lemma disjoint_order:
  assumes "disjoint_segs r ss" "s \<in> set ss" "t \<in> set ss" "seg_off r s \<le> n" "n < seg_off r t"
  shows "seg_end r s \<le> seg_off r t"
proof -
  obtain i j where i: "i < length ss" "s = ss ! i" and j: "j < length ss" "t = ss ! j"
    using assms(2,3) by (auto simp: in_set_conv_nth)
  consider "i < j" | "j < i" | "i = j" by linarith
  then show ?thesis
  proof cases
    case 1
    then show ?thesis using assms(1) i j by (auto simp: disjoint_segs_def dest: sorted_wrt_nth_less)
  next
    case 2
    then have "seg_end r t \<le> seg_off r s"
      using assms(1) i j by (auto simp: disjoint_segs_def dest: sorted_wrt_nth_less)
    with assms show ?thesis by (simp add: seg_end_def)
  qed (use assms i j in simp)
qed

text \<open>Taking a segment from a genuine queue: its unread tail is the stream from the pointer on.\<close>

lemma take_at_genuine:
  assumes inv: "ooo_inv b q" and n: "n < 2147483648" and g: "q_genuine S p b q"
    and tk: "take_at (b + of_nat n) q = (res, q')"
  shows "ooo_inv (b + of_nat n) q'" "q_genuine S (p + n) (b + of_nat n) q'"
    "res = Some s \<Longrightarrow> drop (unat (b + of_nat n - oo_seq_start s)) (oo_bytes s)
        = map S [p + n ..< p + seg_end b s] \<and> n < seg_end b s \<and> seg_end b s \<le> OOO_MAX_BYTES
        \<and> (\<forall>t \<in> set (segs q'). seg_end b s - n \<le> seg_off (b + of_nat n) t)"
proof -
  note tc = take_at_correct [OF inv n tk]
  show "ooo_inv (b + of_nat n) q'" by (rule tc(3))
  show "q_genuine S (p + n) (b + of_nat n) q'"
    using g tc(1) by (auto simp: q_genuine_def list_all_iff seg_genuine_shift)
  assume res: "res = Some s"
  then have s: "s \<in> set (segs q)" "seg_off b s \<le> n" "n < seg_end b s" using tc(2) by auto
  have win: "seg_end b s \<le> OOO_MAX_BYTES" and d: "disjoint_segs b (segs q)"
    using inv s(1) by (auto simp: ooo_inv_def list_all_iff seg_in_window_def)
  have "unat (b + of_nat n - oo_seq_start s) = n - seg_off b s"
    using unat_of_nat_diff [of "seg_off b s" n b] s(2) n by (simp add: seg_start_off [of s b, symmetric])
  moreover have "oo_bytes s = map S [p + seg_off b s ..< p + seg_end b s]"
    using g s(1) by (auto simp: q_genuine_def list_all_iff seg_genuine_def)
  ultimately have "drop (unat (b + of_nat n - oo_seq_start s)) (oo_bytes s)
        = map S [p + n ..< p + seg_end b s]"
    using s(2) by (simp add: drop_map)
  moreover have "seg_end b s - n \<le> seg_off (b + of_nat n) t" if "t \<in> set (segs q')" for t
    using that tc(1) disjoint_order [OF d s(1) _ s(2), of t] by (auto simp: seg_off_shift)
  ultimately show "drop (unat (b + of_nat n - oo_seq_start s)) (oo_bytes s)
        = map S [p + n ..< p + seg_end b s] \<and> n < seg_end b s \<and> seg_end b s \<le> OOO_MAX_BYTES
        \<and> (\<forall>t \<in> set (segs q'). seg_end b s - n \<le> seg_off (b + of_nat n) t)"
    using s win by blast
qed

lemma rx_ring_push_update_ooo:
  "rx_inv (c\<lparr>ooo := q\<rparr>) = rx_inv c" "rx_content (c\<lparr>ooo := q\<rparr>) = rx_content c"
  "rx_inv (c\<lparr>rcv_nxt := r\<rparr>) = rx_inv c" "rx_content (c\<lparr>rcv_nxt := r\<rparr>) = rx_content c"
  by (rule rx_fields_cong; simp)+

lemma drain_ooo_loop_correct:
  assumes "rx_inv c" "ooo_inv b (ooo c)" "rcv_nxt c = b + of_nat n" "n < 2147483648"
    "q_genuine S p b (ooo c)" "drain_ooo_loop d0 c = (d, c')"
  shows "d0 \<le> d \<and> rx_inv c' \<and> rx_content c' = rx_content c @ map S [p + n ..< p + n + (d - d0)]
    \<and> rcv_nxt c' = rcv_nxt c + of_nat (d - d0) \<and> ooo_inv (rcv_nxt c') (ooo c')
    \<and> q_genuine S (p + n + (d - d0)) (rcv_nxt c') (ooo c')"
  using assms
proof (induction d0 c arbitrary: b n p d c' rule: drain_ooo_loop.induct)
  case (1 d0 c)
  obtain res q' where tk: "take_at (rcv_nxt c) (ooo c) = (res, q')" by fastforce
  have tk': "take_at (b + of_nat n) (ooo c) = (res, q')" using tk "1.prems"(3) by simp
  note tg = take_at_genuine [OF "1.prems"(2,4,5) tk']
  show ?case
  proof (cases res)
    case None
    then show ?thesis
      using "1.prems"(1,3,6) tk tg(1,2)
      by (auto simp: drain_ooo_loop.simps [of d0 c] rx_ring_push_update_ooo)
  next
    case (Some s)
    define tail where "tail = drop (unat (rcv_nxt c - oo_seq_start s)) (oo_bytes s)"
    have tail: "tail = map S [p + n ..< p + seg_end b s]" and fin: "n < seg_end b s" "seg_end b s \<le> OOO_MAX_BYTES"
      and above: "\<forall>t \<in> set (segs q'). seg_end b s - n \<le> seg_off (rcv_nxt c) t"
      using tg(3) [OF Some] "1.prems"(3) by (auto simp: tail_def)
    obtain k c2 where push: "rx_ring_push tail (c\<lparr>ooo := q'\<rparr>) = (k, c2)" by fastforce
    have c2: "rx_inv c2" "rx_content c2 = rx_content c @ take k tail" "k \<le> length tail"
      "ooo c2 = q'" "rcv_nxt c2 = rcv_nxt c"
      using rx_ring_push_correct [OF _ push] rx_ring_push_frame [OF push] "1.prems"(1)
      by (auto simp: rx_ring_push_update_ooo)
    have got: "take k tail = map S [p + n ..< p + n + k]"
      using c2(3) fin by (auto simp: tail take_map take_upt_min min_absorb1)
    define c3 where "c3 = c2\<lparr>rcv_nxt := rcv_nxt c2 + of_nat k\<rparr>"
    have c3: "rx_inv c3" "rx_content c3 = rx_content c @ map S [p + n ..< p + n + k]" "ooo c3 = q'"
      "rcv_nxt c3 = rcv_nxt c + of_nat k"
      using c2 got by (simp_all add: c3_def rx_ring_push_update_ooo)
    have step: "drain_ooo_loop d0 c = (if k < length tail then (d0 + k, c3) else drain_ooo_loop (d0 + k) c3)"
      using push unfolding tail_def c3_def by (subst drain_ooo_loop.simps) (simp add: tk Some Let_def)
    have base: "ooo_inv (rcv_nxt c) q'" "q_genuine S (p + n) (rcv_nxt c) q'"
      using tg(1,2) "1.prems"(3) by simp_all
    show ?thesis
    proof (cases "k < length tail")
      case True
      then have res: "d = d0 + k" "c' = c3"
        using "1.prems"(6) step by simp_all
      have gap: "\<forall>t \<in> set (segs q'). k < seg_off (rcv_nxt c) t"
        using above True by (fastforce simp: tail)
      show ?thesis
        using c3 ooo_inv_advance [OF base(1) gap] q_genuine_advance [OF base(2) gap] by (simp add: res)
    next
      case False
      then have rec: "drain_ooo_loop (d0 + k) c3 = (d, c')"
        using "1.prems"(6) step by simp
      have "k < 2147483648" using c2(3) fin by (simp add: tail tcp_consts)
      then have ih: "d0 + k \<le> d \<and> rx_inv c' \<and>
          rx_content c' = rx_content c3 @ map S [p + n + k ..< p + n + k + (d - (d0 + k))] \<and>
          rcv_nxt c' = rcv_nxt c3 + of_nat (d - (d0 + k)) \<and> ooo_inv (rcv_nxt c') (ooo c') \<and>
          q_genuine S (p + n + k + (d - (d0 + k))) (rcv_nxt c') (ooo c')"
        using c3 base rec False push
        by (intro "1.IH" [OF tk [symmetric] Some refl refl refl refl, where xe = k and ya = c2 and xf = c3
              and b = "rcv_nxt c" and n = k]) (simp_all add: tail_def c3_def)
      then obtain e where e: "d = d0 + k + e" using le_Suc_ex by blast
      have "[p + n ..< p + n + (k + e)] = [p + n ..< p + n + k] @ [p + n + k ..< p + n + k + e]"
        using upt_add_eq_append [of "p + n" "p + n + k" e] by (simp add: add.assoc)
      with ih c3 show ?thesis by (auto simp: e add.assoc)
    qed
  qed
qed

lemma drain_ooo_correct:
  assumes "rx_inv c" "ooo_inv b (ooo c)" "rcv_nxt c = b + of_nat n" "n < 2147483648"
    "q_genuine S p b (ooo c)" "drain_ooo c = (d, c')"
  shows "rx_inv c'" "rx_content c' = rx_content c @ map S [p + n ..< p + n + d]"
    "rcv_nxt c' = rcv_nxt c + of_nat d" "ooo_inv (rcv_nxt c') (ooo c')"
    "q_genuine S (p + n + d) (rcv_nxt c') (ooo c')"
  using drain_ooo_loop_correct [OF assms(1-5), of 0 d c'] assms(6) by (auto simp: drain_ooo_def)

section \<open>Properties\<close>

text \<open>C17: The receive ring is a first-in first-out byte queue. Whatever sequence of deliveries and
  reads is run on it, the bytes handed to the reader followed by those still buffered are the bytes
  that were buffered at the start followed by those accepted since: nothing is lost, repeated or
  reordered, across the wrap-around of the ring.\<close>

theorem rx_ring_fifo:
  assumes "rx_inv c" and "q_run rx_ring_push rx_pop ops c = (accepted_bytes, popped, c')"
  shows "rx_inv c' \<and> rx_content c @ accepted_bytes = popped @ rx_content c'"
  by (rule rxq.q_run_fifo [OF assms])

definition demo_env :: env where
  "demo_env = \<lparr>now_ms = 1000, tick_head = NULL_SLOT, tx_log = [], woken = [], alloc_results = [],
     txbuf_results = [], has_direct_fill = True, mac_known = (\<lambda>_. True), tso_available = False,
     tso_results = [], tso_cap = 16482, tso_splits = []\<rparr>"

text \<open>A ring whose free region wraps: the push is split in two copies.\<close>

definition demo_ring_conn :: conn where
  "demo_ring_conn = attach (tcb_new\<lparr>rx_ring := Some (replicate 16384 0), rx_head := 16382,
     rx_tail := 16382\<rparr>) demo_env"

theorem rx_ring_fifo_witness:
  "\<exists>c'. q_run rx_ring_push rx_pop [Push [1, 2, 3], Pop 2] demo_ring_conn = ([1, 2, 3], [1, 2], c')
     \<and> rx_inv demo_ring_conn \<and> rx_content c' = [3]"
proof -
  have inv: "rx_inv demo_ring_conn" and ct: "rx_content demo_ring_conn = []"
    and ring: "rx_ring demo_ring_conn = Some (replicate 16384 0)"
    by (simp_all add: demo_ring_conn_def attach_def tcb.extend_def conn.fields_def tcb_new_def
        rx_inv_def rx_content_def tcp_consts)
  have free: "rx_free demo_ring_conn = 16383"
    by (simp add: demo_ring_conn_def attach_def tcb.extend_def conn.fields_def tcb_new_def rx_free_def tcp_consts)
  obtain n c1 where p: "rx_ring_push [1, 2, 3] demo_ring_conn = (n, c1)" by fastforce
  have n: "n = 3" and c1: "rx_inv c1" "rx_content c1 = [1, 2, 3]"
    using rx_ring_push_correct [OF inv p] ring ct free by simp_all
  obtain out c2 where q: "rx_pop 2 c1 = (out, c2)" by fastforce
  have "out = [1, 2]" using rx_pop_correct(2) [OF c1(1) q] c1(2) by simp
  then have run: "q_run rx_ring_push rx_pop [Push [1, 2, 3], Pop 2] demo_ring_conn = ([1, 2, 3], [1, 2], c2)"
    by (simp add: p q n)
  with rx_ring_fifo [OF inv run] inv ct show ?thesis by auto
qed

end
