(* ===== verification/Tcp_Rtx.thy ===== *)
theory Tcp_Rtx
  imports Tcp_Conn
begin

text \<open>
  The send-side methods of \<open>TcpConnection\<close> in \<open>crates/net/tcp/src/state.rs\<close>: the retransmission
  queue, the RTT estimator and the RTO, the tail loss probe, the FIN, persist and TimeWait timers,
  the glue to the congestion controller, SACK recovery and RACK.

  An \<open>IOBufChain\<close> is the list of the byte strings of its parts. The lemmas show that the queue
  mirrors the unacknowledged part of the byte stream, that every retransmission carries the bytes
  first sent at its sequence number, and that the RTO stays within its bounds.
\<close>

section \<open>Timers\<close>

definition pto_ms :: "'a tcb_scheme \<Rightarrow> nat" where
  "pto_ms c =
     (if srtt_ms c = 0 then 0
      else let pto = max (sat_mul32 (srtt_ms c) 2) TLP_MIN_MS
           in if pto \<ge> rto_ms c then 0 else pto)"

definition arm_tlp :: "nat \<Rightarrow> conn \<Rightarrow> conn" where
  "arm_tlp now c =
     (let pto = pto_ms c
      in c\<lparr>tlp_deadline_ms := (if pto \<noteq> 0 \<and> tlp_count c < TLP_MAX_PROBES then now + pto else 0)\<rparr>)"

definition arm_rtx :: "conn \<Rightarrow> conn" where
  "arm_rtx c =
     (let now = clock c
      in arm_for_tick (arm_tlp now (c\<lparr>rtx_deadline_ms := now + rto_ms c\<rparr>)))"

definition sample_rtt :: "nat \<Rightarrow> 'a tcb_scheme \<Rightarrow> 'a tcb_scheme" where
  "sample_rtt r0 c =
     (let r = max r0 1
      in if \<not> rtt_seeded c
         then c\<lparr>srtt_ms := r, rttvar_ms := r div 2, rtt_seeded := True\<rparr>
         else let delta = (if srtt_ms c < r then r - srtt_ms c else srtt_ms c - r);
                  c1 = c\<lparr>rttvar_ms := rttvar_ms c - rttvar_ms c div 4 + delta div 4\<rparr>
              in c1\<lparr>srtt_ms := srtt_ms c1 - srtt_ms c1 div 8 + r div 8\<rparr>)"

definition estimated_rto :: "'a tcb_scheme \<Rightarrow> nat" where
  "estimated_rto c =
     (if \<not> rtt_seeded c then RTO_INITIAL_MS
      else let spread = max 1 (sat_mul32 (rttvar_ms c) RTO_K)
           in min (max (sat_add32 (srtt_ms c) spread) RTO_INITIAL_MS) RTO_MAX_MS)"

definition backoff_interval :: "nat \<Rightarrow> 'a tcb_scheme \<Rightarrow> nat" where
  "backoff_interval count c = min (estimated_rto c * 2 ^ min count 16) RTO_MAX_MS"

definition arm_fin_timer :: "nat \<Rightarrow> conn \<Rightarrow> conn" where
  "arm_fin_timer now c =
     arm_for_tick (c\<lparr>lifecycle_deadline_ms := now + backoff_interval (fin_retx_count c) c\<rparr>)"

definition retransmit_fin :: "nat \<Rightarrow> conn \<Rightarrow> conn" where
  "retransmit_fin now c =
     (let c1 = emit (seg_of c (snd_nxt c - 1) (TCP_FIN OR TCP_ACK) (as_u16 (rx_free c))) [] [] c;
          c2 = c1\<lparr>fin_retx_count := sat_add8 (fin_retx_count c1) 1\<rparr>
      in arm_fin_timer now c2)"

definition arm_time_wait :: "nat \<Rightarrow> conn \<Rightarrow> conn" where
  "arm_time_wait now c = arm_for_tick (c\<lparr>lifecycle_deadline_ms := now + TIME_WAIT_MS\<rparr>)"

definition arm_persist :: "nat \<Rightarrow> conn \<Rightarrow> conn" where
  "arm_persist now c =
     arm_for_tick (c\<lparr>persist_deadline_ms := now + backoff_interval (persist_backoff c) c\<rparr>)"

definition send_window_probe :: "nat \<Rightarrow> conn \<Rightarrow> conn" where
  "send_window_probe now c =
     (let c1 = emit (seg_of c (snd_una c - 1) TCP_ACK (as_u16 (rx_free c))) [] [] c;
          c2 = c1\<lparr>persist_backoff := sat_add8 (persist_backoff c1) 1\<rparr>
      in arm_persist now c2)"

section \<open>Congestion glue\<close>

definition congestion_init :: "'a tcb_scheme \<Rightarrow> 'a tcb_scheme" where
  "congestion_init c =
     (let smss = mss_for (local_ip c);
          ctl = ctl_set_slow_start_cap (2 * smss) (ctl_new smss)
      in c\<lparr>cc := ctl, cwnd := ctl_window ctl\<rparr>)"

definition flight :: "'a tcb_scheme \<Rightarrow> nat" where
  "flight c = unat (snd_nxt c - snd_una c)"

definition usable_window :: "'a tcb_scheme \<Rightarrow> nat" where
  "usable_window c = min (cwnd c) (snd_wnd c) - flight c"

definition cwnd_on_ack :: "nat \<Rightarrow> conn \<Rightarrow> conn" where
  "cwnd_on_ack acked c =
     (let rtt = \<lparr>smoothed_us = sat_mul32 (srtt_ms c) 1000, min_us = 0\<rparr>;
          ctl = ctl_on_ack acked (flight c) rtt (clock c) (cc c)
      in c\<lparr>cc := ctl, cwnd := ctl_window ctl\<rparr>)"

definition congestion_on_rto :: "'a tcb_scheme \<Rightarrow> 'a tcb_scheme" where
  "congestion_on_rto c = (let ctl = ctl_on_rto (cc c) in c\<lparr>cc := ctl, cwnd := ctl_window ctl\<rparr>)"

section \<open>Retransmission queue\<close>

definition rtx_enqueue :: "bytes \<Rightarrow> u32 \<Rightarrow> nat \<Rightarrow> nat \<Rightarrow> 'a tcb_scheme \<Rightarrow> 'a tcb_scheme" where
  "rtx_enqueue iobuf seq_start len now c =
     c\<lparr>rtx_queue := rtx_queue c @ [\<lparr>rx_iobuf = iobuf, re_seq_start = seq_start, re_len = len,
         first_tx_ms = now, last_tx_ms = now, tx_count = 1, sacked = False\<rparr>],
       rtx_bytes_in_flight := sat_add32 (rtx_bytes_in_flight c) len\<rparr>"

definition set_rtt_anchor :: "u32 \<Rightarrow> nat \<Rightarrow> 'a tcb_scheme \<Rightarrow> 'a tcb_scheme" where
  "set_rtt_anchor end_seq now c =
     (if \<not> rtt_anchor_active c
      then c\<lparr>rtt_anchor_active := True, rtt_anchor_seq := end_seq, rtt_anchor_ms := now\<rparr>
      else c)"

definition rtx_push :: "bytes \<Rightarrow> u32 \<Rightarrow> nat \<Rightarrow> nat \<Rightarrow> conn \<Rightarrow> bool \<times> conn" where
  "rtx_push iobuf seq_start len now c =
     (let (ok, e) = try_alloc (cenv c); c0 = c\<lparr>cenv := e\<rparr>
      in if \<not> ok then (False, c0\<lparr>rtx_alloc_failed := True\<rparr>)
         else let was_empty = (rtx_queue c0 = []);
                  c1 = rtx_enqueue iobuf seq_start len now c0;
                  c2 = (if was_empty \<and> rtx_deadline_ms c1 = 0 then arm_rtx c1 else c1)
              in (True, set_rtt_anchor (seq_start + of_nat len) now c2))"

text \<open>The loop of \<open>rtx_ack\<close> over the queue, the bytes in flight and the bytes retired so far.
  \<open>IOBuf::consume\<close> fails when asked for more than is there.\<close>

fun rtx_ack_loop :: "u32 \<Rightarrow> RtxEntry list \<Rightarrow> nat \<Rightarrow> nat \<Rightarrow> RtxEntry list \<times> nat \<times> nat" where
  "rtx_ack_loop ack [] in_flight acked = ([], in_flight, acked)"
| "rtx_ack_loop ack (h # q) in_flight acked =
     (if \<not> seq_lt ack (re_seq_start h + of_nat (re_len h))
      then rtx_ack_loop ack q (in_flight - re_len h) (acked + re_len h)
      else if seq_lt (re_seq_start h) ack
      then let consumed = unat (ack - re_seq_start h)
           in if consumed \<le> length (rx_iobuf h)
              then (h\<lparr>rx_iobuf := drop consumed (rx_iobuf h), re_seq_start := ack,
                      re_len := re_len h - as_u16 consumed\<rparr> # q,
                    in_flight - consumed, acked + consumed)
              else (h # q, in_flight, acked)
      else (h # q, in_flight, acked))"

definition rtx_ack :: "u32 \<Rightarrow> 'a tcb_scheme \<Rightarrow> nat \<times> 'a tcb_scheme" where
  "rtx_ack ack c =
     (let (q, fl, acked) = rtx_ack_loop ack (rtx_queue c) (rtx_bytes_in_flight c) 0
      in (acked, c\<lparr>rtx_queue := q, rtx_bytes_in_flight := fl\<rparr>))"

definition handle_rtx_push_oom :: "'a tcb_scheme \<Rightarrow> 'a tcb_scheme" where
  "handle_rtx_push_oom c = c\<lparr>rtx_queue := [], rtx_bytes_in_flight := 0, rtx_deadline_ms := 0\<rparr>"

fun drain_chain_prefix :: "bytes list \<Rightarrow> nat \<Rightarrow> bytes list" where
  "drain_chain_prefix [] n = []"
| "drain_chain_prefix (b # bs) n =
     (if n = 0 then b # bs
      else if length b \<le> n then drain_chain_prefix bs (n - length b)
      else drop n b # bs)"

fun rtx_sent_loop :: "nat \<Rightarrow> bytes list \<Rightarrow> nat \<Rightarrow> u32 \<Rightarrow> conn \<Rightarrow> bytes list \<times> conn" where
  "rtx_sent_loop now [] tot sq c = ([], c)"
| "rtx_sent_loop now (b # bs) tot sq c =
     (if tot = 0 then (b # bs, c)
      else if length b \<le> tot
      then let (ok, c1) = rtx_push b sq (as_u16 (length b)) now c
           in if \<not> ok then (drain_chain_prefix bs (tot - length b), handle_rtx_push_oom c1)
              else rtx_sent_loop now bs (tot - length b) (sq + of_nat (length b)) c1
      else let (ok, c1) = rtx_push (take tot b) sq (as_u16 tot) now c
           in (drop tot b # bs, if \<not> ok then handle_rtx_push_oom c1 else c1))"

definition rtx_on_data_sent :: "bytes list \<Rightarrow> nat \<Rightarrow> conn \<Rightarrow> bytes list \<times> conn" where
  "rtx_on_data_sent chain tot c =
     (if tot = 0 then (chain, c)
      else if rtx_alloc_failed c then (drain_chain_prefix chain tot, c)
      else rtx_sent_loop (clock c) chain tot (snd_nxt c - of_nat tot) c)"

definition rtx_on_data_sent_slice :: "bytes \<Rightarrow> conn \<Rightarrow> conn" where
  "rtx_on_data_sent_slice bs c =
     (if bs = [] \<or> rtx_alloc_failed c then c
      else let (ok, e) = try_alloc (cenv c); c1 = c\<lparr>cenv := e\<rparr>
      in if \<not> ok then handle_rtx_push_oom (c1\<lparr>rtx_alloc_failed := True\<rparr>)
      else let (pushed, c2) = rtx_push bs (snd_nxt c1 - of_nat (length bs)) (as_u16 (length bs)) (clock c1) c1
      in if \<not> pushed then handle_rtx_push_oom c2 else c2)"

text \<open>The RTT sample of an acknowledgement that covers the anchored byte.\<close>

definition take_rtt_sample :: "conn \<Rightarrow> conn" where
  "take_rtt_sample c =
     (if rtt_anchor_active c \<and> \<not> seq_lt (snd_una c) (rtt_anchor_seq c)
      then (sample_rtt (min (clock c - rtt_anchor_ms c) U32_MAX) c)\<lparr>rtt_anchor_active := False\<rparr>
      else c)"

text \<open>New data acknowledged: backoff and probe budget cleared, RTO re-estimated, timers restarted or
  stopped.\<close>

definition rtx_restart :: "conn \<Rightarrow> conn" where
  "rtx_restart c =
     (let c1 = c\<lparr>rtx_backoff := 0, tlp_count := 0\<rparr>;
          c2 = c1\<lparr>rto_ms := estimated_rto c1\<rparr>
      in if rtx_bytes_in_flight c2 = 0
         then c2\<lparr>rtx_deadline_ms := 0, tlp_deadline_ms := 0\<rparr>
         else arm_rtx c2)"

definition rtx_on_ack :: "u32 \<Rightarrow> conn \<Rightarrow> conn" where
  "rtx_on_ack old_una c =
     (if rtx_alloc_failed c
      then (if snd_una c = snd_nxt c
            then c\<lparr>rtx_alloc_failed := False, rtx_backoff := 0, rto_ms := RTO_INITIAL_MS\<rparr> else c)
      else if snd_una c = old_una then c
      else let (dropped, c1) = rtx_ack (snd_una c) c;
               c2 = (if dropped > 0 then cwnd_on_ack (as_u32 dropped) c1 else c1)
           in rtx_restart (take_rtt_sample c2))"

section \<open>Retransmission\<close>

definition emit_rtx_entry :: "nat \<Rightarrow> conn \<Rightarrow> conn" where
  "emit_rtx_entry idx c =
     (if idx \<ge> length (rtx_queue c) then c
      else let e = rtx_queue c ! idx;
               n = min (re_len e) (snd_mss c)
      in if n = 0 then c
      else let e1 = e\<lparr>tx_count := sat_add8 (tx_count e) 1, last_tx_ms := clock c\<rparr>;
               c1 = c\<lparr>rtx_queue := (rtx_queue c)[idx := e1]\<rparr>;
               c2 = emit (seg_of c1 (re_seq_start e) (TCP_ACK OR TCP_PSH) (as_u16 (rx_free c1)))
                      (take n (rx_iobuf e)) [] c1
      in c2\<lparr>rtt_anchor_active := False\<rparr>)"

definition retransmit_oldest_segment :: "conn \<Rightarrow> conn" where
  "retransmit_oldest_segment c = emit_rtx_entry 0 c"

definition send_tlp_probe :: "nat \<Rightarrow> conn \<Rightarrow> conn" where
  "send_tlp_probe now c =
     (if rtx_bytes_in_flight c = 0 then c\<lparr>tlp_deadline_ms := 0\<rparr>
      else let c1 = c\<lparr>tlp_count := sat_add8 (tlp_count c) 1\<rparr>
           in arm_for_tick (arm_tlp now (emit_rtx_entry 0 c1)))"

definition retransmit_oldest :: "nat \<Rightarrow> conn \<Rightarrow> conn" where
  "retransmit_oldest now c =
     (if rtx_bytes_in_flight c = 0 then c\<lparr>rtx_deadline_ms := 0\<rparr>
      else let c1 = congestion_on_rto c;
               c2 = c1\<lparr>rtx_queue := map (\<lambda>e. e\<lparr>sacked := False\<rparr>) (rtx_queue c1)\<rparr>;
               c3 = retransmit_oldest_segment c2;
               c4 = c3\<lparr>tlp_deadline_ms := 0, rtx_backoff := sat_add8 (rtx_backoff c3) 1,
                       rto_ms := min (sat_mul32 (rto_ms c3) 2) RTO_MAX_MS\<rparr>
           in arm_for_tick (c4\<lparr>rtx_deadline_ms := now + rto_ms c4\<rparr>))"

section \<open>SACK and RACK\<close>

definition sack_covers :: "(u32 \<times> u32) list \<Rightarrow> RtxEntry \<Rightarrow> bool" where
  "sack_covers blocks e \<longleftrightarrow> list_ex (\<lambda>(l, r). \<not> seq_lt (re_seq_start e) l
     \<and> \<not> seq_lt r (re_seq_start e + of_nat (re_len e))) blocks"

definition apply_sack :: "(u32 \<times> u32) list \<Rightarrow> 'a tcb_scheme \<Rightarrow> bool \<times> 'a tcb_scheme" where
  "apply_sack blocks c =
     (let changed = list_ex (\<lambda>e. \<not> sacked e \<and> sack_covers blocks e) (rtx_queue c);
          c1 = c\<lparr>rtx_queue := map (\<lambda>e. if \<not> sacked e \<and> sack_covers blocks e then e\<lparr>sacked := True\<rparr> else e)
                  (rtx_queue c)\<rparr>
      in (changed, if changed then c1\<lparr>rack_sack_hint := True\<rparr> else c1))"

text \<open>\<open>Iterator::max\<close> on offsets.\<close>

fun max_opt :: "nat list \<Rightarrow> nat option" where
  "max_opt [] = None"
| "max_opt (x # xs) = Some (case max_opt xs of None \<Rightarrow> x | Some m \<Rightarrow> max x m)"

fun emit_holes :: "u32 \<Rightarrow> nat \<Rightarrow> nat list \<Rightarrow> conn \<Rightarrow> conn" where
  "emit_holes base highest [] c = c"
| "emit_holes base highest (i # is) c =
     (let e = rtx_queue c ! i; off = unat (re_seq_start e - base)
      in if \<not> sacked e \<and> off < 2147483648 \<and> off < highest
         then emit_holes base highest is (emit_rtx_entry i c)
         else emit_holes base highest is c)"

definition sack_retransmit_holes :: "conn \<Rightarrow> conn" where
  "sack_retransmit_holes c =
     (let base = snd_una c
      in case max_opt (map (\<lambda>e. unat (re_seq_start e + of_nat (re_len e) - base)) (filter sacked (rtx_queue c))) of
           None \<Rightarrow> c
         | Some highest \<Rightarrow> emit_holes base highest [0..<length (rtx_queue c)] c)"

definition fast_retransmit :: "conn \<Rightarrow> conn" where
  "fast_retransmit c =
     (let c1 = c\<lparr>cc := ctl_on_loss 0 False (cc c)\<rparr>;
          c2 = (if sack_ok c1 \<and> list_ex sacked (rtx_queue c1) then sack_retransmit_holes c1
                else retransmit_oldest_segment c1)
      in c2\<lparr>cwnd := ctl_window (cc c2)\<rparr>)"

definition on_dup_ack :: "conn \<Rightarrow> conn" where
  "on_dup_ack c =
     (let c1 = c\<lparr>dup_acks := sat_add8 (dup_acks c) 1\<rparr>
      in if dup_acks c1 = 3 then fast_retransmit c1 else c1)"

definition on_new_data_ack :: "'a tcb_scheme \<Rightarrow> 'a tcb_scheme" where
  "on_new_data_ack c = c\<lparr>dup_acks := 0\<rparr>"

text \<open>The merge of the marked offsets with the queue.\<close>

fun emit_marked :: "u32 \<Rightarrow> nat list \<Rightarrow> nat list \<Rightarrow> conn \<Rightarrow> conn" where
  "emit_marked base [] is c = c"
| "emit_marked base (l # ls) [] c = c"
| "emit_marked base (l # ls) (i # is) c =
     (if unat (re_seq_start (rtx_queue c ! i) - base) = l
      then emit_marked base ls is (emit_rtx_entry i c)
      else emit_marked base (l # ls) is c)"

definition rack_detect :: "nat \<Rightarrow> conn \<Rightarrow> conn" where
  "rack_detect now c00 =
     (let c = c00\<lparr>rack_deadline_ms := 0\<rparr>
      in if \<not> rack_sack_hint c \<or> srtt_ms c = 0 \<or> rtx_queue c = [] then c
      else let base = snd_una c
      in case max_opt (map (\<lambda>e. unat (re_seq_start e - base)) (filter sacked (rtx_queue c))) of
          None \<Rightarrow> c\<lparr>rack_sack_hint := False\<rparr>
        | Some largest_acked \<Rightarrow>
            let params = (rfc9002 (srtt_ms c) 0 1 0)\<lparr>packet_threshold := U64_MAX\<rparr>;
                (lost, deadline) = detect params largest_acked now
                  (map (\<lambda>e. (unat (re_seq_start e - base), last_tx_ms e))
                    (filter (\<lambda>e. \<not> sacked e) (rtx_queue c)));
                lost_offs = map (\<lambda>l. as_u32 (fst l)) lost;
                c2 = (if lost_offs \<noteq> []
                      then let c1 = emit_marked base lost_offs [0..<length (rtx_queue c)]
                                      (c\<lparr>cc := ctl_on_loss 0 False (cc c)\<rparr>)
                           in c1\<lparr>cwnd := ctl_window (cc c1)\<rparr>
                      else c)
            in case deadline of
                 Some dl \<Rightarrow> arm_for_tick (c2\<lparr>rack_deadline_ms := dl\<rparr>)
               | None \<Rightarrow> c2)"

section \<open>Frame facts\<close>

lemma arm_for_tick_frame [simp]:
  "state (arm_for_tick c) = state c" "remote_ip (arm_for_tick c) = remote_ip c"
  "local_ip (arm_for_tick c) = local_ip c" "local_port (arm_for_tick c) = local_port c"
  "remote_port (arm_for_tick c) = remote_port c" "snd_nxt (arm_for_tick c) = snd_nxt c"
  "snd_una (arm_for_tick c) = snd_una c" "snd_wnd (arm_for_tick c) = snd_wnd c"
  "snd_wscale (arm_for_tick c) = snd_wscale c" "snd_mss (arm_for_tick c) = snd_mss c"
  "wscale_ok (arm_for_tick c) = wscale_ok c" "sack_ok (arm_for_tick c) = sack_ok c"
  "snd_wl1 (arm_for_tick c) = snd_wl1 c" "snd_wl2 (arm_for_tick c) = snd_wl2 c"
  "rcv_nxt (arm_for_tick c) = rcv_nxt c" "rcv_wnd (arm_for_tick c) = rcv_wnd c"
  "rx_ring (arm_for_tick c) = rx_ring c" "rx_head (arm_for_tick c) = rx_head c"
  "rx_tail (arm_for_tick c) = rx_tail c" "rx_used (arm_for_tick c) = rx_used c"
  "chunk_wanted (arm_for_tick c) = chunk_wanted c"
  "pending_chunk (arm_for_tick c) = pending_chunk c"
  "listener_port (arm_for_tick c) = listener_port c" "accepted (arm_for_tick c) = accepted c"
  "connect_failure (arm_for_tick c) = connect_failure c"
  "generation (arm_for_tick c) = generation c" "recv_waker (arm_for_tick c) = recv_waker c"
  "send_waker (arm_for_tick c) = send_waker c" "rtx_queue (arm_for_tick c) = rtx_queue c"
  "rtx_bytes_in_flight (arm_for_tick c) = rtx_bytes_in_flight c"
  "rtx_alloc_failed (arm_for_tick c) = rtx_alloc_failed c" "rto_ms (arm_for_tick c) = rto_ms c"
  "rtx_deadline_ms (arm_for_tick c) = rtx_deadline_ms c"
  "rtx_backoff (arm_for_tick c) = rtx_backoff c" "srtt_ms (arm_for_tick c) = srtt_ms c"
  "rttvar_ms (arm_for_tick c) = rttvar_ms c" "rtt_seeded (arm_for_tick c) = rtt_seeded c"
  "rtt_anchor_ms (arm_for_tick c) = rtt_anchor_ms c"
  "rtt_anchor_seq (arm_for_tick c) = rtt_anchor_seq c"
  "rtt_anchor_active (arm_for_tick c) = rtt_anchor_active c"
  "lifecycle_deadline_ms (arm_for_tick c) = lifecycle_deadline_ms c"
  "fin_retx_count (arm_for_tick c) = fin_retx_count c"
  "persist_deadline_ms (arm_for_tick c) = persist_deadline_ms c"
  "persist_backoff (arm_for_tick c) = persist_backoff c"
  "tlp_deadline_ms (arm_for_tick c) = tlp_deadline_ms c" "tlp_count (arm_for_tick c) = tlp_count c"
  "rack_deadline_ms (arm_for_tick c) = rack_deadline_ms c"
  "rack_sack_hint (arm_for_tick c) = rack_sack_hint c" "cwnd (arm_for_tick c) = cwnd c"
  "dup_acks (arm_for_tick c) = dup_acks c" "cc (arm_for_tick c) = cc c"
  "next_free (arm_for_tick c) = next_free c" "slot_index (arm_for_tick c) = slot_index c"
  "ooo (arm_for_tick c) = ooo c"
  by (simp_all add: arm_for_tick_def)

lemma emit_frame [simp]:
  "state (emit m p opts c) = state c" "remote_ip (emit m p opts c) = remote_ip c"
  "local_ip (emit m p opts c) = local_ip c" "local_port (emit m p opts c) = local_port c"
  "remote_port (emit m p opts c) = remote_port c" "snd_nxt (emit m p opts c) = snd_nxt c"
  "snd_una (emit m p opts c) = snd_una c" "snd_wnd (emit m p opts c) = snd_wnd c"
  "snd_wscale (emit m p opts c) = snd_wscale c" "snd_mss (emit m p opts c) = snd_mss c"
  "wscale_ok (emit m p opts c) = wscale_ok c" "sack_ok (emit m p opts c) = sack_ok c"
  "snd_wl1 (emit m p opts c) = snd_wl1 c" "snd_wl2 (emit m p opts c) = snd_wl2 c"
  "rcv_nxt (emit m p opts c) = rcv_nxt c" "rcv_wnd (emit m p opts c) = rcv_wnd c"
  "rx_ring (emit m p opts c) = rx_ring c" "rx_head (emit m p opts c) = rx_head c"
  "rx_tail (emit m p opts c) = rx_tail c" "rx_used (emit m p opts c) = rx_used c"
  "chunk_wanted (emit m p opts c) = chunk_wanted c"
  "pending_chunk (emit m p opts c) = pending_chunk c"
  "listener_port (emit m p opts c) = listener_port c" "accepted (emit m p opts c) = accepted c"
  "connect_failure (emit m p opts c) = connect_failure c"
  "generation (emit m p opts c) = generation c" "recv_waker (emit m p opts c) = recv_waker c"
  "send_waker (emit m p opts c) = send_waker c" "rtx_queue (emit m p opts c) = rtx_queue c"
  "rtx_bytes_in_flight (emit m p opts c) = rtx_bytes_in_flight c"
  "rtx_alloc_failed (emit m p opts c) = rtx_alloc_failed c" "rto_ms (emit m p opts c) = rto_ms c"
  "rtx_deadline_ms (emit m p opts c) = rtx_deadline_ms c"
  "rtx_backoff (emit m p opts c) = rtx_backoff c" "srtt_ms (emit m p opts c) = srtt_ms c"
  "rttvar_ms (emit m p opts c) = rttvar_ms c" "rtt_seeded (emit m p opts c) = rtt_seeded c"
  "rtt_anchor_ms (emit m p opts c) = rtt_anchor_ms c"
  "rtt_anchor_seq (emit m p opts c) = rtt_anchor_seq c"
  "rtt_anchor_active (emit m p opts c) = rtt_anchor_active c"
  "lifecycle_deadline_ms (emit m p opts c) = lifecycle_deadline_ms c"
  "fin_retx_count (emit m p opts c) = fin_retx_count c"
  "persist_deadline_ms (emit m p opts c) = persist_deadline_ms c"
  "persist_backoff (emit m p opts c) = persist_backoff c"
  "tlp_deadline_ms (emit m p opts c) = tlp_deadline_ms c"
  "tlp_count (emit m p opts c) = tlp_count c"
  "rack_deadline_ms (emit m p opts c) = rack_deadline_ms c"
  "rack_sack_hint (emit m p opts c) = rack_sack_hint c" "cwnd (emit m p opts c) = cwnd c"
  "dup_acks (emit m p opts c) = dup_acks c" "cc (emit m p opts c) = cc c"
  "next_free (emit m p opts c) = next_free c" "slot_index (emit m p opts c) = slot_index c"
  "tick_next (emit m p opts c) = tick_next c" "tick_in_list (emit m p opts c) = tick_in_list c"
  "ooo (emit m p opts c) = ooo c"
  by (simp_all add: emit_def)

lemma cenv_arm_for_tick [simp]:
  "now_ms (cenv (arm_for_tick c)) = now_ms (cenv c)" "tx_log (cenv (arm_for_tick c)) = tx_log (cenv c)"
  "clock (arm_for_tick c) = clock c"
  by (simp_all add: arm_for_tick_def clock_def)

lemma tick_in_list_arm_for_tick [simp]: "tick_in_list (arm_for_tick c)"
  by (simp add: arm_for_tick_def)

lemma try_alloc_frame [simp]:
  "now_ms (snd (try_alloc e)) = now_ms e" "tx_log (snd (try_alloc e)) = tx_log e"
  by (simp_all add: try_alloc_def split: list.split)

lemma rtx_enqueue_frame [simp]:
  "state (rtx_enqueue b sq l n c) = state c" "remote_ip (rtx_enqueue b sq l n c) = remote_ip c"
  "local_ip (rtx_enqueue b sq l n c) = local_ip c"
  "local_port (rtx_enqueue b sq l n c) = local_port c"
  "remote_port (rtx_enqueue b sq l n c) = remote_port c"
  "snd_nxt (rtx_enqueue b sq l n c) = snd_nxt c" "snd_una (rtx_enqueue b sq l n c) = snd_una c"
  "snd_wnd (rtx_enqueue b sq l n c) = snd_wnd c"
  "snd_wscale (rtx_enqueue b sq l n c) = snd_wscale c"
  "snd_mss (rtx_enqueue b sq l n c) = snd_mss c" "wscale_ok (rtx_enqueue b sq l n c) = wscale_ok c"
  "sack_ok (rtx_enqueue b sq l n c) = sack_ok c" "snd_wl1 (rtx_enqueue b sq l n c) = snd_wl1 c"
  "snd_wl2 (rtx_enqueue b sq l n c) = snd_wl2 c" "rcv_nxt (rtx_enqueue b sq l n c) = rcv_nxt c"
  "rcv_wnd (rtx_enqueue b sq l n c) = rcv_wnd c" "rx_ring (rtx_enqueue b sq l n c) = rx_ring c"
  "rx_head (rtx_enqueue b sq l n c) = rx_head c" "rx_tail (rtx_enqueue b sq l n c) = rx_tail c"
  "rx_used (rtx_enqueue b sq l n c) = rx_used c"
  "chunk_wanted (rtx_enqueue b sq l n c) = chunk_wanted c"
  "pending_chunk (rtx_enqueue b sq l n c) = pending_chunk c"
  "listener_port (rtx_enqueue b sq l n c) = listener_port c"
  "accepted (rtx_enqueue b sq l n c) = accepted c"
  "connect_failure (rtx_enqueue b sq l n c) = connect_failure c"
  "generation (rtx_enqueue b sq l n c) = generation c"
  "recv_waker (rtx_enqueue b sq l n c) = recv_waker c"
  "send_waker (rtx_enqueue b sq l n c) = send_waker c"
  "rtx_alloc_failed (rtx_enqueue b sq l n c) = rtx_alloc_failed c"
  "rto_ms (rtx_enqueue b sq l n c) = rto_ms c"
  "rtx_deadline_ms (rtx_enqueue b sq l n c) = rtx_deadline_ms c"
  "rtx_backoff (rtx_enqueue b sq l n c) = rtx_backoff c"
  "srtt_ms (rtx_enqueue b sq l n c) = srtt_ms c" "rttvar_ms (rtx_enqueue b sq l n c) = rttvar_ms c"
  "rtt_seeded (rtx_enqueue b sq l n c) = rtt_seeded c"
  "rtt_anchor_ms (rtx_enqueue b sq l n c) = rtt_anchor_ms c"
  "rtt_anchor_seq (rtx_enqueue b sq l n c) = rtt_anchor_seq c"
  "rtt_anchor_active (rtx_enqueue b sq l n c) = rtt_anchor_active c"
  "lifecycle_deadline_ms (rtx_enqueue b sq l n c) = lifecycle_deadline_ms c"
  "fin_retx_count (rtx_enqueue b sq l n c) = fin_retx_count c"
  "persist_deadline_ms (rtx_enqueue b sq l n c) = persist_deadline_ms c"
  "persist_backoff (rtx_enqueue b sq l n c) = persist_backoff c"
  "tlp_deadline_ms (rtx_enqueue b sq l n c) = tlp_deadline_ms c"
  "tlp_count (rtx_enqueue b sq l n c) = tlp_count c"
  "rack_deadline_ms (rtx_enqueue b sq l n c) = rack_deadline_ms c"
  "rack_sack_hint (rtx_enqueue b sq l n c) = rack_sack_hint c"
  "cwnd (rtx_enqueue b sq l n c) = cwnd c" "dup_acks (rtx_enqueue b sq l n c) = dup_acks c"
  "cc (rtx_enqueue b sq l n c) = cc c" "next_free (rtx_enqueue b sq l n c) = next_free c"
  "slot_index (rtx_enqueue b sq l n c) = slot_index c"
  "tick_next (rtx_enqueue b sq l n c) = tick_next c"
  "tick_in_list (rtx_enqueue b sq l n c) = tick_in_list c" "ooo (rtx_enqueue b sq l n c) = ooo c"
  by (simp_all add: rtx_enqueue_def)

lemma set_rtt_anchor_frame [simp]:
  "state (set_rtt_anchor sq n c) = state c" "remote_ip (set_rtt_anchor sq n c) = remote_ip c"
  "local_ip (set_rtt_anchor sq n c) = local_ip c"
  "local_port (set_rtt_anchor sq n c) = local_port c"
  "remote_port (set_rtt_anchor sq n c) = remote_port c"
  "snd_nxt (set_rtt_anchor sq n c) = snd_nxt c" "snd_una (set_rtt_anchor sq n c) = snd_una c"
  "snd_wnd (set_rtt_anchor sq n c) = snd_wnd c" "snd_wscale (set_rtt_anchor sq n c) = snd_wscale c"
  "snd_mss (set_rtt_anchor sq n c) = snd_mss c" "wscale_ok (set_rtt_anchor sq n c) = wscale_ok c"
  "sack_ok (set_rtt_anchor sq n c) = sack_ok c" "snd_wl1 (set_rtt_anchor sq n c) = snd_wl1 c"
  "snd_wl2 (set_rtt_anchor sq n c) = snd_wl2 c" "rcv_nxt (set_rtt_anchor sq n c) = rcv_nxt c"
  "rcv_wnd (set_rtt_anchor sq n c) = rcv_wnd c" "rx_ring (set_rtt_anchor sq n c) = rx_ring c"
  "rx_head (set_rtt_anchor sq n c) = rx_head c" "rx_tail (set_rtt_anchor sq n c) = rx_tail c"
  "rx_used (set_rtt_anchor sq n c) = rx_used c"
  "chunk_wanted (set_rtt_anchor sq n c) = chunk_wanted c"
  "pending_chunk (set_rtt_anchor sq n c) = pending_chunk c"
  "listener_port (set_rtt_anchor sq n c) = listener_port c"
  "accepted (set_rtt_anchor sq n c) = accepted c"
  "connect_failure (set_rtt_anchor sq n c) = connect_failure c"
  "generation (set_rtt_anchor sq n c) = generation c"
  "recv_waker (set_rtt_anchor sq n c) = recv_waker c"
  "send_waker (set_rtt_anchor sq n c) = send_waker c"
  "rtx_queue (set_rtt_anchor sq n c) = rtx_queue c"
  "rtx_bytes_in_flight (set_rtt_anchor sq n c) = rtx_bytes_in_flight c"
  "rtx_alloc_failed (set_rtt_anchor sq n c) = rtx_alloc_failed c"
  "rto_ms (set_rtt_anchor sq n c) = rto_ms c"
  "rtx_deadline_ms (set_rtt_anchor sq n c) = rtx_deadline_ms c"
  "rtx_backoff (set_rtt_anchor sq n c) = rtx_backoff c"
  "srtt_ms (set_rtt_anchor sq n c) = srtt_ms c" "rttvar_ms (set_rtt_anchor sq n c) = rttvar_ms c"
  "rtt_seeded (set_rtt_anchor sq n c) = rtt_seeded c"
  "lifecycle_deadline_ms (set_rtt_anchor sq n c) = lifecycle_deadline_ms c"
  "fin_retx_count (set_rtt_anchor sq n c) = fin_retx_count c"
  "persist_deadline_ms (set_rtt_anchor sq n c) = persist_deadline_ms c"
  "persist_backoff (set_rtt_anchor sq n c) = persist_backoff c"
  "tlp_deadline_ms (set_rtt_anchor sq n c) = tlp_deadline_ms c"
  "tlp_count (set_rtt_anchor sq n c) = tlp_count c"
  "rack_deadline_ms (set_rtt_anchor sq n c) = rack_deadline_ms c"
  "rack_sack_hint (set_rtt_anchor sq n c) = rack_sack_hint c"
  "cwnd (set_rtt_anchor sq n c) = cwnd c" "dup_acks (set_rtt_anchor sq n c) = dup_acks c"
  "cc (set_rtt_anchor sq n c) = cc c" "next_free (set_rtt_anchor sq n c) = next_free c"
  "slot_index (set_rtt_anchor sq n c) = slot_index c"
  "tick_next (set_rtt_anchor sq n c) = tick_next c"
  "tick_in_list (set_rtt_anchor sq n c) = tick_in_list c" "ooo (set_rtt_anchor sq n c) = ooo c"
  by (simp_all add: set_rtt_anchor_def)

lemma arm_tlp_frame [simp]:
  "rtx_queue (arm_tlp n c) = rtx_queue c" "snd_una (arm_tlp n c) = snd_una c" "snd_nxt (arm_tlp n c) = snd_nxt c"
  "rtx_bytes_in_flight (arm_tlp n c) = rtx_bytes_in_flight c" "snd_mss (arm_tlp n c) = snd_mss c"
  "cenv (arm_tlp n c) = cenv c" "rtx_deadline_ms (arm_tlp n c) = rtx_deadline_ms c" "rto_ms (arm_tlp n c) = rto_ms c"
  "rtx_alloc_failed (arm_tlp n c) = rtx_alloc_failed c" "state (arm_tlp n c) = state c"
  by (simp_all add: arm_tlp_def Let_def)

lemma arm_rtx_frame [simp]:
  "rtx_queue (arm_rtx c) = rtx_queue c" "snd_una (arm_rtx c) = snd_una c" "snd_nxt (arm_rtx c) = snd_nxt c"
  "rtx_bytes_in_flight (arm_rtx c) = rtx_bytes_in_flight c" "snd_mss (arm_rtx c) = snd_mss c"
  "rtx_alloc_failed (arm_rtx c) = rtx_alloc_failed c" "rto_ms (arm_rtx c) = rto_ms c"
  "state (arm_rtx c) = state c" "clock (arm_rtx c) = clock c" "tx_log (cenv (arm_rtx c)) = tx_log (cenv c)"
  by (simp_all add: arm_rtx_def Let_def clock_def)

lemma cwnd_on_ack_frame [simp]:
  "state (cwnd_on_ack n c) = state c" "remote_ip (cwnd_on_ack n c) = remote_ip c"
  "local_ip (cwnd_on_ack n c) = local_ip c" "local_port (cwnd_on_ack n c) = local_port c"
  "remote_port (cwnd_on_ack n c) = remote_port c" "snd_nxt (cwnd_on_ack n c) = snd_nxt c"
  "snd_una (cwnd_on_ack n c) = snd_una c" "snd_wnd (cwnd_on_ack n c) = snd_wnd c"
  "snd_wscale (cwnd_on_ack n c) = snd_wscale c" "snd_mss (cwnd_on_ack n c) = snd_mss c"
  "wscale_ok (cwnd_on_ack n c) = wscale_ok c" "sack_ok (cwnd_on_ack n c) = sack_ok c"
  "snd_wl1 (cwnd_on_ack n c) = snd_wl1 c" "snd_wl2 (cwnd_on_ack n c) = snd_wl2 c"
  "rcv_nxt (cwnd_on_ack n c) = rcv_nxt c" "rcv_wnd (cwnd_on_ack n c) = rcv_wnd c"
  "rx_ring (cwnd_on_ack n c) = rx_ring c" "rx_head (cwnd_on_ack n c) = rx_head c"
  "rx_tail (cwnd_on_ack n c) = rx_tail c" "rx_used (cwnd_on_ack n c) = rx_used c"
  "chunk_wanted (cwnd_on_ack n c) = chunk_wanted c"
  "pending_chunk (cwnd_on_ack n c) = pending_chunk c"
  "listener_port (cwnd_on_ack n c) = listener_port c" "accepted (cwnd_on_ack n c) = accepted c"
  "connect_failure (cwnd_on_ack n c) = connect_failure c"
  "generation (cwnd_on_ack n c) = generation c" "recv_waker (cwnd_on_ack n c) = recv_waker c"
  "send_waker (cwnd_on_ack n c) = send_waker c" "rtx_queue (cwnd_on_ack n c) = rtx_queue c"
  "rtx_bytes_in_flight (cwnd_on_ack n c) = rtx_bytes_in_flight c"
  "rtx_alloc_failed (cwnd_on_ack n c) = rtx_alloc_failed c" "rto_ms (cwnd_on_ack n c) = rto_ms c"
  "rtx_deadline_ms (cwnd_on_ack n c) = rtx_deadline_ms c"
  "rtx_backoff (cwnd_on_ack n c) = rtx_backoff c" "srtt_ms (cwnd_on_ack n c) = srtt_ms c"
  "rttvar_ms (cwnd_on_ack n c) = rttvar_ms c" "rtt_seeded (cwnd_on_ack n c) = rtt_seeded c"
  "rtt_anchor_ms (cwnd_on_ack n c) = rtt_anchor_ms c"
  "rtt_anchor_seq (cwnd_on_ack n c) = rtt_anchor_seq c"
  "rtt_anchor_active (cwnd_on_ack n c) = rtt_anchor_active c"
  "lifecycle_deadline_ms (cwnd_on_ack n c) = lifecycle_deadline_ms c"
  "fin_retx_count (cwnd_on_ack n c) = fin_retx_count c"
  "persist_deadline_ms (cwnd_on_ack n c) = persist_deadline_ms c"
  "persist_backoff (cwnd_on_ack n c) = persist_backoff c"
  "tlp_deadline_ms (cwnd_on_ack n c) = tlp_deadline_ms c"
  "tlp_count (cwnd_on_ack n c) = tlp_count c"
  "rack_deadline_ms (cwnd_on_ack n c) = rack_deadline_ms c"
  "rack_sack_hint (cwnd_on_ack n c) = rack_sack_hint c" "dup_acks (cwnd_on_ack n c) = dup_acks c"
  "next_free (cwnd_on_ack n c) = next_free c" "slot_index (cwnd_on_ack n c) = slot_index c"
  "tick_next (cwnd_on_ack n c) = tick_next c" "tick_in_list (cwnd_on_ack n c) = tick_in_list c"
  "ooo (cwnd_on_ack n c) = ooo c" "cenv (cwnd_on_ack n c) = cenv c"
  by (simp_all add: cwnd_on_ack_def Let_def)

lemma sample_rtt_frame [simp]:
  "state (sample_rtt r c) = state c" "remote_ip (sample_rtt r c) = remote_ip c"
  "local_ip (sample_rtt r c) = local_ip c" "local_port (sample_rtt r c) = local_port c"
  "remote_port (sample_rtt r c) = remote_port c" "snd_nxt (sample_rtt r c) = snd_nxt c"
  "snd_una (sample_rtt r c) = snd_una c" "snd_wnd (sample_rtt r c) = snd_wnd c"
  "snd_wscale (sample_rtt r c) = snd_wscale c" "snd_mss (sample_rtt r c) = snd_mss c"
  "wscale_ok (sample_rtt r c) = wscale_ok c" "sack_ok (sample_rtt r c) = sack_ok c"
  "snd_wl1 (sample_rtt r c) = snd_wl1 c" "snd_wl2 (sample_rtt r c) = snd_wl2 c"
  "rcv_nxt (sample_rtt r c) = rcv_nxt c" "rcv_wnd (sample_rtt r c) = rcv_wnd c"
  "rx_ring (sample_rtt r c) = rx_ring c" "rx_head (sample_rtt r c) = rx_head c"
  "rx_tail (sample_rtt r c) = rx_tail c" "rx_used (sample_rtt r c) = rx_used c"
  "chunk_wanted (sample_rtt r c) = chunk_wanted c"
  "pending_chunk (sample_rtt r c) = pending_chunk c"
  "listener_port (sample_rtt r c) = listener_port c" "accepted (sample_rtt r c) = accepted c"
  "connect_failure (sample_rtt r c) = connect_failure c"
  "generation (sample_rtt r c) = generation c" "recv_waker (sample_rtt r c) = recv_waker c"
  "send_waker (sample_rtt r c) = send_waker c" "rtx_queue (sample_rtt r c) = rtx_queue c"
  "rtx_bytes_in_flight (sample_rtt r c) = rtx_bytes_in_flight c"
  "rtx_alloc_failed (sample_rtt r c) = rtx_alloc_failed c" "rto_ms (sample_rtt r c) = rto_ms c"
  "rtx_deadline_ms (sample_rtt r c) = rtx_deadline_ms c"
  "rtx_backoff (sample_rtt r c) = rtx_backoff c" "rtt_anchor_ms (sample_rtt r c) = rtt_anchor_ms c"
  "rtt_anchor_seq (sample_rtt r c) = rtt_anchor_seq c"
  "rtt_anchor_active (sample_rtt r c) = rtt_anchor_active c"
  "lifecycle_deadline_ms (sample_rtt r c) = lifecycle_deadline_ms c"
  "fin_retx_count (sample_rtt r c) = fin_retx_count c"
  "persist_deadline_ms (sample_rtt r c) = persist_deadline_ms c"
  "persist_backoff (sample_rtt r c) = persist_backoff c"
  "tlp_deadline_ms (sample_rtt r c) = tlp_deadline_ms c" "tlp_count (sample_rtt r c) = tlp_count c"
  "rack_deadline_ms (sample_rtt r c) = rack_deadline_ms c"
  "rack_sack_hint (sample_rtt r c) = rack_sack_hint c" "cwnd (sample_rtt r c) = cwnd c"
  "dup_acks (sample_rtt r c) = dup_acks c" "cc (sample_rtt r c) = cc c"
  "next_free (sample_rtt r c) = next_free c" "slot_index (sample_rtt r c) = slot_index c"
  "tick_next (sample_rtt r c) = tick_next c" "tick_in_list (sample_rtt r c) = tick_in_list c"
  "ooo (sample_rtt r c) = ooo c"
  by (simp_all add: sample_rtt_def Let_def)

lemma sample_rtt_cenv [simp]: "cenv (sample_rtt r c) = cenv c"
  by (simp add: sample_rtt_def Let_def)

lemma take_rtt_sample_frame [simp]:
  "state (take_rtt_sample c) = state c" "remote_ip (take_rtt_sample c) = remote_ip c"
  "local_ip (take_rtt_sample c) = local_ip c" "local_port (take_rtt_sample c) = local_port c"
  "remote_port (take_rtt_sample c) = remote_port c" "snd_nxt (take_rtt_sample c) = snd_nxt c"
  "snd_una (take_rtt_sample c) = snd_una c" "snd_wnd (take_rtt_sample c) = snd_wnd c"
  "snd_wscale (take_rtt_sample c) = snd_wscale c" "snd_mss (take_rtt_sample c) = snd_mss c"
  "wscale_ok (take_rtt_sample c) = wscale_ok c" "sack_ok (take_rtt_sample c) = sack_ok c"
  "snd_wl1 (take_rtt_sample c) = snd_wl1 c" "snd_wl2 (take_rtt_sample c) = snd_wl2 c"
  "rcv_nxt (take_rtt_sample c) = rcv_nxt c" "rcv_wnd (take_rtt_sample c) = rcv_wnd c"
  "rx_ring (take_rtt_sample c) = rx_ring c" "rx_head (take_rtt_sample c) = rx_head c"
  "rx_tail (take_rtt_sample c) = rx_tail c" "rx_used (take_rtt_sample c) = rx_used c"
  "chunk_wanted (take_rtt_sample c) = chunk_wanted c"
  "pending_chunk (take_rtt_sample c) = pending_chunk c"
  "listener_port (take_rtt_sample c) = listener_port c" "accepted (take_rtt_sample c) = accepted c"
  "connect_failure (take_rtt_sample c) = connect_failure c"
  "generation (take_rtt_sample c) = generation c" "recv_waker (take_rtt_sample c) = recv_waker c"
  "send_waker (take_rtt_sample c) = send_waker c" "rtx_queue (take_rtt_sample c) = rtx_queue c"
  "rtx_bytes_in_flight (take_rtt_sample c) = rtx_bytes_in_flight c"
  "rtx_alloc_failed (take_rtt_sample c) = rtx_alloc_failed c"
  "rto_ms (take_rtt_sample c) = rto_ms c" "rtx_deadline_ms (take_rtt_sample c) = rtx_deadline_ms c"
  "rtx_backoff (take_rtt_sample c) = rtx_backoff c"
  "rtt_anchor_ms (take_rtt_sample c) = rtt_anchor_ms c"
  "rtt_anchor_seq (take_rtt_sample c) = rtt_anchor_seq c"
  "lifecycle_deadline_ms (take_rtt_sample c) = lifecycle_deadline_ms c"
  "fin_retx_count (take_rtt_sample c) = fin_retx_count c"
  "persist_deadline_ms (take_rtt_sample c) = persist_deadline_ms c"
  "persist_backoff (take_rtt_sample c) = persist_backoff c"
  "tlp_deadline_ms (take_rtt_sample c) = tlp_deadline_ms c"
  "tlp_count (take_rtt_sample c) = tlp_count c"
  "rack_deadline_ms (take_rtt_sample c) = rack_deadline_ms c"
  "rack_sack_hint (take_rtt_sample c) = rack_sack_hint c" "cwnd (take_rtt_sample c) = cwnd c"
  "dup_acks (take_rtt_sample c) = dup_acks c" "cc (take_rtt_sample c) = cc c"
  "next_free (take_rtt_sample c) = next_free c" "slot_index (take_rtt_sample c) = slot_index c"
  "tick_next (take_rtt_sample c) = tick_next c" "tick_in_list (take_rtt_sample c) = tick_in_list c"
  "ooo (take_rtt_sample c) = ooo c" "cenv (take_rtt_sample c) = cenv c"
  by (simp_all add: take_rtt_sample_def)

lemma rtx_ack_frame [simp]:
  "state (snd (rtx_ack a c)) = state c" "remote_ip (snd (rtx_ack a c)) = remote_ip c"
  "local_ip (snd (rtx_ack a c)) = local_ip c" "local_port (snd (rtx_ack a c)) = local_port c"
  "remote_port (snd (rtx_ack a c)) = remote_port c" "snd_nxt (snd (rtx_ack a c)) = snd_nxt c"
  "snd_una (snd (rtx_ack a c)) = snd_una c" "snd_wnd (snd (rtx_ack a c)) = snd_wnd c"
  "snd_wscale (snd (rtx_ack a c)) = snd_wscale c" "snd_mss (snd (rtx_ack a c)) = snd_mss c"
  "wscale_ok (snd (rtx_ack a c)) = wscale_ok c" "sack_ok (snd (rtx_ack a c)) = sack_ok c"
  "snd_wl1 (snd (rtx_ack a c)) = snd_wl1 c" "snd_wl2 (snd (rtx_ack a c)) = snd_wl2 c"
  "rcv_nxt (snd (rtx_ack a c)) = rcv_nxt c" "rcv_wnd (snd (rtx_ack a c)) = rcv_wnd c"
  "rx_ring (snd (rtx_ack a c)) = rx_ring c" "rx_head (snd (rtx_ack a c)) = rx_head c"
  "rx_tail (snd (rtx_ack a c)) = rx_tail c" "rx_used (snd (rtx_ack a c)) = rx_used c"
  "chunk_wanted (snd (rtx_ack a c)) = chunk_wanted c"
  "pending_chunk (snd (rtx_ack a c)) = pending_chunk c"
  "listener_port (snd (rtx_ack a c)) = listener_port c" "accepted (snd (rtx_ack a c)) = accepted c"
  "connect_failure (snd (rtx_ack a c)) = connect_failure c"
  "generation (snd (rtx_ack a c)) = generation c" "recv_waker (snd (rtx_ack a c)) = recv_waker c"
  "send_waker (snd (rtx_ack a c)) = send_waker c"
  "rtx_alloc_failed (snd (rtx_ack a c)) = rtx_alloc_failed c"
  "rto_ms (snd (rtx_ack a c)) = rto_ms c" "rtx_deadline_ms (snd (rtx_ack a c)) = rtx_deadline_ms c"
  "rtx_backoff (snd (rtx_ack a c)) = rtx_backoff c" "srtt_ms (snd (rtx_ack a c)) = srtt_ms c"
  "rttvar_ms (snd (rtx_ack a c)) = rttvar_ms c" "rtt_seeded (snd (rtx_ack a c)) = rtt_seeded c"
  "rtt_anchor_ms (snd (rtx_ack a c)) = rtt_anchor_ms c"
  "rtt_anchor_seq (snd (rtx_ack a c)) = rtt_anchor_seq c"
  "rtt_anchor_active (snd (rtx_ack a c)) = rtt_anchor_active c"
  "lifecycle_deadline_ms (snd (rtx_ack a c)) = lifecycle_deadline_ms c"
  "fin_retx_count (snd (rtx_ack a c)) = fin_retx_count c"
  "persist_deadline_ms (snd (rtx_ack a c)) = persist_deadline_ms c"
  "persist_backoff (snd (rtx_ack a c)) = persist_backoff c"
  "tlp_deadline_ms (snd (rtx_ack a c)) = tlp_deadline_ms c"
  "tlp_count (snd (rtx_ack a c)) = tlp_count c"
  "rack_deadline_ms (snd (rtx_ack a c)) = rack_deadline_ms c"
  "rack_sack_hint (snd (rtx_ack a c)) = rack_sack_hint c" "cwnd (snd (rtx_ack a c)) = cwnd c"
  "dup_acks (snd (rtx_ack a c)) = dup_acks c" "cc (snd (rtx_ack a c)) = cc c"
  "next_free (snd (rtx_ack a c)) = next_free c" "slot_index (snd (rtx_ack a c)) = slot_index c"
  "tick_next (snd (rtx_ack a c)) = tick_next c" "tick_in_list (snd (rtx_ack a c)) = tick_in_list c"
  "ooo (snd (rtx_ack a c)) = ooo c"
  by (simp_all add: rtx_ack_def Let_def case_prod_beta)

lemma emit_rtx_entry_frame [simp]:
  "state (emit_rtx_entry i c) = state c" "remote_ip (emit_rtx_entry i c) = remote_ip c"
  "local_ip (emit_rtx_entry i c) = local_ip c" "local_port (emit_rtx_entry i c) = local_port c"
  "remote_port (emit_rtx_entry i c) = remote_port c" "snd_nxt (emit_rtx_entry i c) = snd_nxt c"
  "snd_una (emit_rtx_entry i c) = snd_una c" "snd_wnd (emit_rtx_entry i c) = snd_wnd c"
  "snd_wscale (emit_rtx_entry i c) = snd_wscale c" "snd_mss (emit_rtx_entry i c) = snd_mss c"
  "wscale_ok (emit_rtx_entry i c) = wscale_ok c" "sack_ok (emit_rtx_entry i c) = sack_ok c"
  "snd_wl1 (emit_rtx_entry i c) = snd_wl1 c" "snd_wl2 (emit_rtx_entry i c) = snd_wl2 c"
  "rcv_nxt (emit_rtx_entry i c) = rcv_nxt c" "rcv_wnd (emit_rtx_entry i c) = rcv_wnd c"
  "rx_ring (emit_rtx_entry i c) = rx_ring c" "rx_head (emit_rtx_entry i c) = rx_head c"
  "rx_tail (emit_rtx_entry i c) = rx_tail c" "rx_used (emit_rtx_entry i c) = rx_used c"
  "chunk_wanted (emit_rtx_entry i c) = chunk_wanted c"
  "pending_chunk (emit_rtx_entry i c) = pending_chunk c"
  "listener_port (emit_rtx_entry i c) = listener_port c"
  "accepted (emit_rtx_entry i c) = accepted c"
  "connect_failure (emit_rtx_entry i c) = connect_failure c"
  "generation (emit_rtx_entry i c) = generation c" "recv_waker (emit_rtx_entry i c) = recv_waker c"
  "send_waker (emit_rtx_entry i c) = send_waker c"
  "rtx_bytes_in_flight (emit_rtx_entry i c) = rtx_bytes_in_flight c"
  "rtx_alloc_failed (emit_rtx_entry i c) = rtx_alloc_failed c"
  "rto_ms (emit_rtx_entry i c) = rto_ms c"
  "rtx_deadline_ms (emit_rtx_entry i c) = rtx_deadline_ms c"
  "rtx_backoff (emit_rtx_entry i c) = rtx_backoff c" "srtt_ms (emit_rtx_entry i c) = srtt_ms c"
  "rttvar_ms (emit_rtx_entry i c) = rttvar_ms c" "rtt_seeded (emit_rtx_entry i c) = rtt_seeded c"
  "rtt_anchor_ms (emit_rtx_entry i c) = rtt_anchor_ms c"
  "rtt_anchor_seq (emit_rtx_entry i c) = rtt_anchor_seq c"
  "lifecycle_deadline_ms (emit_rtx_entry i c) = lifecycle_deadline_ms c"
  "fin_retx_count (emit_rtx_entry i c) = fin_retx_count c"
  "persist_deadline_ms (emit_rtx_entry i c) = persist_deadline_ms c"
  "persist_backoff (emit_rtx_entry i c) = persist_backoff c"
  "tlp_deadline_ms (emit_rtx_entry i c) = tlp_deadline_ms c"
  "tlp_count (emit_rtx_entry i c) = tlp_count c"
  "rack_deadline_ms (emit_rtx_entry i c) = rack_deadline_ms c"
  "rack_sack_hint (emit_rtx_entry i c) = rack_sack_hint c" "cwnd (emit_rtx_entry i c) = cwnd c"
  "dup_acks (emit_rtx_entry i c) = dup_acks c" "cc (emit_rtx_entry i c) = cc c"
  "next_free (emit_rtx_entry i c) = next_free c" "slot_index (emit_rtx_entry i c) = slot_index c"
  "tick_next (emit_rtx_entry i c) = tick_next c"
  "tick_in_list (emit_rtx_entry i c) = tick_in_list c" "ooo (emit_rtx_entry i c) = ooo c"
  by (simp_all add: emit_rtx_entry_def Let_def)

lemma emit_rtx_entry_queue [simp]:
  "length (rtx_queue (emit_rtx_entry i c)) = length (rtx_queue c)"
  "rtx_queue (emit_rtx_entry i c) = [] \<longleftrightarrow> rtx_queue c = []"
  by (simp_all add: emit_rtx_entry_def Let_def)

text \<open>Sending an entry again touches the queue, the anchor of the RTT sample and the environment, and
  nothing else.\<close>

lemma emit_rtx_entry_upd:
  "\<exists>q e a. emit_rtx_entry i c = c\<lparr>rtx_queue := q, cenv := e, rtt_anchor_active := a\<rparr> \<and> length q = length (rtx_queue c)"
proof (cases "i \<ge> length (rtx_queue c) \<or> min (re_len (rtx_queue c ! i)) (snd_mss c) = 0")
  case True
  then have "emit_rtx_entry i c = c" by (auto simp: emit_rtx_entry_def Let_def)
  then show ?thesis
    by (intro exI [of _ "rtx_queue c"] exI [of _ "cenv c"] exI [of _ "rtt_anchor_active c"]) simp
next
  case False
  let ?q = "(rtx_queue c)[i := (rtx_queue c ! i)\<lparr>tx_count := sat_add8 (tx_count (rtx_queue c ! i)) 1, last_tx_ms := clock c\<rparr>]"
  from False have "emit_rtx_entry i c = c\<lparr>rtx_queue := ?q, cenv := cenv (emit_rtx_entry i c), rtt_anchor_active := False\<rparr>"
    by (auto simp: emit_rtx_entry_def Let_def emit_def)
  then show ?thesis
    by (intro exI [of _ ?q] exI [of _ "cenv (emit_rtx_entry i c)"] exI [of _ False] conjI) simp_all
qed

lemma emit_holes_upd:
  "\<exists>q e a. emit_holes b h is c = c\<lparr>rtx_queue := q, cenv := e, rtt_anchor_active := a\<rparr> \<and> length q = length (rtx_queue c)"
proof (induction "is" arbitrary: c)
  case Nil
  show ?case by (intro exI [of _ "rtx_queue c"] exI [of _ "cenv c"] exI [of _ "rtt_anchor_active c"]) simp
next
  case (Cons i "is")
  obtain q e a where u: "emit_rtx_entry i c = c\<lparr>rtx_queue := q, cenv := e, rtt_anchor_active := a\<rparr>"
    "length q = length (rtx_queue c)" using emit_rtx_entry_upd by blast
  show ?case using Cons.IH [of c] Cons.IH [of "emit_rtx_entry i c"] unfolding u
    by (fastforce simp: Let_def u)
qed

lemma emit_marked_upd:
  "\<exists>q e a. emit_marked b ls is c = c\<lparr>rtx_queue := q, cenv := e, rtt_anchor_active := a\<rparr> \<and> length q = length (rtx_queue c)"
proof (induction "is" arbitrary: ls c)
  case Nil
  have "emit_marked b ls [] c = c" by (cases ls) simp_all
  then show ?case
    by (intro exI [of _ "rtx_queue c"] exI [of _ "cenv c"] exI [of _ "rtt_anchor_active c"]) simp
next
  case (Cons i "is")
  obtain q e a where u: "emit_rtx_entry i c = c\<lparr>rtx_queue := q, cenv := e, rtt_anchor_active := a\<rparr>"
    "length q = length (rtx_queue c)" using emit_rtx_entry_upd by blast
  show ?case
  proof (cases ls)
    case Nil
    then show ?thesis
      by (intro exI [of _ "rtx_queue c"] exI [of _ "cenv c"] exI [of _ "rtt_anchor_active c"]) simp
  next
    case ls: (Cons l ls')
    show ?thesis using Cons.IH [of ls c] Cons.IH [of ls' "emit_rtx_entry i c"] unfolding u ls
      by (fastforce simp: u)
  qed
qed

section \<open>The queue mirrors the unacknowledged stream\<close>

text \<open>The entries abut from a sequence number on, each with its length cached, none empty.\<close>

fun rtx_from :: "u32 \<Rightarrow> RtxEntry list \<Rightarrow> bool" where
  "rtx_from s [] = True"
| "rtx_from s (e # q) = (re_seq_start e = s \<and> re_len e = length (rx_iobuf e) \<and> 0 < re_len e
     \<and> re_len e < 65536 \<and> rtx_from (s + of_nat (re_len e)) q)"

definition rtx_data :: "RtxEntry list \<Rightarrow> bytes" where
  "rtx_data q = concat (map rx_iobuf q)"

lemma rtx_data_simps [simp]:
  "rtx_data [] = []" "rtx_data (e # q) = rx_iobuf e @ rtx_data q"
  "rtx_data (q @ r) = rtx_data q @ rtx_data r"
  by (simp_all add: rtx_data_def)

lemma rtx_from_append:
  "rtx_from s (q @ r) \<longleftrightarrow> rtx_from s q \<and> rtx_from (s + of_nat (length (rtx_data q))) r"
  by (induction q arbitrary: s) (auto simp: add.assoc)

lemma rtx_from_empty: "rtx_from s q \<Longrightarrow> rtx_data q = [] \<longleftrightarrow> q = []"
  by (cases q) auto

text \<open>An acknowledgement that covers the first \<open>k\<close> bytes, possibly with a phantom byte for a FIN
  beyond the data, drops exactly those bytes.\<close>

lemma rtx_ack_loop_correct:
  assumes "rtx_from s q" "k \<le> Suc (length (rtx_data q))" "length (rtx_data q) < 2147483647"
    "rtx_ack_loop (s + of_nat k) q fl acked = (q', fl', acked')"
  shows "rtx_data q' = drop k (rtx_data q)
    \<and> rtx_from (s + of_nat (min k (length (rtx_data q)))) q'
    \<and> fl' = fl - min k (length (rtx_data q)) \<and> acked' = acked + min k (length (rtx_data q))"
  using assms
proof (induction q arbitrary: s k fl acked)
  case (Cons h q)
  let ?l = "re_len h"
  have h: "re_seq_start h = s" "length (rx_iobuf h) = ?l" "?l < 65536" "0 < ?l" and q: "rtx_from (s + of_nat ?l) q"
    using Cons.prems(1) by auto
  have len: "length (rtx_data (h # q)) = ?l + length (rtx_data q)" using h by simp
  have lt1: "seq_lt (s + of_nat k) (s + of_nat ?l) \<longleftrightarrow> k < ?l"
    using Cons.prems(2,3) h(3) by (intro seq_lt_offsets) (auto simp: len)
  have lt2: "seq_lt s (s + of_nat k) \<longleftrightarrow> 0 < k"
    using seq_lt_offsets [of 0 k s] Cons.prems(2,3) by (simp add: len)
  show ?case
  proof (cases "k < ?l")
    case True
    have k: "unat (s + of_nat k - s) = k" using True h(3) by (simp add: unat_of_nat)
    show ?thesis
    proof (cases "k = 0")
      case True
      then show ?thesis using Cons.prems(1,4) h lt1 lt2 by (auto split: if_splits)
    next
      case False
      then have "q' = h\<lparr>rx_iobuf := drop k (rx_iobuf h), re_seq_start := s + of_nat k, re_len := ?l - k\<rparr> # q"
        "fl' = fl - k" "acked' = acked + k"
        using Cons.prems(4) True h k by (simp_all add: lt1 lt2 Let_def as_u16_def)
      then show ?thesis using True q h by (simp add: len of_nat_diff)
    qed
  next
    case False
    then have rec: "rtx_ack_loop (s + of_nat ?l + of_nat (k - ?l)) q (fl - ?l) (acked + ?l) = (q', fl', acked')"
      using Cons.prems(4) h by (simp add: lt1 of_nat_diff)
    have "rtx_data q' = drop (k - ?l) (rtx_data q)
      \<and> rtx_from (s + of_nat ?l + of_nat (min (k - ?l) (length (rtx_data q)))) q'
      \<and> fl' = fl - ?l - min (k - ?l) (length (rtx_data q))
      \<and> acked' = acked + ?l + min (k - ?l) (length (rtx_data q))"
      by (rule Cons.IH [OF q _ _ rec]) (use Cons.prems(2,3) h False in \<open>auto simp: len\<close>)
    moreover have "min k (length (rtx_data (h # q))) = ?l + min (k - ?l) (length (rtx_data q))"
      using False unfolding len by simp
    ultimately show ?thesis using False h by (simp add: add.assoc)
  qed
qed simp

text \<open>The invariant while coverage is not suspended: the queue holds the bytes from \<open>snd_una\<close> on.\<close>

definition rtx_inv :: "'a tcb_scheme \<Rightarrow> bool" where
  "rtx_inv c \<longleftrightarrow> rtx_from (snd_una c) (rtx_queue c)
     \<and> rtx_bytes_in_flight c = length (rtx_data (rtx_queue c))
     \<and> length (rtx_data (rtx_queue c)) < 2147483647"

lemma rtx_ack_correct:
  assumes inv: "rtx_inv c" and k: "k \<le> Suc (length (rtx_data (rtx_queue c)))"
    and ack: "rtx_ack (snd_una c + of_nat k) c = (n, c')"
  shows "n = min k (length (rtx_data (rtx_queue c)))"
    "rtx_data (rtx_queue c') = drop k (rtx_data (rtx_queue c))"
    "rtx_from (snd_una c + of_nat n) (rtx_queue c')"
    "rtx_bytes_in_flight c' = length (rtx_data (rtx_queue c'))"
proof -
  obtain q fl acked where loop: "rtx_ack_loop (snd_una c + of_nat k) (rtx_queue c) (rtx_bytes_in_flight c) 0 = (q, fl, acked)"
    by (metis prod_cases3)
  then have c': "n = acked" "c' = c\<lparr>rtx_queue := q, rtx_bytes_in_flight := fl\<rparr>"
    using ack by (simp_all add: rtx_ack_def)
  show "n = min k (length (rtx_data (rtx_queue c)))"
    "rtx_data (rtx_queue c') = drop k (rtx_data (rtx_queue c))"
    "rtx_from (snd_una c + of_nat n) (rtx_queue c')"
    "rtx_bytes_in_flight c' = length (rtx_data (rtx_queue c'))"
    using rtx_ack_loop_correct [OF _ k _ loop] inv by (auto simp: rtx_inv_def c')
qed

section \<open>Covering sent data\<close>

lemma rtx_push_ok:
  assumes "rtx_push b sq l now c = (True, c')"
  shows "\<exists>e. rtx_queue c' = rtx_queue c @ [e] \<and> rx_iobuf e = b \<and> re_seq_start e = sq \<and> re_len e = l
      \<and> \<not> sacked e"
    "rtx_bytes_in_flight c' = sat_add32 (rtx_bytes_in_flight c) l"
    "snd_una c' = snd_una c" "snd_nxt c' = snd_nxt c" "rtx_alloc_failed c' = rtx_alloc_failed c"
proof -
  obtain e where c': "c' = set_rtt_anchor (sq + of_nat l) now
      (if rtx_queue c = [] \<and> rtx_deadline_ms c = 0 then arm_rtx (rtx_enqueue b sq l now (c\<lparr>cenv := e\<rparr>))
       else rtx_enqueue b sq l now (c\<lparr>cenv := e\<rparr>))"
    using assms by (auto simp: rtx_push_def Let_def split: prod.splits if_splits)
  show "\<exists>e. rtx_queue c' = rtx_queue c @ [e] \<and> rx_iobuf e = b \<and> re_seq_start e = sq \<and> re_len e = l
      \<and> \<not> sacked e"
    "rtx_bytes_in_flight c' = sat_add32 (rtx_bytes_in_flight c) l"
    "snd_una c' = snd_una c" "snd_nxt c' = snd_nxt c" "rtx_alloc_failed c' = rtx_alloc_failed c"
    by (simp_all add: c') (simp_all add: rtx_enqueue_def)
qed

lemma rtx_push_fail:
  assumes "rtx_push b sq l now c = (False, c')"
  shows "\<exists>e. c' = c\<lparr>cenv := e, rtx_alloc_failed := True\<rparr>"
  using assms by (auto simp: rtx_push_def Let_def split: prod.splits if_splits)

lemma drain_chain_prefix_concat:
  "concat (drain_chain_prefix bs n) = drop n (concat bs)"
  by (induction bs n rule: drain_chain_prefix.induct) (auto simp: drop_append)

lemma rtx_sent_loop_chain:
  "concat (fst (rtx_sent_loop now bs tot sq c)) = drop tot (concat bs)"
proof (induction now bs tot sq c rule: rtx_sent_loop.induct)
  case (2 now b bs tot sq c)
  obtain ok c1 where p: "rtx_push b sq (as_u16 (length b)) now c = (ok, c1)" by fastforce
  show ?case
    using "2.IH" [OF _ _ p [symmetric]] p
    by (auto simp: Let_def drain_chain_prefix_concat split: prod.split)
qed simp

text \<open>Unless an allocation failed, the bytes handed over are appended to the queue, part by part, in
  order. Parts of 65536 bytes or more are excluded: their length is cut to 16 bits.\<close>

lemma rtx_sent_loop_queue:
  assumes "\<forall>b \<in> set bs. 0 < length b \<and> length b < 65536" "tot \<le> length (concat bs)"
    "rtx_sent_loop now bs tot sq c = (bs', c')" "\<not> rtx_alloc_failed c'" "\<not> rtx_alloc_failed c"
    "rtx_bytes_in_flight c + tot \<le> U32_MAX"
  shows "\<exists>r. rtx_queue c' = rtx_queue c @ r \<and> rtx_data r = take tot (concat bs) \<and> rtx_from sq r
    \<and> rtx_bytes_in_flight c' = rtx_bytes_in_flight c + tot
    \<and> snd_una c' = snd_una c \<and> snd_nxt c' = snd_nxt c"
  using assms
proof (induction now bs tot sq c rule: rtx_sent_loop.induct)
  case (1 now tot sq c)
  then show ?case by auto
next
  case (2 now b bs tot sq c)
  have b: "0 < length b" "length b < 65536" using "2.prems"(1) by auto
  consider "tot = 0" | "0 < tot" "length b \<le> tot" | "0 < tot" "tot < length b" by linarith
  then show ?case
  proof cases
    case 1
    then show ?thesis using "2.prems" by auto
  next
    case 2
    obtain ok c1 where p: "rtx_push b sq (as_u16 (length b)) now c = (ok, c1)" by fastforce
    show ?thesis
    proof (cases ok)
      case False
      then have "c' = handle_rtx_push_oom c1" "rtx_alloc_failed c1"
        using "2.prems"(3) 2 p rtx_push_fail [of b sq "as_u16 (length b)" now c c1] by auto
      then show ?thesis using "2.prems"(4) by (simp add: handle_rtx_push_oom_def)
    next
      case True
      have push: "rtx_push b sq (length b) now c = (True, c1)" using p True b by (simp add: as_u16_id)
      from rtx_push_ok [OF push] obtain e where e: "rtx_queue c1 = rtx_queue c @ [e]" "rx_iobuf e = b"
        "re_seq_start e = sq" "re_len e = length b" "rtx_bytes_in_flight c1 = rtx_bytes_in_flight c + length b"
        "snd_una c1 = snd_una c" "snd_nxt c1 = snd_nxt c" "rtx_alloc_failed c1 = rtx_alloc_failed c"
        using "2.prems"(6) 2 by (auto simp: sat_add32_def U32_MAX_def)
      have rec: "rtx_sent_loop now bs (tot - length b) (sq + of_nat (length b)) c1 = (bs', c')"
        using "2.prems"(3) 2 p True by simp
      have "\<exists>r. rtx_queue c' = rtx_queue c1 @ r \<and> rtx_data r = take (tot - length b) (concat bs)
        \<and> rtx_from (sq + of_nat (length b)) r \<and> rtx_bytes_in_flight c' = rtx_bytes_in_flight c1 + (tot - length b)
        \<and> snd_una c' = snd_una c1 \<and> snd_nxt c' = snd_nxt c1"
        by (rule "2.IH" [OF _ _ p [symmetric] refl]) (use 2 True rec "2.prems" e in auto)
      then obtain r where "rtx_queue c' = rtx_queue c1 @ r" "rtx_data r = take (tot - length b) (concat bs)"
        "rtx_from (sq + of_nat (length b)) r" "rtx_bytes_in_flight c' = rtx_bytes_in_flight c1 + (tot - length b)"
        "snd_una c' = snd_una c1" "snd_nxt c' = snd_nxt c1" by blast
      then show ?thesis using 2 b e by (intro exI [of _ "e # r"]) auto
    qed
  next
    case 3
    obtain ok c1 where p: "rtx_push (take tot b) sq (as_u16 tot) now c = (ok, c1)" by fastforce
    show ?thesis
    proof (cases ok)
      case False
      then have "c' = handle_rtx_push_oom c1" "rtx_alloc_failed c1"
        using "2.prems"(3) 3 p rtx_push_fail [of "take tot b" sq "as_u16 tot" now c c1] by auto
      then show ?thesis using "2.prems"(4) by (simp add: handle_rtx_push_oom_def)
    next
      case True
      then have "c' = c1" using "2.prems"(3) 3 p by auto
      moreover have push: "rtx_push (take tot b) sq tot now c = (True, c1)" using p True b 3 by (simp add: as_u16_id)
      ultimately show ?thesis
        using rtx_push_ok [OF push] "2.prems"(6) 3 b by (auto simp: sat_add32_def U32_MAX_def)
    qed
  qed
qed

lemma rtx_on_data_sent_covers:
  assumes inv: "rtx_inv c" and nxt: "snd_nxt c = snd_una c + of_nat (length (rtx_data (rtx_queue c)) + tot)"
    and parts: "\<forall>b \<in> set chain. 0 < length b \<and> length b < 65536" and tot: "tot \<le> length (concat chain)"
    and room: "length (rtx_data (rtx_queue c)) + tot < 2147483647"
    and ok: "\<not> rtx_alloc_failed c" "\<not> rtx_alloc_failed c'"
    and sent: "rtx_on_data_sent chain tot c = (chain', c')"
  shows "rtx_inv c'" "rtx_data (rtx_queue c') = rtx_data (rtx_queue c) @ take tot (concat chain)"
    "concat chain' = drop tot (concat chain)" "snd_una c' = snd_una c" "snd_nxt c' = snd_nxt c"
proof -
  have "rtx_inv c' \<and> rtx_data (rtx_queue c') = rtx_data (rtx_queue c) @ take tot (concat chain)
    \<and> concat chain' = drop tot (concat chain) \<and> snd_una c' = snd_una c \<and> snd_nxt c' = snd_nxt c"
  proof (cases "tot = 0")
    case True
    then show ?thesis using sent inv by (auto simp: rtx_on_data_sent_def)
  next
    case False
    let ?sq = "snd_una c + of_nat (length (rtx_data (rtx_queue c)))"
    have "snd_nxt c - of_nat tot = ?sq" by (simp add: nxt)
    then have loop: "rtx_sent_loop (clock c) chain tot ?sq c = (chain', c')"
      using sent False ok(1) by (simp add: rtx_on_data_sent_def)
    have "rtx_bytes_in_flight c + tot \<le> U32_MAX" using inv room by (simp add: rtx_inv_def U32_MAX_def)
    from rtx_sent_loop_queue [OF parts tot loop ok(2,1) this] rtx_sent_loop_chain [of "clock c" chain tot ?sq c]
    show ?thesis using inv loop room tot by (auto simp: rtx_inv_def rtx_from_append min_absorb2)
  qed
  then show "rtx_inv c'" "rtx_data (rtx_queue c') = rtx_data (rtx_queue c) @ take tot (concat chain)"
    "concat chain' = drop tot (concat chain)" "snd_una c' = snd_una c" "snd_nxt c' = snd_nxt c" by simp_all
qed

section \<open>Retransmissions are faithful\<close>

text \<open>Two queues that differ only in transmission counts, times and SACK marks.\<close>

definition same_data :: "RtxEntry list \<Rightarrow> RtxEntry list \<Rightarrow> bool" where
  "same_data q r \<longleftrightarrow> map (\<lambda>e. (rx_iobuf e, re_seq_start e, re_len e)) q = map (\<lambda>e. (rx_iobuf e, re_seq_start e, re_len e)) r"

lemma same_data_refl [simp]: "same_data q q"
  by (simp add: same_data_def)

lemma same_data_trans: "same_data q r \<Longrightarrow> same_data r s \<Longrightarrow> same_data q s"
  by (simp add: same_data_def)

lemma same_data_length: "same_data q r \<Longrightarrow> length q = length r"
  by (simp add: same_data_def map_equality_iff)

lemma same_data_nth:
  assumes "same_data q r" "i < length q"
  shows "rx_iobuf (q ! i) = rx_iobuf (r ! i)" "re_seq_start (q ! i) = re_seq_start (r ! i)"
    "re_len (q ! i) = re_len (r ! i)"
  using assms by (auto simp: same_data_def map_equality_iff)

lemma same_data_cons:
  "same_data (e # q) r \<Longrightarrow> \<exists>f s. r = f # s \<and> rx_iobuf f = rx_iobuf e \<and> re_seq_start f = re_seq_start e
     \<and> re_len f = re_len e \<and> same_data q s"
  by (cases r) (auto simp: same_data_def)

lemma same_data_rtx: "same_data q r \<Longrightarrow> rtx_data r = rtx_data q \<and> (rtx_from s r \<longleftrightarrow> rtx_from s q)"
proof (induction q arbitrary: r s)
  case Nil
  then show ?case by (simp add: same_data_def)
next
  case (Cons e q)
  from same_data_cons [OF Cons.prems] obtain f t where "r = f # t" "rx_iobuf f = rx_iobuf e"
    "re_seq_start f = re_seq_start e" "re_len f = re_len e" "same_data q t" by blast
  with Cons.IH [OF this(5), of "s + of_nat (re_len e)"] show ?case by simp
qed

lemma same_data_sacked: "same_data q (map (\<lambda>e. e\<lparr>sacked := f e\<rparr>) q)"
  by (simp add: same_data_def)

text \<open>A segment sent again from the data \<open>d\<close> that starts at \<open>s\<close>: its payload is a non-empty piece of at
  most \<open>m\<close> bytes, at the place its sequence number says.\<close>

definition faithful :: "bytes \<Rightarrow> u32 \<Rightarrow> nat \<Rightarrow> sent_segment \<Rightarrow> bool" where
  "faithful d s m g \<longleftrightarrow> seg_payload g \<noteq> [] \<and> length (seg_payload g) \<le> m
     \<and> (\<exists>off. sm_seq (seg_meta g) = s + of_nat off \<and> off + length (seg_payload g) \<le> length d
          \<and> seg_payload g = take (length (seg_payload g)) (drop off d))"

lemma rtx_from_nth:
  assumes "rtx_from s q" "i < length q"
  shows "\<exists>off. re_seq_start (q ! i) = s + of_nat off \<and> off + re_len (q ! i) \<le> length (rtx_data q)
    \<and> rx_iobuf (q ! i) = take (re_len (q ! i)) (drop off (rtx_data q))
    \<and> re_len (q ! i) = length (rx_iobuf (q ! i)) \<and> 0 < re_len (q ! i)"
proof -
  have split: "q = take i q @ q ! i # drop (Suc i) q" using assms(2) by (simp add: id_take_nth_drop)
  let ?off = "length (rtx_data (take i q))"
  have "rtx_from (s + of_nat ?off) (q ! i # drop (Suc i) q)"
    using assms(1) split rtx_from_append [of s "take i q" "q ! i # drop (Suc i) q"] by metis
  moreover have "rtx_data q = rtx_data (take i q) @ rx_iobuf (q ! i) @ rtx_data (drop (Suc i) q)"
    by (subst split) simp
  ultimately show ?thesis by (intro exI [of _ ?off]) auto
qed

text \<open>What a retransmission step keeps and adds.\<close>

definition resends :: "conn \<Rightarrow> conn \<Rightarrow> bool" where
  "resends c c' \<longleftrightarrow> same_data (rtx_queue c) (rtx_queue c') \<and> snd_una c' = snd_una c \<and> snd_nxt c' = snd_nxt c
     \<and> rtx_bytes_in_flight c' = rtx_bytes_in_flight c \<and> snd_mss c' = snd_mss c
     \<and> rtx_alloc_failed c' = rtx_alloc_failed c
     \<and> (rtx_inv c \<longrightarrow> (\<exists>new. tx_log (cenv c') = tx_log (cenv c) @ new
         \<and> list_all (faithful (rtx_data (rtx_queue c)) (snd_una c) (snd_mss c)) new))"

lemma resends_refl: "resends c c"
  by (simp add: resends_def)

lemma resends_inv: "resends c c' \<Longrightarrow> rtx_inv c \<Longrightarrow> rtx_inv c'"
  using same_data_rtx [of "rtx_queue c" "rtx_queue c'" "snd_una c"] by (auto simp: resends_def rtx_inv_def)

lemma resends_trans:
  assumes "resends c d" "resends d e"
  shows "resends c e"
proof -
  have "rtx_inv c \<Longrightarrow> rtx_inv d" using resends_inv [OF assms(1)] .
  moreover have "rtx_data (rtx_queue d) = rtx_data (rtx_queue c)"
    using assms(1) same_data_rtx by (auto simp: resends_def)
  ultimately show ?thesis
    using assms by (fastforce simp: resends_def intro: same_data_trans)
qed

lemma build_and_send_frame_log:
  "\<exists>new. tx_log (snd (build_and_send_frame m opts p e)) = tx_log e @ new \<and> set new \<subseteq> {\<lparr>seg_meta = m, seg_options = opts, seg_payload = p\<rparr>}"
  by (auto simp: build_and_send_frame_def acquire_tx_buf_def push_tx_def Let_def split: list.split)

lemma emit_log:
  "\<exists>new. tx_log (cenv (emit m p opts c)) = tx_log (cenv c) @ new
     \<and> set new \<subseteq> {\<lparr>seg_meta = m, seg_options = opts, seg_payload = take MSS_MAX p\<rparr>}"
proof (cases "mac_known (cenv c) (sm_dst_ip m)")
  case True
  then show ?thesis
    using build_and_send_frame_log [of m opts "take (min (length p) MSS_MAX) p" "cenv c"]
    by (cases "length p \<le> MSS_MAX") (auto simp: emit_def send_segment_opts_def min_def)
next
  case False
  then show ?thesis by (auto simp: emit_def send_segment_opts_def)
qed

lemma emit_rtx_entry_resends:
  assumes "snd_mss c \<le> MSS_MAX"
  shows "resends c (emit_rtx_entry i c)"
proof (cases "i \<ge> length (rtx_queue c) \<or> min (re_len (rtx_queue c ! i)) (snd_mss c) = 0")
  case True
  then show ?thesis by (auto simp: emit_rtx_entry_def Let_def resends_refl)
next
  case False
  let ?e = "rtx_queue c ! i" and ?n = "min (re_len (rtx_queue c ! i)) (snd_mss c)"
  define c1 where "c1 = c\<lparr>rtx_queue := (rtx_queue c)[i := ?e\<lparr>tx_count := sat_add8 (tx_count ?e) 1,
    last_tx_ms := clock c\<rparr>]\<rparr>"
  define m where "m = seg_of c1 (re_seq_start ?e) (TCP_ACK OR TCP_PSH) (as_u16 (rx_free c1))"
  define c2 where "c2 = emit m (take ?n (rx_iobuf ?e)) [] c1"
  have eq: "emit_rtx_entry i c = c2\<lparr>rtt_anchor_active := False\<rparr>"
    unfolding emit_rtx_entry_def Let_def c2_def m_def c1_def using False by (simp only: if_False de_Morgan_disj)
  have same: "same_data (rtx_queue c) (rtx_queue c2)"
    using False by (auto simp: c2_def c1_def same_data_def nth_list_update intro!: nth_equalityI)
  have "\<exists>new. tx_log (cenv c2) = tx_log (cenv c) @ new
      \<and> list_all (faithful (rtx_data (rtx_queue c)) (snd_una c) (snd_mss c)) new" if inv: "rtx_inv c"
  proof -
    obtain new where new: "tx_log (cenv c2) = tx_log (cenv c1) @ new"
      "set new \<subseteq> {\<lparr>seg_meta = m, seg_options = [], seg_payload = take MSS_MAX (take ?n (rx_iobuf ?e))\<rparr>}"
      using emit_log [of m "take ?n (rx_iobuf ?e)" "[]" c1] by (auto simp: c2_def)
    obtain off where off: "re_seq_start ?e = snd_una c + of_nat off" "off + re_len ?e \<le> length (rtx_data (rtx_queue c))"
      "rx_iobuf ?e = take (re_len ?e) (drop off (rtx_data (rtx_queue c)))" "re_len ?e = length (rx_iobuf ?e)"
    proof -
      have "rtx_from (snd_una c) (rtx_queue c)" "i < length (rtx_queue c)"
        using inv False by (simp_all add: rtx_inv_def)
      from rtx_from_nth [OF this] show ?thesis by (elim exE conjE) (rule that)
    qed
    have pay: "take MSS_MAX (take ?n (rx_iobuf ?e)) = take ?n (drop off (rtx_data (rtx_queue c)))"
      using assms by (subst off(3)) (simp add: min_def)
    have "faithful (rtx_data (rtx_queue c)) (snd_una c) (snd_mss c)
        \<lparr>seg_meta = m, seg_options = [], seg_payload = take ?n (drop off (rtx_data (rtx_queue c)))\<rparr>"
      using off(1,2) False by (auto simp: faithful_def m_def seg_of_def min_def intro!: exI [of _ off])
    with new(2) have "list_all (faithful (rtx_data (rtx_queue c)) (snd_una c) (snd_mss c)) new"
      unfolding pay list_all_iff by blast
    with new(1) show ?thesis by (auto simp: c1_def)
  qed
  then show ?thesis using same by (simp add: resends_def eq) (simp add: c2_def c1_def)
qed

lemma resends_cong:
  assumes "resends c d" "rtx_queue c' = rtx_queue c" "snd_una c' = snd_una c" "snd_nxt c' = snd_nxt c"
    "rtx_bytes_in_flight c' = rtx_bytes_in_flight c" "snd_mss c' = snd_mss c" "tx_log (cenv c') = tx_log (cenv c)"
    "rtx_alloc_failed c' = rtx_alloc_failed c" "rtx_alloc_failed d' = rtx_alloc_failed d"
    "same_data (rtx_queue d) (rtx_queue d')" "snd_una d' = snd_una d" "snd_nxt d' = snd_nxt d"
    "rtx_bytes_in_flight d' = rtx_bytes_in_flight d" "snd_mss d' = snd_mss d" "tx_log (cenv d') = tx_log (cenv d)"
  shows "resends c' d'"
  using assms by (auto simp: resends_def rtx_inv_def intro: same_data_trans)

lemma emit_holes_resends: "snd_mss c \<le> MSS_MAX \<Longrightarrow> resends c (emit_holes b h is c)"
proof (induction b h "is" c rule: emit_holes.induct)
  case (2 base highest i "is" c)
  then show ?case
    using emit_rtx_entry_resends [of c i] by (auto simp: Let_def intro: resends_trans)
qed (simp add: resends_refl)

lemma emit_marked_resends: "snd_mss c \<le> MSS_MAX \<Longrightarrow> resends c (emit_marked b ls is c)"
proof (induction b ls "is" c rule: emit_marked.induct)
  case (3 base l ls i "is" c)
  then show ?case
    using emit_rtx_entry_resends [of c i] by (auto intro: resends_trans)
qed (simp_all add: resends_refl)

lemma sack_retransmit_holes_resends: "snd_mss c \<le> MSS_MAX \<Longrightarrow> resends c (sack_retransmit_holes c)"
  by (auto simp: sack_retransmit_holes_def Let_def resends_refl emit_holes_resends split: option.split)

lemma fast_retransmit_resends:
  assumes "snd_mss c \<le> MSS_MAX"
  shows "resends c (fast_retransmit c)"
proof -
  let ?c1 = "c\<lparr>cc := ctl_on_loss 0 False (cc c)\<rparr>"
  have "resends ?c1 (if sack_ok ?c1 \<and> list_ex sacked (rtx_queue ?c1) then sack_retransmit_holes ?c1
      else retransmit_oldest_segment ?c1)"
    using assms sack_retransmit_holes_resends [of ?c1] emit_rtx_entry_resends [of ?c1 0]
    by (simp add: retransmit_oldest_segment_def)
  then show ?thesis
    unfolding fast_retransmit_def Let_def by (rule resends_cong) simp_all
qed

text \<open>A step that touches neither the data nor the log.\<close>

lemma resends_quiet:
  assumes "same_data (rtx_queue c) (rtx_queue d)" "snd_una d = snd_una c" "snd_nxt d = snd_nxt c"
    "rtx_bytes_in_flight d = rtx_bytes_in_flight c" "snd_mss d = snd_mss c" "tx_log (cenv d) = tx_log (cenv c)"
    "rtx_alloc_failed d = rtx_alloc_failed c"
  shows "resends c d"
  using assms by (auto simp: resends_def)

lemma on_dup_ack_resends:
  assumes "snd_mss c \<le> MSS_MAX"
  shows "resends c (on_dup_ack c)"
proof -
  let ?c1 = "c\<lparr>dup_acks := sat_add8 (dup_acks c) 1\<rparr>"
  have "resends c ?c1" by (rule resends_quiet) simp_all
  moreover have "resends ?c1 (fast_retransmit ?c1)" by (rule fast_retransmit_resends) (simp add: assms)
  ultimately show ?thesis by (auto simp: on_dup_ack_def Let_def intro: resends_trans)
qed

lemma retransmit_oldest_resends:
  assumes "snd_mss c \<le> MSS_MAX"
  shows "resends c (retransmit_oldest now c)"
proof (cases "rtx_bytes_in_flight c = 0")
  case True
  then show ?thesis by (auto simp: retransmit_oldest_def intro!: resends_quiet)
next
  case False
  define c2 where "c2 = (congestion_on_rto c)\<lparr>rtx_queue := map (\<lambda>e. e\<lparr>sacked := False\<rparr>) (rtx_queue (congestion_on_rto c))\<rparr>"
  have "resends c c2"
    by (rule resends_quiet) (simp_all add: c2_def congestion_on_rto_def Let_def same_data_sacked)
  moreover have "resends c2 (retransmit_oldest_segment c2)"
    unfolding retransmit_oldest_segment_def
    by (rule emit_rtx_entry_resends) (use assms in \<open>simp add: c2_def congestion_on_rto_def Let_def\<close>)
  ultimately have "resends c (retransmit_oldest_segment c2)" by (rule resends_trans)
  then show ?thesis
    unfolding retransmit_oldest_def Let_def c2_def [symmetric] using False by (auto elim: resends_cong)
qed

lemma send_tlp_probe_resends:
  assumes "snd_mss c \<le> MSS_MAX"
  shows "resends c (send_tlp_probe now c)"
proof -
  let ?c1 = "c\<lparr>tlp_count := sat_add8 (tlp_count c) 1\<rparr>"
  have "resends c ?c1" by (rule resends_quiet) simp_all
  moreover have "resends ?c1 (emit_rtx_entry 0 ?c1)" by (rule emit_rtx_entry_resends) (simp add: assms)
  moreover have "resends (emit_rtx_entry 0 ?c1) (arm_for_tick (arm_tlp now (emit_rtx_entry 0 ?c1)))"
    by (rule resends_quiet) simp_all
  ultimately have "resends c (arm_for_tick (arm_tlp now (emit_rtx_entry 0 ?c1)))"
    by (blast intro: resends_trans)
  moreover have "resends c (c\<lparr>tlp_deadline_ms := 0\<rparr>)" by (rule resends_quiet) simp_all
  ultimately show ?thesis by (simp add: send_tlp_probe_def Let_def)
qed

lemma rack_detect_resends:
  assumes "snd_mss c00 \<le> MSS_MAX"
  shows "resends c00 (rack_detect now c00)"
proof -
  define c where "c = c00\<lparr>rack_deadline_ms := 0\<rparr>"
  have c: "resends c00 c" by (rule resends_quiet) (simp_all add: c_def)
  have hint: "resends c (c\<lparr>rack_sack_hint := False\<rparr>)" by (rule resends_quiet) simp_all
  have fin: "resends c d \<Longrightarrow> resends c (case dl of Some x \<Rightarrow> arm_for_tick (d\<lparr>rack_deadline_ms := x\<rparr>) | None \<Rightarrow> d)"
    for d dl by (cases dl) (auto elim!: resends_trans intro!: resends_quiet)
  have marked: "resends c (let c1 = emit_marked b ls is (c\<lparr>cc := ctl_on_loss 0 False (cc c)\<rparr>)
      in c1\<lparr>cwnd := ctl_window (cc c1)\<rparr>)" for b ls "is"
  proof -
    let ?c0 = "c\<lparr>cc := ctl_on_loss 0 False (cc c)\<rparr>"
    have "resends ?c0 (emit_marked b ls is ?c0)" by (rule emit_marked_resends) (simp add: assms c_def)
    then show ?thesis unfolding Let_def by (rule resends_cong) simp_all
  qed
  have "resends c (rack_detect now c00)"
    unfolding rack_detect_def Let_def [of c00] Let_def [of "c00\<lparr>rack_deadline_ms := 0\<rparr>"] c_def [symmetric]
    using hint fin marked by (auto simp: resends_refl Let_def split: option.split prod.split)
  with c show ?thesis by (rule resends_trans)
qed

lemma apply_sack_resends: "resends c (snd (apply_sack blocks c))"
  by (rule resends_quiet) (auto simp: apply_sack_def Let_def same_data_def)

section \<open>Timer coverage\<close>

text \<open>Every armed deadline is on the core's list, and data in the queue has its timer armed.\<close>

definition timers_listed :: "'a tcb_scheme \<Rightarrow> bool" where
  "timers_listed c \<longleftrightarrow> (rtx_deadline_ms c \<noteq> 0 \<or> tlp_deadline_ms c \<noteq> 0 \<or> rack_deadline_ms c \<noteq> 0
     \<or> persist_deadline_ms c \<noteq> 0 \<or> lifecycle_deadline_ms c \<noteq> 0 \<longrightarrow> tick_in_list c)"

definition rto_ok :: "'a tcb_scheme \<Rightarrow> bool" where
  "rto_ok c \<longleftrightarrow> RTO_INITIAL_MS \<le> rto_ms c \<and> rto_ms c \<le> RTO_MAX_MS"

definition timer_inv :: "'a tcb_scheme \<Rightarrow> bool" where
  "timer_inv c \<longleftrightarrow> timers_listed c \<and> rto_ok c \<and> (rtx_queue c \<noteq> [] \<longrightarrow> rtx_deadline_ms c \<noteq> 0)"

lemma estimated_rto_bounds: "RTO_INITIAL_MS \<le> estimated_rto c" "estimated_rto c \<le> RTO_MAX_MS"
  by (simp_all add: estimated_rto_def Let_def tcp_consts)

lemma timer_inv_arm_for_tick:
  "rto_ok c \<Longrightarrow> rtx_queue c = [] \<or> rtx_deadline_ms c \<noteq> 0 \<Longrightarrow> timer_inv (arm_for_tick c)"
  by (auto simp: timer_inv_def timers_listed_def rto_ok_def)

lemma timer_inv_arm_rtx: "rto_ok c \<Longrightarrow> timer_inv (arm_rtx c)"
  by (auto simp: arm_rtx_def Let_def rto_ok_def tcp_consts intro!: timer_inv_arm_for_tick)

lemma timer_inv_rtx_push:
  assumes "timer_inv c" "rtx_push b sq l now c = (ok, c')"
  shows "timer_inv (if ok then c' else handle_rtx_push_oom c')"
proof (cases ok)
  case False
  then obtain e where "c' = c\<lparr>cenv := e, rtx_alloc_failed := True\<rparr>"
    using assms(2) rtx_push_fail [of b sq l now c c'] by auto
  then show ?thesis using assms(1) False
    by (simp add: handle_rtx_push_oom_def timer_inv_def timers_listed_def rto_ok_def)
next
  case True
  obtain e where c': "c' = set_rtt_anchor (sq + of_nat l) now
      (if rtx_queue c = [] \<and> rtx_deadline_ms c = 0 then arm_rtx (rtx_enqueue b sq l now (c\<lparr>cenv := e\<rparr>))
       else rtx_enqueue b sq l now (c\<lparr>cenv := e\<rparr>))"
    using assms(2) True by (auto simp: rtx_push_def Let_def split: prod.splits if_splits)
  have "rto_ok (rtx_enqueue b sq l now (c\<lparr>cenv := e\<rparr>))" using assms(1) by (simp add: timer_inv_def rto_ok_def)
  from timer_inv_arm_rtx [OF this] show ?thesis
    using assms(1) True by (auto simp: c' timer_inv_def timers_listed_def rto_ok_def)
qed

lemma timer_inv_rtx_sent_loop:
  "timer_inv c \<Longrightarrow> rtx_sent_loop now bs tot sq c = (bs', c') \<Longrightarrow> timer_inv c'"
proof (induction now bs tot sq c rule: rtx_sent_loop.induct)
  case (2 now b bs tot sq c)
  obtain ok c1 where p: "rtx_push b sq (as_u16 (length b)) now c = (ok, c1)" by fastforce
  obtain ok2 c2 where p2: "rtx_push (take tot b) sq (as_u16 tot) now c = (ok2, c2)" by fastforce
  from timer_inv_rtx_push [OF "2.prems"(1) p] timer_inv_rtx_push [OF "2.prems"(1) p2]
    "2.IH" [OF _ _ p [symmetric] refl] "2.prems"
  show ?case by (auto simp: p p2 split: if_splits)
qed simp

lemma timer_inv_rtx_on_data_sent:
  "timer_inv c \<Longrightarrow> rtx_on_data_sent chain tot c = (chain', c') \<Longrightarrow> timer_inv c'"
  by (auto simp: rtx_on_data_sent_def split: if_splits intro: timer_inv_rtx_sent_loop)

lemma timer_inv_rtx_restart:
  assumes "timers_listed c" "rtx_bytes_in_flight c = 0 \<Longrightarrow> rtx_queue c = []"
  shows "timer_inv (rtx_restart c)"
proof -
  let ?c2 = "c\<lparr>rtx_backoff := 0, tlp_count := 0, rto_ms := estimated_rto (c\<lparr>rtx_backoff := 0, tlp_count := 0\<rparr>)\<rparr>"
  have ok: "rto_ok ?c2" by (simp add: rto_ok_def estimated_rto_bounds)
  show ?thesis
  proof (cases "rtx_bytes_in_flight c = 0")
    case True
    then show ?thesis using assms ok by (simp add: rtx_restart_def timer_inv_def timers_listed_def rto_ok_def Let_def)
  next
    case False
    then show ?thesis using timer_inv_arm_rtx [OF ok] by (simp add: rtx_restart_def Let_def)
  qed
qed

lemma timer_inv_rtx_on_ack:
  assumes ti: "timer_inv c" and cov: "rtx_alloc_failed c \<or> rtx_inv (c\<lparr>snd_una := old_una\<rparr>)"
    and k: "snd_una c = old_una + of_nat k" "k \<le> Suc (length (rtx_data (rtx_queue c)))"
  shows "timer_inv (rtx_on_ack old_una c)"
proof -
  consider "rtx_alloc_failed c" | "\<not> rtx_alloc_failed c" "snd_una c = old_una"
    | "\<not> rtx_alloc_failed c" "snd_una c \<noteq> old_una" by blast
  then show ?thesis
  proof cases
    case 1
    then show ?thesis using ti
      by (auto simp: rtx_on_ack_def timer_inv_def timers_listed_def rto_ok_def tcp_consts)
  next
    case 2
    then show ?thesis using ti by (simp add: rtx_on_ack_def)
  next
    case 3
    let ?c1 = "snd (rtx_ack (snd_una c) c)"
    let ?c2 = "if fst (rtx_ack (snd_una c) c) > 0 then cwnd_on_ack (as_u32 (fst (rtx_ack (snd_una c) c))) ?c1 else ?c1"
    have "rtx_inv (c\<lparr>snd_una := old_una\<rparr>)" using cov 3 by simp
    from rtx_ack_correct(3,4) [OF this, of k "fst (rtx_ack (snd_una c) (c\<lparr>snd_una := old_una\<rparr>))"
        "snd (rtx_ack (snd_una c) (c\<lparr>snd_una := old_una\<rparr>))"] k
    have "rtx_bytes_in_flight ?c1 = 0 \<Longrightarrow> rtx_queue ?c1 = []"
      by (auto simp: rtx_ack_def case_prod_beta Let_def dest: rtx_from_empty)
    moreover have "timers_listed (take_rtt_sample ?c2)"
      using ti by (simp add: timer_inv_def timers_listed_def)
    moreover have "rtx_on_ack old_una c = rtx_restart (take_rtt_sample ?c2)"
      using 3 by (simp add: rtx_on_ack_def case_prod_beta Let_def)
    ultimately show ?thesis using timer_inv_rtx_restart [of "take_rtt_sample ?c2"] by auto
  qed
qed

lemma timer_inv_cong:
  assumes "timer_inv c" "rtx_deadline_ms d = rtx_deadline_ms c" "tlp_deadline_ms d = tlp_deadline_ms c"
    "rack_deadline_ms d = rack_deadline_ms c" "persist_deadline_ms d = persist_deadline_ms c"
    "lifecycle_deadline_ms d = lifecycle_deadline_ms c" "tick_in_list d = tick_in_list c"
    "rto_ms d = rto_ms c" "rtx_queue d = [] \<longleftrightarrow> rtx_queue c = []"
  shows "timer_inv d"
  using assms by (simp add: timer_inv_def timers_listed_def rto_ok_def)

lemma timer_inv_resend:
  assumes "timer_inv c" "\<exists>q e a. d = c\<lparr>rtx_queue := q, cenv := e, rtt_anchor_active := a\<rparr> \<and> length q = length (rtx_queue c)"
  shows "timer_inv d"
  using assms by (auto intro!: timer_inv_cong [OF assms(1)] simp flip: length_0_conv)

lemma timer_inv_fast_retransmit:
  assumes "timer_inv c"
  shows "timer_inv (fast_retransmit c)"
proof -
  let ?c1 = "c\<lparr>cc := ctl_on_loss 0 False (cc c)\<rparr>"
  let ?c2 = "if sack_ok ?c1 \<and> list_ex sacked (rtx_queue ?c1) then sack_retransmit_holes ?c1
                else retransmit_oldest_segment ?c1"
  have c1: "timer_inv ?c1" using assms by (rule timer_inv_cong) simp_all
  have "timer_inv ?c2"
    using timer_inv_resend [OF c1 emit_rtx_entry_upd] timer_inv_resend [OF c1 emit_holes_upd] c1
    by (simp add: retransmit_oldest_segment_def sack_retransmit_holes_def Let_def split: option.split)
  then have "timer_inv (?c2\<lparr>cwnd := ctl_window (cc ?c2)\<rparr>)" by (rule timer_inv_cong) simp_all
  then show ?thesis unfolding fast_retransmit_def Let_def .
qed

lemma timer_inv_on_dup_ack:
  assumes "timer_inv c"
  shows "timer_inv (on_dup_ack c)"
proof -
  have "timer_inv (c\<lparr>dup_acks := sat_add8 (dup_acks c) 1\<rparr>)" using assms by (rule timer_inv_cong) simp_all
  then show ?thesis using timer_inv_fast_retransmit unfolding on_dup_ack_def Let_def by auto
qed

lemma timer_inv_retransmit_oldest:
  assumes "timer_inv c" "rtx_inv c"
  shows "timer_inv (retransmit_oldest now c)"
proof (cases "rtx_bytes_in_flight c = 0")
  case True
  then have "rtx_queue c = []" using assms(2) by (auto simp: rtx_inv_def dest: rtx_from_empty)
  with True assms(1) show ?thesis
    by (simp add: retransmit_oldest_def timer_inv_def timers_listed_def rto_ok_def)
next
  case False
  have "RTO_INITIAL_MS \<le> min (sat_mul32 (rto_ms c) 2) RTO_MAX_MS" "0 < min (sat_mul32 (rto_ms c) 2) RTO_MAX_MS"
    using assms(1) by (auto simp: timer_inv_def rto_ok_def tcp_consts sat_mul32_def)
  with False show ?thesis
    by (auto simp: retransmit_oldest_def Let_def retransmit_oldest_segment_def congestion_on_rto_def rto_ok_def
        intro!: timer_inv_arm_for_tick)
qed

lemma timer_inv_send_tlp_probe: "timer_inv c \<Longrightarrow> timer_inv (send_tlp_probe now c)"
  by (auto simp: send_tlp_probe_def Let_def timer_inv_def timers_listed_def rto_ok_def)

lemma timer_inv_rack_detect:
  assumes "timer_inv c00"
  shows "timer_inv (rack_detect now c00)"
proof -
  define c where "c = c00\<lparr>rack_deadline_ms := 0\<rparr>"
  have c: "timer_inv c" using assms by (simp add: c_def timer_inv_def timers_listed_def rto_ok_def)
  have hint: "timer_inv (c\<lparr>rack_sack_hint := False\<rparr>)" using c by (rule timer_inv_cong) simp_all
  have fin: "timer_inv d \<Longrightarrow> timer_inv (case dl of Some x \<Rightarrow> arm_for_tick (d\<lparr>rack_deadline_ms := x\<rparr>) | None \<Rightarrow> d)"
    for d dl by (cases dl) (auto intro!: timer_inv_arm_for_tick simp: timer_inv_def timers_listed_def rto_ok_def)
  have marked: "timer_inv (let c1 = emit_marked b ls is (c\<lparr>cc := ctl_on_loss 0 False (cc c)\<rparr>)
      in c1\<lparr>cwnd := ctl_window (cc c1)\<rparr>)" for b ls "is"
  proof -
    let ?c0 = "c\<lparr>cc := ctl_on_loss 0 False (cc c)\<rparr>"
    have "timer_inv ?c0" using c by (rule timer_inv_cong) simp_all
    from timer_inv_resend [OF this emit_marked_upd] have "timer_inv (emit_marked b ls is ?c0)" .
    then show ?thesis unfolding Let_def by (rule timer_inv_cong) simp_all
  qed
  show ?thesis
    unfolding rack_detect_def Let_def [of c00] Let_def [of "c00\<lparr>rack_deadline_ms := 0\<rparr>"] c_def [symmetric]
    using c hint fin marked by (auto simp: Let_def split: option.split prod.split)
qed

end
