(* ===== verification/Tcp_Sender.thy ===== *)
theory Tcp_Sender
  imports Tcp_Rtx
begin

text \<open>
  The send side of a connection as an event system over the methods of \<open>Tcp_Rtx\<close>: data handed to the
  retransmission queue after it was sent (a chain of buffers, or a borrowed slice that is copied
  first), acknowledgements, duplicate acknowledgements, SACK blocks
  and the three timers, in any order. The state carries the stream of all bytes sent and the number
  acknowledged; the invariant ties the connection block to them.
\<close>

section \<open>Events\<close>

datatype tx_event =
    TxSent "bytes list" nat
  | TxSlice bytes
  | TxAck nat
  | TxDupAck
  | TxSack "(u32 \<times> u32) list"
  | TxRto nat
  | TxTlp nat
  | TxRack nat
  | TxClock nat

record sender =
  sn_conn :: conn
  sn_stream :: bytes
  sn_acked :: nat

fun tx_apply :: "tx_event \<Rightarrow> sender \<Rightarrow> sender" where
  "tx_apply (TxSent chain tot) s =
     (let c = sn_conn s
      in s\<lparr>sn_conn := snd (rtx_on_data_sent chain tot (c\<lparr>snd_nxt := snd_nxt c + of_nat tot\<rparr>)),
           sn_stream := sn_stream s @ take tot (concat chain)\<rparr>)"
| "tx_apply (TxSlice bs) s =
     (let c = sn_conn s
      in s\<lparr>sn_conn := rtx_on_data_sent_slice bs (c\<lparr>snd_nxt := snd_nxt c + of_nat (length bs)\<rparr>),
           sn_stream := sn_stream s @ bs\<rparr>)"
| "tx_apply (TxAck k) s =
     (let c = sn_conn s
      in s\<lparr>sn_conn := rtx_on_ack (snd_una c) (c\<lparr>snd_una := snd_una c + of_nat k\<rparr>),
           sn_acked := sn_acked s + k\<rparr>)"
| "tx_apply TxDupAck s = s\<lparr>sn_conn := on_dup_ack (sn_conn s)\<rparr>"
| "tx_apply (TxSack blocks) s = s\<lparr>sn_conn := snd (apply_sack blocks (sn_conn s))\<rparr>"
| "tx_apply (TxRto t) s = s\<lparr>sn_conn := retransmit_oldest t (sn_conn s)\<rparr>"
| "tx_apply (TxTlp t) s = s\<lparr>sn_conn := send_tlp_probe t (sn_conn s)\<rparr>"
| "tx_apply (TxRack t) s = s\<lparr>sn_conn := rack_detect t (sn_conn s)\<rparr>"
| "tx_apply (TxClock t) s = s\<lparr>sn_conn := (sn_conn s)\<lparr>cenv := (cenv (sn_conn s))\<lparr>now_ms := t\<rparr>\<rparr>\<rparr>"

text \<open>The events that can occur: parts of fewer than 65536 bytes, a flight below half the sequence
  space, acknowledgements of bytes that were sent.\<close>

fun tx_ok :: "tx_event \<Rightarrow> sender \<Rightarrow> bool" where
  "tx_ok (TxSent chain tot) s \<longleftrightarrow> list_all (\<lambda>b. 0 < length b \<and> length b < 65536) chain
     \<and> tot \<le> length (concat chain) \<and> length (sn_stream s) - sn_acked s + tot < 2147483647"
| "tx_ok (TxSlice bs) s \<longleftrightarrow> length bs < 65536 \<and> length (sn_stream s) - sn_acked s + length bs < 2147483647"
| "tx_ok (TxAck k) s \<longleftrightarrow> sn_acked s + k \<le> length (sn_stream s)"
| "tx_ok ev s \<longleftrightarrow> True"

inductive tx_reach :: "sender \<Rightarrow> sender \<Rightarrow> bool" for s0 where
  start: "tx_reach s0 s0"
| step: "tx_reach s0 s \<Longrightarrow> tx_ok ev s \<Longrightarrow> tx_reach s0 (tx_apply ev s)"

section \<open>Invariant\<close>

text \<open>A segment whose payload is the piece of the stream its sequence number names.\<close>

definition genuine :: "u32 \<Rightarrow> bytes \<Rightarrow> sent_segment \<Rightarrow> bool" where
  "genuine base strm g \<longleftrightarrow> (\<exists>off. sm_seq (seg_meta g) = base + of_nat off
     \<and> off + length (seg_payload g) \<le> length strm
     \<and> seg_payload g = take (length (seg_payload g)) (drop off strm))"

lemma genuine_append: "genuine base strm g \<Longrightarrow> genuine base (strm @ rest) g"
  by (fastforce simp: genuine_def)

lemma faithful_genuine:
  assumes "faithful (drop a strm) (base + of_nat a) m g" "a \<le> length strm"
  shows "genuine base strm g"
proof -
  from assms obtain off where "sm_seq (seg_meta g) = base + of_nat a + of_nat off"
    "off + length (seg_payload g) \<le> length strm - a"
    "seg_payload g = take (length (seg_payload g)) (drop off (drop a strm))"
    by (auto simp: faithful_def)
  then show ?thesis using assms(2) unfolding genuine_def
    by (intro exI [of _ "a + off"]) (auto simp: add.assoc add.commute)
qed

definition sender_inv :: "u32 \<Rightarrow> sender \<Rightarrow> bool" where
  "sender_inv base s \<longleftrightarrow>
     (let c = sn_conn s; strm = sn_stream s; a = sn_acked s
      in a \<le> length strm \<and> length strm - a < 2147483647
       \<and> snd_una c = base + of_nat a \<and> snd_nxt c = base + of_nat (length strm)
       \<and> rtx_inv c \<and> timer_inv c \<and> snd_mss c \<le> MSS_MAX
       \<and> (if rtx_alloc_failed c then rtx_queue c = [] else rtx_data (rtx_queue c) = drop a strm)
       \<and> list_all (genuine base strm) (tx_log (cenv c)))"

text \<open>A retransmission step keeps the invariant.\<close>

lemma sender_inv_resends:
  assumes inv: "sender_inv base s" and r: "resends (sn_conn s) c'" and t: "timer_inv c'"
  shows "sender_inv base (s\<lparr>sn_conn := c'\<rparr>)"
proof -
  let ?c = "sn_conn s"
  have c: "rtx_inv ?c" "snd_una ?c = base + of_nat (sn_acked s)" "sn_acked s \<le> length (sn_stream s)"
    "if rtx_alloc_failed ?c then rtx_queue ?c = [] else rtx_data (rtx_queue ?c) = drop (sn_acked s) (sn_stream s)"
    using inv by (simp_all add: sender_inv_def Let_def)
  from r c(1) obtain new where new: "tx_log (cenv c') = tx_log (cenv ?c) @ new"
    "list_all (faithful (rtx_data (rtx_queue ?c)) (snd_una ?c) (snd_mss ?c)) new"
    by (auto simp: resends_def)
  have "list_all (genuine base (sn_stream s)) new"
  proof (cases "rtx_alloc_failed ?c")
    case True
    then have "rtx_data (rtx_queue ?c) = []" using c(4) by simp
    then have "new = []" using new(2) by (cases new) (auto simp: faithful_def)
    then show ?thesis by simp
  next
    case False
    then have "rtx_data (rtx_queue ?c) = drop (sn_acked s) (sn_stream s)" using c(4) by simp
    then show ?thesis
      using new(2) c(2,3) faithful_genuine [of "sn_acked s" "sn_stream s" base "snd_mss ?c"]
      by (auto simp: list_all_iff)
  qed
  moreover have "rtx_data (rtx_queue c') = rtx_data (rtx_queue ?c)" "rtx_queue ?c = [] \<longleftrightarrow> rtx_queue c' = []"
    using r same_data_rtx [of "rtx_queue ?c" "rtx_queue c'"] same_data_length [of "rtx_queue ?c" "rtx_queue c'"]
    by (auto simp: resends_def)
  ultimately show ?thesis
    using inv r t new(1) resends_inv [OF r] by (auto simp: sender_inv_def Let_def resends_def)
qed

section \<open>Sending and acknowledging\<close>

lemma rtx_push_quiet:
  assumes "rtx_push b sq l now c = (ok, c')"
  shows "snd_una c' = snd_una c" "snd_nxt c' = snd_nxt c" "snd_mss c' = snd_mss c"
    "tx_log (cenv c') = tx_log (cenv c)" "rtx_alloc_failed c' = (rtx_alloc_failed c \<or> \<not> ok)"
proof -
  obtain a e where al: "try_alloc (cenv c) = (a, e)" by fastforce
  have e: "tx_log e = tx_log (cenv c)" using try_alloc_frame(2) [of "cenv c"] by (simp add: al)
  show "snd_una c' = snd_una c" "snd_nxt c' = snd_nxt c" "snd_mss c' = snd_mss c"
    "tx_log (cenv c') = tx_log (cenv c)" "rtx_alloc_failed c' = (rtx_alloc_failed c \<or> \<not> ok)"
    using assms e by (auto simp: rtx_push_def al Let_def set_rtt_anchor_def rtx_enqueue_def split: if_splits)
qed

text \<open>Handing data over touches neither the sequence numbers nor the log; when it ends with coverage
  suspended the queue is empty.\<close>

lemma rtx_sent_loop_quiet:
  assumes "rtx_sent_loop now bs tot sq c = (bs', c')"
  shows "snd_una c' = snd_una c \<and> snd_nxt c' = snd_nxt c \<and> snd_mss c' = snd_mss c
    \<and> tx_log (cenv c') = tx_log (cenv c)
    \<and> (rtx_alloc_failed c' \<longrightarrow> rtx_alloc_failed c \<or> rtx_queue c' = [] \<and> rtx_bytes_in_flight c' = 0)"
  using assms
proof (induction now bs tot sq c rule: rtx_sent_loop.induct)
  case (2 now b bs tot sq c)
  obtain ok c1 where p: "rtx_push b sq (as_u16 (length b)) now c = (ok, c1)" by fastforce
  obtain ok2 c2 where p2: "rtx_push (take tot b) sq (as_u16 tot) now c = (ok2, c2)" by fastforce
  from rtx_push_quiet [OF p] rtx_push_quiet [OF p2] "2.IH" [OF _ _ p [symmetric] refl] "2.prems"
  show ?case by (auto simp: p p2 handle_rtx_push_oom_def split: if_splits)
qed simp

lemma sender_inv_sent:
  assumes inv: "sender_inv base s" and ok: "tx_ok (TxSent chain tot) s"
  shows "sender_inv base (tx_apply (TxSent chain tot) s)"
proof -
  let ?c = "sn_conn s"
  define c0 where "c0 = ?c\<lparr>snd_nxt := snd_nxt ?c + of_nat tot\<rparr>"
  obtain chain' c' where sent: "rtx_on_data_sent chain tot c0 = (chain', c')" by fastforce
  have i: "sn_acked s \<le> length (sn_stream s)" "snd_una ?c = base + of_nat (sn_acked s)"
    "snd_nxt ?c = base + of_nat (length (sn_stream s))" "rtx_inv ?c" "timer_inv ?c" "snd_mss ?c \<le> MSS_MAX"
    "if rtx_alloc_failed ?c then rtx_queue ?c = [] else rtx_data (rtx_queue ?c) = drop (sn_acked s) (sn_stream s)"
    "list_all (genuine base (sn_stream s)) (tx_log (cenv ?c))"
    using inv by (simp_all add: sender_inv_def Let_def)
  have g: "\<forall>b \<in> set chain. 0 < length b \<and> length b < 65536" "tot \<le> length (concat chain)"
    "length (sn_stream s) - sn_acked s + tot < 2147483647" using ok by (simp_all add: list_all_iff)
  have c0: "rtx_inv c0" "timer_inv c0"
    using i(4,5) by (simp_all add: c0_def rtx_inv_def timer_inv_def timers_listed_def rto_ok_def)
  have q: "snd_una c' = snd_una c0 \<and> snd_nxt c' = snd_nxt c0 \<and> snd_mss c' = snd_mss c0
    \<and> tx_log (cenv c') = tx_log (cenv c0)
    \<and> (rtx_alloc_failed c' \<longrightarrow> rtx_queue c' = [] \<and> rtx_bytes_in_flight c' = 0)"
    using sent rtx_sent_loop_quiet [of "clock c0" chain tot "snd_nxt c0 - of_nat tot" c0 chain' c'] i(7) c0(1)
    by (auto simp: rtx_on_data_sent_def c0_def rtx_inv_def split: if_splits)
  have cover: "rtx_inv c' \<and> rtx_data (rtx_queue c') = drop (sn_acked s) (sn_stream s @ take tot (concat chain))"
    if ok': "\<not> rtx_alloc_failed c'"
  proof -
    have nf: "\<not> rtx_alloc_failed c0"
      using ok' sent by (auto simp: rtx_on_data_sent_def split: if_splits)
    then have d: "rtx_data (rtx_queue c0) = drop (sn_acked s) (sn_stream s)" using i(7) by (simp add: c0_def)
    have nxt: "snd_nxt c0 = snd_una c0 + of_nat (length (rtx_data (rtx_queue c0)) + tot)"
      using i(1-3) by (simp add: d) (simp add: c0_def of_nat_diff)
    from rtx_on_data_sent_covers(1,2) [OF c0(1) nxt g(1,2) _ nf ok' sent] show ?thesis
      using g(3) i(1) by (simp add: d)
  qed
  have "rtx_inv c'" using cover q by (cases "rtx_alloc_failed c'") (auto simp: rtx_inv_def)
  moreover have "timer_inv c'" by (rule timer_inv_rtx_on_data_sent [OF c0(2) sent])
  moreover have "tx_apply (TxSent chain tot) s = s\<lparr>sn_conn := c', sn_stream := sn_stream s @ take tot (concat chain)\<rparr>"
    using sent by (simp add: Let_def c0_def)
  ultimately show ?thesis
    using i q cover g by (auto simp: sender_inv_def Let_def c0_def list_all_iff min_absorb2 genuine_append)
qed

text \<open>The slice path copies the bytes first. When the copy fails coverage is suspended; when it succeeds
  the call is the chain path on a chain of one buffer.\<close>

lemma rtx_on_data_sent_slice_cases:
  assumes al: "try_alloc (cenv c) = (ok, e)" and "bs \<noteq> []" "\<not> rtx_alloc_failed c"
  shows "rtx_on_data_sent_slice bs c = (if ok then snd (rtx_on_data_sent [bs] (length bs) (c\<lparr>cenv := e\<rparr>))
    else handle_rtx_push_oom (c\<lparr>cenv := e, rtx_alloc_failed := True\<rparr>))"
  using assms by (simp add: rtx_on_data_sent_slice_def rtx_on_data_sent_def clock_def case_prod_beta Let_def)

lemma sender_inv_slice:
  assumes inv: "sender_inv base s" and ok: "tx_ok (TxSlice bs) s"
  shows "sender_inv base (tx_apply (TxSlice bs) s)"
proof (cases "bs = [] \<or> rtx_alloc_failed (sn_conn s)")
  case True
  then show ?thesis
    using inv ok by (auto simp: sender_inv_def Let_def rtx_on_data_sent_slice_def rtx_inv_def timer_inv_def
        timers_listed_def rto_ok_def add.assoc list_all_iff genuine_append)
next
  case False
  let ?c = "sn_conn s"
  obtain a e where al: "try_alloc (cenv ?c) = (a, e)" by fastforce
  have log: "tx_log e = tx_log (cenv ?c)" using try_alloc_frame(2) [of "cenv ?c"] by (simp add: al)
  let ?s = "s\<lparr>sn_conn := ?c\<lparr>cenv := e\<rparr>\<rparr>"
  have c: "rtx_on_data_sent_slice bs (?c\<lparr>snd_nxt := snd_nxt ?c + of_nat (length bs)\<rparr>) =
    (if a then snd (rtx_on_data_sent [bs] (length bs) (?c\<lparr>snd_nxt := snd_nxt ?c + of_nat (length bs), cenv := e\<rparr>))
     else handle_rtx_push_oom (?c\<lparr>snd_nxt := snd_nxt ?c + of_nat (length bs), cenv := e, rtx_alloc_failed := True\<rparr>))"
    by (rule rtx_on_data_sent_slice_cases) (use False al in simp_all)
  show ?thesis
  proof (cases a)
    case True
    have "sender_inv base ?s"
      using inv log by (auto simp: sender_inv_def Let_def rtx_inv_def timer_inv_def timers_listed_def rto_ok_def)
    moreover have "tx_ok (TxSent [bs] (length bs)) ?s" using ok False by simp
    ultimately have "sender_inv base (tx_apply (TxSent [bs] (length bs)) ?s)" by (rule sender_inv_sent)
    moreover have comm: "?c\<lparr>snd_nxt := n, cenv := e\<rparr> = ?c\<lparr>cenv := e, snd_nxt := n\<rparr>" for n
      by (rule conn.equality) simp_all
    have "tx_apply (TxSlice bs) s = tx_apply (TxSent [bs] (length bs)) ?s"
      using c True by (simp add: Let_def comm)
    ultimately show ?thesis by simp
  next
    case f: False
    then show ?thesis
      using inv ok c log by (auto simp: sender_inv_def Let_def handle_rtx_push_oom_def rtx_inv_def timer_inv_def
          timers_listed_def rto_ok_def add.assoc list_all_iff genuine_append)
  qed
qed

lemma rtx_restart_quiet [simp]:
  "snd_una (rtx_restart c) = snd_una c" "snd_nxt (rtx_restart c) = snd_nxt c" "snd_mss (rtx_restart c) = snd_mss c"
  "rtx_queue (rtx_restart c) = rtx_queue c" "rtx_bytes_in_flight (rtx_restart c) = rtx_bytes_in_flight c"
  "rtx_alloc_failed (rtx_restart c) = rtx_alloc_failed c" "tx_log (cenv (rtx_restart c)) = tx_log (cenv c)"
  by (simp_all add: rtx_restart_def Let_def)

lemma rtx_ack_cenv [simp]: "cenv (snd (rtx_ack a c)) = cenv c"
  by (simp add: rtx_ack_def Let_def case_prod_beta)

text \<open>An acknowledgement of new data, with coverage in force: the queue loses exactly the acknowledged
  bytes.\<close>

lemma rtx_on_ack_covered:
  assumes inv: "rtx_inv c" and k: "k \<le> length (rtx_data (rtx_queue c))" and nf: "\<not> rtx_alloc_failed c"
  defines "d \<equiv> rtx_on_ack (snd_una c) (c\<lparr>snd_una := snd_una c + of_nat k\<rparr>)"
  shows "rtx_inv d" "rtx_data (rtx_queue d) = drop k (rtx_data (rtx_queue c))"
    "snd_una d = snd_una c + of_nat k" "snd_nxt d = snd_nxt c" "snd_mss d = snd_mss c"
    "\<not> rtx_alloc_failed d" "tx_log (cenv d) = tx_log (cenv c)"
proof -
  let ?c = "c\<lparr>snd_una := snd_una c + of_nat k\<rparr>"
  have small: "k < 2147483647" using inv k by (simp add: rtx_inv_def)
  have "rtx_inv d \<and> rtx_data (rtx_queue d) = drop k (rtx_data (rtx_queue c)) \<and> snd_una d = snd_una c + of_nat k
    \<and> snd_nxt d = snd_nxt c \<and> snd_mss d = snd_mss c \<and> \<not> rtx_alloc_failed d \<and> tx_log (cenv d) = tx_log (cenv c)"
  proof (cases "k = 0")
    case True
    then show ?thesis using inv nf by (simp add: d_def rtx_on_ack_def)
  next
    case False
    have "unat (of_nat k :: u32) = k" using unat_of_nat_diff [of 0 k 0] small by simp
    then have ne: "(of_nat k :: u32) \<noteq> 0" using False by auto
    obtain n c1 where a: "rtx_ack (snd_una c + of_nat k) c = (n, c1)" by fastforce
    have a': "rtx_ack (snd_una c + of_nat k) ?c = (n, c1\<lparr>snd_una := snd_una c + of_nat k\<rparr>)"
      using a by (auto simp: rtx_ack_def Let_def case_prod_beta)
    note ac = rtx_ack_correct [OF inv _ a]
    have n: "n = k" "rtx_data (rtx_queue c1) = drop k (rtx_data (rtx_queue c))"
      "rtx_from (snd_una c + of_nat k) (rtx_queue c1)" "rtx_bytes_in_flight c1 = length (rtx_data (rtx_queue c1))"
      using ac k by simp_all
    have c1: "snd_nxt c1 = snd_nxt c" "snd_mss c1 = snd_mss c" "rtx_alloc_failed c1 = rtx_alloc_failed c" "cenv c1 = cenv c"
      using rtx_ack_frame [of "snd_una c + of_nat k" c] rtx_ack_cenv [of "snd_una c + of_nat k" c] by (simp_all add: a)
    have "d = rtx_restart (take_rtt_sample (cwnd_on_ack (as_u32 n) (c1\<lparr>snd_una := snd_una c + of_nat k\<rparr>)))"
      using nf ne False n(1) by (simp add: d_def rtx_on_ack_def a' Let_def)
    then show ?thesis
      using n c1 nf inv by (auto simp: rtx_inv_def)
  qed
  then show "rtx_inv d" "rtx_data (rtx_queue d) = drop k (rtx_data (rtx_queue c))"
    "snd_una d = snd_una c + of_nat k" "snd_nxt d = snd_nxt c" "snd_mss d = snd_mss c"
    "\<not> rtx_alloc_failed d" "tx_log (cenv d) = tx_log (cenv c)" by simp_all
qed

lemma sender_inv_ack:
  assumes inv: "sender_inv base s" and ok: "tx_ok (TxAck k) s"
  shows "sender_inv base (tx_apply (TxAck k) s)"
proof -
  let ?c = "sn_conn s"
  let ?un = "?c\<lparr>snd_una := snd_una ?c + of_nat k\<rparr>"
  have i: "sn_acked s \<le> length (sn_stream s)" "length (sn_stream s) - sn_acked s < 2147483647"
    "snd_una ?c = base + of_nat (sn_acked s)" "snd_nxt ?c = base + of_nat (length (sn_stream s))"
    "rtx_inv ?c" "timer_inv ?c" "snd_mss ?c \<le> MSS_MAX"
    "if rtx_alloc_failed ?c then rtx_queue ?c = [] else rtx_data (rtx_queue ?c) = drop (sn_acked s) (sn_stream s)"
    "list_all (genuine base (sn_stream s)) (tx_log (cenv ?c))"
    using inv by (simp_all add: sender_inv_def Let_def)
  have k: "sn_acked s + k \<le> length (sn_stream s)" using ok by simp
  show ?thesis
  proof (cases "rtx_alloc_failed ?c")
    case True
    have "rtx_queue ?c = []" using i(8) True by simp
    moreover have "snd_una ?c + of_nat k = snd_nxt ?c \<Longrightarrow> sn_acked s + k = length (sn_stream s)"
    proof -
      assume "snd_una ?c + of_nat k = snd_nxt ?c"
      then have "unat (base + of_nat (length (sn_stream s)) - (base + of_nat (sn_acked s + k))) = 0"
        using i(3,4) by (simp add: add.assoc)
      moreover have "length (sn_stream s) - (sn_acked s + k) < 4294967296" using i(2) by linarith
      ultimately show ?thesis using unat_of_nat_diff [OF k, of base] k by simp
    qed
    ultimately show ?thesis
      using True i k by (auto simp: sender_inv_def Let_def rtx_on_ack_def rtx_inv_def timer_inv_def timers_listed_def
          rto_ok_def tcp_consts add.assoc)
  next
    case False
    then have d: "rtx_data (rtx_queue ?c) = drop (sn_acked s) (sn_stream s)" using i(8) by simp
    then have kl: "k \<le> length (rtx_data (rtx_queue ?c))" using k by simp
    have "timer_inv (rtx_on_ack (snd_una ?c) ?un)"
      by (rule timer_inv_rtx_on_ack [where k = k])
        (use i(5,6) kl in \<open>simp_all add: rtx_inv_def timer_inv_def timers_listed_def rto_ok_def\<close>)
    with rtx_on_ack_covered [OF i(5) kl False] show ?thesis
      using i k by (simp add: sender_inv_def Let_def d add.assoc add.commute)
  qed
qed

lemma sender_inv_reach:
  assumes "tx_reach s0 s" "sender_inv base s0"
  shows "sender_inv base s"
  using assms
proof (induction rule: tx_reach.induct)
  case start
  then show ?case .
next
  case (step s ev)
  then have inv: "sender_inv base s" by blast
  then have mss: "snd_mss (sn_conn s) \<le> MSS_MAX" and t: "timer_inv (sn_conn s)" and r: "rtx_inv (sn_conn s)"
    by (simp_all add: sender_inv_def Let_def)
  note rs = sender_inv_resends [OF inv]
  show ?case
  proof (cases ev)
    case (TxSent chain tot)
    then show ?thesis using sender_inv_sent [OF inv] step.hyps(2) by simp
  next
    case (TxSlice bs)
    then show ?thesis using sender_inv_slice [OF inv] step.hyps(2) by simp
  next
    case (TxAck k)
    then show ?thesis using sender_inv_ack [OF inv] step.hyps(2) by simp
  next
    case TxDupAck
    then show ?thesis using rs [OF on_dup_ack_resends [OF mss] timer_inv_on_dup_ack [OF t]] by simp
  next
    case (TxSack blocks)
    have "timer_inv (snd (apply_sack blocks (sn_conn s)))"
      using t by (rule timer_inv_cong) (simp_all add: apply_sack_def Let_def)
    then show ?thesis using rs [OF apply_sack_resends] TxSack by simp
  next
    case (TxRto now)
    then show ?thesis using rs [OF retransmit_oldest_resends [OF mss] timer_inv_retransmit_oldest [OF t r]] by simp
  next
    case (TxTlp now)
    then show ?thesis using rs [OF send_tlp_probe_resends [OF mss] timer_inv_send_tlp_probe [OF t]] by simp
  next
    case (TxRack now)
    then show ?thesis using rs [OF rack_detect_resends [OF mss] timer_inv_rack_detect [OF t]] by simp
  next
    case (TxClock now)
    let ?c = "(sn_conn s)\<lparr>cenv := (cenv (sn_conn s))\<lparr>now_ms := now\<rparr>\<rparr>"
    have "timer_inv ?c" using t by (rule timer_inv_cong) simp_all
    moreover have "resends (sn_conn s) ?c" by (rule resends_quiet) simp_all
    ultimately show ?thesis using rs TxClock by simp
  qed
qed

section \<open>Properties\<close>

text \<open>A connection with nothing in flight and no timer running, before its first data byte.\<close>

definition sender_idle :: "u32 \<Rightarrow> sender \<Rightarrow> bool" where
  "sender_idle base s \<longleftrightarrow>
     (let c = sn_conn s
      in sn_stream s = [] \<and> sn_acked s = 0 \<and> snd_una c = base \<and> snd_nxt c = base \<and> rtx_queue c = []
       \<and> rtx_bytes_in_flight c = 0 \<and> \<not> rtx_alloc_failed c \<and> rto_ok c \<and> timers_listed c
       \<and> snd_mss c \<le> MSS_MAX \<and> tx_log (cenv c) = [])"

lemma sender_idle_inv: "sender_idle base s \<Longrightarrow> sender_inv base s"
  by (simp add: sender_idle_def sender_inv_def Let_def rtx_inv_def timer_inv_def)

text \<open>C18: Whatever is sent as a chain of buffers or as a slice, acknowledged, reported by SACK, timed
  out, probed or marked lost, and in whatever order, the retransmission queue holds exactly the bytes
  sent and not yet acknowledged, in order, and its byte count is their number, unless coverage is
  suspended after a failed allocation, in which case the queue is empty. Each part sent has fewer than
  65536 bytes (C21 is what happens at 65536) and the flight stays below half the sequence space.\<close>

theorem sender_covers_stream:
  assumes "sender_idle base s0" and "tx_reach s0 s"
  shows "if rtx_alloc_failed (sn_conn s) then rtx_queue (sn_conn s) = []
    else rtx_data (rtx_queue (sn_conn s)) = drop (sn_acked s) (sn_stream s)
      \<and> rtx_bytes_in_flight (sn_conn s) = length (sn_stream s) - sn_acked s"
  using sender_inv_reach [OF assms(2) sender_idle_inv [OF assms(1)]]
  by (auto simp: sender_inv_def Let_def rtx_inv_def)

definition demo_sender :: sender where
  "demo_sender = \<lparr>sn_conn = attach tcb_new demo_env, sn_stream = [], sn_acked = 0\<rparr>"

lemma demo_sender_idle: "sender_idle 0 demo_sender"
  by (simp add: demo_sender_def sender_idle_def Let_def attach_def tcb.extend_def conn.fields_def tcb_new_def
      rto_ok_def timers_listed_def tcp_consts demo_env_def)

text \<open>Two parts sent as one segment, a slice sent after them, then the first byte acknowledged.\<close>

definition demo_sent :: sender where
  "demo_sent = tx_apply (TxAck 1) (tx_apply (TxSlice [4]) (tx_apply (TxSent [[1, 2], [3]] 3) demo_sender))"

lemma demo_sender_run: "tx_reach demo_sender demo_sent"
proof -
  have "tx_ok (TxSent [[1, 2], [3]] 3) demo_sender" by (simp add: demo_sender_def)
  with tx_reach.start have "tx_reach demo_sender (tx_apply (TxSent [[1, 2], [3]] 3) demo_sender)" by (rule tx_reach.step)
  then have "tx_reach demo_sender (tx_apply (TxSlice [4]) (tx_apply (TxSent [[1, 2], [3]] 3) demo_sender))"
    by (rule tx_reach.step) (simp add: demo_sender_def Let_def)
  moreover have "tx_ok (TxAck 1) (tx_apply (TxSlice [4]) (tx_apply (TxSent [[1, 2], [3]] 3) demo_sender))"
    by (simp add: demo_sender_def Let_def)
  ultimately show ?thesis unfolding demo_sent_def by (rule tx_reach.step)
qed

lemma demo_sent_covered: "\<not> rtx_alloc_failed (sn_conn demo_sent)"
  by (simp add: demo_sent_def demo_sender_def Let_def rtx_on_data_sent_def rtx_on_data_sent_slice_def rtx_push_def
      try_alloc_def attach_def tcb.extend_def conn.fields_def tcb_new_def demo_env_def rtx_enqueue_def arm_rtx_def
      arm_tlp_def arm_for_tick_def pto_ms_def set_rtt_anchor_def rtx_on_ack_def rtx_ack_def seq_lt_def clock_def
      tcp_consts sat_add32_def as_u16_def)

lemma demo_sent_stream: "sn_acked demo_sent = 1" "sn_stream demo_sent = [1, 2, 3, 4]"
  by (simp_all add: demo_sent_def demo_sender_def Let_def)

theorem sender_covers_stream_witness:
  "rtx_data (rtx_queue (sn_conn demo_sent)) = [2, 3, 4] \<and> rtx_bytes_in_flight (sn_conn demo_sent) = 3"
  using sender_covers_stream [OF demo_sender_idle demo_sender_run] by (simp add: demo_sent_covered demo_sent_stream)

text \<open>C19: Every data segment any recovery path puts on the wire (fast retransmit, SACK hole filling,
  RACK, tail loss probe or timeout) carries exactly the stream bytes its sequence number names.\<close>

theorem retransmissions_are_genuine:
  assumes "sender_idle base s0" and "tx_reach s0 s" and "g \<in> set (tx_log (cenv (sn_conn s)))"
  shows "genuine base (sn_stream s) g"
  using sender_inv_reach [OF assms(2) sender_idle_inv [OF assms(1)]] assms(3)
  by (auto simp: sender_inv_def Let_def list_all_iff)

lemma demo_sender_rto: "tx_reach demo_sender (tx_apply (TxRto 2000) (tx_apply (TxSent [[1, 2], [3]] 3) demo_sender))"
proof -
  have "tx_ok (TxSent [[1, 2], [3]] 3) demo_sender" by (simp add: demo_sender_def)
  with tx_reach.start have "tx_reach demo_sender (tx_apply (TxSent [[1, 2], [3]] 3) demo_sender)" by (rule tx_reach.step)
  then show ?thesis by (rule tx_reach.step) simp
qed

lemma demo_sender_rto_log:
  "map seg_payload (tx_log (cenv (sn_conn (tx_apply (TxRto 2000)
      (tx_apply (TxSent [[1, 2], [3]] 3) demo_sender))))) = [[1, 2]]"
  by (simp add: demo_sender_def Let_def rtx_on_data_sent_def rtx_push_def try_alloc_def attach_def tcb.extend_def
      conn.fields_def tcb_new_def demo_env_def rtx_enqueue_def arm_rtx_def arm_tlp_def arm_for_tick_def
      pto_ms_def set_rtt_anchor_def retransmit_oldest_def retransmit_oldest_segment_def emit_rtx_entry_def
      congestion_on_rto_def emit_def send_segment_opts_def build_and_send_frame_def acquire_tx_buf_def push_tx_def
      seg_of_def clock_def tcp_consts sat_add32_def as_u16_def del: emit_frame emit_rtx_entry_frame)

theorem retransmissions_are_genuine_witness:
  "\<exists>g. tx_log (cenv (sn_conn (tx_apply (TxRto 2000) (tx_apply (TxSent [[1, 2], [3]] 3) demo_sender)))) = [g]
     \<and> seg_payload g = [1, 2] \<and> genuine 0 [1, 2, 3] g"
proof -
  let ?s = "tx_apply (TxRto 2000) (tx_apply (TxSent [[1, 2], [3]] 3) demo_sender)"
  obtain g where g: "tx_log (cenv (sn_conn ?s)) = [g]" "seg_payload g = [1, 2]"
    using demo_sender_rto_log by (auto simp del: tx_apply.simps)
  have "sn_stream ?s = [1, 2, 3]" by (simp add: demo_sender_def Let_def)
  with retransmissions_are_genuine [OF demo_sender_idle demo_sender_rto, of g] g show ?thesis by simp
qed

text \<open>C20: Unacknowledged data is never left without a timer: while the queue holds anything, the
  retransmission deadline is set and the connection is flagged as a member of the list the timer tick
  walks; and the timeout stays between one second and one minute. The runs are those of C18.\<close>

theorem unacked_data_has_timer:
  assumes "sender_idle base s0" and "tx_reach s0 s"
  shows "(rtx_queue (sn_conn s) \<noteq> [] \<longrightarrow> rtx_deadline_ms (sn_conn s) \<noteq> 0 \<and> tick_in_list (sn_conn s))
    \<and> 1000 \<le> rto_ms (sn_conn s) \<and> rto_ms (sn_conn s) \<le> 60000"
  using sender_inv_reach [OF assms(2) sender_idle_inv [OF assms(1)]]
  by (auto simp: sender_inv_def Let_def timer_inv_def timers_listed_def rto_ok_def tcp_consts)

lemma demo_sent_queued: "rtx_queue (sn_conn demo_sent) \<noteq> []"
  using sender_inv_reach [OF demo_sender_run sender_idle_inv [OF demo_sender_idle]]
  by (auto simp: sender_inv_def Let_def demo_sent_covered demo_sent_stream)

theorem unacked_data_has_timer_witness:
  "let c = sn_conn demo_sent
   in rtx_queue c \<noteq> [] \<and> rtx_deadline_ms c \<noteq> 0 \<and> tick_in_list c \<and> 1000 \<le> rto_ms c \<and> rto_ms c \<le> 60000"
  using unacked_data_has_timer [OF demo_sender_idle demo_sender_run] demo_sent_queued by (simp add: Let_def)

text \<open>C21: A part of exactly 65536 bytes sent in one call leaves a retransmission entry of length
  zero: the entry never resends anything, however often it is asked to, and the bytes in flight do
  not count it.\<close>

theorem part_of_65536_bytes_uncovered:
  assumes "length b = 65536" and "\<not> rtx_alloc_failed c" and "rtx_queue c = []" and "alloc_results (cenv c) = []"
  shows "let c' = snd (rtx_on_data_sent [b] 65536 c)
    in map re_len (rtx_queue c') = [0] \<and> rtx_bytes_in_flight c' = sat_add32 (rtx_bytes_in_flight c) 0
      \<and> emit_rtx_entry 0 c' = c'"
proof -
  obtain c' where p: "rtx_push b (snd_nxt c - 65536) 0 (clock c) c = (True, c')"
    using assms(4) by (auto simp: rtx_push_def try_alloc_def Let_def)
  then have "rtx_on_data_sent [b] 65536 c = ([], c')"
    using assms(1,2) by (simp add: rtx_on_data_sent_def as_u16_def)
  moreover from rtx_push_ok(1,2) [OF p] assms(3) obtain e where "rtx_queue c' = [e]" "re_len e = 0"
    "rtx_bytes_in_flight c' = sat_add32 (rtx_bytes_in_flight c) 0" by auto
  ultimately show ?thesis by (simp add: Let_def emit_rtx_entry_def)
qed

theorem part_of_65536_bytes_uncovered_witness:
  "map re_len (rtx_queue (snd (rtx_on_data_sent [replicate 65536 7] 65536 (attach tcb_new demo_env)))) = [0]"
proof -
  let ?c = "attach tcb_new demo_env"
  have "\<not> rtx_alloc_failed ?c" "rtx_queue ?c = []" "alloc_results (cenv ?c) = []"
    by (simp_all add: attach_def tcb.extend_def conn.fields_def tcb_new_def demo_env_def)
  from part_of_65536_bytes_uncovered [OF length_replicate this] show ?thesis unfolding Let_def by (rule conjunct1)
qed

end
