(* ===== verification/Tcp_Hash.thy ===== *)
theory Tcp_Hash
  imports Tcp_Types
begin

text \<open>
  The per-core index from 4-tuples to connection slots in \<open>crates/net/tcp/src/pool.rs\<close>: an
  open-addressed table with linear probing, whose removal re-inserts the run behind the removed
  entry. The two boxed slices are functions on their indices; every access of the code masks its
  index to the table. A slot index is below the pool's capacity of 65472, so the cast of it to 16 bits is
  the identity and is left out.

  The lemmas show that the table implements a finite map while it has an empty slot, which the
  capacity of the connection pool guarantees, and what two addresses share a key.
\<close>

section \<open>Model\<close>

definition TCP_HASH_SIZE :: nat where "TCP_HASH_SIZE = 65536"
definition TCP_HASH_MASK :: nat where "TCP_HASH_MASK = TCP_HASH_SIZE - 1"
definition TCP_HASH_SHIFT :: nat where "TCP_HASH_SHIFT = 16"

record TcpHash =
  hkeys :: "nat \<Rightarrow> u64"
  hslots :: "nat \<Rightarrow> nat"

definition hash_new :: TcpHash where
  "hash_new = \<lparr>hkeys = (\<lambda>_. 0), hslots = (\<lambda>_. 0)\<rparr>"

fun ip_fold :: "IpAddr \<Rightarrow> u32" where
  "ip_fold (V4 a) = a"
| "ip_fold (V6 a) = ucast (drop_bit 96 a) XOR ucast (drop_bit 64 a) XOR ucast (drop_bit 32 a) XOR ucast a"

definition tcp_hash_key :: "IpAddr \<Rightarrow> u16 \<Rightarrow> u16 \<Rightarrow> u64" where
  "tcp_hash_key src_ip src_port dst_port =
     push_bit 32 (ucast (ip_fold src_ip)) OR push_bit 16 (ucast src_port) OR ucast dst_port
       OR push_bit 63 1 OR (case src_ip of V6 _ \<Rightarrow> push_bit 62 1 | V4 _ \<Rightarrow> 0)"

definition tcp_hash_bucket :: "u64 \<Rightarrow> nat" where
  "tcp_hash_bucket key = unat (drop_bit (64 - TCP_HASH_SHIFT) (key * 0x9E3779B97F4A7C15))"

definition hmask :: "nat \<Rightarrow> nat" where
  "hmask i = i AND TCP_HASH_MASK"

fun find_loop :: "TcpHash \<Rightarrow> u64 \<Rightarrow> nat \<Rightarrow> nat \<Rightarrow> nat \<Rightarrow> nat option" where
  "find_loop h key start i 0 = None"
| "find_loop h key start i (Suc n) =
     (let idx = hmask (start + i); k = hkeys h idx
      in if k = 0 then None else if k = key then Some idx else find_loop h key start (Suc i) n)"

definition tcp_hash_find :: "TcpHash \<Rightarrow> u64 \<Rightarrow> nat option" where
  "tcp_hash_find h key = map_option (hslots h) (find_loop h key (tcp_hash_bucket key) 0 TCP_HASH_SIZE)"

definition hash_put :: "nat \<Rightarrow> u64 \<Rightarrow> nat \<Rightarrow> TcpHash \<Rightarrow> TcpHash" where
  "hash_put idx key slot h = h\<lparr>hkeys := (hkeys h)(idx := key), hslots := (hslots h)(idx := slot)\<rparr>"

fun insert_loop :: "u64 \<Rightarrow> nat \<Rightarrow> nat \<Rightarrow> nat \<Rightarrow> nat \<Rightarrow> TcpHash \<Rightarrow> TcpHash" where
  "insert_loop key slot start i 0 h = h"
| "insert_loop key slot start i (Suc n) h =
     (let idx = hmask (start + i)
      in if hkeys h idx = 0 \<or> hkeys h idx = key then hash_put idx key slot h
         else insert_loop key slot start (Suc i) n h)"

definition tcp_hash_insert :: "u64 \<Rightarrow> nat \<Rightarrow> TcpHash \<Rightarrow> TcpHash" where
  "tcp_hash_insert key slot h = insert_loop key slot (tcp_hash_bucket key) 0 TCP_HASH_SIZE h"

text \<open>The inner loop of the removal: the first empty index from \<open>i\<close> on.\<close>

fun probe_empty :: "TcpHash \<Rightarrow> nat \<Rightarrow> nat \<Rightarrow> nat option" where
  "probe_empty h i 0 = None"
| "probe_empty h i (Suc n) = (if hkeys h i \<noteq> 0 then probe_empty h (hmask (i + 1)) n else Some i)"

text \<open>The outer loop, with the number of iterations bounded; running out is \<open>None\<close>.\<close>

fun backshift :: "nat \<Rightarrow> nat \<Rightarrow> TcpHash \<Rightarrow> TcpHash option" where
  "backshift 0 i h = None"
| "backshift (Suc n) i h =
     (if hkeys h i = 0 then Some h
      else let moving_key = hkeys h i; moving_slot = hslots h i; h1 = hash_put i 0 0 h
           in case probe_empty h1 (tcp_hash_bucket moving_key) TCP_HASH_SIZE of
                None \<Rightarrow> None
              | Some new_idx \<Rightarrow> backshift n (hmask (i + 1)) (hash_put new_idx moving_key moving_slot h1))"

definition tcp_hash_remove_opt :: "u64 \<Rightarrow> TcpHash \<Rightarrow> TcpHash option" where
  "tcp_hash_remove_opt key h =
     (case find_loop h key (tcp_hash_bucket key) 0 TCP_HASH_SIZE of
        None \<Rightarrow> Some h
      | Some idx \<Rightarrow> backshift TCP_HASH_SIZE (hmask (idx + 1)) (hash_put idx 0 0 h))"

definition tcp_hash_remove :: "u64 \<Rightarrow> TcpHash \<Rightarrow> TcpHash" where
  "tcp_hash_remove key h = (case tcp_hash_remove_opt key h of Some h' \<Rightarrow> h' | None \<Rightarrow> h)"

section \<open>Cyclic distances\<close>

abbreviation hsize :: nat where "hsize \<equiv> TCP_HASH_SIZE"

lemma N_pos [simp]: "0 < hsize" "hsize \<noteq> 0"
  by (simp_all add: TCP_HASH_SIZE_def)

lemma hmask_mod: "hmask i = i mod hsize"
proof -
  have "TCP_HASH_MASK = mask 16" by (simp add: TCP_HASH_MASK_def TCP_HASH_SIZE_def mask_eq_exp_minus_1)
  then have "hmask i = take_bit 16 i" by (simp add: hmask_def take_bit_eq_mask)
  then show ?thesis by (simp add: take_bit_eq_mod TCP_HASH_SIZE_def)
qed

lemma hmask_less [simp]: "hmask i < hsize"
  by (simp add: hmask_mod)

lemma bucket_less [simp]: "tcp_hash_bucket k < hsize"
proof -
  have "unat (drop_bit 48 w) < 65536" for w :: u64
  proof -
    have "unat w < 18446744073709551616" using unsigned_less [of w] by simp
    moreover have "unat (drop_bit 48 w) = unat w div 2 ^ 48" unfolding unat_drop_bit_eq by (rule drop_bit_eq_div)
    ultimately show ?thesis by (simp add: div_less_iff_less_mult)
  qed
  then show ?thesis by (simp add: tcp_hash_bucket_def TCP_HASH_SHIFT_def TCP_HASH_SIZE_def)
qed

text \<open>How far \<open>p\<close> lies behind \<open>b\<close>, going up and around.\<close>

definition gap :: "nat \<Rightarrow> nat \<Rightarrow> nat" where
  "gap b p = (if b \<le> p then p - b else p + hsize - b)"

lemma gap_less: "b < hsize \<Longrightarrow> p < hsize \<Longrightarrow> gap b p < hsize"
  by (auto simp: gap_def)

lemma gap_self [simp]: "gap b b = 0"
  by (simp add: gap_def)

lemma hmask_add: "b < hsize \<Longrightarrow> d < hsize \<Longrightarrow> hmask (b + d) = (if b + d < hsize then b + d else b + d - hsize)"
  by (simp add: hmask_mod mod_if)

lemma hmask_gap: "b < hsize \<Longrightarrow> p < hsize \<Longrightarrow> hmask (b + gap b p) = p"
  by (auto simp: hmask_mod gap_def)

lemma gap_hmask: "b < hsize \<Longrightarrow> d < hsize \<Longrightarrow> gap b (hmask (b + d)) = d"
  by (auto simp: hmask_add gap_def)

lemma gap_eq_0: "b < hsize \<Longrightarrow> p < hsize \<Longrightarrow> gap b p = 0 \<longleftrightarrow> p = b"
  by (auto simp: gap_def)

lemma gap_inj: "b < hsize \<Longrightarrow> p < hsize \<Longrightarrow> q < hsize \<Longrightarrow> gap b p = gap b q \<longleftrightarrow> p = q"
  by (auto simp: gap_def split: if_splits)

text \<open>\<open>q\<close> is on the probe path of an entry with bucket \<open>b\<close> stored at \<open>p\<close>.\<close>

definition on_path :: "nat \<Rightarrow> nat \<Rightarrow> nat \<Rightarrow> bool" where
  "on_path b p q \<longleftrightarrow> gap b q < gap b p"

lemma gap_shift:
  assumes "b < hsize" "p < hsize" "c < hsize"
  shows "gap (gap c b) (gap c p) = gap b p"
  using assms by (cases "c \<le> b"; cases "c \<le> p"; cases "b \<le> p") (simp_all add: gap_def)

text \<open>Seen from \<open>c\<close>: a path that misses \<open>e\<close> either stays behind \<open>e\<close>, or comes around to the part
  before it.\<close>

lemma on_path_cases:
  assumes "gap b q < gap b p" "gap b p \<le> gap b e" "p \<noteq> e" "b < hsize" "q < hsize" "p < hsize" "e < hsize"
  shows "if e < p then e < q \<and> q < p else q < p \<or> e < q"
  using assms by (cases "b \<le> p"; cases "b \<le> q"; cases "b \<le> e") (auto simp: gap_def)

lemma on_path_from:
  assumes "b < hsize" "p < hsize" "q < hsize" "e < hsize" "c < hsize" "on_path b p q" "\<not> on_path b p e" "p \<noteq> e"
  shows "if gap c e < gap c p then gap c e < gap c q \<and> gap c q < gap c p
    else gap c q < gap c p \<or> gap c e < gap c q"
  using assms by (intro on_path_cases [of "gap c b"]) (auto simp: gap_shift gap_less gap_inj on_path_def)

lemma gap_step:
  assumes "i < hsize" "q < hsize" "q \<noteq> i"
  shows "gap i q = Suc (gap (hmask (i + 1)) q)"
  using assms by (auto simp: hmask_mod gap_def mod_if)

lemma gap_Suc: "c < hsize \<Longrightarrow> i < hsize \<Longrightarrow> Suc (gap c i) < hsize \<Longrightarrow> gap c (hmask (i + 1)) = Suc (gap c i)"
  by (auto simp: hmask_mod gap_def mod_if split: if_splits)

text \<open>The first index from \<open>b\<close> on with a property.\<close>

lemma first_from:
  assumes "P e" "e < hsize"
  shows "\<exists>p<hsize. P p \<and> gap b p \<le> gap b e \<and> (\<forall>q<hsize. on_path b p q \<longrightarrow> \<not> P q)"
proof -
  let ?Q = "\<lambda>d. \<exists>p<hsize. P p \<and> gap b p = d"
  have "?Q (LEAST d. ?Q d)" by (rule LeastI [of ?Q "gap b e"]) (use assms in auto)
  then obtain p where p: "p < hsize" "P p" "gap b p = (LEAST d. ?Q d)" by auto
  moreover have "gap b p \<le> gap b e" unfolding p(3) by (rule Least_le) (use assms in auto)
  moreover have "\<not> P q" if "q < hsize" "gap b q < gap b p" for q
    using that not_less_Least [of "gap b q" ?Q] unfolding p(3) by blast
  ultimately show ?thesis by (auto simp: on_path_def)
qed

section \<open>The loops\<close>

lemma find_loop_hit:
  assumes "p < hsize" "b < hsize" "i \<le> gap b p" "gap b p < i + n" "hkeys h p = key" "key \<noteq> 0"
    "\<And>q. q < hsize \<Longrightarrow> on_path b p q \<Longrightarrow> hkeys h q \<noteq> 0 \<and> hkeys h q \<noteq> key"
  shows "find_loop h key b i n = Some p"
  using assms(3,4)
proof (induction n arbitrary: i)
  case (Suc n)
  show ?case
  proof (cases "i = gap b p")
    case True
    then show ?thesis using assms(1,2,5,6) by (simp add: hmask_gap Let_def)
  next
    case False
    then have "i < gap b p" using Suc.prems by simp
    then have "on_path b p (hmask (b + i))"
      using assms(1,2) gap_less [of b p] by (simp add: on_path_def gap_hmask)
    then show ?thesis using Suc False assms(7) [of "hmask (b + i)"] by (simp add: Let_def)
  qed
qed simp

lemma find_loop_key: "find_loop h key b i n = Some p \<Longrightarrow> p < hsize \<and> hkeys h p = key \<and> key \<noteq> 0"
  by (induction n arbitrary: i) (auto simp: Let_def split: if_splits)

lemma insert_loop_at:
  assumes "p < hsize" "b < hsize" "i \<le> gap b p" "gap b p < i + n" "hkeys h p = 0 \<or> hkeys h p = key"
    "\<And>q. q < hsize \<Longrightarrow> on_path b p q \<Longrightarrow> hkeys h q \<noteq> 0 \<and> hkeys h q \<noteq> key"
  shows "insert_loop key slot b i n h = hash_put p key slot h"
  using assms(3,4)
proof (induction n arbitrary: i)
  case (Suc n)
  show ?case
  proof (cases "i = gap b p")
    case True
    then show ?thesis using assms(1,2,5) by (simp add: hmask_gap Let_def)
  next
    case False
    then have "i < gap b p" using Suc.prems by simp
    then have "on_path b p (hmask (b + i))"
      using assms(1,2) gap_less [of b p] by (simp add: on_path_def gap_hmask)
    then show ?thesis using Suc False assms(6) [of "hmask (b + i)"] by (simp add: Let_def)
  qed
qed simp

lemma probe_empty_at:
  assumes "p < hsize" "i < hsize" "gap i p < n" "hkeys h p = 0" "\<And>q. q < hsize \<Longrightarrow> on_path i p q \<Longrightarrow> hkeys h q \<noteq> 0"
  shows "probe_empty h i n = Some p"
  using assms(2,3,5)
proof (induction n arbitrary: i)
  case (Suc n)
  show ?case
  proof (cases "p = i")
    case True
    then show ?thesis using assms(4) by simp
  next
    case False
    then have "on_path i p i" using Suc.prems(1) assms(1) gap_eq_0 [of i p] by (simp add: on_path_def)
    then have "hkeys h i \<noteq> 0" using Suc.prems(1,3) by simp
    moreover have "probe_empty h (hmask (i + 1)) n = Some p"
    proof (rule Suc.IH)
      show "gap (hmask (i + 1)) p < n" using Suc.prems(1,2) False assms(1) gap_step [of i p] by simp
      fix q assume q: "q < hsize" "on_path (hmask (i + 1)) p q"
      show "hkeys h q \<noteq> 0"
      proof (cases "q = i")
        case True
        then show ?thesis using \<open>hkeys h i \<noteq> 0\<close> by simp
      next
        case False
        then show ?thesis
          using q Suc.prems(1,3) \<open>p \<noteq> i\<close> assms(1) gap_step [of i p] gap_step [of i q] by (simp add: on_path_def)
      qed
    qed simp
    ultimately show ?thesis by simp
  qed
qed simp

section \<open>Invariant\<close>

text \<open>No key twice, and no empty index on the probe path of an entry.\<close>

definition keys_distinct :: "TcpHash \<Rightarrow> bool" where
  "keys_distinct h \<longleftrightarrow> (\<forall>p<hsize. \<forall>q<hsize. hkeys h p = hkeys h q \<longrightarrow> hkeys h p \<noteq> 0 \<longrightarrow> p = q)"

definition hash_inv :: "TcpHash \<Rightarrow> bool" where
  "hash_inv h \<longleftrightarrow> keys_distinct h
     \<and> (\<forall>p<hsize. hkeys h p \<noteq> 0 \<longrightarrow> (\<forall>q<hsize. on_path (tcp_hash_bucket (hkeys h p)) p q \<longrightarrow> hkeys h q \<noteq> 0))"

lemma hash_inv_distinct:
  "hash_inv h \<Longrightarrow> p < hsize \<Longrightarrow> q < hsize \<Longrightarrow> hkeys h p = hkeys h q \<Longrightarrow> hkeys h p \<noteq> 0 \<Longrightarrow> p = q"
  unfolding hash_inv_def keys_distinct_def by blast

lemma hash_inv_path:
  "hash_inv h \<Longrightarrow> p < hsize \<Longrightarrow> hkeys h p \<noteq> 0 \<Longrightarrow> q < hsize \<Longrightarrow> on_path (tcp_hash_bucket (hkeys h p)) p q \<Longrightarrow> hkeys h q \<noteq> 0"
  unfolding hash_inv_def by blast

definition hash_entries :: "TcpHash \<Rightarrow> (u64 \<times> nat) set" where
  "hash_entries h = {(hkeys h p, hslots h p) |p. p < hsize \<and> hkeys h p \<noteq> 0}"

definition hash_room :: "TcpHash \<Rightarrow> bool" where
  "hash_room h \<longleftrightarrow> (\<exists>p<hsize. hkeys h p = 0)"

lemma hash_put_simps [simp]:
  "hkeys (hash_put p k s h) q = (if q = p then k else hkeys h q)"
  "hslots (hash_put p k s h) q = (if q = p then s else hslots h q)"
  by (simp_all add: hash_put_def)

lemma hash_inv_new: "hash_inv hash_new" "hash_entries hash_new = {}" "hash_room hash_new"
  by (simp_all add: hash_inv_def keys_distinct_def hash_entries_def hash_new_def hash_room_def exI [of _ 0])

lemma find_entries:
  assumes "hash_inv h" "key \<noteq> 0"
  shows "tcp_hash_find h key = Some s \<longleftrightarrow> (key, s) \<in> hash_entries h"
proof
  assume "tcp_hash_find h key = Some s"
  then show "(key, s) \<in> hash_entries h"
    by (auto simp: tcp_hash_find_def hash_entries_def dest!: find_loop_key)
next
  assume "(key, s) \<in> hash_entries h"
  then obtain p where p: "p < hsize" "hkeys h p = key" "hslots h p = s" by (auto simp: hash_entries_def)
  let ?b = "tcp_hash_bucket key"
  have "hkeys h q \<noteq> 0 \<and> hkeys h q \<noteq> key" if "q < hsize" "on_path ?b p q" for q
    using that p hash_inv_path [OF assms(1) p(1), of q] hash_inv_distinct [OF assms(1), of q p] assms(2)
    by (auto simp: on_path_def)
  then have "find_loop h key ?b 0 hsize = Some p"
    using p assms(2) gap_less [OF bucket_less p(1)] by (intro find_loop_hit) auto
  then show "tcp_hash_find h key = Some s" using p by (simp add: tcp_hash_find_def)
qed

lemma entries_functional: "hash_inv h \<Longrightarrow> (k, s) \<in> hash_entries h \<Longrightarrow> (k, t) \<in> hash_entries h \<Longrightarrow> s = t"
  by (auto simp: hash_inv_def keys_distinct_def hash_entries_def)

section \<open>Insertion\<close>

lemma insert_position:
  assumes "hash_inv h" "key \<noteq> 0" "hash_room h \<or> key \<in> fst ` hash_entries h"
  obtains p where "p < hsize" "hkeys h p = 0 \<or> hkeys h p = key" "tcp_hash_insert key slot h = hash_put p key slot h"
    "\<And>q. q < hsize \<Longrightarrow> on_path (tcp_hash_bucket key) p q \<Longrightarrow> hkeys h q \<noteq> 0 \<and> hkeys h q \<noteq> key"
proof -
  let ?P = "\<lambda>p. hkeys h p = 0 \<or> hkeys h p = key"
  obtain e where "e < hsize" "?P e" using assms(2,3) by (auto simp: hash_room_def hash_entries_def)
  then obtain p where p: "p < hsize" "?P p" "\<And>q. q < hsize \<Longrightarrow> on_path (tcp_hash_bucket key) p q \<Longrightarrow> \<not> ?P q"
    using first_from [of ?P e "tcp_hash_bucket key"] by blast
  have "tcp_hash_insert key slot h = hash_put p key slot h"
    unfolding tcp_hash_insert_def using p gap_less [OF bucket_less p(1)] by (intro insert_loop_at) auto
  with p show thesis by (intro that) auto
qed

lemma insert_correct:
  assumes inv: "hash_inv h" and k: "key \<noteq> 0" and room: "hash_room h \<or> key \<in> fst ` hash_entries h"
  shows "hash_inv (tcp_hash_insert key slot h)"
    "hash_entries (tcp_hash_insert key slot h) = {e \<in> hash_entries h. fst e \<noteq> key} \<union> {(key, slot)}"
proof -
  obtain p where p: "p < hsize" "hkeys h p = 0 \<or> hkeys h p = key" "tcp_hash_insert key slot h = hash_put p key slot h"
    "\<And>q. q < hsize \<Longrightarrow> on_path (tcp_hash_bucket key) p q \<Longrightarrow> hkeys h q \<noteq> 0 \<and> hkeys h q \<noteq> key"
    using insert_position [OF assms] by blast
  have only: "q = p" if "q < hsize" "hkeys h q = key" for q
  proof (cases "hkeys h p = key")
    case True
    then show ?thesis using inv that p(1) k by (auto simp: hash_inv_def keys_distinct_def)
  next
    case False
    then have "hkeys h p = 0" using p(2) by simp
    moreover have "on_path (tcp_hash_bucket key) q p \<or> on_path (tcp_hash_bucket key) p q \<or> q = p"
      using that p(1) gap_inj [of "tcp_hash_bucket key" p q] by (auto simp: on_path_def)
    ultimately show ?thesis using inv that p(1,4) k by (auto simp: hash_inv_def)
  qed
  let ?g = "hash_put p key slot h"
  have d: "a = b" if "a < hsize" "b < hsize" "hkeys ?g a = hkeys ?g b" "hkeys ?g a \<noteq> 0" for a b
    using that only [of a] only [of b] hash_inv_distinct [OF inv, of a b] by (simp split: if_splits)
  have w: "hkeys ?g q \<noteq> 0" if "a < hsize" "hkeys ?g a \<noteq> 0" "q < hsize" "on_path (tcp_hash_bucket (hkeys ?g a)) a q" for a q
    using that k p(4) [of q] hash_inv_path [OF inv, of a q] by (simp split: if_splits)
  show "hash_inv (tcp_hash_insert key slot h)"
    unfolding p(3) hash_inv_def keys_distinct_def using d w by blast
  have "(a, s) \<in> hash_entries ?g \<longleftrightarrow> (a, s) \<in> {e \<in> hash_entries h. fst e \<noteq> key} \<union> {(key, slot)}" for a s
  proof (cases "a = key")
    case True
    then show ?thesis using p(1) k only by (auto simp: hash_entries_def)
  next
    case False
    then show ?thesis using p(1,2) by (auto simp: hash_entries_def)
  qed
  then show "hash_entries (tcp_hash_insert key slot h) = {e \<in> hash_entries h. fst e \<noteq> key} \<union> {(key, slot)}"
    unfolding p(3) by auto
qed

section \<open>Removal\<close>

text \<open>While the run behind the cleared index \<open>c\<close> is re-inserted, up to the empty index \<open>e\<close> that ends it:
  only entries at \<open>i\<close> or later in the run may have an empty index on their path, and only one before
  \<open>i\<close>.\<close>

definition shifting :: "nat \<Rightarrow> nat \<Rightarrow> nat \<Rightarrow> TcpHash \<Rightarrow> bool" where
  "shifting c e i h \<longleftrightarrow> c < hsize \<and> e < hsize \<and> i < hsize \<and> hkeys h e = 0 \<and> 0 < gap c i \<and> gap c i \<le> gap c e \<and> keys_distinct h
     \<and> (\<forall>q<hsize. gap c i \<le> gap c q \<and> gap c q < gap c e \<longrightarrow> hkeys h q \<noteq> 0)
     \<and> (\<forall>p<hsize. hkeys h p \<noteq> 0 \<longrightarrow> \<not> on_path (tcp_hash_bucket (hkeys h p)) p e
          \<and> (\<forall>q<hsize. on_path (tcp_hash_bucket (hkeys h p)) p q \<and> hkeys h q = 0 \<longrightarrow>
               gap c q < gap c i \<and> gap c i \<le> gap c p \<and> gap c p < gap c e))"

lemma shiftingI:
  assumes "c < hsize" "e < hsize" "i < hsize" "hkeys h e = 0" "0 < gap c i" "gap c i \<le> gap c e"
    "\<And>p q. p < hsize \<Longrightarrow> q < hsize \<Longrightarrow> hkeys h p = hkeys h q \<Longrightarrow> hkeys h p \<noteq> 0 \<Longrightarrow> p = q"
    "\<And>q. q < hsize \<Longrightarrow> gap c i \<le> gap c q \<Longrightarrow> gap c q < gap c e \<Longrightarrow> hkeys h q \<noteq> 0"
    "\<And>p. p < hsize \<Longrightarrow> hkeys h p \<noteq> 0 \<Longrightarrow> \<not> on_path (tcp_hash_bucket (hkeys h p)) p e"
    "\<And>p q. p < hsize \<Longrightarrow> hkeys h p \<noteq> 0 \<Longrightarrow> q < hsize \<Longrightarrow> on_path (tcp_hash_bucket (hkeys h p)) p q \<Longrightarrow> hkeys h q = 0 \<Longrightarrow>
      gap c q < gap c i \<and> gap c i \<le> gap c p \<and> gap c p < gap c e"
  shows "shifting c e i h"
  unfolding shifting_def keys_distinct_def by (intro conjI allI impI) (use assms in blast)+

lemma shifting_hole:
  "shifting c e i h \<Longrightarrow> p < hsize \<Longrightarrow> hkeys h p \<noteq> 0 \<Longrightarrow> q < hsize \<Longrightarrow> on_path (tcp_hash_bucket (hkeys h p)) p q \<Longrightarrow>
     hkeys h q = 0 \<Longrightarrow> gap c q < gap c i \<and> gap c i \<le> gap c p \<and> gap c p < gap c e"
  unfolding shifting_def by blast

lemma shifting_end:
  assumes "shifting c e i h" "hkeys h i = 0"
  shows "hash_inv h"
proof -
  have "gap c i = gap c e" using assms unfolding shifting_def by (metis le_neq_implies_less order_refl)
  then have "hkeys h q \<noteq> 0" if "p < hsize" "hkeys h p \<noteq> 0" "q < hsize" "on_path (tcp_hash_bucket (hkeys h p)) p q" for p q
    using shifting_hole [OF assms(1) that] by auto
  then show ?thesis using assms(1) unfolding shifting_def hash_inv_def by blast
qed

text \<open>Where the entry at \<open>i\<close> goes: to the first empty index on its own path, or back to \<open>i\<close>.\<close>

lemma reinsert_position:
  assumes sh: "shifting c e i h" and ne: "hkeys h i \<noteq> 0"
  defines "b \<equiv> tcp_hash_bucket (hkeys h i)"
  obtains j where "j < hsize" "probe_empty (hash_put i 0 0 h) b hsize = Some j" "j \<noteq> e" "j = i \<or> hkeys h j = 0"
    "\<not> on_path b j e" "\<And>q. q < hsize \<Longrightarrow> on_path b j q \<Longrightarrow> hkeys h q \<noteq> 0 \<and> q \<noteq> i"
proof -
  let ?h = "hash_put i 0 0 h"
  have i: "i < hsize" "e < hsize" "\<not> on_path b i e" "i \<noteq> e" using sh ne by (auto simp: shifting_def b_def)
  obtain j where j: "j < hsize" "hkeys ?h j = 0" "gap b j \<le> gap b i" "\<And>q. q < hsize \<Longrightarrow> on_path b j q \<Longrightarrow> hkeys ?h q \<noteq> 0"
    using first_from [of "\<lambda>p. hkeys ?h p = 0" i b] i(1) by auto
  have bN: "b < hsize" by (simp add: b_def)
  have "gap b i < gap b e" using i gap_inj [OF bN i(1,2)] by (simp add: on_path_def)
  then have far: "gap b j < gap b e" using j(3) by simp
  show thesis
  proof (rule that)
    show "probe_empty ?h b hsize = Some j"
      using j gap_less [OF bN j(1)] bN by (intro probe_empty_at) auto
    show "j \<noteq> e" "\<not> on_path b j e" using far by (auto simp: on_path_def)
    show "j = i \<or> hkeys h j = 0" using j(2) by (simp split: if_splits)
    show "hkeys h q \<noteq> 0 \<and> q \<noteq> i" if "q < hsize" "on_path b j q" for q
      using j(4) [OF that] by (simp split: if_splits)
  qed (rule j(1))
qed

lemma shifting_step:
  assumes sh: "shifting c e i h" and ne: "hkeys h i \<noteq> 0"
    and j: "j < hsize" "j \<noteq> e" "j = i \<or> hkeys h j = 0" "\<not> on_path (tcp_hash_bucket (hkeys h i)) j e"
      "\<And>q. q < hsize \<Longrightarrow> on_path (tcp_hash_bucket (hkeys h i)) j q \<Longrightarrow> hkeys h q \<noteq> 0 \<and> q \<noteq> i"
  defines "g \<equiv> hash_put j (hkeys h i) (hslots h i) (hash_put i 0 0 h)"
  shows "shifting c e (hmask (i + 1)) g" "hash_entries g = hash_entries h"
proof -
  note g [simp] = g_def
  have b: "c < hsize" "e < hsize" "i < hsize" "hkeys h e = 0" "0 < gap c i" "gap c i \<le> gap c e" "keys_distinct h"
    and run: "\<And>q. q < hsize \<Longrightarrow> gap c i \<le> gap c q \<Longrightarrow> gap c q < gap c e \<Longrightarrow> hkeys h q \<noteq> 0"
    and far: "\<And>p. p < hsize \<Longrightarrow> hkeys h p \<noteq> 0 \<Longrightarrow> \<not> on_path (tcp_hash_bucket (hkeys h p)) p e"
    using sh unfolding shifting_def by blast+
  note hole = shifting_hole [OF sh]
  have ie: "gap c i < gap c e" using b(6) gap_inj [OF b(1,3,2)] ne b(4) by (metis le_neq_implies_less)
  have next_gap: "gap c (hmask (i + 1)) = Suc (gap c i)"
    using gap_Suc [OF b(1,3)] ie gap_less [OF b(1,2)] by simp
  have dist: "p = q" if "p < hsize" "q < hsize" "hkeys h p = hkeys h q" "hkeys h p \<noteq> 0" for p q
    using that b(7) unfolding keys_distinct_def by blast
  have gkey: "hkeys g p \<noteq> 0 \<longleftrightarrow> p = j \<or> p \<noteq> i \<and> hkeys h p \<noteq> 0" for p using ne by simp
  have gdist: "p = q" if "p < hsize" "q < hsize" "hkeys g p = hkeys g q" "hkeys g p \<noteq> 0" for p q
    using that dist [of p q] dist [of p i] dist [of i q] b(3) j(3) by (simp split: if_splits)
  have gpath: "gap c q < Suc (gap c i) \<and> Suc (gap c i) \<le> gap c p \<and> gap c p < gap c e"
    if "p < hsize" "hkeys g p \<noteq> 0" "q < hsize" "on_path (tcp_hash_bucket (hkeys g p)) p q" "hkeys g q = 0" for p q
  proof -
    have pj: "p \<noteq> j"
    proof
      assume "p = j"
      then show False using that(3-5) j(5) [of q] ne by (simp split: if_splits)
    qed
    then have p: "p \<noteq> i" "hkeys h p \<noteq> 0" "hkeys g p = hkeys h p" using that(2) by (auto split: if_splits)
    have pi: "gap c p \<noteq> gap c i" using gap_inj [OF b(1) that(1) b(3)] p(1) by simp
    have pe: "p \<noteq> e" using p(2) b(4) by auto
    note q = that(5)
    consider "q = i" | "hkeys h q = 0" using q gkey [of q] by auto
    then show ?thesis
    proof cases
      case 1
      have "on_path (tcp_hash_bucket (hkeys h p)) p i" using that(4) p(3) 1 by simp
      from on_path_from [OF bucket_less that(1) b(3,2,1) this far [OF that(1) p(2)] pe]
      show ?thesis using ie 1 gap_inj [OF b(1) that(1) b(2)] pe by (auto split: if_splits)
    next
      case 2
      from hole [OF that(1) p(2) that(3) _ 2] that(4) p(3) show ?thesis using pi by auto
    qed
  qed
  have gfar: "\<not> on_path (tcp_hash_bucket (hkeys g p)) p e" if "p < hsize" "hkeys g p \<noteq> 0" for p
    using that far [of p] j(4) by (simp split: if_splits)
  have grun: "hkeys g q \<noteq> 0" if "q < hsize" "Suc (gap c i) \<le> gap c q" "gap c q < gap c e" for q
    using that run [of q] ne by auto
  have ge: "hkeys g e = 0" "Suc (gap c i) \<le> gap c e" using j(2) b(4) ie by simp_all
  show "shifting c e (hmask (i + 1)) g"
    by (rule shiftingI, unfold next_gap) (fact b(1,2) hmask_less ge zero_less_Suc gdist gpath gfar grun)+
  show "hash_entries g = hash_entries h"
  proof (intro set_eqI iffI; clarsimp simp only: hash_entries_def mem_Collect_eq)
    fix p assume p: "p < hsize" "hkeys g p \<noteq> 0"
    show "\<exists>p'. (hkeys g p, hslots g p) = (hkeys h p', hslots h p') \<and> p' < hsize \<and> hkeys h p' \<noteq> 0"
      by (rule exI [of _ "if p = j then i else p"]) (use p ne b(3) in \<open>auto split: if_splits\<close>)
  next
    fix p assume p: "p < hsize" "hkeys h p \<noteq> 0"
    show "\<exists>p'. (hkeys h p, hslots h p) = (hkeys g p', hslots g p') \<and> p' < hsize \<and> hkeys g p' \<noteq> 0"
      by (rule exI [of _ "if p = i then j else p"]) (use p ne j(1,3) in \<open>auto split: if_splits\<close>)
  qed
qed

lemma backshift_correct:
  assumes "shifting c e i h" "gap c e - gap c i < n"
  shows "\<exists>h'. backshift n i h = Some h' \<and> hash_inv h' \<and> hash_entries h' = hash_entries h \<and> hash_room h'"
  using assms
proof (induction n arbitrary: i h)
  case (Suc n)
  show ?case
  proof (cases "hkeys h i = 0")
    case True
    then show ?thesis using shifting_end [OF Suc.prems(1) True] Suc.prems(1) by (auto simp: shifting_def hash_room_def)
  next
    case False
    from reinsert_position [OF Suc.prems(1) False] obtain j where
      j: "j < hsize" "probe_empty (hash_put i 0 0 h) (tcp_hash_bucket (hkeys h i)) hsize = Some j" "j \<noteq> e" "j = i \<or> hkeys h j = 0"
        "\<not> on_path (tcp_hash_bucket (hkeys h i)) j e"
        "\<And>q. q < hsize \<Longrightarrow> on_path (tcp_hash_bucket (hkeys h i)) j q \<Longrightarrow> hkeys h q \<noteq> 0 \<and> q \<noteq> i" by metis
    let ?g = "hash_put j (hkeys h i) (hslots h i) (hash_put i 0 0 h)"
    have step: "shifting c e (hmask (i + 1)) ?g" "hash_entries ?g = hash_entries h"
      using shifting_step [OF Suc.prems(1) False j(1,3,4,5,6)] by blast+
    have c: "c < hsize" "e < hsize" "i < hsize" "gap c i \<le> gap c e" "hkeys h e = 0" using Suc.prems(1) by (auto simp: shifting_def)
    have "gap c i < gap c e" using c gap_inj [OF c(1,3,2)] False by (metis le_neq_implies_less)
    then have "gap c e - gap c (hmask (i + 1)) < n"
      using gap_Suc [OF c(1,3)] gap_less [OF c(1,2)] Suc.prems(2) by simp
    from Suc.IH [OF step(1) this] step(2) False j(2) show ?thesis by (simp add: Let_def)
  qed
qed simp

lemma shifting_start:
  assumes inv: "hash_inv h" and room: "hash_room h" and c: "c < hsize" "hkeys h c \<noteq> 0"
  obtains e where "shifting c e (hmask (c + 1)) (hash_put c 0 0 h)"
proof -
  let ?g = "hash_put c 0 0 h"
  obtain e0 where "e0 < hsize" "hkeys h e0 = 0" using room by (auto simp: hash_room_def)
  then obtain e where e: "e < hsize" "hkeys h e = 0" "\<And>q. q < hsize \<Longrightarrow> on_path c e q \<Longrightarrow> hkeys h q \<noteq> 0"
    using first_from [of "\<lambda>p. hkeys h p = 0" e0 c] by blast
  have ce: "c \<noteq> e" using e(2) c(2) by auto
  have "1 < hsize" by (simp add: TCP_HASH_SIZE_def)
  then have one: "gap c (hmask (c + 1)) = 1" using gap_Suc [OF c(1,1)] by simp
  have far: "\<not> on_path (tcp_hash_bucket (hkeys h p)) p e" if "p < hsize" "hkeys h p \<noteq> 0" for p
    using hash_inv_path [OF inv that e(1)] e(2) by blast
  have path: "gap c q < 1 \<and> 1 \<le> gap c p \<and> gap c p < gap c e"
    if "p < hsize" "hkeys ?g p \<noteq> 0" "q < hsize" "on_path (tcp_hash_bucket (hkeys ?g p)) p q" "hkeys ?g q = 0" for p q
  proof -
    have p: "p \<noteq> c" "hkeys h p \<noteq> 0" "hkeys ?g p = hkeys h p" using that(2) by (auto split: if_splits)
    have q: "q = c" using that(4,5) p hash_inv_path [OF inv that(1) p(2) that(3)] by (auto split: if_splits)
    have "on_path (tcp_hash_bucket (hkeys h p)) p c" using that(4) p(3) q by simp
    moreover have "p \<noteq> e" using p(2) e(2) by auto
    ultimately show ?thesis
      using on_path_from [OF bucket_less that(1) c(1) e(1) c(1) _ far [OF that(1) p(2)]] q p(1) c(1) that(1)
        gap_eq_0 [OF c(1) that(1)] gap_inj [OF c(1) that(1) e(1)] by (auto split: if_splits)
  qed
  have dist: "p = q" if "p < hsize" "q < hsize" "hkeys ?g p = hkeys ?g q" "hkeys ?g p \<noteq> 0" for p q
    using that hash_inv_distinct [OF inv that(1,2)] by (simp split: if_splits)
  have run: "hkeys ?g q \<noteq> 0" if "q < hsize" "1 \<le> gap c q" "gap c q < gap c e" for q
    using that e(3) [of q] by (auto simp: on_path_def)
  have gfar: "\<not> on_path (tcp_hash_bucket (hkeys ?g p)) p e" if "p < hsize" "hkeys ?g p \<noteq> 0" for p
    using that far [of p] by (simp split: if_splits)
  have ge: "1 \<le> gap c e" "hkeys ?g e = 0" using gap_eq_0 [OF c(1) e(1)] ce e(2) by auto
  have "shifting c e (hmask (c + 1)) ?g"
    by (rule shiftingI, unfold one) (fact c(1) e(1) hmask_less zero_less_one ge dist path run gfar)+
  then show thesis by (rule that)
qed

lemma remove_correct:
  assumes inv: "hash_inv h" and room: "hash_room h" and k: "key \<noteq> 0"
  shows "\<exists>h'. tcp_hash_remove_opt key h = Some h' \<and> hash_inv h' \<and> hash_room h'
    \<and> hash_entries h' = {e \<in> hash_entries h. fst e \<noteq> key}"
proof (cases "find_loop h key (tcp_hash_bucket key) 0 hsize")
  case None
  then have "(key, s) \<notin> hash_entries h" for s using find_entries [OF inv k, of s] by (simp add: tcp_hash_find_def)
  then show ?thesis using None inv room by (auto simp: tcp_hash_remove_opt_def)
next
  case (Some c)
  then have c: "c < hsize" "hkeys h c = key" "hkeys h c \<noteq> 0" by (auto dest!: find_loop_key)
  obtain e where sh: "shifting c e (hmask (c + 1)) (hash_put c 0 0 h)" using shifting_start [OF inv room c(1,3)] .
  then have "gap c e - gap c (hmask (c + 1)) < hsize" using gap_less [of c e] by (auto simp: shifting_def)
  from backshift_correct [OF sh this] obtain h' where "backshift hsize (hmask (c + 1)) (hash_put c 0 0 h) = Some h'"
    "hash_inv h'" "hash_entries h' = hash_entries (hash_put c 0 0 h)" "hash_room h'" by blast
  moreover have "(a, s) \<in> hash_entries (hash_put c 0 0 h) \<longleftrightarrow> (a, s) \<in> {e \<in> hash_entries h. fst e \<noteq> key}" for a s
  proof -
    have "hkeys h p \<noteq> key \<longleftrightarrow> p \<noteq> c" if "p < hsize" for p using hash_inv_distinct [OF inv that c(1)] c by metis
    then have "(\<exists>p<hsize. p \<noteq> c \<and> hkeys h p = a \<and> hslots h p = s \<and> a \<noteq> 0)
      \<longleftrightarrow> (\<exists>p<hsize. hkeys h p \<noteq> key \<and> hkeys h p = a \<and> hslots h p = s \<and> a \<noteq> 0)" by blast
    then show ?thesis unfolding hash_entries_def by auto
  qed
  ultimately show ?thesis using Some by (auto simp: tcp_hash_remove_opt_def)
qed

section \<open>A bounded map\<close>

text \<open>What a client of the index relies on: lookups, insertions and removals of non-zero keys behave as
  on a finite map, as long as an insertion of a new key leaves one place free.\<close>

locale bounded_map =
  fixes capacity :: nat
    and invar :: "'h \<Rightarrow> bool"
    and empty :: 'h
    and find :: "'h \<Rightarrow> u64 \<Rightarrow> nat option"
    and ins :: "u64 \<Rightarrow> nat \<Rightarrow> 'h \<Rightarrow> 'h"
    and rem :: "u64 \<Rightarrow> 'h \<Rightarrow> 'h"
  assumes invar_empty: "invar empty"
    and find_empty: "find empty = Map.empty"
    and invar_ins: "\<lbrakk>invar h; k \<noteq> 0; k \<in> dom (find h) \<or> card (dom (find h)) + 1 < capacity\<rbrakk> \<Longrightarrow> invar (ins k s h)"
    and find_ins: "\<lbrakk>invar h; k \<noteq> 0; k \<in> dom (find h) \<or> card (dom (find h)) + 1 < capacity\<rbrakk> \<Longrightarrow>
      find (ins k s h) = (find h)(k \<mapsto> s)"
    and invar_rem: "\<lbrakk>invar h; k \<noteq> 0\<rbrakk> \<Longrightarrow> invar (rem k h)"
    and find_rem: "\<lbrakk>invar h; k \<noteq> 0\<rbrakk> \<Longrightarrow> find (rem k h) = (find h)(k := None)"

datatype idx_op = IdxInsert u64 nat | IdxRemove u64

fun idx_apply :: "(u64 \<Rightarrow> nat \<Rightarrow> 'h \<Rightarrow> 'h) \<Rightarrow> (u64 \<Rightarrow> 'h \<Rightarrow> 'h) \<Rightarrow> idx_op \<Rightarrow> 'h \<Rightarrow> 'h" where
  "idx_apply ins rem (IdxInsert k s) h = ins k s h"
| "idx_apply ins rem (IdxRemove k) h = rem k h"

fun idx_spec :: "idx_op \<Rightarrow> (u64 \<rightharpoonup> nat) \<Rightarrow> (u64 \<rightharpoonup> nat)" where
  "idx_spec (IdxInsert k s) m = m(k \<mapsto> s)"
| "idx_spec (IdxRemove k) m = m(k := None)"

text \<open>The sequences a table of that capacity can take: keys are not zero, and a new key comes only
  while a second place is free.\<close>

fun idx_fits :: "nat \<Rightarrow> idx_op list \<Rightarrow> (u64 \<rightharpoonup> nat) \<Rightarrow> bool" where
  "idx_fits cap [] m = True"
| "idx_fits cap (IdxInsert k s # ops) m =
     (k \<noteq> 0 \<and> (k \<in> dom m \<or> card (dom m) + 1 < cap) \<and> idx_fits cap ops (m(k \<mapsto> s)))"
| "idx_fits cap (IdxRemove k # ops) m = (k \<noteq> 0 \<and> idx_fits cap ops (m(k := None)))"

context bounded_map
begin

lemma run_refines:
  "invar h \<Longrightarrow> idx_fits capacity ops (find h) \<Longrightarrow>
     invar (fold (idx_apply ins rem) ops h) \<and> find (fold (idx_apply ins rem) ops h) = fold idx_spec ops (find h)"
proof (induction ops arbitrary: h)
  case (Cons op ops)
  show ?case
  proof (cases op)
    case (IdxInsert k s)
    then have i: "invar (ins k s h)" and f: "find (ins k s h) = (find h)(k \<mapsto> s)"
      using Cons.prems invar_ins [of h k s] find_ins [of h k s] by auto
    have "idx_fits capacity ops (find (ins k s h))" unfolding f using Cons.prems(2) IdxInsert by simp
    from Cons.IH [OF i this] show ?thesis by (simp add: IdxInsert f del: fun_upd_apply)
  next
    case (IdxRemove k)
    then show ?thesis using Cons.prems Cons.IH [of "rem k h"] invar_rem [of h k] find_rem [of h k]
      by (simp del: fun_upd_apply)
  qed
qed simp

end

definition index_invar :: "TcpHash \<Rightarrow> bool" where
  "index_invar h \<longleftrightarrow> hash_inv h \<and> hash_room h"

lemma find_zero [simp]: "tcp_hash_find h 0 = None"
  using find_loop_key [of h 0] by (cases "find_loop h 0 (tcp_hash_bucket 0) 0 hsize") (auto simp: tcp_hash_find_def)

lemma dom_find: "hash_inv h \<Longrightarrow> dom (tcp_hash_find h) = hkeys h ` {p. p < hsize \<and> hkeys h p \<noteq> 0}"
proof -
  assume inv: "hash_inv h"
  have "k \<in> dom (tcp_hash_find h) \<longleftrightarrow> k \<in> hkeys h ` {p. p < hsize \<and> hkeys h p \<noteq> 0}" for k
    using find_entries [OF inv, of k] by (cases "k = 0") (auto simp: hash_entries_def dom_def)
  then show ?thesis by blast
qed

lemma card_dom_find:
  assumes "hash_inv h"
  shows "card (dom (tcp_hash_find h)) = card {p. p < hsize \<and> hkeys h p \<noteq> 0}"
  unfolding dom_find [OF assms]
proof (rule card_image, rule inj_onI)
  fix p q assume "p \<in> {p. p < hsize \<and> hkeys h p \<noteq> 0}" "q \<in> {p. p < hsize \<and> hkeys h p \<noteq> 0}" "hkeys h p = hkeys h q"
  then show "p = q" by (intro hash_inv_distinct [OF assms, of p q]) simp_all
qed

lemma room_iff:
  assumes "hash_inv h"
  shows "hash_room h \<longleftrightarrow> card (dom (tcp_hash_find h)) < hsize"
proof -
  let ?S = "{p. p < hsize \<and> hkeys h p \<noteq> 0}"
  have sub: "?S \<subseteq> {..<hsize}" by auto
  have "hash_room h \<longleftrightarrow> ?S \<noteq> {..<hsize}" by (auto simp: hash_room_def)
  also have "\<dots> \<longleftrightarrow> card ?S < card {..<hsize}"
  proof
    assume "?S \<noteq> {..<hsize}"
    with sub have "?S \<subset> {..<hsize}" by (rule psubsetI)
    then show "card ?S < card {..<hsize}" by (rule psubset_card_mono [OF finite_lessThan])
  next
    assume lt: "card ?S < card {..<hsize}"
    show "?S \<noteq> {..<hsize}"
    proof
      assume "?S = {..<hsize}"
      with lt show False by (simp only: less_irrefl)
    qed
  qed
  finally show ?thesis by (simp add: card_dom_find [OF assms])
qed

lemma find_insert:
  assumes "hash_inv h" "k \<noteq> 0" "hash_room h \<or> k \<in> dom (tcp_hash_find h)"
  shows "tcp_hash_find (tcp_hash_insert k s h) = (tcp_hash_find h)(k \<mapsto> s)"
proof
  fix a
  have "k \<in> dom (tcp_hash_find h) \<Longrightarrow> k \<in> fst ` hash_entries h"
    using find_entries [OF assms(1,2)] by force
  then have ins: "hash_inv (tcp_hash_insert k s h)"
    "hash_entries (tcp_hash_insert k s h) = {e \<in> hash_entries h. fst e \<noteq> k} \<union> {(k, s)}"
    using insert_correct [OF assms(1,2)] assms(3) by blast+
  show "tcp_hash_find (tcp_hash_insert k s h) a = ((tcp_hash_find h)(k \<mapsto> s)) a"
  proof (cases "a = 0")
    case True
    then show ?thesis using assms(2) by simp
  next
    case False
    then have "tcp_hash_find (tcp_hash_insert k s h) a = Some t \<longleftrightarrow> ((tcp_hash_find h)(k \<mapsto> s)) a = Some t" for t
      using find_entries [OF ins(1) False] find_entries [OF assms(1) False] by (auto simp: ins(2))
    then show ?thesis by (metis option.exhaust)
  qed
qed

lemma find_remove:
  assumes "index_invar h" "k \<noteq> 0"
  shows "tcp_hash_find (tcp_hash_remove k h) = (tcp_hash_find h)(k := None)" "index_invar (tcp_hash_remove k h)"
proof -
  obtain h' where h': "tcp_hash_remove k h = h'" "hash_inv h'" "hash_room h'"
    "hash_entries h' = {e \<in> hash_entries h. fst e \<noteq> k}"
    using remove_correct [of h k] assms by (auto simp: index_invar_def tcp_hash_remove_def)
  then show "index_invar (tcp_hash_remove k h)" by (simp add: index_invar_def)
  have inv: "hash_inv h" using assms(1) by (simp add: index_invar_def)
  show "tcp_hash_find (tcp_hash_remove k h) = (tcp_hash_find h)(k := None)"
  proof
    fix a
    show "tcp_hash_find (tcp_hash_remove k h) a = ((tcp_hash_find h)(k := None)) a"
    proof (cases "a = 0")
      case False
      then have "tcp_hash_find h' a = Some t \<longleftrightarrow> ((tcp_hash_find h)(k := None)) a = Some t" for t
        using find_entries [OF h'(2) False] find_entries [OF inv False] by (auto simp: h'(4))
      then show ?thesis unfolding h'(1) by (metis option.exhaust)
    qed simp
  qed
qed

lemma index_insert:
  assumes "index_invar h" "k \<noteq> 0" "k \<in> dom (tcp_hash_find h) \<or> card (dom (tcp_hash_find h)) + 1 < hsize"
  shows "index_invar (tcp_hash_insert k s h)"
proof -
  have inv: "hash_inv h" "hash_room h" using assms(1) by (simp_all add: index_invar_def)
  have ins: "hash_inv (tcp_hash_insert k s h)"
    using insert_correct(1) [OF inv(1) assms(2)] inv(2) by blast
  have f: "tcp_hash_find (tcp_hash_insert k s h) = (tcp_hash_find h)(k \<mapsto> s)"
    using find_insert inv assms(2) by blast
  have fin: "finite (dom (tcp_hash_find h))" by (simp add: dom_find [OF inv(1)])
  have "card (dom (tcp_hash_find (tcp_hash_insert k s h))) < hsize"
    using assms(3) room_iff [OF inv(1)] inv(2) fin unfolding f by (auto simp: card_insert_if insert_absorb)
  then show ?thesis using ins room_iff [OF ins] by (simp add: index_invar_def)
qed

interpretation hidx: bounded_map TCP_HASH_SIZE index_invar hash_new tcp_hash_find tcp_hash_insert tcp_hash_remove
proof unfold_locales
  show "index_invar hash_new" by (simp add: index_invar_def hash_inv_new)
  have "dom (tcp_hash_find hash_new) = {}" unfolding dom_find [OF hash_inv_new(1)] by (simp add: hash_new_def)
  then show "tcp_hash_find hash_new = Map.empty" by (simp only: dom_eq_empty_conv)
  show "tcp_hash_find (tcp_hash_insert k s h) = (tcp_hash_find h)(k \<mapsto> s)"
    if "index_invar h" "k \<noteq> 0" for h k s using that find_insert [of h k s] by (simp add: index_invar_def)
qed (use index_insert find_remove in blast)+

section \<open>Keys\<close>

lemma key_nonzero: "tcp_hash_key ip sp dp \<noteq> 0"
proof
  assume "tcp_hash_key ip sp dp = 0"
  moreover have "bit (tcp_hash_key ip sp dp) 63" by (simp add: tcp_hash_key_def bit_or_iff bit_push_bit_iff)
  ultimately show False by simp
qed

lemma bit_flag: "k < LENGTH('a) \<Longrightarrow> bit (push_bit k (1 :: 'a::len word)) n \<longleftrightarrow> n = k"
  unfolding bit_push_bit_iff by (auto simp: bit_1_iff)

lemma key_v4:
  "tcp_hash_key (V4 a) sp dp = (push_bit 32 (ucast a) OR push_bit 63 1) OR (push_bit 16 (ucast sp) OR ucast dp)"
  unfolding tcp_hash_key_def ip_fold.simps IpAddr.case or.right_neutral by (simp only: ac_simps)

lemma key_v6:
  "tcp_hash_key (V6 a) sp dp = ((push_bit 32 (ucast (ip_fold (V6 a))) OR push_bit 62 1) OR push_bit 63 1)
     OR (push_bit 16 (ucast sp) OR ucast dp)"
  unfolding tcp_hash_key_def IpAddr.case by (simp only: ac_simps)

lemma top_bit_covered:
  "(push_bit 32 (ucast (a XOR push_bit 31 1 :: u32)) :: u64) OR push_bit 63 1 = push_bit 32 (ucast a) OR push_bit 63 1"
proof (rule bit_word_eqI)
  fix n
  have 1: "bit (push_bit 63 (1 :: u64)) n \<longleftrightarrow> n = 63" by (rule bit_flag) simp
  have 2: "bit (push_bit 31 (1 :: u32)) (n - 32) \<longleftrightarrow> n - 32 = 31" by (rule bit_flag) simp
  show "bit ((push_bit 32 (ucast (a XOR push_bit 31 1 :: u32)) :: u64) OR push_bit 63 1) n
    = bit (push_bit 32 (ucast a) OR push_bit 63 1 :: u64) n"
    unfolding bit_or_iff 1 bit_push_bit_iff [where a = "ucast _"] bit_ucast_iff bit_xor_iff 2 by auto
qed

lemma family_bit_covered:
  assumes "bit (a :: u32) 30"
  shows "(push_bit 32 (ucast a) :: u64) OR push_bit 62 1 = push_bit 32 (ucast a)"
proof (rule bit_word_eqI)
  fix n
  have 1: "bit (push_bit 62 (1 :: u64)) n \<longleftrightarrow> n = 62" by (rule bit_flag) simp
  show "bit ((push_bit 32 (ucast a) :: u64) OR push_bit 62 1) n = bit (push_bit 32 (ucast a) :: u64) n"
    unfolding bit_or_iff 1 bit_push_bit_iff [where a = "ucast _"] bit_ucast_iff using assms by auto
qed

lemma ip_fold_low: "ip_fold (V6 (ucast a)) = a"
  unfolding ip_fold.simps
  by (rule bit_word_eqI) (auto simp: bit_xor_iff bit_ucast_iff bit_drop_bit_eq dest: bit_imp_le_length)

section \<open>Properties\<close>

text \<open>C22: The connection index is a finite map. Every sequence of insertions and removals of non-zero
  keys, with at most 65534 keys present before a new one is added, leaves a table whose lookups are
  those of the map built by the same sequence; in particular the removal's re-insertion loop ends
  and loses no other connection.\<close>

theorem conn_index_is_map:
  assumes "idx_fits TCP_HASH_SIZE ops Map.empty"
  shows "tcp_hash_find (fold (idx_apply tcp_hash_insert tcp_hash_remove) ops hash_new) = fold idx_spec ops Map.empty"
  using hidx.run_refines [OF hidx.invar_empty, of ops] assms unfolding hidx.find_empty by blast

theorem conn_index_is_map_witness:
  "let h = fold (idx_apply tcp_hash_insert tcp_hash_remove)
      [IdxInsert (tcp_hash_key (V4 1) 80 443) 5, IdxInsert (tcp_hash_key (V4 2) 80 443) 6,
       IdxRemove (tcp_hash_key (V4 1) 80 443)] hash_new
   in tcp_hash_find h (tcp_hash_key (V4 1) 80 443) = None \<and> tcp_hash_find h (tcp_hash_key (V4 2) 80 443) = Some 6"
proof -
  let ?a = "tcp_hash_key (V4 1) 80 443" and ?b = "tcp_hash_key (V4 2) 80 443"
  have "?a \<noteq> ?b" by (simp add: tcp_hash_key_def push_bit_eq_mult)
  moreover have "idx_fits TCP_HASH_SIZE [IdxInsert ?a 5, IdxInsert ?b 6, IdxRemove ?a] Map.empty"
    using key_nonzero by (simp add: TCP_HASH_SIZE_def)
  ultimately show ?thesis
    using conn_index_is_map [of "[IdxInsert ?a 5, IdxInsert ?b 6, IdxRemove ?a]"] by (simp add: Let_def fun_eq_iff)
qed

text \<open>Two IPv4 peers whose addresses differ only in the top bit have the same key for the same
  ports, because bit 63, the marker of a used entry, covers the top bit of the address. An IPv6 peer
  whose folded address is an IPv4 address with bit 30 set shares that address's key too.\<close>

theorem address_keys_collide:
  "tcp_hash_key (V4 a) sp dp = tcp_hash_key (V4 (a XOR 0x80000000)) sp dp
   \<and> (bit a 30 \<longrightarrow> tcp_hash_key (V6 (ucast a)) sp dp = tcp_hash_key (V4 a) sp dp)"
proof -
  have "(0x80000000 :: u32) = push_bit 31 1" by simp
  then have "tcp_hash_key (V4 a) sp dp = tcp_hash_key (V4 (a XOR 0x80000000)) sp dp"
    by (simp only: key_v4 top_bit_covered)
  moreover have "tcp_hash_key (V6 (ucast a)) sp dp = tcp_hash_key (V4 a) sp dp" if "bit a 30"
    by (simp only: key_v6 key_v4 ip_fold_low family_bit_covered [OF that])
  ultimately show ?thesis by blast
qed

theorem address_keys_collide_witness:
  "bit (0x4A000001 :: u32) 30
   \<and> tcp_hash_key (V4 0x4A000001) 40000 443 = tcp_hash_key (V4 0xCA000001) 40000 443
   \<and> tcp_hash_key (V6 0x4A000001) 40000 443 = tcp_hash_key (V4 0x4A000001) 40000 443"
proof -
  have b: "bit (0x4A000001 :: u32) 30" by (simp add: bit_iff_odd)
  show ?thesis using address_keys_collide [of "0x4A000001" 40000 443] b by simp
qed

end
