(* ===== verification/Tcp_Pool.thy ===== *)
theory Tcp_Pool
  imports Tcp_Rtx Tcp_Hash
begin

text \<open>
  The per-core state of \<open>crates/net/tcp/src/pool.rs\<close>: the segmented slot pool with its embedded free
  list, the armed-timer list, the accept rings, the listener table and the handles.

  One \<open>core\<close> record gathers what the statics hold for one core (\<open>POOLS\<close>, \<open>TCP_HASH\<close>, \<open>TICK_HEAD\<close>,
  \<open>ACCEPT_RINGS\<close>, \<open>LISTENERS\<close>, the challenge-ACK bucket of \<open>receive.rs\<close> and the port cursor of
  \<open>ephemeral.rs\<close>), with the environment the handlers of that core run in. Slots are a function of
  their index, of which the first \<open>pool_capacity\<close> exist. The random initial sequence numbers are a
  sequence with the number already drawn; the registry of the reactor holds a listening port and the waker
  of this core's pending accept. A machine is the list of its cores.

  The lemmas show that the free list and the armed-timer list stay the linked lists they are meant
  to be, that a slot is on at most one of the free list and the index, and that the index never has
  more entries than there are slots, so that it always has the room its correctness needs.
\<close>

section \<open>State\<close>

definition MAX_ACCEPT_RINGS :: nat where "MAX_ACCEPT_RINGS = 8"
definition ACCEPT_RING_CAPACITY :: nat where "ACCEPT_RING_CAPACITY = 4096"
definition ACCEPT_RING_MASK :: u32 where "ACCEPT_RING_MASK = of_nat ACCEPT_RING_CAPACITY - 1"
definition MAX_LISTENERS_PER_CORE :: nat where "MAX_LISTENERS_PER_CORE = 8"
definition CHALLENGE_ACK_BURST :: nat where "CHALLENGE_ACK_BURST = 100"
definition MAX_TCP_LISTENERS :: nat where "MAX_TCP_LISTENERS = 256"

record AcceptRing =
  ar_head :: u32
  ar_tail :: u32
  ar_slots :: "nat \<Rightarrow> nat"

record core =
  core_id :: nat
  num_cores :: nat
  conns :: "nat \<Rightarrow> tcb"
  nsegs :: nat
  free_head :: nat
  hash :: TcpHash
  ring_ports :: "u16 list"
  rings :: "AcceptRing list"
  lst_ports :: "u16 list"
  lst_slots :: "nat list"
  challenge_tokens :: nat
  challenge_last_ms :: nat
  next_offset :: nat
  isn_source :: "nat \<Rightarrow> u32"
  isn_drawn :: nat
  tcp_registry :: "(u16 \<times> nat option) list"
  core_env :: env

type_synonym machine = "core list"

definition ring_new :: AcceptRing where
  "ring_new = \<lparr>ar_head = 0, ar_tail = 0, ar_slots = (\<lambda>_. 0)\<rparr>"

text \<open>A core after \<open>init\<close>.\<close>

definition core_new :: "nat \<Rightarrow> nat \<Rightarrow> (nat \<Rightarrow> u32) \<Rightarrow> env \<Rightarrow> core" where
  "core_new c n isns e = \<lparr>core_id = c, num_cores = n, conns = (\<lambda>_. tcb_new), nsegs = 0,
     free_head = NULL_SLOT, hash = hash_new, ring_ports = replicate MAX_ACCEPT_RINGS 0,
     rings = replicate MAX_ACCEPT_RINGS ring_new, lst_ports = replicate MAX_LISTENERS_PER_CORE 0,
     lst_slots = replicate MAX_LISTENERS_PER_CORE 0, challenge_tokens = CHALLENGE_ACK_BURST,
     challenge_last_ms = 0, next_offset = 0, isn_source = isns, isn_drawn = 0, tcp_registry = replicate MAX_TCP_LISTENERS (0, None),
     core_env = e\<lparr>tick_head := NULL_SLOT\<rparr>\<rparr>"

text \<open>\<open>conn_ptr\<close>: the slot as the handlers see it, and a handler run on it.\<close>

definition conn_at :: "nat \<Rightarrow> core \<Rightarrow> conn" where
  "conn_at i k = attach (conns k i) (core_env k)"

definition conn_put :: "nat \<Rightarrow> conn \<Rightarrow> core \<Rightarrow> core" where
  "conn_put i c k = k\<lparr>conns := (conns k)(i := fst (detach c)), core_env := snd (detach c)\<rparr>"

definition on_conn :: "nat \<Rightarrow> (conn \<Rightarrow> conn) \<Rightarrow> core \<Rightarrow> core" where
  "on_conn i f k = conn_put i (f (conn_at i k)) k"

section \<open>Slot pool\<close>

definition pool_capacity :: "core \<Rightarrow> nat" where
  "pool_capacity k = as_u16 (as_u32 (nsegs k * SEGMENT_SIZE))"

definition free_slot :: "nat \<Rightarrow> core \<Rightarrow> core" where
  "free_slot s k = k\<lparr>conns := (conns k)(s := (conns k s)\<lparr>next_free := free_head k\<rparr>), free_head := s\<rparr>"

definition grow_segment :: "core \<Rightarrow> bool \<times> core" where
  "grow_segment k =
     (if nsegs k \<ge> MAX_SEGMENTS then (False, k)
      else let (ok, e) = try_alloc (core_env k); k1 = k\<lparr>core_env := e\<rparr>
      in if \<not> ok then (False, k1)
      else let base = min (as_u16 (nsegs k1) * SEGMENT_SIZE) U16_MAX;
               seg = (\<lambda>s. if base \<le> s \<and> s < base + SEGMENT_SIZE then tcb_new\<lparr>slot_index := s\<rparr> else conns k1 s);
               k2 = k1\<lparr>conns := seg, nsegs := nsegs k1 + 1\<rparr>
           in (True, fold (\<lambda>i. free_slot (base + i)) (rev [0..<SEGMENT_SIZE]) k2))"

lemma fold_free_slot_nsegs: "nsegs (fold (\<lambda>i. free_slot (b + i)) is k) = nsegs k"
  by (induction "is" arbitrary: k) (simp_all add: free_slot_def)

lemma grow_segment_nsegs:
  "grow_segment k = (ok, k') \<Longrightarrow> nsegs k' = (if ok then Suc (nsegs k) else nsegs k)"
  "grow_segment k = (True, k') \<Longrightarrow> nsegs k < MAX_SEGMENTS"
  by (auto simp: grow_segment_def Let_def fold_free_slot_nsegs split: if_splits prod.splits)

function pool_alloc :: "core \<Rightarrow> nat option \<times> core" where
  "pool_alloc k =
     (let head = free_head k
      in if head \<noteq> NULL_SLOT then (Some head, k\<lparr>free_head := next_free (conns k head)\<rparr>)
         else case grow_segment k of
             (False, k1) \<Rightarrow> (None, k1)
           | (True, k1) \<Rightarrow> pool_alloc k1)"
  by pat_completeness auto
termination
  by (relation "measure (\<lambda>k. MAX_SEGMENTS - nsegs k)")
    (auto simp: grow_segment_nsegs(1) [OF sym] dest!: grow_segment_nsegs(2) [OF sym])

declare pool_alloc.simps [simp del]

section \<open>Armed-timer list\<close>

definition tick_head_take :: "core \<Rightarrow> nat \<times> core" where
  "tick_head_take k = (tick_head (core_env k), k\<lparr>core_env := (core_env k)\<lparr>tick_head := NULL_SLOT\<rparr>\<rparr>)"

text \<open>The last slot of the chain that starts at \<open>tail\<close>.\<close>

fun tick_tail :: "nat \<Rightarrow> (nat \<Rightarrow> tcb) \<Rightarrow> nat \<Rightarrow> nat" where
  "tick_tail 0 cs tail = tail"
| "tick_tail (Suc n) cs tail =
     (let nx = tick_next (cs tail) in if nx = NULL_SLOT then tail else tick_tail n cs nx)"

definition tick_head_publish :: "nat \<Rightarrow> core \<Rightarrow> core" where
  "tick_head_publish new_head k =
     (let intruder = tick_head (core_env k)
      in if intruder = NULL_SLOT then k\<lparr>core_env := (core_env k)\<lparr>tick_head := new_head\<rparr>\<rparr>
         else let tail = tick_tail 65536 (conns k) intruder
              in k\<lparr>conns := (conns k)(tail := (conns k tail)\<lparr>tick_next := new_head\<rparr>)\<rparr>)"

text \<open>The walk of \<open>free_connection\<close> to the predecessor of \<open>slot\<close>.\<close>

fun tick_pred :: "nat \<Rightarrow> (nat \<Rightarrow> tcb) \<Rightarrow> nat \<Rightarrow> nat \<Rightarrow> nat option" where
  "tick_pred 0 cs slot prev = None"
| "tick_pred (Suc n) cs slot prev =
     (let prev_next = tick_next (cs prev)
      in if prev_next = slot then Some prev
         else if prev_next = NULL_SLOT then None
         else tick_pred n cs slot prev_next)"

definition tick_unlink :: "nat \<Rightarrow> core \<Rightarrow> core" where
  "tick_unlink slot k =
     (let head = tick_head (core_env k); nx = tick_next (conns k slot)
      in if head = slot then k\<lparr>core_env := (core_env k)\<lparr>tick_head := nx\<rparr>\<rparr>
         else if head \<noteq> NULL_SLOT then
           (case tick_pred 65536 (conns k) slot head of
              Some prev \<Rightarrow> k\<lparr>conns := (conns k)(prev := (conns k prev)\<lparr>tick_next := nx\<rparr>)\<rparr>
            | None \<Rightarrow> k)
         else k)"

section \<open>Allocation and release of connections\<close>

definition conn_key :: "'a tcb_scheme \<Rightarrow> u64" where
  "conn_key c = tcp_hash_key (remote_ip c) (remote_port c) (local_port c)"

definition wake :: "nat option \<Rightarrow> env \<Rightarrow> env" where
  "wake w e = (case w of None \<Rightarrow> e | Some i \<Rightarrow> e\<lparr>woken := woken e @ [i]\<rparr>)"

definition free_connection :: "nat \<Rightarrow> core \<Rightarrow> core" where
  "free_connection slot k =
     (let c = conns k slot
      in if state c = Closed \<and> next_free c \<noteq> NULL_SLOT then k
         else let k1 = (if state c \<noteq> Closed \<and> state c \<noteq> Listen
                        then k\<lparr>hash := tcp_hash_remove (conn_key c) (hash k)\<rparr> else k);
                  k2 = (if tick_in_list c then tick_unlink slot k1 else k1);
                  k3 = k2\<lparr>core_env := wake (send_waker c) (wake (recv_waker c) (core_env k2))\<rparr>;
                  next_gen = as_u16 (generation c + 1);
                  k4 = k3\<lparr>conns := (conns k3)(slot := reset_preserving next_gen (conns k3 slot))\<rparr>
              in free_slot slot k4)"

fun reclaim_victim :: "core \<Rightarrow> TcpState list \<Rightarrow> nat option" where
  "reclaim_victim k [] = None"
| "reclaim_victim k (st # sts) =
     (case find (\<lambda>i. state (conns k i) = st) [0..<pool_capacity k] of
        Some i \<Rightarrow> Some i
      | None \<Rightarrow> reclaim_victim k sts)"

definition alloc_connection :: "core \<Rightarrow> nat option \<times> core" where
  "alloc_connection k =
     (case pool_alloc k of
        (Some slot, k1) \<Rightarrow>
          (let next_gen = generation (conns k1 slot)
           in (Some slot, k1\<lparr>conns := (conns k1)(slot := reset_preserving next_gen (conns k1 slot))\<rparr>))
      | (None, k1) \<Rightarrow>
          (case reclaim_victim k1 [FinWait1, FinWait2, LastAck, TimeWait, CloseWait] of
             Some i \<Rightarrow> pool_alloc (free_connection i k1)
           | None \<Rightarrow> (None, k1)))"

section \<open>Lookup\<close>

definition tcp_linear_find :: "IpAddr \<Rightarrow> u16 \<Rightarrow> u16 \<Rightarrow> core \<Rightarrow> nat option" where
  "tcp_linear_find src_ip src_port dst_port k =
     find (\<lambda>i. let c = conns k i in state c \<noteq> Closed \<and> state c \<noteq> Listen \<and> remote_ip c = src_ip
                  \<and> local_port c = dst_port \<and> remote_port c = src_port) [0..<pool_capacity k]"

definition next_seq :: "core \<Rightarrow> u32 \<times> core" where
  "next_seq k = (isn_source k (isn_drawn k), k\<lparr>isn_drawn := isn_drawn k + 1\<rparr>)"

definition encode_handle :: "nat \<Rightarrow> nat \<Rightarrow> u64" where
  "encode_handle c slot = (push_bit 16 (of_nat c) OR (of_nat slot AND 0xFFFF)) + 1"

definition decode_handle :: "machine \<Rightarrow> u64 \<Rightarrow> (nat \<times> nat) option" where
  "decode_handle m handle =
     (let v = handle - 1;
          c = as_u32 (unat (drop_bit 16 v));
          slot = unat (v AND 0xFFFF)
      in if c \<ge> length m \<or> slot \<ge> pool_capacity (m ! c) then None else Some (c, slot))"

section \<open>Listener table and accept rings\<close>

definition listener_register :: "u16 \<Rightarrow> nat \<Rightarrow> core \<Rightarrow> core" where
  "listener_register port slot k =
     (case find (\<lambda>i. lst_ports k ! i = 0 \<or> lst_ports k ! i = port) [0..<MAX_LISTENERS_PER_CORE] of
        Some i \<Rightarrow> k\<lparr>lst_ports := (lst_ports k)[i := port], lst_slots := (lst_slots k)[i := slot]\<rparr>
      | None \<Rightarrow> k)"

definition listener_find :: "u16 \<Rightarrow> core \<Rightarrow> nat option" where
  "listener_find port k =
     (case find (\<lambda>i. lst_ports k ! i = port \<or> lst_ports k ! i = 0) [0..<MAX_LISTENERS_PER_CORE] of
        Some i \<Rightarrow> if lst_ports k ! i = port then Some (lst_slots k ! i) else None
      | None \<Rightarrow> None)"

definition ring_idx_for_port :: "u16 \<Rightarrow> core \<Rightarrow> nat option \<times> core" where
  "ring_idx_for_port port k =
     (case find (\<lambda>i. ring_ports k ! i = port) [0..<MAX_ACCEPT_RINGS] of
        Some i \<Rightarrow> (Some i, k)
      | None \<Rightarrow>
          (case find (\<lambda>i. ring_ports k ! i = 0) [0..<MAX_ACCEPT_RINGS] of
             Some i \<Rightarrow> (Some i, k\<lparr>ring_ports := (ring_ports k)[i := port]\<rparr>)
           | None \<Rightarrow> (None, k)))"

definition accept_ring_push :: "u16 \<Rightarrow> nat \<Rightarrow> core \<Rightarrow> core" where
  "accept_ring_push port slot k =
     (case ring_idx_for_port port k of
        (None, k1) \<Rightarrow> k1
      | (Some idx, k1) \<Rightarrow>
          (let r = rings k1 ! idx; head = ar_head r; tail = ar_tail r
           in if unat (head - tail) \<ge> ACCEPT_RING_CAPACITY then k1
              else let slot_idx = unat (head AND ACCEPT_RING_MASK)
                   in k1\<lparr>rings := (rings k1)[idx := r\<lparr>ar_slots := (ar_slots r)(slot_idx := slot),
                                                   ar_head := head + 1\<rparr>]\<rparr>))"

definition accept_ring_pop :: "u16 \<Rightarrow> core \<Rightarrow> nat option \<times> core" where
  "accept_ring_pop port k =
     (case ring_idx_for_port port k of
        (None, k1) \<Rightarrow> (None, k1)
      | (Some idx, k1) \<Rightarrow>
          (let r = rings k1 ! idx; head = ar_head r; tail = ar_tail r
           in if head = tail then (None, k1)
              else let slot_idx = unat (tail AND ACCEPT_RING_MASK)
                   in (Some (ar_slots r slot_idx), k1\<lparr>rings := (rings k1)[idx := r\<lparr>ar_tail := tail + 1\<rparr>]\<rparr>)))"


section \<open>Linked lists of slots\<close>

fun chain :: "(nat \<Rightarrow> nat) \<Rightarrow> nat \<Rightarrow> nat list \<Rightarrow> bool" where
  "chain nx h [] \<longleftrightarrow> h = NULL_SLOT"
| "chain nx h (s # ss) \<longleftrightarrow> h = s \<and> s \<noteq> NULL_SLOT \<and> chain nx (nx s) ss"

lemma chain_cong: "(\<And>s. s \<in> set ss \<Longrightarrow> nx s = ny s) \<Longrightarrow> chain nx h ss = chain ny h ss"
  by (induction ss arbitrary: h) simp_all

lemma chain_upd_other: "i \<notin> set ss \<Longrightarrow> chain (nx(i := v)) h ss = chain nx h ss"
  by (rule chain_cong) auto

lemma chain_null: "chain nx NULL_SLOT ss \<longleftrightarrow> ss = []"
  by (cases ss) auto

lemma chain_not_null: "chain nx h ss \<Longrightarrow> NULL_SLOT \<notin> set ss"
  by (induction ss arbitrary: h) auto

lemma chain_unlink:
  assumes "chain nx h (xs @ p # s # ys)" "distinct (xs @ p # s # ys)"
  shows "chain (nx(p := nx s)) h (xs @ p # ys)"
  using assms
proof (induction xs arbitrary: h)
  case Nil
  then have "chain (nx(p := nx s)) (nx s) ys" by (subst chain_upd_other) simp_all
  with Nil show ?case by (simp del: fun_upd_apply add: fun_upd_same)
next
  case (Cons a xs)
  then show ?case by simp
qed

lemma chain_attach:
  assumes "chain nx h (xs @ [p])" "distinct (xs @ [p])" "chain nx g ys" "p \<notin> set ys"
  shows "chain (nx(p := g)) h (xs @ p # ys)"
  using assms(1,2,4)
proof (induction xs arbitrary: h)
  case Nil
  then show ?case using assms(3) chain_upd_other [of p ys nx g g] by (simp del: fun_upd_apply add: fun_upd_same)
next
  case (Cons a xs)
  then show ?case by simp
qed

lemma tick_pred_hit:
  assumes "chain (\<lambda>i. tick_next (cs i)) h (xs @ p # s # ys)" "distinct (xs @ p # s # ys)" "length xs < n"
  shows "tick_pred n cs s h = Some p"
  using assms
proof (induction xs arbitrary: h n)
  case Nil
  then show ?case by (cases n) (auto simp: Let_def)
next
  case (Cons a xs)
  then obtain m where n: "n = Suc m" "length xs < m" by (cases n) auto
  obtain b ss where b: "xs @ p # s # ys = b # ss" "b \<noteq> s"
    using Cons.prems(2) by (cases xs) auto
  from Cons.prems(1) have h: "h = a" and ch: "chain (\<lambda>i. tick_next (cs i)) (tick_next (cs a)) (xs @ p # s # ys)" by auto
  from ch b(1) have "tick_next (cs a) = b" "b \<noteq> NULL_SLOT" by auto
  moreover have "tick_pred m cs s (tick_next (cs a)) = Some p"
    using Cons.IH [OF ch _ n(2)] Cons.prems(2) by simp
  ultimately show ?case using b(2) by (simp add: n h Let_def)
qed

lemma tick_pred_miss:
  assumes "chain (\<lambda>i. tick_next (cs i)) h ss" "s \<notin> set ss" "h \<noteq> NULL_SLOT" "s \<noteq> NULL_SLOT"
  shows "tick_pred n cs s h = None"
  using assms
proof (induction ss arbitrary: h n)
  case (Cons a ss)
  show ?case
  proof (cases n)
    case (Suc m)
    have ch: "chain (\<lambda>i. tick_next (cs i)) (tick_next (cs a)) ss" using Cons.prems(1) by simp
    show ?thesis
    proof (cases ss)
      case Nil
      then show ?thesis using Cons.prems by (auto simp: Suc Let_def)
    next
      case (Cons b bs)
      then have "tick_next (cs a) = b" "b \<noteq> NULL_SLOT" using ch by auto
      moreover have "tick_pred m cs s (tick_next (cs a)) = None"
        using Cons.IH [OF ch] Cons.prems(2,4) calculation by simp
      ultimately show ?thesis using Cons.prems Cons by (auto simp: Suc Let_def)
    qed
  qed simp
qed simp

lemma tick_tail_last:
  assumes "chain (\<lambda>i. tick_next (cs i)) h ss" "ss \<noteq> []" "length ss \<le> n"
  shows "tick_tail n cs h = last ss"
  using assms
proof (induction ss arbitrary: h n)
  case (Cons a ss)
  then obtain m where n: "n = Suc m" "length ss \<le> m" by (cases n) auto
  show ?case
  proof (cases ss)
    case Nil
    then show ?thesis using Cons.prems by (auto simp: n)
  next
    case (Cons b bs)
    with Cons.prems have "tick_next (cs a) = b" "b \<noteq> NULL_SLOT" "h = a" by auto
    then show ?thesis using Cons.IH [of "tick_next (cs a)" m] Cons.prems n Cons by (simp add: Let_def)
  qed
qed simp

section \<open>Well-formed cores\<close>

definition live :: "'a tcb_scheme \<Rightarrow> bool" where
  "live c \<longleftrightarrow> state c \<noteq> Closed \<and> state c \<noteq> Listen"

text \<open>\<open>fs\<close> is the free list, \<open>ts\<close> the published armed-timer list, and \<open>D\<close> the slots that are
  flagged as listed but detached from it, which happens only inside the timer tick.\<close>

definition free_list_ok :: "core \<Rightarrow> nat list \<Rightarrow> bool" where
  "free_list_ok k fs \<longleftrightarrow> chain (\<lambda>s. next_free (conns k s)) (free_head k) fs \<and> distinct fs
     \<and> (\<forall>s \<in> set fs. s < pool_capacity k \<and> state (conns k s) = Closed \<and> \<not> tick_in_list (conns k s))
     \<and> (\<forall>s < pool_capacity k. s \<notin> set fs \<longrightarrow> next_free (conns k s) = NULL_SLOT)"

definition tick_list_ok :: "core \<Rightarrow> nat list \<Rightarrow> nat set \<Rightarrow> bool" where
  "tick_list_ok k ts D \<longleftrightarrow> chain (\<lambda>s. tick_next (conns k s)) (tick_head (core_env k)) ts \<and> distinct ts
     \<and> set ts \<inter> D = {} \<and> set ts \<union> D = {s. s < pool_capacity k \<and> tick_in_list (conns k s)}"

definition index_ok :: "core \<Rightarrow> bool" where
  "index_ok k \<longleftrightarrow> index_invar (hash k)
     \<and> (\<forall>key s. tcp_hash_find (hash k) key = Some s
          \<longrightarrow> s < pool_capacity k \<and> live (conns k s) \<and> conn_key (conns k s) = key)"

definition slots_ok :: "core \<Rightarrow> bool" where
  "slots_ok k \<longleftrightarrow> nsegs k \<le> MAX_SEGMENTS \<and> (\<forall>s < pool_capacity k. slot_index (conns k s) = s)"

definition pool_ok :: "core \<Rightarrow> nat list \<Rightarrow> nat list \<Rightarrow> nat set \<Rightarrow> bool" where
  "pool_ok k fs ts D \<longleftrightarrow> slots_ok k \<and> free_list_ok k fs \<and> tick_list_ok k ts D \<and> index_ok k"

lemma index_okI:
  assumes "index_invar (hash k)"
    and "\<And>key s. tcp_hash_find (hash k) key = Some s \<Longrightarrow> s < pool_capacity k \<and> live (conns k s) \<and> conn_key (conns k s) = key"
  shows "index_ok k"
  using assms by (simp add: index_ok_def)

lemma capacity_eq: "nsegs k \<le> MAX_SEGMENTS \<Longrightarrow> pool_capacity k = nsegs k * SEGMENT_SIZE"
  by (simp add: pool_capacity_def tcp_consts width_simps)

lemma capacity_bound: "slots_ok k \<Longrightarrow> pool_capacity k \<le> 65472"
  using capacity_eq [of k] by (simp add: slots_ok_def tcp_consts)

lemma capacity_cong: "nsegs k' = nsegs k \<Longrightarrow> pool_capacity k' = pool_capacity k"
  by (simp add: pool_capacity_def)

lemma slot_not_null: "slots_ok k \<Longrightarrow> s < pool_capacity k \<Longrightarrow> s \<noteq> NULL_SLOT"
  using capacity_bound [of k] by (simp add: tcp_consts)

lemma key_nz: "conn_key c \<noteq> 0"
  by (simp add: conn_key_def key_nonzero)

text \<open>The index has an entry per live slot at most.\<close>

lemma index_card:
  assumes "index_ok k"
  shows "card (dom (tcp_hash_find (hash k))) \<le> pool_capacity k"
proof -
  let ?f = "\<lambda>key. the (tcp_hash_find (hash k) key)" and ?D = "dom (tcp_hash_find (hash k))"
  have "inj_on ?f ?D" using assms unfolding inj_on_def index_ok_def dom_def by (metis (mono_tags, lifting) mem_Collect_eq option.collapse)
  moreover have "?f ` ?D \<subseteq> {..<pool_capacity k}" using assms by (auto simp: index_ok_def)
  ultimately have "card ?D \<le> card {..<pool_capacity k}" by (metis card_inj_on_le finite_lessThan)
  then show ?thesis by simp
qed

lemma index_ok_insert:
  assumes "index_ok k" "slots_ok k" "s < pool_capacity k" "live (conns k s)" "key = conn_key (conns k s)"
  shows "index_ok (k\<lparr>hash := tcp_hash_insert key s (hash k)\<rparr>)"
    "tcp_hash_find (tcp_hash_insert key s (hash k)) = (tcp_hash_find (hash k))(key \<mapsto> s)"
proof -
  have room: "card (dom (tcp_hash_find (hash k))) + 1 < TCP_HASH_SIZE"
    using index_card [OF assms(1)] capacity_bound [OF assms(2)] by (simp add: TCP_HASH_SIZE_def)
  have inv: "index_invar (hash k)" using assms(1) by (simp add: index_ok_def)
  show f: "tcp_hash_find (tcp_hash_insert key s (hash k)) = (tcp_hash_find (hash k))(key \<mapsto> s)"
    unfolding assms(5) by (rule hidx.find_ins [OF inv key_nz disjI2 [OF room]])
  show "index_ok (k\<lparr>hash := tcp_hash_insert key s (hash k)\<rparr>)"
    using assms(1,3,4) assms(5) [symmetric] hidx.invar_ins [OF inv key_nz disjI2 [OF room], of "conns k s" s]
    by (auto simp: index_ok_def pool_capacity_def f)
qed

lemma index_ok_remove:
  assumes "index_ok k"
  shows "index_ok (k\<lparr>hash := tcp_hash_remove (conn_key c) (hash k)\<rparr>)"
    "tcp_hash_find (tcp_hash_remove (conn_key c) (hash k)) = (tcp_hash_find (hash k))(conn_key c := None)"
proof -
  have inv: "index_invar (hash k)" using assms by (simp add: index_ok_def)
  show f: "tcp_hash_find (tcp_hash_remove (conn_key c) (hash k)) = (tcp_hash_find (hash k))(conn_key c := None)"
    by (rule hidx.find_rem [OF inv key_nz])
  show "index_ok (k\<lparr>hash := tcp_hash_remove (conn_key c) (hash k)\<rparr>)"
    using assms hidx.invar_rem [OF inv key_nz] by (auto simp: index_ok_def pool_capacity_def f)
qed


section \<open>Release\<close>

lemma tick_unlink_cases:
  assumes ok: "tick_list_ok k ts D" and sl: "slots_ok k" "slot < pool_capacity k" and inl: "tick_in_list (conns k slot)"
  obtains p t hd where "p \<noteq> slot"
    "tick_unlink slot k = k\<lparr>conns := (conns k)(p := (conns k p)\<lparr>tick_next := t\<rparr>),
        core_env := (core_env k)\<lparr>tick_head := hd\<rparr>\<rparr>"
    "chain (\<lambda>s. tick_next (((conns k)(p := (conns k p)\<lparr>tick_next := t\<rparr>)) s)) hd (removeAll slot ts)"
proof -
  let ?nx = "\<lambda>s. tick_next (conns k s)" and ?h = "tick_head (core_env k)"
  have ch: "chain ?nx ?h ts" "distinct ts" "set ts \<subseteq> {..<pool_capacity k}" using ok by (auto simp: tick_list_ok_def)
  have self: "(conns k)(Suc slot := (conns k (Suc slot))\<lparr>tick_next := tick_next (conns k (Suc slot))\<rparr>) = conns k"
    by simp
  have len: "length ts < 65536"
    using card_mono [OF finite_lessThan ch(3)] distinct_card [OF ch(2)] capacity_bound [OF sl(1)] by simp
  consider (first) ys where "ts = slot # ys" | (inner) xs p ys where "ts = xs @ p # slot # ys" | (out) "slot \<notin> set ts"
  proof (cases "slot \<in> set ts")
    case True
    then obtain xs ys where ts: "ts = xs @ slot # ys" by (auto simp: in_set_conv_decomp)
    with that(1,2) show ?thesis by (cases xs rule: rev_cases) auto
  qed (use that in blast)
  then show thesis
  proof cases
    case first
    with ch have "slot = ?h" "chain ?nx (?nx slot) ys" "slot \<notin> set ys" by auto
    then show ?thesis using that [where p = "Suc slot" and t = "tick_next (conns k (Suc slot))" and hd = "?nx slot"] self first
      by (simp add: tick_unlink_def del: fun_upd_apply)
  next
    case inner
    have d: "distinct (xs @ p # slot # ys)" using ch(2) inner by simp
    have hit: "tick_pred 65536 (conns k) slot ?h = Some p"
      using tick_pred_hit [of "conns k" ?h xs p slot ys 65536] ch(1) d len inner by simp
    have h: "?h \<noteq> slot" "?h \<noteq> NULL_SLOT" using ch(1,2) inner by (cases xs; auto)+
    have "(\<lambda>s. tick_next (((conns k)(p := (conns k p)\<lparr>tick_next := ?nx slot\<rparr>)) s)) = ?nx(p := ?nx slot)" by auto
    then have "chain (\<lambda>s. tick_next (((conns k)(p := (conns k p)\<lparr>tick_next := ?nx slot\<rparr>)) s)) ?h (removeAll slot ts)"
      using chain_unlink [of ?nx ?h xs p slot ys] ch(1) d inner by simp
    with that [where p = p and t = "?nx slot" and hd = ?h] h hit d show ?thesis by (simp add: tick_unlink_def Let_def)
  next
    case out
    then have "?h \<noteq> slot" using ch(1) slot_not_null [OF sl] by (cases ts) auto
    moreover have "?h \<noteq> NULL_SLOT \<Longrightarrow> tick_pred 65536 (conns k) slot ?h = None"
      using tick_pred_miss [OF ch(1) out] slot_not_null [OF sl] by simp
    ultimately show ?thesis using that [where p = "Suc slot" and t = "tick_next (conns k (Suc slot))" and hd = ?h] self ch(1) out
      by (simp add: tick_unlink_def Let_def)
  qed
qed

lemma wake_frame [simp]:
  "tick_head (wake w e) = tick_head e" "now_ms (wake w e) = now_ms e" "tx_log (wake w e) = tx_log e"
  by (simp_all add: wake_def split: option.split)

lemma reset_preserving_simps [simp]:
  "state (reset_preserving g c) = Closed" "generation (reset_preserving g c) = g"
  "slot_index (reset_preserving g c) = slot_index c" "next_free (reset_preserving g c) = NULL_SLOT"
  "\<not> tick_in_list (reset_preserving g c)"
  by (simp_all add: reset_preserving_def tcb_new_def)

text \<open>The effect of a release on a slot that is not free: its entry leaves the index, it leaves the
  armed-timer list, its waiters are woken, its generation moves on, and it heads the free list.\<close>

lemma free_connection_effect:
  assumes ok: "pool_ok k fs ts D" and s: "slot < pool_capacity k" "slot \<notin> set fs"
  obtains p t hd h where "p \<noteq> slot"
    "free_connection slot k = k\<lparr>hash := h,
       conns := (conns k)(p := (conns k p)\<lparr>tick_next := t\<rparr>,
         slot := (reset_preserving (as_u16 (generation (conns k slot) + 1)) (conns k slot))\<lparr>next_free := free_head k\<rparr>),
       core_env := wake (send_waker (conns k slot)) (wake (recv_waker (conns k slot)) ((core_env k)\<lparr>tick_head := hd\<rparr>)),
       free_head := slot\<rparr>"
    "chain (\<lambda>s. tick_next (((conns k)(p := (conns k p)\<lparr>tick_next := t\<rparr>)) s)) hd (removeAll slot ts)"
    "h = (if live (conns k slot) then tcp_hash_remove (conn_key (conns k slot)) (hash k) else hash k)"
proof -
  let ?c = "conns k slot" and ?h = "if live (conns k slot) then tcp_hash_remove (conn_key (conns k slot)) (hash k) else hash k"
  have nf: "next_free ?c = NULL_SLOT" using ok s by (simp add: pool_ok_def free_list_ok_def)
  have self: "(conns k)(Suc slot := (conns k (Suc slot))\<lparr>tick_next := tick_next (conns k (Suc slot))\<rparr>) = conns k"
    by simp
  define k1 where "k1 = k\<lparr>hash := ?h\<rparr>"
  have k1: "tick_list_ok k1 ts D" "slots_ok k1" "slot < pool_capacity k1" "conns k1 = conns k" "core_env k1 = core_env k"
    "free_head k1 = free_head k"
    using ok s by (simp_all add: k1_def pool_ok_def tick_list_ok_def slots_ok_def pool_capacity_def)
  have unl: "\<exists>p t hd. p \<noteq> slot
      \<and> (if tick_in_list ?c then tick_unlink slot k1 else k1) = k1\<lparr>conns := (conns k)(p := (conns k p)\<lparr>tick_next := t\<rparr>),
        core_env := (core_env k)\<lparr>tick_head := hd\<rparr>\<rparr>
      \<and> chain (\<lambda>s. tick_next (((conns k)(p := (conns k p)\<lparr>tick_next := t\<rparr>)) s)) hd (removeAll slot ts)"
  proof (cases "tick_in_list ?c")
    case True
    then have "tick_in_list (conns k1 slot)" by (simp add: k1)
    from tick_unlink_cases [OF k1(1,2,3) this] True show ?thesis unfolding k1(4,5) by metis
  next
    case False
    then have "slot \<notin> set ts" using k1(1) by (auto simp: tick_list_ok_def k1(4))
    then have "chain (\<lambda>s. tick_next (((conns k)(Suc slot := (conns k (Suc slot))\<lparr>tick_next := tick_next (conns k (Suc slot))\<rparr>)) s))
        (tick_head (core_env k)) (removeAll slot ts)"
      using k1(1) unfolding self by (simp add: tick_list_ok_def k1(4,5))
    moreover have "k1 = k1\<lparr>conns := (conns k)(Suc slot := (conns k (Suc slot))\<lparr>tick_next := tick_next (conns k (Suc slot))\<rparr>),
        core_env := (core_env k)\<lparr>tick_head := tick_head (core_env k)\<rparr>\<rparr>"
      unfolding self by (simp add: k1_def)
    ultimately show ?thesis using False by (metis n_not_Suc_n)
  qed
  then obtain p t hd where p: "p \<noteq> slot"
    and u: "(if tick_in_list ?c then tick_unlink slot k1 else k1) = k1\<lparr>conns := (conns k)(p := (conns k p)\<lparr>tick_next := t\<rparr>),
        core_env := (core_env k)\<lparr>tick_head := hd\<rparr>\<rparr>"
    and c: "chain (\<lambda>s. tick_next (((conns k)(p := (conns k p)\<lparr>tick_next := t\<rparr>)) s)) hd (removeAll slot ts)"
    by blast
  have h: "(if state ?c \<noteq> Closed \<and> state ?c \<noteq> Listen then k\<lparr>hash := tcp_hash_remove (conn_key ?c) (hash k)\<rparr> else k) = k1"
    by (simp add: k1_def live_def)
  have "free_connection slot k = k1\<lparr>conns := (conns k)(p := (conns k p)\<lparr>tick_next := t\<rparr>,
         slot := (reset_preserving (as_u16 (generation (conns k slot) + 1)) (conns k slot))\<lparr>next_free := free_head k\<rparr>),
       core_env := wake (send_waker (conns k slot)) (wake (recv_waker (conns k slot)) ((core_env k)\<lparr>tick_head := hd\<rparr>)),
       free_head := slot\<rparr>"
    unfolding free_connection_def Let_def h u using nf p k1(6) by (simp add: free_slot_def)
  then show thesis using that [OF p _ c refl] by (simp add: k1_def)
qed


lemma chain_push:
  assumes "chain nx h ss" "s \<notin> set ss" "s \<noteq> NULL_SLOT"
  shows "chain (nx(s := h)) s (s # ss)"
  using assms chain_upd_other [of s ss nx h h] by (simp del: fun_upd_apply add: fun_upd_same)

lemma free_slot_ok:
  assumes ok: "pool_ok k fs ts D" and s: "s < pool_capacity k" "s \<notin> set fs"
    and c: "state (conns k s) = Closed" "\<not> tick_in_list (conns k s)"
  shows "pool_ok (free_slot s k) (s # fs) ts D"
proof -
  have null: "s \<noteq> NULL_SLOT" using ok s(1) slot_not_null by (auto simp: pool_ok_def)
  have nf: "(\<lambda>i. next_free (conns (free_slot s k) i)) = (\<lambda>i. next_free (conns k i))(s := free_head k)"
    and tn: "(\<lambda>i. tick_next (conns (free_slot s k) i)) = (\<lambda>i. tick_next (conns k i))"
    by (auto simp: free_slot_def)
  have "chain (\<lambda>i. next_free (conns (free_slot s k) i)) (free_head (free_slot s k)) (s # fs)"
    unfolding nf using ok s chain_push [of "\<lambda>i. next_free (conns k i)" "free_head k" fs s] null
    by (simp add: pool_ok_def free_list_ok_def free_slot_def del: chain.simps fun_upd_apply)
  then have "free_list_ok (free_slot s k) (s # fs)"
    using ok s c by (auto simp: pool_ok_def free_list_ok_def free_slot_def pool_capacity_def simp del: chain.simps)
  moreover have "tick_list_ok (free_slot s k) ts D"
    using ok unfolding pool_ok_def tick_list_ok_def tn by (auto simp: free_slot_def pool_capacity_def split: if_splits)
  moreover have "slots_ok (free_slot s k)" "index_ok (free_slot s k)"
    using ok by (auto simp: pool_ok_def slots_ok_def index_ok_def free_slot_def pool_capacity_def live_def conn_key_def)
  ultimately show ?thesis by (simp add: pool_ok_def)
qed

text \<open>A release of a slot that is not free keeps the core well-formed, inside the timer tick as well.\<close>

lemma free_connection_ok:
  assumes ok: "pool_ok k fs ts D" and s: "slot < pool_capacity k" "slot \<notin> set fs"
  shows "pool_ok (free_connection slot k) (slot # fs) (removeAll slot ts) (D - {slot})"
proof -
  obtain p t hd h where p: "p \<noteq> slot" and eq: "free_connection slot k = k\<lparr>hash := h,
       conns := (conns k)(p := (conns k p)\<lparr>tick_next := t\<rparr>,
         slot := (reset_preserving (as_u16 (generation (conns k slot) + 1)) (conns k slot))\<lparr>next_free := free_head k\<rparr>),
       core_env := wake (send_waker (conns k slot)) (wake (recv_waker (conns k slot)) ((core_env k)\<lparr>tick_head := hd\<rparr>)),
       free_head := slot\<rparr>" (is "_ = ?k'")
    and ch: "chain (\<lambda>s. tick_next (((conns k)(p := (conns k p)\<lparr>tick_next := t\<rparr>)) s)) hd (removeAll slot ts)"
    and h: "h = (if live (conns k slot) then tcp_hash_remove (conn_key (conns k slot)) (hash k) else hash k)"
    by (rule free_connection_effect [OF ok s])
  have null: "slot \<noteq> NULL_SLOT" using ok s(1) slot_not_null by (auto simp: pool_ok_def)
  have cap: "pool_capacity ?k' = pool_capacity k" by (simp add: pool_capacity_def)
  have nf: "(\<lambda>i. next_free (conns ?k' i)) = (\<lambda>i. next_free (conns k i))(slot := free_head k)" using p by auto
  have "chain (\<lambda>i. next_free (conns ?k' i)) slot (slot # fs)"
    unfolding nf using ok s chain_push [of "\<lambda>i. next_free (conns k i)" "free_head k" fs slot] null
    by (simp add: pool_ok_def free_list_ok_def del: chain.simps fun_upd_apply)
  then have "free_list_ok ?k' (slot # fs)"
    using ok s unfolding free_list_ok_def cap by (auto simp: pool_ok_def free_list_ok_def simp del: chain.simps)
  moreover have "chain (\<lambda>s. tick_next (conns ?k' s)) hd (removeAll slot ts)"
    using ch by (rule subst [OF chain_cong, rotated]) auto
  then have "tick_list_ok ?k' (removeAll slot ts) (D - {slot})"
    using ok unfolding tick_list_ok_def cap
    by (auto simp: pool_ok_def tick_list_ok_def distinct_removeAll simp del: chain.simps split: if_splits)
  moreover have "slots_ok ?k'" using ok unfolding slots_ok_def cap by (auto simp: pool_ok_def slots_ok_def)
  moreover have "index_ok ?k'"
  proof -
    have i: "index_ok k" using ok by (simp add: pool_ok_def)
    have inv: "index_invar h" using index_ok_remove(1) [OF i, of "conns k slot"] i h by (simp add: index_ok_def)
    show ?thesis
    proof (rule index_okI)
      fix key s' assume "tcp_hash_find (hash ?k') key = Some s'"
      then have f: "tcp_hash_find h key = Some s'" by simp
      then have f0: "tcp_hash_find (hash k) key = Some s'" and d: "live (conns k slot) \<Longrightarrow> key \<noteq> conn_key (conns k slot)"
        using index_ok_remove(2) [OF i, of "conns k slot"] h by (auto split: if_splits)
      have e: "s' < pool_capacity k" "live (conns k s')" "conn_key (conns k s') = key"
        using i f0 by (auto simp: index_ok_def)
      moreover from e d have "s' \<noteq> slot" by auto
      ultimately show "s' < pool_capacity ?k' \<and> live (conns ?k' s') \<and> conn_key (conns ?k' s') = key"
        unfolding cap by (auto simp: live_def conn_key_def)
    qed (simp add: inv)
  qed
  ultimately show ?thesis unfolding eq pool_ok_def by blast
qed

section \<open>Allocation\<close>

lemma fold_free_slot_ok:
  assumes "pool_ok k fs ts D" "distinct is" "\<forall>i \<in> set is. b + i < pool_capacity k \<and> b + i \<notin> set fs
    \<and> state (conns k (b + i)) = Closed \<and> \<not> tick_in_list (conns k (b + i))"
  shows "pool_ok (fold (\<lambda>i. free_slot (b + i)) is k) (rev (map ((+) b) is) @ fs) ts D"
  using assms
proof (induction "is" arbitrary: k fs)
  case (Cons i "is")
  have "pool_ok (free_slot (b + i) k) ((b + i) # fs) ts D" using Cons.prems by (intro free_slot_ok) auto
  then have "pool_ok (fold (\<lambda>i. free_slot (b + i)) is (free_slot (b + i) k)) (rev (map ((+) b) is) @ (b + i) # fs) ts D"
    using Cons.prems(2,3) by (intro Cons.IH) (auto simp: free_slot_def pool_capacity_def)
  then show ?case by simp
qed simp

lemma try_alloc_cases: "try_alloc e = (ok, e') \<Longrightarrow> \<exists>rs. e' = e\<lparr>alloc_results := rs\<rparr>"
  by (cases e) (auto simp: try_alloc_def split: list.splits)

lemma pool_ok_env:
  assumes "pool_ok k fs ts D" "tick_head e = tick_head (core_env k)"
  shows "pool_ok (k\<lparr>core_env := e\<rparr>) fs ts D"
  using assms by (simp add: pool_ok_def slots_ok_def free_list_ok_def tick_list_ok_def index_ok_def pool_capacity_def)

lemma free_list_null: "free_list_ok k fs \<Longrightarrow> free_head k = NULL_SLOT \<longleftrightarrow> fs = []"
  by (cases fs) (auto simp: free_list_ok_def)

lemma new_segment_ok:
  assumes ok: "pool_ok k [] ts D" and lt: "nsegs k < MAX_SEGMENTS" and b: "b = nsegs k * SEGMENT_SIZE"
  defines "k2 \<equiv> k\<lparr>conns := (\<lambda>s. if b \<le> s \<and> s < b + SEGMENT_SIZE then tcb_new\<lparr>slot_index := s\<rparr> else conns k s),
    nsegs := nsegs k + 1\<rparr>"
  shows "pool_ok k2 [] ts D" "pool_capacity k2 = b + SEGMENT_SIZE"
proof -
  have cap: "pool_capacity k = b" using capacity_eq [of k] lt b by simp
  show cap2: "pool_capacity k2 = b + SEGMENT_SIZE" using capacity_eq [of k2] lt b by (simp add: k2_def)
  have old: "conns k2 s = conns k s" if "s < b" for s using that by (simp add: k2_def)
  have new: "conns k2 s = tcb_new\<lparr>slot_index := s\<rparr>" if "b \<le> s" "s < b + SEGMENT_SIZE" for s using that by (simp add: k2_def)
  have f [simp]: "free_head k2 = free_head k" "core_env k2 = core_env k" "hash k2 = hash k" "nsegs k2 = Suc (nsegs k)"
    by (simp_all add: k2_def)
  have split: "s < b \<or> b \<le> s \<and> s < b + SEGMENT_SIZE" if "s < b + SEGMENT_SIZE" for s using that by auto
  have fresh: "state (conns k2 s) = Closed \<and> \<not> tick_in_list (conns k2 s) \<and> next_free (conns k2 s) = NULL_SLOT
      \<and> slot_index (conns k2 s) = s" if "b \<le> s" "s < b + SEGMENT_SIZE" for s
    using new [OF that] by (simp add: tcb_new_def)
  have tsb: "set ts \<subseteq> {..<b}" using ok unfolding pool_ok_def tick_list_ok_def cap by blast
  have "slot_index (conns k2 s) = s" if "s < b + SEGMENT_SIZE" for s
    using that ok old [of s] fresh [of s] cap by (cases "s < b") (auto simp: pool_ok_def slots_ok_def)
  then have "slots_ok k2" using lt unfolding slots_ok_def cap2 by simp
  moreover have "next_free (conns k2 s) = NULL_SLOT" if "s < b + SEGMENT_SIZE" for s
    using that ok old [of s] fresh [of s] cap by (cases "s < b") (auto simp: pool_ok_def free_list_ok_def)
  then have "free_list_ok k2 []" using ok unfolding free_list_ok_def cap2 by (simp add: pool_ok_def free_list_ok_def)
  moreover have "{s. s < pool_capacity k2 \<and> tick_in_list (conns k2 s)} = {s. s < pool_capacity k \<and> tick_in_list (conns k s)}"
    unfolding cap cap2 using old fresh by (metis (no_types, lifting) not_le trans_less_add1)
  moreover have "chain (\<lambda>s. tick_next (conns k2 s)) h ts = chain (\<lambda>s. tick_next (conns k s)) h ts" for h
    using old tsb by (intro chain_cong) auto
  ultimately have "slots_ok k2" "free_list_ok k2 []" "tick_list_ok k2 ts D"
    using ok by (simp_all add: pool_ok_def tick_list_ok_def)
  moreover have "index_ok k2"
  proof (rule index_okI)
    fix key s assume "tcp_hash_find (hash k2) key = Some s"
    then have "s < b \<and> live (conns k s) \<and> conn_key (conns k s) = key" using ok by (simp add: pool_ok_def index_ok_def cap)
    then show "s < pool_capacity k2 \<and> live (conns k2 s) \<and> conn_key (conns k2 s) = key" by (simp add: old cap2)
  qed (use ok in \<open>simp add: pool_ok_def index_ok_def\<close>)
  ultimately show "pool_ok k2 [] ts D" by (simp add: pool_ok_def)
qed

lemma grow_segment_ok:
  assumes ok: "pool_ok k [] ts D" and g: "grow_segment k = (b, k')"
  shows "pool_ok k' (if b then [pool_capacity k..<pool_capacity k + SEGMENT_SIZE] else []) ts D"
    "s < pool_capacity k \<Longrightarrow> conns k' s = conns k s" "pool_capacity k \<le> pool_capacity k'"
proof -
  obtain a e where e: "try_alloc (core_env k) = (a, e)" by fastforce
  have ok1: "pool_ok (k\<lparr>core_env := e\<rparr>) [] ts D" using try_alloc_cases [OF e] by (intro pool_ok_env [OF ok]) auto
  have cap: "pool_capacity k = nsegs k * SEGMENT_SIZE"
    using ok by (intro capacity_eq) (simp add: pool_ok_def slots_ok_def)
  define k2 where "k2 = k\<lparr>core_env := e, conns := (\<lambda>s. if pool_capacity k \<le> s \<and> s < pool_capacity k + SEGMENT_SIZE
    then tcb_new\<lparr>slot_index := s\<rparr> else conns k s), nsegs := nsegs k + 1\<rparr>"
  define k3 where "k3 = fold (\<lambda>i. free_slot (pool_capacity k + i)) (rev [0..<SEGMENT_SIZE]) k2"
  consider (full) "grow_segment k = (False, k)" | (oom) "grow_segment k = (False, k\<lparr>core_env := e\<rparr>)"
    | (yes) "grow_segment k = (True, k3)" "nsegs k < MAX_SEGMENTS"
  proof (cases "nsegs k \<ge> MAX_SEGMENTS")
    case True
    then show ?thesis by (intro that(1)) (simp add: grow_segment_def)
  next
    case False
    then have "min (as_u16 (nsegs k) * SEGMENT_SIZE) U16_MAX = pool_capacity k"
      unfolding cap by (simp add: tcp_consts width_simps)
    then have "grow_segment k = (if \<not> a then (False, k\<lparr>core_env := e\<rparr>) else (True, k3))"
      using e False by (simp add: grow_segment_def k2_def k3_def Let_def cong: if_cong)
    then show ?thesis using that(2,3) False by (cases a) simp_all
  qed
  note cases = this
  have conns3: "conns (fold (\<lambda>i. free_slot (c + i)) is q) s = conns q s" if "s < c" for c "is" q
    using that by (induction "is" arbitrary: q) (simp_all add: free_slot_def)
  show "s < pool_capacity k \<Longrightarrow> conns k' s = conns k s"
    using cases g by cases (auto simp: k3_def k2_def conns3)
  show "pool_capacity k \<le> pool_capacity k'"
    using cases
  proof cases
    case yes
    then have k': "k' = k3" using g by simp
    from yes have "pool_capacity k' = Suc (nsegs k) * SEGMENT_SIZE"
      unfolding k' by (subst capacity_eq) (simp_all add: k3_def k2_def fold_free_slot_nsegs)
    then show ?thesis by (simp add: cap)
  qed (use g in \<open>auto simp: pool_capacity_def\<close>)
  show "pool_ok k' (if b then [pool_capacity k..<pool_capacity k + SEGMENT_SIZE] else []) ts D"
    using cases
  proof cases
    case yes
    have k2: "pool_ok k2 [] ts D" "pool_capacity k2 = pool_capacity k + SEGMENT_SIZE"
      using new_segment_ok [OF ok1 _ refl] yes(2) by (simp_all add: k2_def cap cong: if_cong)
    have "pool_ok k3 (rev (map ((+) (pool_capacity k)) (rev [0..<SEGMENT_SIZE])) @ []) ts D"
      unfolding k3_def using k2 by (intro fold_free_slot_ok) (auto simp: k2_def tcb_new_def)
    moreover have "rev (map ((+) (pool_capacity k)) (rev [0..<SEGMENT_SIZE])) = [pool_capacity k..<pool_capacity k + SEGMENT_SIZE]"
    proof -
      have "(+) (pool_capacity k) = (\<lambda>i. i + pool_capacity k)" by (rule ext) simp
      then show ?thesis using map_add_upt [of "pool_capacity k" SEGMENT_SIZE] by (simp add: rev_map)
    qed
    ultimately show ?thesis using yes g by simp
  qed (use ok ok1 g in simp_all)
qed


lemma pool_alloc_cases:
  "pool_alloc k = (if free_head k \<noteq> NULL_SLOT then (Some (free_head k), k\<lparr>free_head := next_free (conns k (free_head k))\<rparr>)
     else case grow_segment k of (False, k1) \<Rightarrow> (None, k1) | (True, k1) \<Rightarrow> pool_alloc k1)"
  by (subst pool_alloc.simps) (simp add: Let_def)

text \<open>Taking the head of the free list and resetting it, or finding it reset already.\<close>

lemma pop_reset_ok:
  assumes ok: "pool_ok k (s # fs) ts D" and c: "state c = Closed" "next_free c = NULL_SLOT" "\<not> tick_in_list c" "slot_index c = s"
  shows "pool_ok (k\<lparr>free_head := next_free (conns k (free_head k)), conns := (conns k)(s := c)\<rparr>) fs ts D"
    (is "pool_ok ?k _ _ _")
proof -
  have f: "free_head k = s" "chain (\<lambda>i. next_free (conns k i)) (next_free (conns k s)) fs" "s \<notin> set fs" "distinct fs"
    "s < pool_capacity k" "state (conns k s) = Closed" "\<not> tick_in_list (conns k s)"
    using ok by (auto simp: pool_ok_def free_list_ok_def)
  have cap: "pool_capacity ?k = pool_capacity k" by (simp add: pool_capacity_def)
  have "s \<notin> set ts" "s \<notin> D" using ok f(7) by (auto simp: pool_ok_def tick_list_ok_def)
  have "chain (\<lambda>i. next_free (conns ?k i)) h fs = chain (\<lambda>i. next_free (conns k i)) h fs" for h
    using f(3) by (intro chain_cong) auto
  then have ch: "chain (\<lambda>i. next_free (conns ?k i)) (free_head ?k) fs" using f(1,2) by simp
  moreover have "\<forall>i\<in>set fs. i < pool_capacity k \<and> state (conns ?k i) = Closed \<and> \<not> tick_in_list (conns ?k i)"
    using ok c by (simp add: pool_ok_def free_list_ok_def)
  moreover have "\<forall>i<pool_capacity k. i \<notin> set fs \<longrightarrow> next_free (conns ?k i) = NULL_SLOT"
    using ok c by (simp add: pool_ok_def free_list_ok_def)
  ultimately have "free_list_ok ?k fs" using f(4) unfolding free_list_ok_def cap by blast
  moreover have "chain (\<lambda>i. tick_next (conns ?k i)) h ts = chain (\<lambda>i. tick_next (conns k i)) h ts" for h
    using \<open>s \<notin> set ts\<close> by (intro chain_cong) auto
  moreover have "{i. i < pool_capacity k \<and> tick_in_list (conns ?k i)} = {i. i < pool_capacity k \<and> tick_in_list (conns k i)}"
    using c f(7) by auto
  ultimately have "free_list_ok ?k fs" "tick_list_ok ?k ts D"
    using ok unfolding tick_list_ok_def cap by (simp_all add: pool_ok_def tick_list_ok_def)
  moreover have "slots_ok ?k" using ok c unfolding slots_ok_def cap by (auto simp: pool_ok_def slots_ok_def)
  moreover have "index_ok ?k"
  proof (rule index_okI)
    fix key i assume "tcp_hash_find (hash ?k) key = Some i"
    then have "i < pool_capacity k \<and> live (conns k i) \<and> conn_key (conns k i) = key" using ok by (simp add: pool_ok_def index_ok_def)
    moreover from this f(6) have "i \<noteq> s" by (auto simp: live_def)
    ultimately show "i < pool_capacity ?k \<and> live (conns ?k i) \<and> conn_key (conns ?k i) = key" by (simp add: cap)
  qed (use ok in \<open>simp add: pool_ok_def index_ok_def\<close>)
  ultimately show ?thesis by (simp add: pool_ok_def)
qed

lemma pool_alloc_some:
  assumes ok: "pool_ok k fs ts D" and a: "pool_alloc k = (Some s, k')"
  obtains k1 fs' where "pool_ok k1 (s # fs') ts D" "k' = k1\<lparr>free_head := next_free (conns k1 (free_head k1))\<rparr>"
    "free_head k1 = s" "\<And>i. i < pool_capacity k \<Longrightarrow> conns k1 i = conns k i" "pool_capacity k \<le> pool_capacity k1"
    "fs = s # fs' \<or> fs = [] \<and> pool_capacity k \<le> s"
proof (cases "free_head k = NULL_SLOT")
  case False
  then obtain fs' where fs: "fs = s # fs'" "free_head k = s"
    using ok a by (cases fs) (auto simp: pool_ok_def free_list_ok_def pool_alloc_cases)
  show ?thesis using that [of k fs'] ok a False fs by (simp add: pool_alloc_cases)
next
  case True
  then have fs: "fs = []" using ok free_list_null by (auto simp: pool_ok_def)
  obtain b k1 where g: "grow_segment k = (b, k1)" by fastforce
  with a True have b: "b = True" and a1: "pool_alloc k1 = (Some s, k')" by (auto simp: pool_alloc_cases [of k] split: bool.splits)
  have ok1: "pool_ok k1 [pool_capacity k..<pool_capacity k + SEGMENT_SIZE] ts D" using grow_segment_ok(1) [OF _ g] ok fs b by simp
  have up: "[pool_capacity k..<pool_capacity k + SEGMENT_SIZE] = pool_capacity k # [Suc (pool_capacity k)..<pool_capacity k + SEGMENT_SIZE]"
    by (simp add: upt_rec tcp_consts)
  have h: "free_head k1 = pool_capacity k" "pool_capacity k \<noteq> NULL_SLOT"
    using ok1 unfolding up pool_ok_def free_list_ok_def by auto
  have "s = pool_capacity k" "k' = k1\<lparr>free_head := next_free (conns k1 (free_head k1))\<rparr>"
    using a1 h by (auto simp: pool_alloc_cases [of k1])
  then show ?thesis
    using that [of k1 "[Suc (pool_capacity k)..<pool_capacity k + SEGMENT_SIZE]"] ok1 h(1) grow_segment_ok(2,3) [OF _ g] ok fs
    unfolding up by simp
qed

lemma pool_alloc_none:
  assumes ok: "pool_ok k fs ts D" and a: "pool_alloc k = (None, k')"
  shows "fs = []" "pool_ok k' [] ts D" "i < pool_capacity k \<Longrightarrow> conns k' i = conns k i" "pool_capacity k \<le> pool_capacity k'"
    "\<not> fst (grow_segment k)"
proof -
  have h: "free_head k = NULL_SLOT" using a by (auto simp: pool_alloc_cases split: if_splits)
  then show fs: "fs = []" using ok free_list_null by (auto simp: pool_ok_def)
  obtain b k1 where g: "grow_segment k = (b, k1)" by fastforce
  have ok': "pool_ok k [] ts D" using ok fs by simp
  have "b = False"
  proof (rule ccontr)
    assume "b \<noteq> False"
    then have b: "b = True" and a1: "pool_alloc k1 = (None, k')" using a h g by (auto simp: pool_alloc_cases [of k])
    from grow_segment_ok(1) [OF ok' g] b have "free_head k1 \<noteq> NULL_SLOT"
      by (subst free_list_null) (auto simp: pool_ok_def tcp_consts)
    with a1 show False by (simp add: pool_alloc_cases [of k1])
  qed
  with g show "\<not> fst (grow_segment k)" by simp
  from a h g \<open>b = False\<close> have "k' = k1" by (simp add: pool_alloc_cases [of k])
  with grow_segment_ok [OF ok' g] \<open>b = False\<close> show "pool_ok k' [] ts D" "i < pool_capacity k \<Longrightarrow> conns k' i = conns k i"
    "pool_capacity k \<le> pool_capacity k'" by simp_all
qed


lemma reclaim_victim_some:
  "reclaim_victim k sts = Some i \<Longrightarrow> i < pool_capacity k \<and> state (conns k i) \<in> set sts"
  by (induction sts) (auto split: option.splits dest!: find_Some_iff [THEN iffD1])

lemma reclaim_victim_none:
  "reclaim_victim k sts = None \<longleftrightarrow> (\<forall>i<pool_capacity k. state (conns k i) \<notin> set sts)"
  by (induction sts) (auto split: option.splits simp: find_None_iff find_Some_iff)

text \<open>What an allocation gives: a slot off the free list in its initial state. Connections that are
  not in a closing state are left alone.\<close>

lemma alloc_connection_ok:
  assumes ok: "pool_ok k fs ts D" and a: "alloc_connection k = (r, k')"
  obtains fs' ts' D' where "pool_ok k' fs' ts' D'" "D' \<subseteq> D" "pool_capacity k \<le> pool_capacity k'"
    "\<And>s. r = Some s \<Longrightarrow> s < pool_capacity k' \<and> s \<notin> set fs' \<and> state (conns k' s) = Closed \<and> s \<notin> set ts'"
    "\<And>s. r = Some s \<Longrightarrow> \<exists>g c. conns k' s = reset_preserving g c"
    "r = None \<Longrightarrow> fs' = [] \<and> (\<forall>i<pool_capacity k. state (conns k i) \<notin> {FinWait1, FinWait2, LastAck, TimeWait, CloseWait})"
    "\<And>i. i < pool_capacity k \<Longrightarrow> r \<noteq> Some i \<Longrightarrow> \<exists>t. conns k' i = (conns k i)\<lparr>tick_next := t\<rparr>"
    "\<And>s. r = Some s \<Longrightarrow> s < pool_capacity k \<Longrightarrow>
       s \<in> set fs \<or> fs = [] \<and> state (conns k s) \<in> {FinWait1, FinWait2, LastAck, TimeWait, CloseWait}"
proof -
  have same: "\<exists>t. c = c\<lparr>tick_next := t\<rparr>" for c :: tcb by (rule exI [of _ "tick_next c"]) simp
  obtain q k1 where q: "pool_alloc k = (q, k1)" by fastforce
  show thesis
  proof (cases q)
    case (Some s)
    with q have q': "pool_alloc k = (Some s, k1)" by simp
    from ok q' obtain k0 fs' where k0: "pool_ok k0 (s # fs') ts D" "k1 = k0\<lparr>free_head := next_free (conns k0 (free_head k0))\<rparr>"
      "free_head k0 = s" "\<And>i. i < pool_capacity k \<Longrightarrow> conns k0 i = conns k i" "pool_capacity k \<le> pool_capacity k0"
      "fs = s # fs' \<or> fs = [] \<and> pool_capacity k \<le> s" by (rule pool_alloc_some) blast
    let ?c = "reset_preserving (generation (conns k0 s)) (conns k0 s)"
    have eq: "k' = k0\<lparr>free_head := next_free (conns k0 (free_head k0)), conns := (conns k0)(s := ?c)\<rparr>" "r = Some s"
      using a q' k0(2) by (simp_all add: alloc_connection_def)
    have s: "s < pool_capacity k0" "s \<notin> set fs'" "slot_index (conns k0 s) = s" "s \<notin> set ts"
      using k0(1) by (auto simp: pool_ok_def free_list_ok_def slots_ok_def tick_list_ok_def)
    have "pool_ok k' fs' ts D" unfolding eq using k0(1) s(3) by (intro pop_reset_ok) simp_all
    note ok' = this
    have cap: "pool_capacity k' = pool_capacity k0" by (simp add: eq pool_capacity_def)
    show ?thesis
    proof (rule that [of fs' ts D])
      show "pool_ok k' fs' ts D" by (rule ok')
      show "\<exists>g c. conns k' s' = reset_preserving g c" if "r = Some s'" for s' using that eq by auto
      show "pool_capacity k \<le> pool_capacity k'" using cap k0(5) by simp
      show "\<exists>t. conns k' i = (conns k i)\<lparr>tick_next := t\<rparr>" if "i < pool_capacity k" "r \<noteq> Some i" for i
      proof -
        have "conns k' i = conns k i" using that k0(4) eq by simp
        then show ?thesis using same [of "conns k i"] by (simp only:)
      qed
      show "s' < pool_capacity k' \<and> s' \<notin> set fs' \<and> state (conns k' s') = Closed \<and> s' \<notin> set ts" if "r = Some s'" for s'
        using that s cap eq by simp
      show "s' \<in> set fs \<or> fs = [] \<and> state (conns k s') \<in> {FinWait1, FinWait2, LastAck, TimeWait, CloseWait}"
        if "r = Some s'" "s' < pool_capacity k" for s' using that eq(2) k0(6) by auto
    qed (simp_all add: eq(2))
  next
    case None
    with q have q': "pool_alloc k = (None, k1)" by simp
    note n = pool_alloc_none [OF ok q']
    let ?sts = "[FinWait1, FinWait2, LastAck, TimeWait, CloseWait]"
    show ?thesis
    proof (cases "reclaim_victim k1 ?sts")
      case None
      then have "k' = k1" "r = None" using a q' by (simp_all add: alloc_connection_def)
      moreover have "state (conns k i) \<notin> {FinWait1, FinWait2, LastAck, TimeWait, CloseWait}" if "i < pool_capacity k" for i
        using None [unfolded reclaim_victim_none, rule_format, of i] n(3) [OF that] n(4) that by simp
      moreover have "\<exists>t. conns k1 i = (conns k i)\<lparr>tick_next := t\<rparr>" if "i < pool_capacity k" for i
        using same [of "conns k i"] by (simp only: n(3) [OF that])
      ultimately show ?thesis using n(2,4) by (intro that [of "[]" ts D]) simp_all
    next
      case (Some i)
      define k2 where "k2 = free_connection i k1"
      have i: "i < pool_capacity k1" by (rule reclaim_victim_some [THEN conjunct1, OF Some])
      have ok2: "pool_ok k2 [i] (removeAll i ts) (D - {i})"
        using free_connection_ok [OF n(2) i] by (simp add: k2_def)
      obtain p t hd h where eff: "k2 = k1\<lparr>hash := h,
         conns := (conns k1)(p := (conns k1 p)\<lparr>tick_next := t\<rparr>,
           i := (reset_preserving (as_u16 (generation (conns k1 i) + 1)) (conns k1 i))\<lparr>next_free := free_head k1\<rparr>),
         core_env := wake (send_waker (conns k1 i)) (wake (recv_waker (conns k1 i)) ((core_env k1)\<lparr>tick_head := hd\<rparr>)),
         free_head := i\<rparr>"
        unfolding k2_def by (rule free_connection_effect [OF n(2) i]) simp_all
      have h: "free_head k2 = i" "i \<noteq> NULL_SLOT" "pool_capacity k2 = pool_capacity k1"
        using eff i n(2) slot_not_null [of k1 i] by (simp_all add: pool_capacity_def pool_ok_def)
      have fh: "free_head k1 = NULL_SLOT" using n(2) free_list_null by (auto simp: pool_ok_def)
      have "alloc_connection k = pool_alloc k2" using q' Some by (simp add: alloc_connection_def k2_def del: reclaim_victim.simps)
      then have "(r, k') = (Some i, k2\<lparr>free_head := next_free (conns k2 (free_head k2))\<rparr>)"
        using a h(1,2) by (simp add: pool_alloc_cases [of k2])
      moreover have "k2\<lparr>free_head := x, conns := (conns k2)(i := conns k2 i)\<rparr> = k2\<lparr>free_head := x\<rparr>" for x by (cases k2) simp
      ultimately have r: "r = Some i" "k' = k2\<lparr>free_head := next_free (conns k2 (free_head k2)), conns := (conns k2)(i := conns k2 i)\<rparr>"
        by simp_all
      have c: "state (conns k2 i) = Closed" "next_free (conns k2 i) = NULL_SLOT" "\<not> tick_in_list (conns k2 i)"
        "slot_index (conns k2 i) = i"
        using ok2 i h(3) fh eff by (auto simp: pool_ok_def slots_ok_def free_list_ok_def)
      have "conns k2 i = reset_preserving (as_u16 (generation (conns k1 i) + 1)) (conns k1 i)"
        using fh eff by (simp add: reset_preserving_def tcb_new_def Let_def)
      then have "\<exists>g c. conns k2 i = reset_preserving g c" by blast
      moreover have "pool_ok k' [] (removeAll i ts) (D - {i})" unfolding r(2) using ok2 c by (rule pop_reset_ok)
      moreover have "pool_capacity k' = pool_capacity k1" by (simp add: r(2) h(3) [symmetric]) (simp add: pool_capacity_def)
      moreover have "\<exists>t. conns k' j = (conns k j)\<lparr>tick_next := t\<rparr>" if "j < pool_capacity k" "r \<noteq> Some j" for j
      proof (cases "j = p")
        case True
        then show ?thesis using that n(3) [OF that(1)] r eff by auto
      next
        case False
        then have "conns k' j = conns k j" using that n(3) [OF that(1)] r eff by simp
        then show ?thesis using same [of "conns k j"] by (simp only:)
      qed
      moreover have "state (conns k i) \<in> {FinWait1, FinWait2, LastAck, TimeWait, CloseWait}" if "i < pool_capacity k"
        using reclaim_victim_some [OF Some] n(3) [OF that] by simp
      ultimately show ?thesis using r(1) i c n(1,4) by (intro that [of "[]" "removeAll i ts" "D - {i}"]) (simp_all add: r(2))
    qed
  qed
qed

section \<open>Handles\<close>

lemma handle_fields:
  assumes "c < 4294967296" "s < 65536"
  shows "unat (drop_bit 16 (encode_handle c s - 1)) = c" "unat ((encode_handle c s - 1) AND 0xFFFF) = s"
proof -
  have m: "(0xFFFF :: u64) = mask 16" by (simp add: mask_eq_decr_exp)
  have s: "of_nat s AND mask 16 = (of_nat s :: u64)"
    unfolding take_bit_eq_mask [symmetric] take_bit_of_nat using assms(2) by (simp add: take_bit_nat_eq_self)
  have "bit (push_bit 16 (of_nat c) :: u64) n \<longrightarrow> \<not> bit (of_nat s AND mask 16 :: u64) n" for n
    by (auto simp: bit_simps)
  then have "push_bit 16 (of_nat c) OR (of_nat s AND mask 16) = push_bit 16 (of_nat c) + (of_nat s AND mask 16 :: u64)"
    by (intro disjunctive_add [symmetric]) blast
  then have e: "encode_handle c s - 1 = (of_nat (65536 * c + s) :: u64)"
    unfolding encode_handle_def m s by (simp add: push_bit_eq_mult mult.commute)
  have u: "unat (encode_handle c s - 1) = 65536 * c + s"
    unfolding e unat_of_nat using assms by simp
  show "unat (drop_bit 16 (encode_handle c s - 1)) = c"
    unfolding unat_drop_bit_eq u using assms(2) by (simp add: drop_bit_eq_div)
  show "unat ((encode_handle c s - 1) AND 0xFFFF) = s"
    unfolding m take_bit_eq_mask [symmetric] unsigned_take_bit_eq u using assms(2) by (simp add: take_bit_eq_mod)
qed


lemma decode_encode:
  assumes "c < length m" "length m \<le> 4294967296" "slots_ok (m ! c)" "s < pool_capacity (m ! c)"
  shows "decode_handle m (encode_handle c s) = Some (c, s)" "encode_handle c s \<noteq> 0"
proof -
  have s: "s < 65535" using assms(4) capacity_bound [OF assms(3)] by simp
  have f: "unat (drop_bit 16 (encode_handle c s - 1)) = c" "unat ((encode_handle c s - 1) AND 0xFFFF) = s"
    using handle_fields [of c s] assms s by simp_all
  show "decode_handle m (encode_handle c s) = Some (c, s)"
    unfolding decode_handle_def Let_def f using assms by (simp add: as_u32_id)
  show "encode_handle c s \<noteq> 0"
  proof
    assume "encode_handle c s = 0"
    then have "unat ((- 1 :: u64) AND 0xFFFF) = s" using f(2) by simp
    then show False using s by simp
  qed
qed

section \<open>Accept rings\<close>

definition ring_items :: "AcceptRing \<Rightarrow> nat list" where
  "ring_items r = map (\<lambda>i. ar_slots r (unat ((ar_tail r + of_nat i) AND ACCEPT_RING_MASK))) [0..<unat (ar_head r - ar_tail r)]"

definition rings_ok :: "core \<Rightarrow> bool" where
  "rings_ok k \<longleftrightarrow> length (ring_ports k) = MAX_ACCEPT_RINGS \<and> length (rings k) = MAX_ACCEPT_RINGS
     \<and> (\<forall>i<MAX_ACCEPT_RINGS. length (ring_items (rings k ! i)) \<le> ACCEPT_RING_CAPACITY
          \<and> (ring_ports k ! i = 0 \<longrightarrow> ring_items (rings k ! i) = []))
     \<and> (\<forall>i<MAX_ACCEPT_RINGS. \<forall>j<MAX_ACCEPT_RINGS. ring_ports k ! i = ring_ports k ! j \<and> ring_ports k ! i \<noteq> 0 \<longrightarrow> i = j)"

text \<open>The slots waiting on \<open>port\<close>, oldest first.\<close>

definition accept_items :: "u16 \<Rightarrow> core \<Rightarrow> nat list" where
  "accept_items port k = (case find (\<lambda>i. ring_ports k ! i = port) [0..<MAX_ACCEPT_RINGS] of
     Some i \<Rightarrow> ring_items (rings k ! i) | None \<Rightarrow> [])"

lemma ring_mask: "unat (w AND ACCEPT_RING_MASK) = unat w mod 4096"
proof -
  have "ACCEPT_RING_MASK = mask 12" by (simp add: ACCEPT_RING_MASK_def ACCEPT_RING_CAPACITY_def mask_eq_decr_exp)
  then have "w AND ACCEPT_RING_MASK = take_bit 12 w" by (simp only: take_bit_eq_mask)
  then show ?thesis unfolding \<open>w AND ACCEPT_RING_MASK = take_bit 12 w\<close> unsigned_take_bit_eq by (simp add: take_bit_eq_mod)
qed

lemma unat_plus_of_nat: "unat (w + of_nat i :: u32) mod 4096 = (unat w + i) mod 4096"
proof -
  have "unat (w + of_nat i :: u32) = (unat w + i) mod 4294967296"
    by (simp add: unat_word_ariths unat_of_nat mod_simps)
  then show ?thesis using mod_mod_cancel [of 4096 4294967296 "unat w + i"] by simp
qed

lemma ring_items_push:
  assumes "length (ring_items r) < ACCEPT_RING_CAPACITY"
  shows "ring_items (r\<lparr>ar_slots := (ar_slots r)(unat (ar_head r AND ACCEPT_RING_MASK) := slot), ar_head := ar_head r + 1\<rparr>)
    = ring_items r @ [slot]"
proof -
  let ?n = "unat (ar_head r - ar_tail r)" and ?t = "ar_tail r"
  have n: "?n < 4096" using assms by (simp add: ring_items_def ACCEPT_RING_CAPACITY_def)
  have h: "ar_head r = ?t + of_nat ?n" by simp
  have "unat (ar_head r + 1 - ?t) = Suc ?n"
    using n unat_of_nat_diff [of 0 "Suc ?n" ?t] by (simp add: h [symmetric] algebra_simps)
  moreover have "(unat ?t + i) mod 4096 \<noteq> (unat ?t + ?n) mod 4096" if "i < ?n" for i
  proof
    assume "(unat ?t + i) mod 4096 = (unat ?t + ?n) mod 4096"
    then have "4096 dvd (unat ?t + ?n) - (unat ?t + i)"
      using mod_eq_dvd_iff_nat [of "unat ?t + i" "unat ?t + ?n" 4096] that by simp
    then show False using that n by (auto dest: dvd_imp_le)
  qed
  moreover have "(unat ?t + ?n) mod 4096 = unat (ar_head r) mod 4096" using unat_plus_of_nat [of ?t ?n] h by simp
  ultimately show ?thesis by (auto simp: ring_items_def ring_mask unat_plus_of_nat)
qed


lemma ring_items_pop:
  assumes "ar_head r \<noteq> ar_tail r"
  shows "ring_items r = ar_slots r (unat (ar_tail r AND ACCEPT_RING_MASK)) # ring_items (r\<lparr>ar_tail := ar_tail r + 1\<rparr>)"
proof -
  let ?n = "unat (ar_head r - ar_tail r)"
  have "?n \<noteq> 0" using assms by (simp add: unat_eq_0)
  moreover have "unat (ar_head r - (ar_tail r + 1)) = ?n - 1"
    using calculation by (simp add: diff_diff_eq [symmetric] unat_minus_one unat_eq_0)
  moreover have "[0..<?n] = 0 # map Suc [0..<?n - 1]"
    using calculation(1) by (simp add: map_Suc_upt upt_conv_Cons)
  ultimately show ?thesis by (simp add: ring_items_def algebra_simps)
qed

lemma ring_items_empty: "ring_items r = [] \<longleftrightarrow> ar_head r = ar_tail r"
  by (simp add: ring_items_def unat_eq_0)

lemma find_index:
  "find P [0..<n] = Some i \<Longrightarrow> i < n \<and> P i" "find P [0..<n] = None \<longleftrightarrow> (\<forall>i<n. \<not> P i)"
  by (auto simp: find_Some_iff find_None_iff)

lemma rings_ok_cong: "ring_ports k' = ring_ports k \<Longrightarrow> rings k' = rings k \<Longrightarrow> rings_ok k' = rings_ok k"
  by (simp add: rings_ok_def)

lemma find_unique:
  assumes "i < n" "P i" "\<And>j. j < n \<Longrightarrow> P j \<Longrightarrow> j = i"
  shows "find P [0..<n] = Some i"
proof (cases "find P [0..<n]")
  case None
  then show ?thesis using assms(1,2) by (auto simp: find_index(2))
next
  case (Some j)
  then show ?thesis using assms(3) find_index(1) [OF Some] by simp
qed

lemma accept_items_at:
  assumes "rings_ok k" "i < MAX_ACCEPT_RINGS" "ring_ports k ! i = port" "port \<noteq> 0"
  shows "find (\<lambda>i. ring_ports k ! i = port) [0..<MAX_ACCEPT_RINGS] = Some i" "accept_items port k = ring_items (rings k ! i)"
proof -
  show f: "find (\<lambda>i. ring_ports k ! i = port) [0..<MAX_ACCEPT_RINGS] = Some i"
    using assms by (intro find_unique) (auto simp: rings_ok_def)
  then show "accept_items port k = ring_items (rings k ! i)" by (simp add: accept_items_def)
qed

text \<open>Finding or claiming the ring of a port changes no port's queue.\<close>

lemma ring_idx_ok:
  assumes ok: "rings_ok k" and p: "port \<noteq> 0" and r: "ring_idx_for_port port k = (res, k1)"
  shows "rings_ok k1" "\<And>q. q \<noteq> 0 \<Longrightarrow> accept_items q k1 = accept_items q k"
    "res = Some i \<Longrightarrow> i < MAX_ACCEPT_RINGS \<and> ring_ports k1 ! i = port"
    "res = None \<Longrightarrow> accept_items port k = []"
    "\<exists>ps. k1 = k\<lparr>ring_ports := ps\<rparr>"
proof -
  consider (hit) i where "find (\<lambda>i. ring_ports k ! i = port) [0..<MAX_ACCEPT_RINGS] = Some i" "res = Some i" "k1 = k"
    | (claim) i where "find (\<lambda>i. ring_ports k ! i = port) [0..<MAX_ACCEPT_RINGS] = None"
        "find (\<lambda>i. ring_ports k ! i = 0) [0..<MAX_ACCEPT_RINGS] = Some i" "res = Some i" "k1 = k\<lparr>ring_ports := (ring_ports k)[i := port]\<rparr>"
    | (full) "find (\<lambda>i. ring_ports k ! i = port) [0..<MAX_ACCEPT_RINGS] = None" "res = None" "k1 = k"
    using r by (auto simp: ring_idx_for_port_def split: option.splits)
  note cs = this
  show "\<exists>ps. k1 = k\<lparr>ring_ports := ps\<rparr>" using cs by cases (auto intro: exI [of _ "ring_ports k"])
  show "res = None \<Longrightarrow> accept_items port k = []" using cs by cases (auto simp: accept_items_def)
  show "res = Some i \<Longrightarrow> i < MAX_ACCEPT_RINGS \<and> ring_ports k1 ! i = port"
    using cs ok by cases (auto dest!: find_index(1) simp: rings_ok_def)
  have claimed: "rings_ok (k\<lparr>ring_ports := (ring_ports k)[i := port]\<rparr>)
      \<and> (\<forall>q. q \<noteq> 0 \<longrightarrow> accept_items q (k\<lparr>ring_ports := (ring_ports k)[i := port]\<rparr>) = accept_items q k)"
    if f: "find (\<lambda>i. ring_ports k ! i = port) [0..<MAX_ACCEPT_RINGS] = None"
      "find (\<lambda>i. ring_ports k ! i = 0) [0..<MAX_ACCEPT_RINGS] = Some i" for i
  proof (intro conjI allI impI)
    let ?k = "k\<lparr>ring_ports := (ring_ports k)[i := port]\<rparr>"
    have i: "i < MAX_ACCEPT_RINGS" "ring_ports k ! i = 0" using find_index(1) [OF f(2)] by auto
    have no: "\<forall>j<MAX_ACCEPT_RINGS. ring_ports k ! j \<noteq> port" using f(1) by (simp add: find_index(2))
    have nth: "(ring_ports k)[i := port] ! j = (if j = i then port else ring_ports k ! j)" if "j < MAX_ACCEPT_RINGS" for j
      using that ok by (simp add: rings_ok_def nth_list_update)
    show ok': "rings_ok ?k"
      using ok i no p by (auto simp: rings_ok_def nth split: if_splits)
    fix q :: u16 assume q: "q \<noteq> 0"
    have e: "ring_items (rings k ! i) = []" using ok i by (simp add: rings_ok_def)
    show "accept_items q ?k = accept_items q k"
    proof (cases "q = port")
      case True
      then show ?thesis using accept_items_at(2) [OF ok' i(1) _ q] nth [OF i(1)] e f(1) by (simp add: accept_items_def [of port k])
    next
      case False
      have "find (\<lambda>j. ring_ports ?k ! j = q) [0..<MAX_ACCEPT_RINGS] = find (\<lambda>j. ring_ports k ! j = q) [0..<MAX_ACCEPT_RINGS]"
        using nth False i q by (intro find_cong) auto
      then show ?thesis by (simp add: accept_items_def cong: option.case_cong)
    qed
  qed
  show "rings_ok k1" using cs ok claimed by cases auto
  show "\<And>q. q \<noteq> 0 \<Longrightarrow> accept_items q k1 = accept_items q k" using cs claimed by cases auto
qed


definition ring_claimable :: "u16 \<Rightarrow> core \<Rightarrow> bool" where
  "ring_claimable port k \<longleftrightarrow> (\<exists>i<MAX_ACCEPT_RINGS. ring_ports k ! i = port \<or> ring_ports k ! i = 0)"

lemma ring_idx_none: "fst (ring_idx_for_port port k) = None \<longleftrightarrow> \<not> ring_claimable port k"
  by (auto simp: ring_idx_for_port_def ring_claimable_def find_index(2) split: option.split dest!: find_index(1))

text \<open>Replacing the queue of one port.\<close>

lemma ring_update_ok:
  assumes ok: "rings_ok k" and i: "i < MAX_ACCEPT_RINGS" "ring_ports k ! i = port" "port \<noteq> 0"
    and len: "length (ring_items r) \<le> ACCEPT_RING_CAPACITY"
  shows "rings_ok (k\<lparr>rings := (rings k)[i := r]\<rparr>)" (is "rings_ok ?k")
    "q \<noteq> 0 \<Longrightarrow> accept_items q (k\<lparr>rings := (rings k)[i := r]\<rparr>) = (if q = port then ring_items r else accept_items q k)"
proof -
  show ok': "rings_ok ?k" using ok i len by (auto simp: rings_ok_def nth_list_update)
  assume q: "q \<noteq> 0"
  have l: "length (rings k) = MAX_ACCEPT_RINGS" using ok by (simp add: rings_ok_def)
  show "accept_items q ?k = (if q = port then ring_items r else accept_items q k)"
  proof (cases "q = port")
    case True
    then show ?thesis using accept_items_at(2) [OF ok' i(1) _ q] i(1,2) l by simp
  next
    case False
    have "j \<noteq> i" if "find (\<lambda>i. ring_ports k ! i = q) [0..<MAX_ACCEPT_RINGS] = Some j" for j
      using find_index(1) [OF that] False i(2) by auto
    then show ?thesis using False by (auto simp: accept_items_def split: option.split)
  qed
qed

lemma accept_ring_push_correct:
  assumes ok: "rings_ok k" and p: "port \<noteq> 0"
  shows "rings_ok (accept_ring_push port s k)"
    "q \<noteq> 0 \<Longrightarrow> accept_items q (accept_ring_push port s k) = accept_items q k
       @ (if q = port \<and> ring_claimable port k \<and> length (accept_items port k) < ACCEPT_RING_CAPACITY then [s] else [])"
proof -
  obtain res k1 where r: "ring_idx_for_port port k = (res, k1)" by fastforce
  note ri = ring_idx_ok [OF ok p r]
  have cl: "res = None \<longleftrightarrow> \<not> ring_claimable port k" using ring_idx_none [of port k] r by simp
  show "rings_ok (accept_ring_push port s k)" "q \<noteq> 0 \<Longrightarrow> accept_items q (accept_ring_push port s k) = accept_items q k
       @ (if q = port \<and> ring_claimable port k \<and> length (accept_items port k) < ACCEPT_RING_CAPACITY then [s] else [])"
  proof (atomize (full), cases res)
    case None
    then show "rings_ok (accept_ring_push port s k) \<and> (q \<noteq> 0 \<longrightarrow> accept_items q (accept_ring_push port s k) = accept_items q k
       @ (if q = port \<and> ring_claimable port k \<and> length (accept_items port k) < ACCEPT_RING_CAPACITY then [s] else []))"
      using ri(1,2) r cl by (simp add: accept_ring_push_def)
  next
    case (Some i)
    define rg where "rg = rings k1 ! i"
    have i: "i < MAX_ACCEPT_RINGS" "ring_ports k1 ! i = port" using ri(3) Some by auto
    have it: "accept_items port k = ring_items rg"
      using accept_items_at(2) [OF ri(1) i p] ri(2) [OF p] by (simp add: rg_def)
    have len: "length (ring_items rg) = unat (ar_head rg - ar_tail rg)" by (simp add: ring_items_def)
    show "rings_ok (accept_ring_push port s k) \<and> (q \<noteq> 0 \<longrightarrow> accept_items q (accept_ring_push port s k) = accept_items q k
       @ (if q = port \<and> ring_claimable port k \<and> length (accept_items port k) < ACCEPT_RING_CAPACITY then [s] else []))"
    proof (cases "length (ring_items rg) < ACCEPT_RING_CAPACITY")
      case False
      then have "accept_ring_push port s k = k1" using r Some len by (simp add: accept_ring_push_def rg_def Let_def)
      then show ?thesis using ri(1,2) False it by simp
    next
      case True
      define rg' where "rg' = rg\<lparr>ar_slots := (ar_slots rg)(unat (ar_head rg AND ACCEPT_RING_MASK) := s), ar_head := ar_head rg + 1\<rparr>"
      have it': "ring_items rg' = ring_items rg @ [s]" unfolding rg'_def by (rule ring_items_push [OF True])
      have "accept_ring_push port s k = k1\<lparr>rings := (rings k1)[i := rg']\<rparr>"
        using r Some len True by (simp add: accept_ring_push_def rg_def rg'_def Let_def)
      then show ?thesis
        using ring_update_ok [OF ri(1) i p, of rg'] it' True ri(2) it cl Some by simp
    qed
  qed
qed

lemma accept_ring_pop_correct:
  assumes ok: "rings_ok k" and p: "port \<noteq> 0" and pop: "accept_ring_pop port k = (r, k')"
  shows "rings_ok k'" "r = (case accept_items port k of [] \<Rightarrow> None | s # _ \<Rightarrow> Some s)"
    "q \<noteq> 0 \<Longrightarrow> accept_items q k' = (if q = port then tl (accept_items q k) else accept_items q k)"
    "\<exists>ps rs. k' = k\<lparr>ring_ports := ps, rings := rs\<rparr>"
proof -
  obtain res k1 where ix: "ring_idx_for_port port k = (res, k1)" by fastforce
  note ri = ring_idx_ok [OF ok p ix]
  obtain ps where ps: "k1 = k\<lparr>ring_ports := ps\<rparr>" using ri(5) by blast
  have "rings_ok k' \<and> r = (case accept_items port k of [] \<Rightarrow> None | s # _ \<Rightarrow> Some s)
    \<and> (q \<noteq> 0 \<longrightarrow> accept_items q k' = (if q = port then tl (accept_items q k) else accept_items q k))
    \<and> (\<exists>rs. k' = k1\<lparr>rings := rs\<rparr>)"
  proof (cases res)
    case None
    then have "r = None" "k' = k1" using pop ix by (simp_all add: accept_ring_pop_def)
    then show ?thesis using ri(1,2,4) None p by (auto intro: exI [of _ "rings k1"])
  next
    case (Some i)
    define rg where "rg = rings k1 ! i"
    have i: "i < MAX_ACCEPT_RINGS" "ring_ports k1 ! i = port" using ri(3) Some by auto
    have it: "accept_items port k = ring_items rg"
      using accept_items_at(2) [OF ri(1) i p] ri(2) [OF p] by (simp add: rg_def)
    show ?thesis
    proof (cases "ar_head rg = ar_tail rg")
      case True
      then have "r = None" "k' = k1" using pop ix Some by (simp_all add: accept_ring_pop_def rg_def Let_def)
      then show ?thesis using ri(1,2) it True ring_items_empty [of rg] by (auto intro: exI [of _ "rings k1"])
    next
      case False
      define rg' where "rg' = rg\<lparr>ar_tail := ar_tail rg + 1\<rparr>"
      have it': "ring_items rg = ar_slots rg (unat (ar_tail rg AND ACCEPT_RING_MASK)) # ring_items rg'"
        unfolding rg'_def by (rule ring_items_pop [OF False])
      have e: "r = Some (ar_slots rg (unat (ar_tail rg AND ACCEPT_RING_MASK)))" "k' = k1\<lparr>rings := (rings k1)[i := rg']\<rparr>"
        using pop ix Some False by (simp_all add: accept_ring_pop_def rg_def rg'_def Let_def)
      have "length (ring_items rg) \<le> ACCEPT_RING_CAPACITY" using ri(1) i by (simp add: rings_ok_def rg_def)
      then have "length (ring_items rg') \<le> ACCEPT_RING_CAPACITY" using it' by simp
      then show ?thesis using ring_update_ok [OF ri(1) i p, of rg'] it' ri(2) it e by auto
    qed
  qed
  then show "rings_ok k'" "r = (case accept_items port k of [] \<Rightarrow> None | s # _ \<Rightarrow> Some s)"
    "q \<noteq> 0 \<Longrightarrow> accept_items q k' = (if q = port then tl (accept_items q k) else accept_items q k)"
    "\<exists>ps rs. k' = k\<lparr>ring_ports := ps, rings := rs\<rparr>" unfolding ps by auto
qed


section \<open>Properties\<close>

lemma pool_ok_new: "pool_ok (core_new c n isns e) [] [] {}"
  using hidx.invar_empty hidx.find_empty
  by (simp add: pool_ok_def slots_ok_def free_list_ok_def tick_list_ok_def index_ok_def core_new_def pool_capacity_def width_simps)

lemma rings_ok_new: "rings_ok (core_new c n isns e)"
  by (simp add: rings_ok_def core_new_def ring_items_def ring_new_def MAX_ACCEPT_RINGS_def)

lemma accept_items_new: "accept_items q (core_new c n isns e) = []"
  by (auto simp: accept_items_def core_new_def ring_items_def ring_new_def split: option.split dest!: find_index(1))

definition demo_core :: core where
  "demo_core = core_new 0 1 (\<lambda>_. 7) demo_env"

text \<open>A closing connection is evicted, or no slot is found at all, only when no slot is free and the pool
  cannot grow.\<close>

lemma alloc_connection_no_room:
  assumes ok: "pool_ok k fs ts D" and a: "alloc_connection k = (r, k')"
    and r: "case r of Some s \<Rightarrow> s < pool_capacity k \<and> s \<notin> set fs | None \<Rightarrow> True"
  shows "fs = [] \<and> \<not> fst (grow_segment k)"
proof -
  obtain q k1 where q: "pool_alloc k = (q, k1)" by fastforce
  have "q = None"
  proof (rule ccontr)
    assume "q \<noteq> None"
    then obtain s where s: "pool_alloc k = (Some s, k1)" using q by auto
    then have "r = Some s" using a by (auto simp: alloc_connection_def Let_def)
    moreover have "s \<in> set fs \<or> pool_capacity k \<le> s" by (rule pool_alloc_some [OF ok s]) auto
    ultimately show False using r by auto
  qed
  then show ?thesis using pool_alloc_none(1,5) [OF ok] q by simp
qed

lemma reset_preserving_fresh:
  "reset_preserving g c = tcb_new\<lparr>generation := g, rx_ring := rx_ring c, ooo := ooo_clear (ooo c), slot_index := slot_index c\<rparr>"
  by (simp add: reset_preserving_def tcb_new_def Let_def)

text \<open>C23: Allocation is safe. From a well-formed core, whatever heap allocations fail, the slot handed
  out is either a slot of a new segment, or one of the free list, or, when there is no free slot and
  the pool cannot grow, one whose connection is closing; the slot is a fresh control block but for its
  generation, its receive buffer and its (emptied) out-of-order queue, and belongs to no list; every
  other connection keeps all its fields but the link of the timer list, and the core stays well-formed.
  No slot is handed out only when none is free, the pool cannot grow and none is closing.\<close>

theorem allocation_safe:
  assumes "pool_ok k fs ts {}" and "alloc_connection k = (r, k')"
  shows "\<exists>fs' ts'. pool_ok k' fs' ts' {} \<and> pool_capacity k \<le> pool_capacity k'
    \<and> (\<forall>i<pool_capacity k. r \<noteq> Some i \<longrightarrow> (\<exists>t. conns k' i = (conns k i)\<lparr>tick_next := t\<rparr>))
    \<and> (case r of
         Some s \<Rightarrow> s < pool_capacity k' \<and> s \<notin> set fs' \<and> s \<notin> set ts' \<and> state (conns k' s) = Closed
           \<and> (\<exists>g ring q. conns k' s = tcb_new\<lparr>generation := g, rx_ring := ring, ooo := ooo_clear q, slot_index := s\<rparr>)
           \<and> (s < pool_capacity k \<longrightarrow> s \<in> set fs
                \<or> fs = [] \<and> \<not> fst (grow_segment k)
                  \<and> state (conns k s) \<in> {FinWait1, FinWait2, LastAck, TimeWait, CloseWait})
       | None \<Rightarrow> fs = [] \<and> fs' = [] \<and> \<not> fst (grow_segment k)
           \<and> (\<forall>i<pool_capacity k. state (conns k i) \<notin> {FinWait1, FinWait2, LastAck, TimeWait, CloseWait}))"
proof (rule alloc_connection_ok [OF assms], goal_cases)
  case (1 fs' ts' D')
  have "\<exists>g ring q. conns k' s = tcb_new\<lparr>generation := g, rx_ring := ring, ooo := ooo_clear q, slot_index := s\<rparr>"
    if r: "r = Some s" for s
  proof -
    obtain g c where c: "conns k' s = reset_preserving g c" using 1(5) [OF r] by blast
    moreover have "slot_index (conns k' s) = s" using 1(1) 1(4) [OF r] by (simp add: pool_ok_def slots_ok_def)
    ultimately show ?thesis unfolding reset_preserving_fresh by auto
  qed
  then show ?case using 1 alloc_connection_no_room [OF assms]
    by (intro exI [of _ fs'] exI [of _ ts']) (auto split: option.split)
qed

theorem allocation_safe_witness:
  "\<exists>k' fs' ts' g ring q. alloc_connection demo_core = (Some 0, k') \<and> pool_ok k' fs' ts' {} \<and> 0 < pool_capacity k'
     \<and> 0 \<notin> set fs' \<and> conns k' 0 = tcb_new\<lparr>generation := g, rx_ring := ring, ooo := ooo_clear q, slot_index := 0\<rparr>"
proof -
  have ok: "pool_ok demo_core [] [] {}" by (simp add: demo_core_def pool_ok_new)
  obtain b k1 where g: "grow_segment demo_core = (b, k1)" by fastforce
  then have b: "b = True"
    by (auto simp: grow_segment_def demo_core_def core_new_def demo_env_def try_alloc_def tcp_consts Let_def split: if_splits)
  have cap: "pool_capacity demo_core = 0" by (simp add: demo_core_def core_new_def pool_capacity_def width_simps)
  have up: "[0..<SEGMENT_SIZE] = 0 # [1..<SEGMENT_SIZE]" by (simp add: upt_rec tcp_consts)
  have "free_head k1 = 0" using grow_segment_ok(1) [OF ok g] b cap up by (simp add: pool_ok_def free_list_ok_def)
  moreover have "free_head demo_core = NULL_SLOT" by (simp add: demo_core_def core_new_def)
  ultimately obtain k' where a: "alloc_connection demo_core = (Some 0, k')"
    using g b by (simp add: alloc_connection_def pool_alloc_cases [of demo_core] pool_alloc_cases [of k1] tcp_consts)
  from allocation_safe [OF ok a] a show ?thesis unfolding option.case by blast
qed

text \<open>A connection handle decodes to the core and slot it was made from, and is never the null
  handle.\<close>

theorem handle_roundtrip:
  assumes "c < length m" and "length m \<le> 4294967296" and "pool_ok (m ! c) fs ts D" and "s < pool_capacity (m ! c)"
  shows "decode_handle m (encode_handle c s) = Some (c, s) \<and> encode_handle c s \<noteq> 0"
  using decode_encode [of c m s] assms by (simp add: pool_ok_def)

theorem handle_roundtrip_witness:
  "decode_handle [demo_core, snd (grow_segment demo_core)] (encode_handle 1 5) = Some (1, 5) \<and> encode_handle 1 5 \<noteq> 0"
proof -
  have ok: "pool_ok demo_core [] [] {}" by (simp add: demo_core_def pool_ok_new)
  obtain b k1 where g: "grow_segment demo_core = (b, k1)" by fastforce
  then have b: "b = True"
    by (auto simp: grow_segment_def demo_core_def core_new_def demo_env_def try_alloc_def tcp_consts Let_def split: if_splits)
  have n: "nsegs k1 = 1" using grow_segment_nsegs(1) [OF g] b by (simp add: demo_core_def core_new_def)
  show ?thesis
    using handle_roundtrip [of 1 "[demo_core, snd (grow_segment demo_core)]" _ "[]" "{}" 5] grow_segment_ok(1) [OF ok g] g n
    by (simp add: pool_capacity_def tcp_consts width_simps)
qed

text \<open>The accept rings are one bounded first-in first-out queue per port, across the wrap-around
  of their 32-bit cursors: a push appends to its port's queue unless the ring is full or no ring is
  left for the port, a pop takes the oldest entry, and the queues of all other ports stay the same.\<close>

theorem accept_rings_fifo:
  assumes "rings_ok k" and "port \<noteq> 0" and "q \<noteq> 0" and "accept_ring_pop port k = (r, k')"
  shows "rings_ok (accept_ring_push port s k) \<and> rings_ok k'
    \<and> accept_items q (accept_ring_push port s k) = accept_items q k
        @ (if q = port \<and> ring_claimable port k \<and> length (accept_items port k) < ACCEPT_RING_CAPACITY then [s] else [])
    \<and> r = (case accept_items port k of [] \<Rightarrow> None | x # _ \<Rightarrow> Some x)
    \<and> accept_items q k' = (if q = port then tl (accept_items q k) else accept_items q k)"
  using accept_ring_push_correct [OF assms(1,2)] accept_ring_pop_correct [OF assms(1,2,4)] assms(3) by blast

theorem accept_rings_fifo_witness:
  "\<exists>k'. accept_ring_pop 80 (accept_ring_push 80 9 (accept_ring_push 80 4 demo_core)) = (Some 4, k') \<and> accept_items 80 k' = [9]"
proof -
  have r0: "rings_ok demo_core" "accept_items 80 demo_core = []" "ring_claimable 80 demo_core"
    by (simp_all add: demo_core_def rings_ok_new accept_items_new)
      (auto simp: ring_claimable_def core_new_def MAX_ACCEPT_RINGS_def intro!: exI [of _ 0])
  let ?k1 = "accept_ring_push 80 4 demo_core"
  have r1: "rings_ok ?k1" "accept_items 80 ?k1 = [4]"
    using accept_ring_push_correct(1) [where k = demo_core and port = 80 and s = 4]
      accept_ring_push_correct(2) [where k = demo_core and port = 80 and s = 4 and q = 80] r0 by (simp_all add: ACCEPT_RING_CAPACITY_def)
  have c1: "ring_claimable 80 ?k1"
    using r1(2) by (auto simp: accept_items_def ring_claimable_def split: option.splits dest!: find_index(1))
  let ?k2 = "accept_ring_push 80 9 ?k1"
  have r2: "rings_ok ?k2" "accept_items 80 ?k2 = [4, 9]"
    using accept_ring_push_correct(1) [where k = ?k1 and port = 80 and s = 9]
      accept_ring_push_correct(2) [where k = ?k1 and port = 80 and s = 9 and q = 80] r1 c1 by (simp_all add: ACCEPT_RING_CAPACITY_def)
  obtain r k' where pop: "accept_ring_pop 80 ?k2 = (r, k')" by fastforce
  show ?thesis using accept_rings_fifo [OF r2(1) _ _ pop, of 80] r2(2) pop by auto
qed

end
