(* ===== verification/Tcp_Slots.thy ===== *)
theory Tcp_Slots
  imports Tcp_Pool
begin

text \<open>
  What the methods of a connection may change outside their own business: none of them changes the
  slot's identity (its index, its 4-tuple, its generation, its place in the free list), and each
  either leaves the armed-timer list alone or links the slot at its head. The relation \<open>touches\<close> says
  so for one connection; a handler run on a slot of a well-formed core then keeps the core
  well-formed.
\<close>

section \<open>The relation\<close>

definition armed :: "'a tcb_scheme \<Rightarrow> bool" where
  "armed c \<longleftrightarrow> rtx_deadline_ms c \<noteq> 0 \<or> tlp_deadline_ms c \<noteq> 0 \<or> rack_deadline_ms c \<noteq> 0
     \<or> persist_deadline_ms c \<noteq> 0 \<or> lifecycle_deadline_ms c \<noteq> 0"

definition listed :: "'a tcb_scheme \<Rightarrow> bool" where
  "listed c \<longleftrightarrow> (armed c \<longrightarrow> tick_in_list c)"

definition ident :: "'a tcb_scheme \<Rightarrow> nat \<times> nat \<times> nat \<times> IpAddr \<times> u16 \<times> u16" where
  "ident c = (slot_index c, next_free c, generation c, remote_ip c, remote_port c, local_port c)"

definition link :: "conn \<Rightarrow> conn \<Rightarrow> bool" where
  "link c c' \<longleftrightarrow>
     tick_in_list c' = tick_in_list c \<and> tick_next c' = tick_next c \<and> tick_head (cenv c') = tick_head (cenv c)
     \<or> \<not> tick_in_list c \<and> tick_in_list c' \<and> tick_next c' = tick_head (cenv c) \<and> tick_head (cenv c') = slot_index c"

definition touches :: "conn \<Rightarrow> conn \<Rightarrow> bool" where
  "touches c c' \<longleftrightarrow> ident c' = ident c \<and> live c' = live c \<and> now_ms (cenv c') = now_ms (cenv c) \<and> link c c'
     \<and> (listed c \<longrightarrow> listed c')"

named_theorems touch_defs \<open>the definitions behind the relation\<close>
named_theorems touching \<open>the methods related by it\<close>

declare touches_def [touch_defs] ident_def [touch_defs] link_def [touch_defs] live_def [touch_defs]
  listed_def [touch_defs] armed_def [touch_defs]

lemma touches_refl [touching]: "touches c c"
  by (simp add: touch_defs)

lemma link_trans: "link a b \<Longrightarrow> link b c \<Longrightarrow> slot_index b = slot_index a \<Longrightarrow> link a c"
  unfolding link_def by (elim disjE conjE) simp_all

lemma touches_trans [trans]:
  assumes "touches a b" "touches b c"
  shows "touches a c"
proof -
  have "slot_index b = slot_index a" using assms(1) by (simp add: touches_def ident_def)
  then show ?thesis using assms link_trans [of a b c] by (simp add: touches_def)
qed

lemma touches_clock: "touches c c' \<Longrightarrow> clock c' = clock c"
  by (simp add: touches_def clock_def)

section \<open>Environment\<close>

lemma tick_head_env [simp]:
  "tick_head (snd (try_alloc e)) = tick_head e" "tick_head (snd (acquire_tx_buf e)) = tick_head e"
  "now_ms (snd (acquire_tx_buf e)) = now_ms e"
  by (simp_all add: try_alloc_def acquire_tx_buf_def split: list.split)

lemma send_segment_opts_env [simp]:
  "tick_head (send_segment_opts m p opts e) = tick_head e" "now_ms (send_segment_opts m p opts e) = now_ms e"
  "tick_head (send_segment m p e) = tick_head e" "now_ms (send_segment m p e) = now_ms e"
  by (simp_all add: send_segment_def send_segment_opts_def build_and_send_frame_def push_tx_def Let_def case_prod_beta)

lemma touches_emit [touching]: "touches c (emit m p opts c)"
  by (simp add: touch_defs) (simp add: emit_def)

text \<open>Arming after setting a deadline.\<close>

lemma touches_arm:
  assumes "ident c1 = ident c" "live c1 = live c" "cenv c1 = cenv c" "tick_in_list c1 = tick_in_list c" "tick_next c1 = tick_next c"
  shows "touches c (arm_for_tick c1)"
  using assms by (auto simp: touch_defs arm_for_tick_def)

text \<open>A change of other fields that arms nothing.\<close>

lemma touches_quiet:
  assumes "ident c1 = ident c" "live c1 = live c" "tick_head (cenv c1) = tick_head (cenv c)" "now_ms (cenv c1) = now_ms (cenv c)"
    "tick_in_list c1 = tick_in_list c" "tick_next c1 = tick_next c" "armed c1 \<Longrightarrow> armed c"
  shows "touches c c1"
  using assms by (auto simp: touches_def link_def listed_def)

section \<open>Methods of the connection\<close>

lemma touches_arm_tlp_arm: "touches c (arm_for_tick (arm_tlp now c))"
  by (rule touches_arm) (simp_all add: ident_def live_def arm_tlp_def Let_def)

lemma touches_arm_rtx [touching]: "touches c (arm_rtx c)"
  unfolding arm_rtx_def Let_def by (rule touches_arm) (simp_all add: ident_def live_def arm_tlp_def Let_def)

lemma touches_arm_fin_timer [touching]: "touches c (arm_fin_timer now c)"
  unfolding arm_fin_timer_def by (rule touches_arm) (simp_all add: ident_def live_def)

lemma touches_arm_time_wait [touching]: "touches c (arm_time_wait now c)"
  unfolding arm_time_wait_def by (rule touches_arm) (simp_all add: ident_def live_def)

lemma touches_arm_persist [touching]: "touches c (arm_persist now c)"
  unfolding arm_persist_def by (rule touches_arm) (simp_all add: ident_def live_def)

lemma touches_retransmit_fin [touching]: "touches c (retransmit_fin now c)"
proof -
  let ?c1 = "emit (seg_of c (snd_nxt c - 1) (TCP_FIN OR TCP_ACK) (as_u16 (rx_free c))) [] [] c"
  have "touches c ?c1" by (rule touches_emit)
  also have "touches ?c1 (?c1\<lparr>fin_retx_count := sat_add8 (fin_retx_count ?c1) 1\<rparr>)" by (simp add: touch_defs)
  also have "touches (?c1\<lparr>fin_retx_count := sat_add8 (fin_retx_count ?c1) 1\<rparr>) (retransmit_fin now c)"
    unfolding retransmit_fin_def Let_def by (rule touches_arm_fin_timer)
  finally show ?thesis .
qed

lemma touches_send_window_probe [touching]: "touches c (send_window_probe now c)"
proof -
  let ?c1 = "emit (seg_of c (snd_una c - 1) TCP_ACK (as_u16 (rx_free c))) [] [] c"
  have "touches c ?c1" by (rule touches_emit)
  also have "touches ?c1 (?c1\<lparr>persist_backoff := sat_add8 (persist_backoff ?c1) 1\<rparr>)" by (simp add: touch_defs)
  also have "touches (?c1\<lparr>persist_backoff := sat_add8 (persist_backoff ?c1) 1\<rparr>) (send_window_probe now c)"
    unfolding send_window_probe_def Let_def by (rule touches_arm_persist)
  finally show ?thesis .
qed

lemma touches_congestion [touching]:
  "touches c (congestion_init c)" "touches c (cwnd_on_ack n c)" "touches c (congestion_on_rto c)"
  by (simp_all add: touch_defs congestion_init_def cwnd_on_ack_def congestion_on_rto_def Let_def)

lemma touches_rtx_push [touching]: "touches c (snd (rtx_push b sq len now c))"
proof -
  obtain ok e where e: "try_alloc (cenv c) = (ok, e)" by fastforce
  have te: "tick_head e = tick_head (cenv c)" "now_ms e = now_ms (cenv c)"
    using try_alloc_cases [OF e] by auto
  let ?c1 = "rtx_enqueue b sq len now (c\<lparr>cenv := e\<rparr>)"
  have c1: "touches c ?c1" using te by (simp add: touch_defs rtx_enqueue_def)
  have an: "touches d (set_rtt_anchor q now d)" for q d by (simp add: touch_defs set_rtt_anchor_def)
  show ?thesis
  proof (cases ok)
    case False
    then show ?thesis using e te by (simp add: rtx_push_def touch_defs)
  next
    case True
    then have "snd (rtx_push b sq len now c) = set_rtt_anchor (sq + of_nat len) now
        (if rtx_queue c = [] \<and> rtx_deadline_ms ?c1 = 0 then arm_rtx ?c1 else ?c1)"
      using e by (simp add: rtx_push_def Let_def)
    then show ?thesis
      using touches_trans [OF c1 an] touches_trans [OF touches_trans [OF c1 touches_arm_rtx] an] by simp
  qed
qed

lemma touches_oom [touching]: "touches c (handle_rtx_push_oom c)"
  by (auto simp: touch_defs handle_rtx_push_oom_def)

lemma touches_rtx_sent_loop [touching]: "touches c (snd (rtx_sent_loop now bs tot sq c))"
proof (induction now bs tot sq c rule: rtx_sent_loop.induct)
  case (2 now b bs tot sq c)
  obtain ok c1 where p: "rtx_push b sq (as_u16 (length b)) now c = (ok, c1)" by fastforce
  obtain ok' c2 where q: "rtx_push (take tot b) sq (as_u16 tot) now c = (ok', c2)" by fastforce
  have t: "touches c c1" "touches c c2"
    using touches_rtx_push [of c b sq "as_u16 (length b)" now] touches_rtx_push [of c "take tot b" sq "as_u16 tot" now] p q by simp_all
  have "touches c1 (snd (rtx_sent_loop now bs (tot - length b) (sq + of_nat (length b)) c1))" if "tot \<noteq> 0" "length b \<le> tot" "ok"
    using "2.IH" that p by simp
  then show ?case
    using t touches_trans [OF t(1) touches_oom] touches_trans [OF t(2) touches_oom] touches_trans [OF t(1)] touches_refl
    by (simp add: p q split: prod.split)
qed (simp add: touches_refl)

lemma touches_rtx_on_data_sent [touching]: "touches c (snd (rtx_on_data_sent bs tot c))"
  by (simp add: rtx_on_data_sent_def touches_refl touches_rtx_sent_loop)

lemma touches_rtx_ack [touching]: "touches c (snd (rtx_ack a c))"
  by (simp add: touch_defs) (simp add: rtx_ack_def Let_def case_prod_beta)

lemma touches_take_rtt_sample [touching]: "touches c (take_rtt_sample c)"
  by (simp add: touch_defs)

lemma touches_rtx_restart [touching]: "touches c (rtx_restart c)"
proof -
  let ?c2 = "(c\<lparr>rtx_backoff := 0, tlp_count := 0\<rparr>)\<lparr>rto_ms := estimated_rto (c\<lparr>rtx_backoff := 0, tlp_count := 0\<rparr>)\<rparr>"
  have "touches c ?c2" by (simp add: touch_defs)
  moreover have "touches c (?c2\<lparr>rtx_deadline_ms := 0, tlp_deadline_ms := 0\<rparr>)" by (auto simp: touch_defs)
  ultimately show ?thesis using touches_trans [OF _ touches_arm_rtx, of c ?c2] by (simp add: rtx_restart_def Let_def)
qed

lemma touches_rtx_on_ack [touching]: "touches c (rtx_on_ack old c)"
proof (cases "rtx_alloc_failed c \<or> snd_una c = old")
  case True
  then show ?thesis by (auto simp: rtx_on_ack_def touch_defs)
next
  case False
  obtain n c1 where a: "rtx_ack (snd_una c) c = (n, c1)" by fastforce
  have c1: "touches c c1" using touches_rtx_ack [of c "snd_una c"] a by simp
  have c2: "touches c (if n > 0 then cwnd_on_ack (as_u32 n) c1 else c1)"
    using c1 touches_trans [OF c1 touches_congestion(2)] by simp
  show ?thesis
    using False a touches_trans [OF touches_trans [OF c2 touches_take_rtt_sample] touches_rtx_restart]
    by (simp add: rtx_on_ack_def)
qed

lemma touches_emit_rtx_entry [touching]: "touches c (emit_rtx_entry i c)"
  by (simp add: touch_defs) (simp add: emit_rtx_entry_def emit_def Let_def)

lemma touches_send_tlp_probe [touching]: "touches c (send_tlp_probe now c)"
proof (cases "rtx_bytes_in_flight c = 0")
  case True
  then show ?thesis by (auto simp: send_tlp_probe_def touch_defs)
next
  case False
  let ?c1 = "c\<lparr>tlp_count := sat_add8 (tlp_count c) 1\<rparr>"
  have "touches c ?c1" by (simp add: touch_defs)
  also have "touches ?c1 (emit_rtx_entry 0 ?c1)" by (rule touches_emit_rtx_entry)
  also have "touches (emit_rtx_entry 0 ?c1) (send_tlp_probe now c)"
    using False touches_arm_tlp_arm by (simp add: send_tlp_probe_def Let_def)
  finally show ?thesis .
qed

lemma touches_retransmit_oldest [touching]: "touches c (retransmit_oldest now c)"
proof (cases "rtx_bytes_in_flight c = 0")
  case True
  then show ?thesis by (auto simp: retransmit_oldest_def touch_defs)
next
  case False
  define c2 where "c2 = (congestion_on_rto c)\<lparr>rtx_queue := map (\<lambda>e. e\<lparr>sacked := False\<rparr>) (rtx_queue (congestion_on_rto c))\<rparr>"
  define c3 where "c3 = emit_rtx_entry 0 c2"
  have "touches c c2" by (simp add: touch_defs c2_def congestion_on_rto_def Let_def)
  also have "touches c2 c3" unfolding c3_def by (rule touches_emit_rtx_entry)
  also have "touches c3 (retransmit_oldest now c)"
    using False unfolding retransmit_oldest_def Let_def retransmit_oldest_segment_def c2_def [symmetric] c3_def [symmetric]
    by (simp, intro touches_arm) (simp_all add: ident_def live_def)
  finally show ?thesis .
qed

lemma touches_apply_sack [touching]: "touches c (snd (apply_sack bs c))"
  by (simp add: touch_defs apply_sack_def Let_def)

lemma touches_emit_holes [touching]: "touches c (emit_holes b h is c)"
proof (induction "is" arbitrary: c)
  case (Cons i "is")
  then show ?case using touches_trans [OF touches_emit_rtx_entry Cons.IH] by (simp add: Let_def)
qed (simp add: touches_refl)

lemma touches_sack_retransmit_holes [touching]: "touches c (sack_retransmit_holes c)"
  by (simp add: sack_retransmit_holes_def Let_def touches_refl touches_emit_holes split: option.split)

lemma touches_fast_retransmit [touching]: "touches c (fast_retransmit c)"
proof -
  let ?c1 = "c\<lparr>cc := ctl_on_loss 0 False (cc c)\<rparr>"
  let ?c2 = "if sack_ok ?c1 \<and> list_ex sacked (rtx_queue ?c1) then sack_retransmit_holes ?c1 else retransmit_oldest_segment ?c1"
  have "touches c ?c1" by (simp add: touch_defs)
  also have "touches ?c1 ?c2" by (simp add: touches_sack_retransmit_holes retransmit_oldest_segment_def touches_emit_rtx_entry)
  also have "touches ?c2 (?c2\<lparr>cwnd := ctl_window (cc ?c2)\<rparr>)" by (simp only: touch_defs) simp
  finally show ?thesis by (simp add: fast_retransmit_def Let_def)
qed

lemma touches_on_dup_ack [touching]: "touches c (on_dup_ack c)"
proof -
  define c1 where "c1 = c\<lparr>dup_acks := sat_add8 (dup_acks c) 1\<rparr>"
  have c1: "touches c c1" by (simp add: touch_defs c1_def)
  have "on_dup_ack c = (if dup_acks c1 = 3 then fast_retransmit c1 else c1)" by (simp only: on_dup_ack_def Let_def c1_def)
  then show ?thesis using c1 touches_trans [OF c1 touches_fast_retransmit] by simp
qed

lemma touches_emit_marked [touching]: "touches c (emit_marked b ls is c)"
proof (induction b ls "is" c rule: emit_marked.induct)
  case (3 base l ls i "is" c)
  then show ?case by (auto intro: touches_trans [OF touches_emit_rtx_entry])
qed (simp_all add: touches_refl)


lemma touches_rack_detect [touching]: "touches c (rack_detect now c)"
proof -
  define d where "d = c\<lparr>rack_deadline_ms := 0\<rparr>"
  have d: "touches c d" by (auto simp: touch_defs d_def)
  show ?thesis
  proof (cases "\<not> rack_sack_hint d \<or> srtt_ms d = 0 \<or> rtx_queue d = []
      \<or> max_opt (map (\<lambda>e. unat (re_seq_start e - snd_una d)) (filter sacked (rtx_queue d))) = None")
    case True
    have "touches d (d\<lparr>rack_sack_hint := False\<rparr>)" by (simp add: touch_defs)
    from touches_trans [OF d this] d True show ?thesis
      unfolding rack_detect_def d_def [symmetric] Let_def by (auto simp: d_def [symmetric])
  next
    case False
    then obtain la where la: "max_opt (map (\<lambda>e. unat (re_seq_start e - snd_una d)) (filter sacked (rtx_queue d))) = Some la"
      by auto
    obtain lost deadline where det: "detect ((rfc9002 (srtt_ms d) 0 1 0)\<lparr>packet_threshold := U64_MAX\<rparr>) la now
        (map (\<lambda>e. (unat (re_seq_start e - snd_una d), last_tx_ms e)) (filter (\<lambda>e. \<not> sacked e) (rtx_queue d))) = (lost, deadline)"
      by fastforce
    define m where "m = emit_marked (snd_una d) (map (\<lambda>l. as_u32 (fst l)) lost) [0..<length (rtx_queue d)] (d\<lparr>cc := ctl_on_loss 0 False (cc d)\<rparr>)"
    define c2 where "c2 = (if map (\<lambda>l. as_u32 (fst l)) lost \<noteq> [] then m\<lparr>cwnd := ctl_window (cc m)\<rparr> else d)"
    have "touches d (d\<lparr>cc := ctl_on_loss 0 False (cc d)\<rparr>)" by (simp add: touch_defs)
    also have "touches (d\<lparr>cc := ctl_on_loss 0 False (cc d)\<rparr>) m" unfolding m_def by (rule touches_emit_marked)
    also have "touches m (m\<lparr>cwnd := ctl_window (cc m)\<rparr>)" by (simp add: touch_defs)
    finally have c2: "touches c c2" using d touches_trans [OF d] by (simp add: c2_def)
    have arm: "touches c2 (arm_for_tick (c2\<lparr>rack_deadline_ms := dl\<rparr>))" for dl
      by (rule touches_arm) (simp_all add: ident_def live_def)
    have "rack_detect now c = (case deadline of Some dl \<Rightarrow> arm_for_tick (c2\<lparr>rack_deadline_ms := dl\<rparr>) | None \<Rightarrow> c2)"
      using False la det unfolding rack_detect_def d_def [symmetric] Let_def by (cases deadline; cases "lost = []") (simp_all add: c2_def m_def)
    then show ?thesis using c2 touches_trans [OF c2 arm] by (simp split: option.split)
  qed
qed

lemma touches_rx_ring_push [touching]: "touches c (snd (rx_ring_push p c))"
  by (simp add: rx_ring_push_def touch_defs Let_def split: option.split)

lemma touches_drain_ooo_loop: "touches c (snd (drain_ooo_loop d c))"
proof (induction d c rule: drain_ooo_loop.induct)
  case (1 d c)
  obtain r q where t: "take_at (rcv_nxt c) (ooo c) = (r, q)" by fastforce
  have q: "touches c (c\<lparr>ooo := q\<rparr>)" by (simp add: touch_defs)
  show ?case
  proof (cases r)
    case None
    then show ?thesis using t q by (simp add: drain_ooo_loop.simps [of d c])
  next
    case (Some sg)
    define tl where "tl = drop (unat (rcv_nxt c - oo_seq_start sg)) (oo_bytes sg)"
    obtain n c2 where p: "rx_ring_push tl (c\<lparr>ooo := q\<rparr>) = (n, c2)" by fastforce
    define c3 where "c3 = c2\<lparr>rcv_nxt := rcv_nxt c2 + of_nat n\<rparr>"
    have "touches (c\<lparr>ooo := q\<rparr>) c2" using touches_rx_ring_push [of "c\<lparr>ooo := q\<rparr>" tl] p by simp
    moreover have "touches c2 c3" by (simp add: touch_defs c3_def)
    ultimately have c3: "touches c c3" using q touches_trans by blast
    have "touches c3 (snd (drain_ooo_loop (d + n) c3))" if "\<not> n < length tl"
      using "1.IH" [OF t [symmetric] Some refl refl refl refl, of n c2 c3] p that by (simp add: tl_def c3_def)
    moreover have "drain_ooo_loop d c = (if n < length tl then (d + n, c3) else drain_ooo_loop (d + n) c3)"
      using p t Some by (subst drain_ooo_loop.simps) (simp add: tl_def c3_def Let_def)
    ultimately show ?thesis using c3 touches_trans [OF c3] by simp
  qed
qed

lemma touches_drain_ooo [touching]: "touches c (snd (drain_ooo c))"
  unfolding drain_ooo_def by (rule touches_drain_ooo_loop)

lemma touches_maybe_send_window_update [touching]: "touches c (maybe_send_window_update c)"
proof -
  have "touches c (c\<lparr>rcv_wnd := w\<rparr>)" for w by (simp add: touch_defs)
  then show ?thesis using touches_trans [OF _ touches_emit] touches_refl by (simp add: maybe_send_window_update_def Let_def)
qed

lemma touches_rx_pop [touching]: "touches c (snd (rx_pop n c))"
proof -
  have "touches c (c\<lparr>rx_head := a, rx_used := b\<rparr>)" for a b by (simp add: touch_defs)
  then show ?thesis using touches_trans [OF _ touches_maybe_send_window_update] touches_refl
    by (simp add: rx_pop_def Let_def split: option.split)
qed

lemma touches_ensure_rx_ring [touching]: "touches c (snd (ensure_rx_ring c))"
proof -
  obtain ok e where e: "try_alloc (cenv c) = (ok, e)" by fastforce
  then have "tick_head e = tick_head (cenv c)" "now_ms e = now_ms (cenv c)" by (auto dest: try_alloc_cases)
  then show ?thesis using e touches_refl by (auto simp: ensure_rx_ring_def touch_defs Let_def split: option.split)
qed

section \<open>A handler on a slot of a well-formed core\<close>

lemma conn_at_fields [simp]:
  "state (conn_at i k) = state (conns k i)" "remote_ip (conn_at i k) = remote_ip (conns k i)"
  "local_ip (conn_at i k) = local_ip (conns k i)" "local_port (conn_at i k) = local_port (conns k i)"
  "remote_port (conn_at i k) = remote_port (conns k i)" "snd_nxt (conn_at i k) = snd_nxt (conns k i)"
  "snd_una (conn_at i k) = snd_una (conns k i)" "snd_wnd (conn_at i k) = snd_wnd (conns k i)"
  "snd_wscale (conn_at i k) = snd_wscale (conns k i)" "snd_mss (conn_at i k) = snd_mss (conns k i)"
  "wscale_ok (conn_at i k) = wscale_ok (conns k i)" "sack_ok (conn_at i k) = sack_ok (conns k i)"
  "snd_wl1 (conn_at i k) = snd_wl1 (conns k i)" "snd_wl2 (conn_at i k) = snd_wl2 (conns k i)"
  "rcv_nxt (conn_at i k) = rcv_nxt (conns k i)" "rcv_wnd (conn_at i k) = rcv_wnd (conns k i)"
  "rx_ring (conn_at i k) = rx_ring (conns k i)" "rx_head (conn_at i k) = rx_head (conns k i)"
  "rx_tail (conn_at i k) = rx_tail (conns k i)" "rx_used (conn_at i k) = rx_used (conns k i)"
  "chunk_wanted (conn_at i k) = chunk_wanted (conns k i)" "pending_chunk (conn_at i k) = pending_chunk (conns k i)"
  "listener_port (conn_at i k) = listener_port (conns k i)" "accepted (conn_at i k) = accepted (conns k i)"
  "connect_failure (conn_at i k) = connect_failure (conns k i)" "generation (conn_at i k) = generation (conns k i)"
  "recv_waker (conn_at i k) = recv_waker (conns k i)" "send_waker (conn_at i k) = send_waker (conns k i)"
  "rtx_queue (conn_at i k) = rtx_queue (conns k i)" "rtx_bytes_in_flight (conn_at i k) = rtx_bytes_in_flight (conns k i)"
  "rtx_alloc_failed (conn_at i k) = rtx_alloc_failed (conns k i)" "rto_ms (conn_at i k) = rto_ms (conns k i)"
  "rtx_deadline_ms (conn_at i k) = rtx_deadline_ms (conns k i)" "rtx_backoff (conn_at i k) = rtx_backoff (conns k i)"
  "srtt_ms (conn_at i k) = srtt_ms (conns k i)" "rttvar_ms (conn_at i k) = rttvar_ms (conns k i)"
  "rtt_seeded (conn_at i k) = rtt_seeded (conns k i)" "rtt_anchor_ms (conn_at i k) = rtt_anchor_ms (conns k i)"
  "rtt_anchor_seq (conn_at i k) = rtt_anchor_seq (conns k i)" "rtt_anchor_active (conn_at i k) = rtt_anchor_active (conns k i)"
  "lifecycle_deadline_ms (conn_at i k) = lifecycle_deadline_ms (conns k i)"
  "fin_retx_count (conn_at i k) = fin_retx_count (conns k i)"
  "persist_deadline_ms (conn_at i k) = persist_deadline_ms (conns k i)"
  "persist_backoff (conn_at i k) = persist_backoff (conns k i)" "tlp_deadline_ms (conn_at i k) = tlp_deadline_ms (conns k i)"
  "tlp_count (conn_at i k) = tlp_count (conns k i)" "rack_deadline_ms (conn_at i k) = rack_deadline_ms (conns k i)"
  "rack_sack_hint (conn_at i k) = rack_sack_hint (conns k i)" "cwnd (conn_at i k) = cwnd (conns k i)"
  "dup_acks (conn_at i k) = dup_acks (conns k i)" "cc (conn_at i k) = cc (conns k i)"
  "next_free (conn_at i k) = next_free (conns k i)" "slot_index (conn_at i k) = slot_index (conns k i)"
  "tick_next (conn_at i k) = tick_next (conns k i)" "tick_in_list (conn_at i k) = tick_in_list (conns k i)"
  "ooo (conn_at i k) = ooo (conns k i)" "cenv (conn_at i k) = core_env k"
  by (simp_all add: conn_at_def attach_def tcb.extend_def conn.fields_def)

lemma truncate_fields [simp]:
  "state (tcb.truncate c) = state c" "remote_ip (tcb.truncate c) = remote_ip c" "local_ip (tcb.truncate c) = local_ip c"
  "local_port (tcb.truncate c) = local_port c" "remote_port (tcb.truncate c) = remote_port c"
  "snd_nxt (tcb.truncate c) = snd_nxt c" "snd_una (tcb.truncate c) = snd_una c" "snd_wnd (tcb.truncate c) = snd_wnd c"
  "snd_wscale (tcb.truncate c) = snd_wscale c" "snd_mss (tcb.truncate c) = snd_mss c" "wscale_ok (tcb.truncate c) = wscale_ok c"
  "sack_ok (tcb.truncate c) = sack_ok c" "snd_wl1 (tcb.truncate c) = snd_wl1 c" "snd_wl2 (tcb.truncate c) = snd_wl2 c"
  "rcv_nxt (tcb.truncate c) = rcv_nxt c" "rcv_wnd (tcb.truncate c) = rcv_wnd c" "rx_ring (tcb.truncate c) = rx_ring c"
  "rx_head (tcb.truncate c) = rx_head c" "rx_tail (tcb.truncate c) = rx_tail c" "rx_used (tcb.truncate c) = rx_used c"
  "chunk_wanted (tcb.truncate c) = chunk_wanted c" "pending_chunk (tcb.truncate c) = pending_chunk c"
  "listener_port (tcb.truncate c) = listener_port c" "accepted (tcb.truncate c) = accepted c"
  "connect_failure (tcb.truncate c) = connect_failure c" "generation (tcb.truncate c) = generation c"
  "recv_waker (tcb.truncate c) = recv_waker c" "send_waker (tcb.truncate c) = send_waker c"
  "rtx_queue (tcb.truncate c) = rtx_queue c" "rtx_bytes_in_flight (tcb.truncate c) = rtx_bytes_in_flight c"
  "rtx_alloc_failed (tcb.truncate c) = rtx_alloc_failed c" "rto_ms (tcb.truncate c) = rto_ms c"
  "rtx_deadline_ms (tcb.truncate c) = rtx_deadline_ms c" "rtx_backoff (tcb.truncate c) = rtx_backoff c"
  "srtt_ms (tcb.truncate c) = srtt_ms c" "rttvar_ms (tcb.truncate c) = rttvar_ms c" "rtt_seeded (tcb.truncate c) = rtt_seeded c"
  "rtt_anchor_ms (tcb.truncate c) = rtt_anchor_ms c" "rtt_anchor_seq (tcb.truncate c) = rtt_anchor_seq c"
  "rtt_anchor_active (tcb.truncate c) = rtt_anchor_active c" "lifecycle_deadline_ms (tcb.truncate c) = lifecycle_deadline_ms c"
  "fin_retx_count (tcb.truncate c) = fin_retx_count c" "persist_deadline_ms (tcb.truncate c) = persist_deadline_ms c"
  "persist_backoff (tcb.truncate c) = persist_backoff c" "tlp_deadline_ms (tcb.truncate c) = tlp_deadline_ms c"
  "tlp_count (tcb.truncate c) = tlp_count c" "rack_deadline_ms (tcb.truncate c) = rack_deadline_ms c"
  "rack_sack_hint (tcb.truncate c) = rack_sack_hint c" "cwnd (tcb.truncate c) = cwnd c" "dup_acks (tcb.truncate c) = dup_acks c"
  "cc (tcb.truncate c) = cc c" "next_free (tcb.truncate c) = next_free c" "slot_index (tcb.truncate c) = slot_index c"
  "tick_next (tcb.truncate c) = tick_next c" "tick_in_list (tcb.truncate c) = tick_in_list c" "ooo (tcb.truncate c) = ooo c"
  by (simp_all add: tcb.truncate_def)

lemma conn_put_fields [simp]:
  "conns (conn_put i c k) = (conns k)(i := tcb.truncate c)" "core_env (conn_put i c k) = cenv c"
  "nsegs (conn_put i c k) = nsegs k" "free_head (conn_put i c k) = free_head k" "hash (conn_put i c k) = hash k"
  "ring_ports (conn_put i c k) = ring_ports k" "rings (conn_put i c k) = rings k" "lst_ports (conn_put i c k) = lst_ports k"
  "lst_slots (conn_put i c k) = lst_slots k" "challenge_tokens (conn_put i c k) = challenge_tokens k"
  "challenge_last_ms (conn_put i c k) = challenge_last_ms k" "next_offset (conn_put i c k) = next_offset k"
  "isn_source (conn_put i c k) = isn_source k" "isn_drawn (conn_put i c k) = isn_drawn k"
  "tcp_registry (conn_put i c k) = tcp_registry k" "core_id (conn_put i c k) = core_id k" "num_cores (conn_put i c k) = num_cores k"
  "pool_capacity (conn_put i c k) = pool_capacity k"
  by (simp_all add: conn_put_def detach_def pool_capacity_def)

lemma chain_push_slot:
  assumes "chain (\<lambda>s. tick_next (cs s)) h ts" "i \<notin> set ts" "i \<noteq> NULL_SLOT" "tick_next c = h"
  shows "chain (\<lambda>s. tick_next ((cs(i := c)) s)) i (i # ts)"
proof -
  have "(\<lambda>s. tick_next ((cs(i := c)) s)) = (\<lambda>s. tick_next (cs s))(i := h)" using assms(4) by auto
  then show ?thesis using chain_push [OF assms(1-3)] by simp
qed

text \<open>The general form: the entry of the index that points at the slot, if any, must stay right.\<close>

lemma conn_put_gen:
  assumes ok: "pool_ok k fs ts D" and i: "i < pool_capacity k" "i \<notin> set fs"
    and id: "slot_index c' = slot_index (conns k i)" "next_free c' = next_free (conns k i)" and ln: "link (conn_at i k) c'"
    and en: "\<And>key. tcp_hash_find (hash k) key = Some i \<Longrightarrow> live c' \<and> conn_key c' = key"
  obtains ts' where "pool_ok (conn_put i c' k) fs ts' D" "ts' = ts \<or> ts' = i # ts"
proof -
  let ?k = "conn_put i c' k"
  have nf: "(\<lambda>s. next_free (conns ?k s)) = (\<lambda>s. next_free (conns k s))" using id(2) by auto
  have fl: "free_list_ok ?k fs"
    using ok i unfolding pool_ok_def free_list_ok_def nf by (auto simp: id(2))
  have sl: "slots_ok ?k" using ok by (auto simp: pool_ok_def slots_ok_def id(1))
  have ix: "index_ok ?k"
  proof (rule index_okI)
    fix key s assume "tcp_hash_find (hash ?k) key = Some s"
    then have "s < pool_capacity k \<and> live (conns k s) \<and> conn_key (conns k s) = key" using ok by (simp add: pool_ok_def index_ok_def)
    moreover have "live c' \<and> conn_key c' = key" if "s = i" using en that \<open>tcp_hash_find (hash ?k) key = Some s\<close> by simp
    ultimately show "s < pool_capacity ?k \<and> live (conns ?k s) \<and> conn_key (conns ?k s) = key"
      by (auto simp: live_def conn_key_def)
  qed (use ok in \<open>simp add: pool_ok_def index_ok_def\<close>)
  have tl: "chain (\<lambda>s. tick_next (conns k s)) (tick_head (core_env k)) ts" "distinct ts" "set ts \<inter> D = {}"
    "set ts \<union> D = {s. s < pool_capacity k \<and> tick_in_list (conns k s)}" using ok by (auto simp: pool_ok_def tick_list_ok_def)
  from ln [unfolded link_def] show thesis
  proof
    assume l: "tick_in_list c' = tick_in_list (conn_at i k) \<and> tick_next c' = tick_next (conn_at i k)
      \<and> tick_head (cenv c') = tick_head (cenv (conn_at i k))"
    have "(\<lambda>s. tick_next (conns ?k s)) = (\<lambda>s. tick_next (conns k s))" using l by auto
    moreover have "{s. s < pool_capacity k \<and> tick_in_list (conns ?k s)} = {s. s < pool_capacity k \<and> tick_in_list (conns k s)}"
      using l by auto
    ultimately have "tick_list_ok ?k ts D" using tl l unfolding tick_list_ok_def by simp
    with fl sl ix show thesis using that [of ts] by (simp add: pool_ok_def)
  next
    assume l: "\<not> tick_in_list (conn_at i k) \<and> tick_in_list c' \<and> tick_next c' = tick_head (cenv (conn_at i k))
      \<and> tick_head (cenv c') = slot_index (conn_at i k)"
    have n: "i \<notin> set ts" "i \<notin> D" using tl(4) l by auto
    have si: "slot_index (conns k i) = i" "i \<noteq> NULL_SLOT"
      using ok i(1) slot_not_null [of k i] by (auto simp: pool_ok_def slots_ok_def)
    have "chain (\<lambda>s. tick_next (((conns k)(i := tcb.truncate c')) s)) i (i # ts)"
      using tl(1) n(1) si(2) l by (intro chain_push_slot) auto
    moreover have "{s. s < pool_capacity k \<and> tick_in_list (conns ?k s)} = insert i {s. s < pool_capacity k \<and> tick_in_list (conns k s)}"
      using l i(1) by auto
    ultimately have "tick_list_ok ?k (i # ts) D" using tl l si n unfolding tick_list_ok_def by (simp del: chain.simps)
    with fl sl ix show thesis using that [of "i # ts"] by (simp add: pool_ok_def)
  qed
qed


lemma conn_put_ok:
  assumes ok: "pool_ok k fs ts D" and i: "i < pool_capacity k" "i \<notin> set fs" and t: "touches (conn_at i k) c'"
  obtains ts' where "pool_ok (conn_put i c' k) fs ts' D" "ts' = ts \<or> ts' = i # ts"
proof -
  have e: "live c' \<and> conn_key c' = key" if "tcp_hash_find (hash k) key = Some i" for key
    using that ok t by (auto simp: pool_ok_def index_ok_def touches_def ident_def live_def conn_key_def)
  show thesis
    by (rule conn_put_gen [OF ok i _ _ _ e]) (use t that in \<open>auto simp: touches_def ident_def\<close>)
qed

text \<open>A slot that is not live has no entry, so its identity is free to change.\<close>

lemma conn_put_dead_ok:
  assumes ok: "pool_ok k fs ts D" and i: "i < pool_capacity k" "i \<notin> set fs" and dead: "\<not> live (conns k i)"
    and id: "slot_index c' = slot_index (conns k i)" "next_free c' = next_free (conns k i)" and ln: "link (conn_at i k) c'"
  obtains ts' where "pool_ok (conn_put i c' k) fs ts' D" "ts' = ts \<or> ts' = i # ts"
proof -
  have "live c' \<and> conn_key c' = key" if "tcp_hash_find (hash k) key = Some i" for key
    using that ok dead by (auto simp: pool_ok_def index_ok_def)
  then show thesis using that by (rule conn_put_gen [OF ok i id ln])
qed

lemma pool_ok_index_insert:
  assumes ok: "pool_ok k fs ts D" and s: "s < pool_capacity k" "live (conns k s)"
  shows "pool_ok (k\<lparr>hash := tcp_hash_insert (conn_key (conns k s)) s (hash k)\<rparr>) fs ts D"
  using ok index_ok_insert(1) [of k s] s
  by (simp add: pool_ok_def slots_ok_def free_list_ok_def tick_list_ok_def pool_capacity_def)

lemma pool_ok_index_remove:
  assumes ok: "pool_ok k fs ts D"
  shows "pool_ok (k\<lparr>hash := tcp_hash_remove (conn_key c) (hash k)\<rparr>) fs ts D"
  using ok index_ok_remove(1) [of k c]
  by (simp add: pool_ok_def slots_ok_def free_list_ok_def tick_list_ok_def pool_capacity_def)

end
