(* ===== verification/Net_Wire.thy ===== *)
theory Net_Wire
  imports Tcp_Types
begin

text \<open>
  Frames on the wire: byte order and the parsed-frame summary of \<open>crates/net/src/types.rs\<close>, the
  internet checksum of \<open>checksum.rs\<close>, the Ethernet, IPv4 and IPv6 headers of \<open>ethernet.rs\<close>, \<open>ipv4.rs\<close>
  and \<open>ipv6.rs\<close>, the classification and flow hash of \<open>classify.rs\<close>, and the TCP header and frame
  builder of \<open>crates/net/tcp/src/send.rs\<close> with the header parse of \<open>receive.rs\<close>.

  A buffer is a byte list and a \<open>repr(C, packed)\<close> header a list of big-endian fields. A host integer
  stored without a swap (the checksum fields) goes out low byte first: the targets are
  little-endian. The IPv4 identification counter and the two MAC addresses are arguments.

  The lemmas show that what the frame builder emits the receive side reads back, field by field, and
  that both checksums verify.
\<close>

section \<open>Byte order\<close>

definition be_bytes :: "nat \<Rightarrow> 'a::len word \<Rightarrow> bytes" where
  "be_bytes n w = map (\<lambda>i. ucast (drop_bit (8 * (n - 1 - i)) w)) [0..<n]"

definition of_be :: "bytes \<Rightarrow> 'a::len word" where
  "of_be bs = fold (\<lambda>b acc. push_bit 8 acc OR ucast b) bs 0"

definition bswap :: "nat \<Rightarrow> 'a::len word \<Rightarrow> 'a word" where
  "bswap n w = of_be (rev (be_bytes n w))"

definition htons :: "u16 \<Rightarrow> u16" where "htons h = bswap 2 h"
definition ntohs :: "u16 \<Rightarrow> u16" where "ntohs n = bswap 2 n"
definition htonl :: "u32 \<Rightarrow> u32" where "htonl h = bswap 4 h"
definition ntohl :: "u32 \<Rightarrow> u32" where "ntohl n = bswap 4 n"

text \<open>A host integer in memory, low byte first.\<close>

definition le_bytes :: "nat \<Rightarrow> 'a::len word \<Rightarrow> bytes" where
  "le_bytes n w = rev (be_bytes n w)"

definition slice :: "nat \<Rightarrow> nat \<Rightarrow> bytes \<Rightarrow> bytes" where
  "slice off n bs = take n (drop off bs)"

definition PROTO_TCP :: u8 where "PROTO_TCP = 6"

section \<open>Internet checksum\<close>

fun sum_words :: "bytes \<Rightarrow> u32" where
  "sum_words (a # b # rest) = (ucast a OR push_bit 8 (ucast b)) + sum_words rest"
| "sum_words [a] = ucast a"
| "sum_words [] = 0"

function csum_fold :: "u32 \<Rightarrow> u16" where
  "csum_fold s = (if drop_bit 16 s \<noteq> 0 then csum_fold ((s AND 0xFFFF) + drop_bit 16 s) else ucast s)"
  by pat_completeness auto

lemma and_ffff: "unat (s AND 0xFFFF :: u32) = unat s mod 65536"
proof -
  have "s AND 0xFFFF = take_bit 16 s" by (simp add: take_bit_eq_mask mask_eq_decr_exp)
  then show ?thesis by (simp only: unsigned_take_bit_eq) (simp add: take_bit_eq_mod)
qed

lemma drop_16: "unat (drop_bit 16 s :: u32) = unat s div 65536"
  unfolding unat_drop_bit_eq by (simp add: drop_bit_eq_div)

lemma csum_step: "unat ((s AND 0xFFFF) + drop_bit 16 s :: u32) = unat s mod 65536 + unat s div 65536"
proof -
  have "unat s < 4294967296" using unsigned_less [of s] by simp
  then have "unat s mod 65536 + unat s div 65536 < 4294967296"
    using mod_less_divisor [of 65536 "unat s"] by linarith
  then show ?thesis by (simp add: unat_word_ariths and_ffff drop_16)
qed

termination csum_fold
proof (relation "measure unat")
  fix s :: u32 assume "drop_bit 16 s \<noteq> 0"
  then have "unat s div 65536 \<noteq> 0" using drop_16 [of s] by (metis unat_eq_0)
  moreover have "unat s = 65536 * (unat s div 65536) + unat s mod 65536" by simp
  ultimately have "unat s mod 65536 + unat s div 65536 < unat s" by linarith
  then show "((s AND 0xFFFF) + drop_bit 16 s, s) \<in> measure unat" by (simp add: csum_step)
qed simp

declare csum_fold.simps [simp del]

definition internet_checksum :: "bytes \<Rightarrow> u16" where
  "internet_checksum data = NOT (csum_fold (sum_words data))"

definition octets4 :: "u32 \<Rightarrow> bytes" where "octets4 a = be_bytes 4 a"
definition octets16 :: "128 word \<Rightarrow> bytes" where "octets16 a = be_bytes 16 a"

text \<open>The field \<open>Ipv4Addr::addr\<close>: the octets read as a host integer.\<close>

definition ne_addr :: "u32 \<Rightarrow> u32" where "ne_addr a = of_be (rev (octets4 a))"

fun l4_pseudo_partial :: "IpAddr \<Rightarrow> IpAddr \<Rightarrow> u8 \<Rightarrow> nat \<Rightarrow> u16" where
  "l4_pseudo_partial (V4 s) (V4 d) proto l4_len =
     csum_fold ((ne_addr s AND 0xFFFF) + drop_bit 16 (ne_addr s) + (ne_addr d AND 0xFFFF) + drop_bit 16 (ne_addr d)
       + push_bit 8 (ucast proto) + ucast (htons (of_nat l4_len)))"
| "l4_pseudo_partial (V6 s) (V6 d) proto l4_len =
     (let len_be = htonl (of_nat l4_len)
      in csum_fold (sum_words (octets16 s @ octets16 d) + (len_be AND 0xFFFF) + drop_bit 16 len_be + push_bit 8 (ucast proto)))"
| "l4_pseudo_partial (V4 s) (V6 d) proto l4_len = csum_fold 0"
| "l4_pseudo_partial (V6 s) (V4 d) proto l4_len = csum_fold 0"

definition l4_checksum_v6 :: "128 word \<Rightarrow> 128 word \<Rightarrow> u8 \<Rightarrow> bytes \<Rightarrow> u16" where
  "l4_checksum_v6 src dst proto data =
     (let len_be = htonl (of_nat (length data));
          acc = sum_words (octets16 src @ octets16 dst) + (len_be AND 0xFFFF) + drop_bit 16 len_be + push_bit 8 (ucast proto)
      in NOT (csum_fold (acc + sum_words data)))"

section \<open>Ethernet\<close>

definition ETHERTYPE_ARP :: u16 where "ETHERTYPE_ARP = 0x0806"
definition ETHERTYPE_IPV4 :: u16 where "ETHERTYPE_IPV4 = 0x0800"
definition ETHERTYPE_IPV6 :: u16 where "ETHERTYPE_IPV6 = 0x86dd"
definition ETH_HDR_LEN :: nat where "ETH_HDR_LEN = 14"
definition IPV4_HDR_LEN :: nat where "IPV4_HDR_LEN = 20"
definition IPV6_HDR_LEN :: nat where "IPV6_HDR_LEN = 40"
definition TCP_HDR_LEN :: nat where "TCP_HDR_LEN = 20"

definition ethernet_fill_header :: "bytes \<Rightarrow> bytes \<Rightarrow> u16 \<Rightarrow> bytes" where
  "ethernet_fill_header dst src ethertype = dst @ src @ be_bytes 2 ethertype"

definition ethernet_parse :: "bytes \<Rightarrow> (u16 \<times> bytes) option" where
  "ethernet_parse frame =
     (if length frame < ETH_HDR_LEN then None else Some (of_be (slice 12 2 frame), drop ETH_HDR_LEN frame))"

definition ethernet_parse_full :: "bytes \<Rightarrow> (bytes \<times> u16 \<times> bytes) option" where
  "ethernet_parse_full frame =
     (if length frame < ETH_HDR_LEN then None
      else Some (slice 6 6 frame, of_be (slice 12 2 frame), drop ETH_HDR_LEN frame))"

section \<open>IPv4 and IPv6\<close>

definition IPV4_ANY :: u32 where "IPV4_ANY = 0"
definition IPV4_BROADCAST :: u32 where "IPV4_BROADCAST = 0xFFFFFFFF"

record NetConfig =
  cfg_ip :: u32
  cfg_mask :: u32

record Ipv4Parsed =
  p4_src :: u32
  p4_dst :: u32
  p4_protocol :: u8
  p4_off :: nat
  p4_payload :: bytes

text \<open>The header before its checksum, with the field value to put there.\<close>

definition ipv4_header :: "u32 \<Rightarrow> u32 \<Rightarrow> u8 \<Rightarrow> nat \<Rightarrow> u16 \<Rightarrow> u16 \<Rightarrow> bytes" where
  "ipv4_header src dst proto total_len ip_id csum =
     [0x45, 0] @ be_bytes 2 (of_nat total_len :: u16) @ be_bytes 2 ip_id @ be_bytes 2 (0x4000 :: u16)
       @ [64, proto] @ le_bytes 2 csum @ octets4 src @ octets4 dst"

definition ipv4_fill_header :: "u32 \<Rightarrow> u32 \<Rightarrow> u8 \<Rightarrow> nat \<Rightarrow> u16 \<Rightarrow> bytes" where
  "ipv4_fill_header src dst proto total_len ip_id =
     ipv4_header src dst proto total_len ip_id (internet_checksum (ipv4_header src dst proto total_len ip_id 0))"

definition same_subnet :: "NetConfig \<Rightarrow> u32 \<Rightarrow> bool" where
  "same_subnet cfg ip =
     (if cfg_mask cfg = 0 then False else (ip AND cfg_mask cfg) = (cfg_ip cfg AND cfg_mask cfg))"

definition ipv4_parse :: "NetConfig \<Rightarrow> bytes \<Rightarrow> Ipv4Parsed option" where
  "ipv4_parse cfg data =
     (if length data < IPV4_HDR_LEN then None
      else let version = drop_bit 4 (data ! 0);
               ihl = unat (data ! 0 AND 0x0F);
               header_len = ihl * 4;
               total_len = unat (of_be (slice 2 2 data) :: u16)
      in if version \<noteq> 4 then None
         else if ihl < 5 then None
         else if total_len < header_len \<or> header_len > length data then None
         else let payload_end = min total_len (length data);
                  our_ip = cfg_ip cfg;
                  dst = of_be (slice 16 4 data);
                  mask = cfg_mask cfg
              in if dst \<noteq> our_ip \<and> dst \<noteq> IPV4_BROADCAST \<and> our_ip \<noteq> IPV4_ANY \<and> mask \<noteq> 0 \<and> (dst AND NOT mask) \<noteq> NOT mask
                 then None
                 else Some \<lparr>p4_src = of_be (slice 12 4 data), p4_dst = dst, p4_protocol = data ! 9,
                            p4_off = header_len, p4_payload = drop header_len (take payload_end data)\<rparr>)"

record Ipv6Parsed =
  p6_src :: "128 word"
  p6_dst :: "128 word"
  p6_next_header :: u8
  p6_hop_limit :: u8
  p6_payload :: bytes

definition ipv6_fill_header :: "128 word \<Rightarrow> 128 word \<Rightarrow> u8 \<Rightarrow> u8 \<Rightarrow> nat \<Rightarrow> bytes" where
  "ipv6_fill_header src dst next_header hop_limit payload_len =
     be_bytes 4 (0x60000000 :: u32) @ be_bytes 2 (of_nat payload_len :: u16) @ [next_header, hop_limit]
       @ octets16 src @ octets16 dst"

definition IPV6_MAX_PAYLOAD :: nat where "IPV6_MAX_PAYLOAD = 1500 - IPV6_HDR_LEN"

text \<open>\<open>ipv6_build\<close>, with the output buffer as its length and the packet as the result.\<close>

definition ipv6_build :: "128 word \<Rightarrow> 128 word \<Rightarrow> u8 \<Rightarrow> u8 \<Rightarrow> bytes \<Rightarrow> nat \<Rightarrow> bytes option" where
  "ipv6_build src dst next_header hop_limit payload out_len =
     (if length payload > IPV6_MAX_PAYLOAD then None
      else if out_len < IPV6_HDR_LEN + length payload then None
      else Some (ipv6_fill_header src dst next_header hop_limit (length payload) @ payload))"

definition ipv6_parse :: "bytes \<Rightarrow> Ipv6Parsed option" where
  "ipv6_parse data =
     (if length data < IPV6_HDR_LEN then None
      else if drop_bit 28 (of_be (slice 0 4 data) :: u32) \<noteq> 6 then None
      else let payload_len = unat (of_be (slice 4 2 data) :: u16);
               payload_end = min (IPV6_HDR_LEN + payload_len) (length data)
           in Some \<lparr>p6_src = of_be (slice 8 16 data), p6_dst = of_be (slice 24 16 data), p6_next_header = data ! 6,
                    p6_hop_limit = data ! 7, p6_payload = drop IPV6_HDR_LEN (take payload_end data)\<rparr>)"

section \<open>Classification\<close>

record ParsedL3 =
  l3_proto :: u8
  l3_src :: IpAddr
  l3_dst :: IpAddr
  l4_off :: nat
  l4_len :: nat
  snoop_mac :: "bytes option"

datatype Classified = Arp nat | Ip ParsedL3 | Drop

definition summarize_ipv4 :: "NetConfig \<Rightarrow> nat \<Rightarrow> bytes \<Rightarrow> bytes \<Rightarrow> ParsedL3 option" where
  "summarize_ipv4 cfg l3_off src_mac l3 =
     (case ipv4_parse cfg l3 of
        None \<Rightarrow> None
      | Some pkt \<Rightarrow> Some \<lparr>l3_proto = p4_protocol pkt, l3_src = V4 (p4_src pkt), l3_dst = V4 (p4_dst pkt),
          l4_off = l3_off + p4_off pkt, l4_len = length (p4_payload pkt),
          snoop_mac = (if same_subnet cfg (p4_src pkt) then Some src_mac else None)\<rparr>)"

definition summarize_ipv6 :: "(128 word \<Rightarrow> bool) \<Rightarrow> nat \<Rightarrow> bytes \<Rightarrow> bytes \<Rightarrow> ParsedL3 option" where
  "summarize_ipv6 accept_v6 l3_off src_mac l3 =
     (case ipv6_parse l3 of
        None \<Rightarrow> None
      | Some pkt \<Rightarrow>
          if \<not> accept_v6 (p6_dst pkt) then None
          else Some \<lparr>l3_proto = p6_next_header pkt, l3_src = V6 (p6_src pkt), l3_dst = V6 (p6_dst pkt),
                 l4_off = l3_off + IPV6_HDR_LEN, l4_len = length (p6_payload pkt), snoop_mac = Some src_mac\<rparr>)"

definition classify :: "NetConfig \<Rightarrow> (128 word \<Rightarrow> bool) \<Rightarrow> bytes \<Rightarrow> Classified" where
  "classify cfg accept_v6 frame =
     (case ethernet_parse_full frame of
        None \<Rightarrow> Drop
      | Some (src_mac, ethertype, l3) \<Rightarrow>
          let l3_off = ETH_HDR_LEN
          in if ethertype = ETHERTYPE_ARP then Arp l3_off
             else if ethertype = ETHERTYPE_IPV4
             then (case summarize_ipv4 cfg l3_off src_mac l3 of None \<Rightarrow> Drop | Some p \<Rightarrow> Ip p)
             else if ethertype = ETHERTYPE_IPV6
             then (case summarize_ipv6 accept_v6 l3_off src_mac l3 of None \<Rightarrow> Drop | Some p \<Rightarrow> Ip p)
             else Drop)"

definition l4 :: "ParsedL3 \<Rightarrow> bytes \<Rightarrow> bytes option" where
  "l4 p frame = (if l4_off p + l4_len p \<le> length frame then Some (slice (l4_off p) (l4_len p) frame) else None)"

definition FNV_BASIS :: u32 where "FNV_BASIS = 2166136261"

definition fnv_step :: "u32 \<Rightarrow> u32 \<Rightarrow> u32" where
  "fnv_step h v = (h XOR v) * 16777619"

definition fmix32 :: "u32 \<Rightarrow> u32" where
  "fmix32 h0 =
     (let h1 = h0 XOR drop_bit 16 h0;
          h2 = h1 * 0x85ebca6b;
          h3 = h2 XOR drop_bit 13 h2;
          h4 = h3 * 0xc2b2ae35
      in h4 XOR drop_bit 16 h4)"

definition flow_hash_v4 :: "u32 \<Rightarrow> u32 \<Rightarrow> u16 \<Rightarrow> u16 \<Rightarrow> nat \<Rightarrow> nat" where
  "flow_hash_v4 src_ip dst_ip src_port dst_port num_cores =
     (let h1 = fnv_step FNV_BASIS src_ip;
          h2 = fnv_step h1 dst_ip;
          h3 = fnv_step h2 (ucast src_port);
          h4 = fnv_step h3 (ucast dst_port)
      in unat (fmix32 h4) mod num_cores)"

definition flow_hash_v6 :: "bytes \<Rightarrow> bytes \<Rightarrow> u16 \<Rightarrow> u16 \<Rightarrow> nat \<Rightarrow> nat" where
  "flow_hash_v6 src dst src_port dst_port num_cores =
     (let h1 = fold (\<lambda>b h. fnv_step h (ucast b)) (src @ dst) FNV_BASIS;
          h2 = fnv_step h1 (ucast src_port);
          h3 = fnv_step h2 (ucast dst_port)
      in unat (fmix32 h3) mod num_cores)"

fun flow_owner :: "IpAddr \<Rightarrow> IpAddr \<Rightarrow> u16 \<Rightarrow> u16 \<Rightarrow> nat \<Rightarrow> nat" where
  "flow_owner (V4 s) (V4 d) src_port dst_port num_cores = flow_hash_v4 (ne_addr s) (ne_addr d) src_port dst_port num_cores"
| "flow_owner (V6 s) (V6 d) src_port dst_port num_cores = flow_hash_v6 (octets16 s) (octets16 d) src_port dst_port num_cores"
| "flow_owner (V4 s) (V6 d) src_port dst_port num_cores = 0"
| "flow_owner (V6 s) (V4 d) src_port dst_port num_cores = 0"

definition owner :: "ParsedL3 \<Rightarrow> bytes \<Rightarrow> nat \<Rightarrow> nat" where
  "owner parsed frame num_cores =
     (let seg = (case l4 parsed frame of Some b \<Rightarrow> b | None \<Rightarrow> []);
          (src_port, dst_port) = (if length seg \<ge> 4 then (of_be (slice 0 2 seg), of_be (slice 2 2 seg)) else (0, 0))
      in flow_owner (l3_src parsed) (l3_dst parsed) src_port dst_port num_cores)"

section \<open>TCP header and frame\<close>

record TcpHeader =
  th_src_port :: u16
  th_dst_port :: u16
  th_seq :: u32
  th_ack :: u32
  th_data_offset :: u8
  th_flags :: u8
  th_window :: u16

text \<open>The reads of the header in \<open>tcp_receive_inner\<close>.\<close>

definition parse_tcp_header :: "bytes \<Rightarrow> TcpHeader option" where
  "parse_tcp_header d =
     (if length d < TCP_HDR_LEN then None
      else Some \<lparr>th_src_port = of_be (slice 0 2 d), th_dst_port = of_be (slice 2 2 d), th_seq = of_be (slice 4 4 d),
             th_ack = of_be (slice 8 4 d), th_data_offset = d ! 12, th_flags = d ! 13, th_window = of_be (slice 14 2 d)\<rparr>)"

definition data_offset :: "TcpHeader \<Rightarrow> nat" where
  "data_offset h = unat (drop_bit 4 (th_data_offset h)) * 4"

definition tcp_header_bytes :: "SegmentMeta \<Rightarrow> nat \<Rightarrow> u16 \<Rightarrow> bytes" where
  "tcp_header_bytes m opt_len csum =
     be_bytes 2 (sm_src_port m) @ be_bytes 2 (sm_dst_port m) @ be_bytes 4 (sm_seq m) @ be_bytes 4 (sm_ack m)
       @ [push_bit 4 (of_nat ((TCP_HDR_LEN + opt_len) div 4)), sm_flags m] @ be_bytes 2 (of_nat (sm_window m) :: u16)
       @ le_bytes 2 csum @ [0, 0]"

definition tcp_segment :: "SegmentMeta \<Rightarrow> bytes \<Rightarrow> bytes \<Rightarrow> bytes" where
  "tcp_segment m options payload =
     (let tcp_seg_len = TCP_HDR_LEN + length options + length payload;
          csum = l4_pseudo_partial (sm_local_ip m) (sm_dst_ip m) PROTO_TCP tcp_seg_len
      in tcp_header_bytes m (length options) csum @ options @ payload)"

text \<open>The frame \<open>fill_tcp_frame_headers\<close> leaves in the buffer; mismatched families are unreachable.\<close>

definition fill_tcp_frame :: "bytes \<Rightarrow> bytes \<Rightarrow> u16 \<Rightarrow> SegmentMeta \<Rightarrow> bytes \<Rightarrow> bytes \<Rightarrow> bytes option" where
  "fill_tcp_frame our_mac dst_mac ip_id m options payload =
     (let tcp_seg_len = TCP_HDR_LEN + length options + length payload
      in case (sm_local_ip m, sm_dst_ip m) of
          (V4 s, V4 d) \<Rightarrow> Some (ethernet_fill_header dst_mac our_mac ETHERTYPE_IPV4
             @ ipv4_fill_header s d PROTO_TCP (as_u16 (IPV4_HDR_LEN + tcp_seg_len)) ip_id @ tcp_segment m options payload)
        | (V6 s, V6 d) \<Rightarrow> Some (ethernet_fill_header dst_mac our_mac ETHERTYPE_IPV6
             @ ipv6_fill_header s d PROTO_TCP 64 (as_u16 tcp_seg_len) @ tcp_segment m options payload)
        | _ \<Rightarrow> None)"

definition payload_offset :: "IpAddr \<Rightarrow> nat" where
  "payload_offset local_ip = (case local_ip of
     V4 _ \<Rightarrow> ETH_HDR_LEN + IPV4_HDR_LEN + TCP_HDR_LEN | V6 _ \<Rightarrow> ETH_HDR_LEN + IPV6_HDR_LEN + TCP_HDR_LEN)"


section \<open>Byte order round trips\<close>

lemma length_be_bytes [simp]: "length (be_bytes n w) = n" "length (le_bytes n w) = n"
  by (simp_all add: be_bytes_def le_bytes_def)

lemma length_octets [simp]: "length (octets4 a) = 4" "length (octets16 b) = 16"
  by (simp_all add: octets4_def octets16_def)

lemma be_bytes_Suc: "be_bytes (Suc n) w = be_bytes n (drop_bit 8 w) @ [ucast w]"
proof -
  have "drop_bit (8 * (Suc n - 1 - i)) w = drop_bit (8 * (n - 1 - i)) (drop_bit 8 w)" if "i < n" for i
  proof -
    have "8 * (Suc n - 1 - i) = 8 * (n - 1 - i) + 8" using that by simp
    then show ?thesis by (simp only: drop_bit_drop_bit)
  qed
  then show ?thesis by (simp add: be_bytes_def)
qed

lemma of_be_snoc: "of_be (bs @ [b]) = push_bit 8 (of_be bs) OR ucast b"
  by (simp add: of_be_def)

lemma of_be_be_bytes: "of_be (be_bytes n w) = take_bit (8 * n) w"
proof (induction n arbitrary: w)
  case 0
  then show ?case by (simp add: be_bytes_def of_be_def)
next
  case (Suc n)
  have "of_be (be_bytes (Suc n) w) = push_bit 8 (take_bit (8 * n) (drop_bit 8 w)) OR ucast (ucast w :: u8)"
    by (simp add: be_bytes_Suc of_be_snoc Suc)
  also have "\<dots> = take_bit (8 * Suc n) w"
    by (rule bit_word_eqI) (auto simp: bit_simps not_le)
  finally show ?case .
qed

lemma of_be_simps [simp]:
  "of_be (be_bytes 2 w) = (w :: u16)" "of_be (be_bytes 4 v) = (v :: u32)"
  "of_be (octets4 v) = v" "of_be (octets16 x) = (x :: 128 word)"
  by (simp_all add: of_be_be_bytes octets4_def octets16_def take_bit_length_eq [where 'a = 16, simplified]
      take_bit_length_eq [where 'a = 32, simplified] take_bit_length_eq [where 'a = 128, simplified])

section \<open>One's complement sums\<close>

fun wsum :: "bytes \<Rightarrow> nat" where
  "wsum (a # b # rest) = unat a + 256 * unat b + wsum rest"
| "wsum [a] = unat a"
| "wsum [] = 0"

lemma wsum_append: "even (length xs) \<Longrightarrow> wsum (xs @ ys) = wsum xs + wsum ys"
  by (induction xs rule: wsum.induct) simp_all

lemma byte_lt: "unat (b :: u8) \<le> 255"
proof -
  have "unat b < 256" using unsigned_less [of b] by simp
  then show ?thesis by simp
qed

lemma unat_ucast_byte: "unat (ucast (b :: u8) :: u32) = unat b"
  using byte_lt [of b] by (simp add: unsigned_ucast_eq take_bit_nat_eq_self)

lemma wsum_bound: "2 * wsum xs \<le> 65535 * (length xs + 1)"
proof (induction xs rule: wsum.induct)
  case (1 a b rest)
  then show ?case using byte_lt [of a] byte_lt [of b] by simp
next
  case (2 a)
  then show ?case using byte_lt [of a] by simp
qed simp

lemma word_of_bytes: "unat (ucast a OR push_bit 8 (ucast b) :: u32) = unat (a :: u8) + 256 * unat (b :: u8)"
proof -
  have "ucast a OR push_bit 8 (ucast b) = (ucast a + push_bit 8 (ucast b) :: u32)"
    by (rule disjunctive_add [symmetric]) (auto simp: bit_simps dest: bit_imp_le_length)
  then show ?thesis using byte_lt [of a] byte_lt [of b]
    by (simp add: push_bit_eq_mult unat_word_ariths unat_ucast_byte)
qed

lemma unat_sum_words: "length xs \<le> 131000 \<Longrightarrow> unat (sum_words xs) = wsum xs"
proof (induction xs rule: wsum.induct)
  case (1 a b rest)
  moreover have "wsum (a # b # rest) < 4294967296" using wsum_bound [of "a # b # rest"] "1.prems" by simp
  ultimately show ?case by (simp add: unat_word_ariths word_of_bytes)
next
  case (2 a)
  then show ?case by (simp add: unat_ucast_byte)
qed simp

lemma unat_of_nat_word: "unat (x :: u32) = k \<Longrightarrow> of_nat k = x"
  by auto

lemma csum_fold_value:
  "unat (csum_fold s) mod 65535 = unat s mod 65535" "csum_fold s = 0 \<longleftrightarrow> s = 0"
proof (atomize (full), induction s rule: csum_fold.induct)
  case (1 s)
  show ?case
  proof (cases "drop_bit 16 s = 0")
    case True
    then have "unat s div 65536 = 0" using drop_16 [of s] by simp
    then have lt: "unat s < 65536" by (simp add: div_eq_0_iff)
    then have "unat (ucast s :: u16) = unat s" by (simp add: unsigned_ucast_eq take_bit_nat_eq_self)
    moreover from this have "(ucast s :: u16) = 0 \<longleftrightarrow> s = 0" by (metis unat_eq_0)
    ultimately show ?thesis using True by (simp add: csum_fold.simps)
  next
    case False
    let ?n = "unat s"
    have "?n mod 65536 + ?n div 65536 + 65535 * (?n div 65536) = ?n" by simp
    then have "(?n mod 65536 + ?n div 65536) mod 65535 = ?n mod 65535" by (metis mod_mult_self2)
    moreover have "(s AND 0xFFFF) + drop_bit 16 s = 0 \<longleftrightarrow> s = 0"
    proof -
      have "(s AND 0xFFFF) + drop_bit 16 s = 0 \<longleftrightarrow> ?n mod 65536 + ?n div 65536 = 0" by (metis csum_step unat_eq_0)
      also have "\<dots> \<longleftrightarrow> ?n = 0" by (metis add_is_0 div_0 mod_0 div_mult_mod_eq mult_0)
      finally show ?thesis by (simp add: unat_eq_0)
    qed
    ultimately show ?thesis using "1.IH" [OF False] False csum_step [of s] by (simp add: csum_fold.simps [of s])
  qed
qed

lemma csum_fold_full: "unat s mod 65535 = 0 \<Longrightarrow> s \<noteq> 0 \<Longrightarrow> csum_fold s = 0xFFFF"
proof -
  assume a: "unat s mod 65535 = 0" "s \<noteq> 0"
  have "unat (csum_fold s) < 65536" using unsigned_less [of "csum_fold s"] by simp
  moreover have "unat (csum_fold s) mod 65535 = 0" "unat (csum_fold s) \<noteq> 0"
    using csum_fold_value [of s] a by (simp_all add: unat_eq_0)
  moreover obtain q where "unat (csum_fold s) = 65535 * q" using calculation(2) by (auto simp: mod_eq_0_iff_dvd elim: dvdE)
  ultimately have "unat (csum_fold s) = 65535" by (cases q) (auto simp: less_Suc_eq)
  then show ?thesis by (simp add: word_unat_eq_iff)
qed

lemma unat_not16: "unat (NOT w :: u16) = 65535 - unat w"
proof -
  have "NOT w = - 1 - w" by (simp add: not_eq_complement)
  then show ?thesis using unat_sub [of w "- 1"] by (simp add: unsigned_minus_1_eq_mask mask_eq_exp_minus_1)
qed


section \<open>Checksums verify\<close>

lemma unat_ucast16: "unat (ucast (w :: u16) :: u32) = unat w"
proof -
  have "unat w < 65536" using unsigned_less [of w] by simp
  then show ?thesis by (simp add: unsigned_ucast_eq take_bit_nat_eq_self)
qed

lemma be_bytes_2: "be_bytes 2 w = [ucast (drop_bit 8 w), ucast w]"
  by (simp add: be_bytes_def upt_rec)

lemma be_bytes_4: "be_bytes 4 w = [ucast (drop_bit 24 w), ucast (drop_bit 16 w), ucast (drop_bit 8 w), ucast w]"
  by (simp add: be_bytes_def upt_rec)

lemma unat_low_byte: "unat (ucast w :: u8) = unat (w :: 'a::len word) mod 256"
  by (simp add: unsigned_ucast_eq take_bit_eq_mod)

lemma unat_shifted_byte: "unat (ucast (drop_bit n w) :: u8) = unat (w :: 'a::len word) div 2 ^ n mod 256"
  unfolding unat_low_byte unat_drop_bit_eq by (simp add: drop_bit_eq_div)

lemma wsum_le_2: "wsum (le_bytes 2 (c :: u16)) = unat c"
proof -
  have "unat c < 65536" using unsigned_less [of c] by simp
  then have "unat c div 256 < 256" by simp
  then show ?thesis
    unfolding le_bytes_def be_bytes_2 using unat_shifted_byte [of 8 c] unat_low_byte [of c] by simp
qed

lemma csum_of_nat:
  assumes "w < 4294967296"
  shows "unat (csum_fold (of_nat w)) mod 65535 = w mod 65535" "csum_fold (of_nat w) = 0 \<longleftrightarrow> w = 0"
    "unat (csum_fold (of_nat w)) \<le> 65535"
proof -
  have u: "unat (of_nat w :: u32) = w" using assms by (simp add: unat_of_nat)
  show "unat (csum_fold (of_nat w)) mod 65535 = w mod 65535" using csum_fold_value(1) [of "of_nat w"] u by simp
  have "(of_nat w :: u32) = 0 \<longleftrightarrow> w = 0" using u by (metis unat_eq_0)
  then show "csum_fold (of_nat w) = 0 \<longleftrightarrow> w = 0" using csum_fold_value(2) [of "of_nat w"] by simp
  have "unat (csum_fold (of_nat w)) < 65536" using unsigned_less [of "csum_fold (of_nat w)"] by simp
  then show "unat (csum_fold (of_nat w)) \<le> 65535" by simp
qed

lemma fill_checksum_sum:
  assumes "unat f mod 65535 = w mod 65535" "w = 0 \<Longrightarrow> f = 0" "unat (s :: u32) = w + (65535 - unat (f :: u16))"
  shows "csum_fold s = 0xFFFF"
proof (rule csum_fold_full)
  have "unat f < 65536" using unsigned_less [of f] by simp
  then have "(unat f + (65535 - unat f)) mod 65535 = 0" by simp
  then have "(w + (65535 - unat f)) mod 65535 = 0" using assms(1) by (metis mod_add_left_eq)
  then show "unat s mod 65535 = 0" using assms(3) by simp
  have "w + (65535 - unat f) \<noteq> 0" using assms(2) by auto
  then show "s \<noteq> 0" using assms(3) by (metis unat_eq_0)
qed

text \<open>A checksum computed with the field zero and stored low byte first verifies, whatever stands
  before the field on an even offset and after it.\<close>

lemma checksum_verifies:
  assumes ev: "even (length xs)" and len: "length xs + length ys \<le> 130000"
  shows "internet_checksum (xs @ le_bytes 2 (internet_checksum (xs @ le_bytes 2 (0 :: u16) @ ys)) @ ys) = 0"
proof -
  let ?w = "wsum xs + wsum ys"
  let ?f = "csum_fold (sum_words (xs @ le_bytes 2 (0 :: u16) @ ys))"
  have z: "wsum (xs @ le_bytes 2 c @ ys) = ?w + unat c" for c :: u16
    using ev wsum_le_2 [of c] by (simp add: wsum_append)
  have u: "unat (sum_words (xs @ le_bytes 2 c @ ys)) = ?w + unat c" for c :: u16
    using len by (simp add: unat_sum_words z)
  have b: "?w < 4294900000" using wsum_bound [of xs] wsum_bound [of ys] len by simp
  have "of_nat ?w = sum_words (xs @ le_bytes 2 (0 :: u16) @ ys)" using u [of 0] b unfolding word_unat_eq_iff unat_of_nat by simp
  moreover have "?w < 4294967296" using b by simp
  ultimately have "unat ?f mod 65535 = ?w mod 65535" "?w = 0 \<Longrightarrow> ?f = 0" using csum_of_nat [of ?w] by metis+
  then have "csum_fold (sum_words (xs @ le_bytes 2 (NOT ?f) @ ys)) = 0xFFFF"
    using u [of "NOT ?f"] by (intro fill_checksum_sum [of ?f ?w]) (simp_all add: unat_not16)
  then show ?thesis by (simp add: internet_checksum_def)
qed

text \<open>The pseudo header of RFC 793 and RFC 8200 as bytes.\<close>

fun pseudo_header :: "IpAddr \<Rightarrow> IpAddr \<Rightarrow> u8 \<Rightarrow> nat \<Rightarrow> bytes" where
  "pseudo_header (V4 s) (V4 d) proto n = octets4 s @ octets4 d @ [0, proto] @ be_bytes 2 (of_nat n :: u16)"
| "pseudo_header (V6 s) (V6 d) proto n = octets16 s @ octets16 d @ be_bytes 4 (of_nat n :: u32) @ [0, 0, 0, proto]"
| "pseudo_header (V4 s) (V6 d) proto n = []"
| "pseudo_header (V6 s) (V4 d) proto n = []"

lemma unat_push_or: "unat (acc :: u32) < 2 ^ 24 \<Longrightarrow> unat (push_bit 8 acc OR ucast (b :: u8)) = 256 * unat acc + unat b"
proof -
  assume a: "unat acc < 2 ^ 24"
  have "push_bit 8 acc OR ucast b = push_bit 8 acc + ucast b"
    by (rule disjunctive_add [symmetric]) (auto simp: bit_simps dest: bit_imp_le_length)
  then show ?thesis using a byte_lt [of b] by (simp add: push_bit_eq_mult unat_word_ariths unat_ucast_byte)
qed

lemma unat_of_be4: "unat (of_be [a, b, c, d] :: u32) = 16777216 * unat a + 65536 * unat b + 256 * unat c + unat d"
proof -
  let ?x = "ucast a :: u32" and ?y = "push_bit 8 (ucast a) OR ucast b :: u32"
  have x: "unat ?x = unat a" by (rule unat_ucast_byte)
  have y: "unat ?y = 256 * unat a + unat b" using unat_push_or [of ?x b] x byte_lt [of a] by simp
  have z: "unat (push_bit 8 ?y OR ucast c) = 65536 * unat a + 256 * unat b + unat c"
    using unat_push_or [of ?y c] y byte_lt [of a] byte_lt [of b] by simp
  show ?thesis
    using unat_push_or [of "push_bit 8 ?y OR ucast c" d] z byte_lt [of a] byte_lt [of b] byte_lt [of c] by (simp add: of_be_def)
qed

lemma ne_addr_halves:
  "unat (ne_addr a AND 0xFFFF) + unat (drop_bit 16 (ne_addr a)) = wsum (octets4 a)"
proof -
  obtain p q r s where o: "octets4 a = [p, q, r, s]" by (simp add: octets4_def be_bytes_4)
  have "unat (ne_addr a) = 16777216 * unat s + 65536 * unat r + 256 * unat q + unat p"
    by (simp add: ne_addr_def o unat_of_be4)
  also have "\<dots> = 65536 * (256 * unat s + unat r) + (256 * unat q + unat p)" by simp
  finally have "unat (ne_addr a) = 65536 * (256 * unat s + unat r) + (256 * unat q + unat p)" .
  moreover have "256 * unat q + unat p < 65536" using byte_lt [of p] byte_lt [of q] by simp
  moreover have "(65536 * m + n) mod 65536 = n" "(65536 * m + n) div 65536 = m" if "n < 65536" for m n :: nat using that by simp_all
  ultimately show ?thesis unfolding and_ffff drop_16 o by (simp only:) simp
qed


lemma unat_of_be2: "unat (of_be [a, b] :: u16) = 256 * unat a + unat b"
proof -
  have u: "unat (ucast a :: u16) = unat a" "unat (ucast b :: u16) = unat b"
    using byte_lt [of a] byte_lt [of b] by (simp_all add: unsigned_ucast_eq take_bit_nat_eq_self)
  have "push_bit 8 (ucast a) OR ucast b = (push_bit 8 (ucast a) + ucast b :: u16)"
    by (rule disjunctive_add [symmetric]) (auto simp: bit_simps dest: bit_imp_le_length)
  then show ?thesis using byte_lt [of a] byte_lt [of b] u
    by (simp add: of_be_def push_bit_eq_mult unat_word_ariths)
qed

lemma htons_wsum: "unat (ucast (htons x) :: u32) = wsum (be_bytes 2 x)"
  unfolding unat_ucast16 htons_def bswap_def be_bytes_2 by (simp add: unat_of_be2)

lemma proto_wsum: "unat (push_bit 8 (ucast p) :: u32) = 256 * unat (p :: u8)"
  using byte_lt [of p] by (simp add: push_bit_eq_mult unat_word_ariths unat_ucast_byte)

lemma add_nat: "unat (x :: u32) + unat y < 4294967296 \<Longrightarrow> unat (x + y) = unat x + unat y"
  by (simp add: unat_word_ariths)

definition same_family :: "IpAddr \<Rightarrow> IpAddr \<Rightarrow> bool" where
  "same_family a b = (case (a, b) of (V4 _, V4 _) \<Rightarrow> True | (V6 _, V6 _) \<Rightarrow> True | _ \<Rightarrow> False)"

lemma pseudo_header_length: "length (pseudo_header s d proto n) \<le> 40" "even (length (pseudo_header s d proto n))"
  by (cases s; cases d; simp)+

lemma l4_pseudo_wsum:
  assumes "same_family s d"
  shows "l4_pseudo_partial s d proto n = csum_fold (of_nat (wsum (pseudo_header s d proto n)))"
proof -
  have to: "x = of_nat k" if "unat x = k" for x :: u32 and k using that by auto
  consider a b where "s = V4 a" "d = V4 b" | a b where "s = V6 a" "d = V6 b"
    using assms by (cases s; cases d) (auto simp: same_family_def)
  then show ?thesis
  proof cases
    case (1 a b)
    have w: "wsum (octets4 a) \<le> 163840" "wsum (octets4 b) \<le> 163840" "wsum (be_bytes 2 (of_nat n :: u16)) \<le> 163840"
      using wsum_bound [of "octets4 a"] wsum_bound [of "octets4 b"] wsum_bound [of "be_bytes 2 (of_nat n :: u16)"] by simp_all
    note h = ne_addr_halves [of a] ne_addr_halves [of b]
    have "unat ((ne_addr a AND 0xFFFF) + drop_bit 16 (ne_addr a) + (ne_addr b AND 0xFFFF) + drop_bit 16 (ne_addr b)
       + push_bit 8 (ucast proto) + ucast (htons (of_nat n))) = wsum (pseudo_header s d proto n)"
      using h w byte_lt [of proto]
      by (simp add: add_nat htons_wsum proto_wsum 1 wsum_append)
    from to [OF this] show ?thesis by (simp only: 1 l4_pseudo_partial.simps)
  next
    case (2 a b)
    have w: "wsum (octets16 a @ octets16 b) \<le> 1638400" "wsum (be_bytes 4 (of_nat n :: u32)) \<le> 163840"
      using wsum_bound [of "octets16 a @ octets16 b"] wsum_bound [of "be_bytes 4 (of_nat n :: u32)"] by simp_all
    have l: "htonl (of_nat n) = ne_addr (of_nat n)" by (simp add: htonl_def bswap_def ne_addr_def octets4_def)
    have "unat (sum_words (octets16 a @ octets16 b)) = wsum (octets16 a @ octets16 b)" by (simp add: unat_sum_words)
    then have "unat (sum_words (octets16 a @ octets16 b) + (htonl (of_nat n) AND 0xFFFF) + drop_bit 16 (htonl (of_nat n))
        + push_bit 8 (ucast proto)) = wsum (pseudo_header s d proto n)"
      using ne_addr_halves [of "of_nat n"] w byte_lt [of proto]
      by (simp add: l add_nat proto_wsum 2 wsum_append octets4_def)
    from to [OF this] show ?thesis by (simp only: 2 l4_pseudo_partial.simps Let_def)
  qed
qed

text \<open>The partial sum in the field and the checksum finished over the segment give a checksum the
  receiver of the pseudo header and the segment accepts.\<close>

lemma l4_checksum_verifies:
  assumes fam: "same_family s d" and ev: "even (length xs)" and len: "length xs + length ys \<le> 130000"
    and p: "p = l4_pseudo_partial s d proto n" and c: "c = internet_checksum (xs @ le_bytes 2 p @ ys)"
  shows "csum_fold (sum_words (pseudo_header s d proto n @ xs @ le_bytes 2 c @ ys)) = 0xFFFF"
proof -
  let ?P = "wsum (pseudo_header s d proto n)" and ?w = "wsum xs + wsum ys"
  define f where "f = csum_fold (sum_words (xs @ le_bytes 2 p @ ys))"
  have pb: "?P \<le> 1400000" using wsum_bound [of "pseudo_header s d proto n"] pseudo_header_length(1) [of s d proto n] by simp
  have wb: "?w \<le> 4260000000" using wsum_bound [of xs] wsum_bound [of ys] len by simp
  have pp: "unat p mod 65535 = ?P mod 65535" "p = 0 \<longleftrightarrow> ?P = 0" "unat p \<le> 65535"
    unfolding p l4_pseudo_wsum [OF fam] using csum_of_nat [of ?P] pb by auto
  have z: "wsum (xs @ le_bytes 2 x @ ys) = ?w + unat x" for x :: u16
    using ev wsum_le_2 [of x] by (simp add: wsum_append)
  have "unat (sum_words (xs @ le_bytes 2 p @ ys)) = ?w + unat p" using len z [of p] by (simp add: unat_sum_words)
  then have "f = csum_fold (of_nat (?w + unat p))" unfolding f_def by (metis unat_of_nat_word)
  moreover have "?w + unat p < 4294967296" using wb pp(3) by simp
  ultimately have f: "unat f mod 65535 = (?w + unat p) mod 65535" "f = 0 \<longleftrightarrow> ?w + unat p = 0"
    using csum_of_nat [of "?w + unat p"] by simp_all
  have "unat f mod 65535 = (?P + ?w) mod 65535" unfolding f(1) using mod_add_cong [OF refl pp(1), of ?w] by (simp add: add.commute)
  moreover have "f = 0" if "?P + ?w = 0" using that f(2) pp(2) by simp
  moreover have "unat (sum_words (pseudo_header s d proto n @ xs @ le_bytes 2 c @ ys)) = ?P + ?w + (65535 - unat f)"
    using z [of c] len pseudo_header_length [of s d proto n]
    by (simp add: unat_sum_words wsum_append c internet_checksum_def f_def [symmetric] unat_not16)
  ultimately show ?thesis by (rule fill_checksum_sum)
qed


section \<open>Headers read back\<close>

lemma ethernet_parse_fill:
  assumes "length dst = 6" "length src = 6"
  shows "ethernet_parse_full (ethernet_fill_header dst src et @ rest) = Some (src, et, rest)"
  using assms by (simp add: ethernet_parse_full_def ethernet_fill_header_def slice_def ETH_HDR_LEN_def)

lemma ipv4_header_length [simp]: "length (ipv4_header s d proto n ip_id c) = 20"
  by (simp add: ipv4_header_def)

text \<open>Trailing padding of the Ethernet frame is cut off.\<close>

definition ipv4_accepts :: "NetConfig \<Rightarrow> u32 \<Rightarrow> bool" where
  "ipv4_accepts cfg dst \<longleftrightarrow> dst = cfg_ip cfg \<or> dst = IPV4_BROADCAST \<or> cfg_ip cfg = IPV4_ANY \<or> cfg_mask cfg = 0
     \<or> (dst AND NOT (cfg_mask cfg)) = NOT (cfg_mask cfg)"

lemma ipv4_parse_fill:
  assumes n: "n = 20 + length payload" "n \<le> 65535" and acc: "ipv4_accepts cfg d"
  shows "ipv4_parse cfg (ipv4_fill_header s d proto n ip_id @ payload @ pad)
    = Some \<lparr>p4_src = s, p4_dst = d, p4_protocol = proto, p4_off = 20, p4_payload = payload\<rparr>"
proof -
  let ?d = "ipv4_header s d proto n ip_id (internet_checksum (ipv4_header s d proto n ip_id 0)) @ payload @ pad"
  have f: "?d ! 0 = 0x45" "slice 2 2 ?d = be_bytes 2 (of_nat n :: u16)" "slice 12 4 ?d = octets4 s" "slice 16 4 ?d = octets4 d"
    "?d ! 9 = proto"
    by (simp_all add: ipv4_header_def slice_def nth_append)
  have "unat (of_nat n :: u16) = n" using n(2) by (simp add: unat_of_nat)
  moreover have "drop 20 (take n ?d) = payload" using n(1) by simp
  ultimately show ?thesis
    using n acc unfolding ipv4_parse_def ipv4_fill_header_def f
    by (auto simp: IPV4_HDR_LEN_def Let_def ipv4_accepts_def)
qed

lemma ipv6_parse_fill:
  assumes n: "n = length payload" "n \<le> 65535"
  shows "ipv6_parse (ipv6_fill_header s d nh hl n @ payload @ pad)
    = Some \<lparr>p6_src = s, p6_dst = d, p6_next_header = nh, p6_hop_limit = hl, p6_payload = payload\<rparr>"
proof -
  let ?d = "ipv6_fill_header s d nh hl n @ payload @ pad"
  have l: "length (ipv6_fill_header s d nh hl n) = 40" by (simp add: ipv6_fill_header_def)
  have f: "slice 0 4 ?d = be_bytes 4 (0x60000000 :: u32)" "slice 4 2 ?d = be_bytes 2 (of_nat n :: u16)"
    "slice 8 16 ?d = octets16 s" "slice 24 16 ?d = octets16 d" "?d ! 6 = nh" "?d ! 7 = hl"
    by (simp_all add: ipv6_fill_header_def slice_def nth_append)
  have "unat (of_nat n :: u16) = n" using n(2) by (simp add: unat_of_nat)
  moreover have "drop 40 (take (40 + n) ?d) = payload" using n(1) l by simp
  moreover have "drop_bit 28 (0x60000000 :: u32) = 6" by simp
  ultimately show ?thesis
    using n l unfolding ipv6_parse_def f of_be_simps by (simp add: IPV6_HDR_LEN_def Let_def)
qed

lemma tcp_header_length [simp]: "length (tcp_header_bytes m n c) = 20"
  by (simp add: tcp_header_bytes_def)

lemma tcp_segment_length: "length (tcp_segment m options payload) = 20 + length options + length payload"
  by (simp add: tcp_segment_def Let_def)

definition header_of :: "SegmentMeta \<Rightarrow> bytes \<Rightarrow> TcpHeader" where
  "header_of m options = \<lparr>th_src_port = sm_src_port m, th_dst_port = sm_dst_port m, th_seq = sm_seq m, th_ack = sm_ack m,
     th_data_offset = push_bit 4 (of_nat ((20 + length options) div 4)), th_flags = sm_flags m, th_window = of_nat (sm_window m)\<rparr>"

lemma parse_tcp_segment: "parse_tcp_header (tcp_segment m options payload) = Some (header_of m options)"
proof -
  obtain c where seg: "tcp_segment m options payload = tcp_header_bytes m (length options) c @ options @ payload"
    by (simp add: tcp_segment_def Let_def)
  let ?d = "tcp_header_bytes m (length options) c @ options @ payload"
  have f: "slice 0 2 ?d = be_bytes 2 (sm_src_port m)" "slice 2 2 ?d = be_bytes 2 (sm_dst_port m)"
    "slice 4 4 ?d = be_bytes 4 (sm_seq m)" "slice 8 4 ?d = be_bytes 4 (sm_ack m)"
    "?d ! 12 = push_bit 4 (of_nat ((20 + length options) div 4))" "?d ! 13 = sm_flags m"
    "slice 14 2 ?d = be_bytes 2 (of_nat (sm_window m) :: u16)"
    by (simp_all add: tcp_header_bytes_def slice_def nth_append TCP_HDR_LEN_def)
  show ?thesis unfolding seg parse_tcp_header_def f by (simp add: header_of_def TCP_HDR_LEN_def)
qed

lemma data_offset_header:
  assumes "length options mod 4 = 0" "length options \<le> 40"
  shows "data_offset (header_of m options) = 20 + length options"
proof -
  obtain q where q: "length options = 4 * q" using assms(1) by (auto simp: mod_eq_0_iff_dvd elim: dvdE)
  have b: "5 + q < 16" using assms(2) q by simp
  have "unat (push_bit 4 (of_nat (5 + q)) :: u8) = 16 * (5 + q)"
    using b by (simp add: push_bit_eq_mult unat_word_ariths unat_of_nat del: of_nat_add)
  then have "unat (drop_bit 4 (push_bit 4 (of_nat (5 + q)) :: u8)) = 5 + q"
    unfolding unat_drop_bit_eq by (simp add: drop_bit_eq_div)
  moreover have "(20 + length options) div 4 = 5 + q" using q by simp
  ultimately show ?thesis using q by (simp add: data_offset_def header_of_def)
qed


definition dst_accepted :: "NetConfig \<Rightarrow> (128 word \<Rightarrow> bool) \<Rightarrow> IpAddr \<Rightarrow> bool" where
  "dst_accepted cfg accept_v6 ip = (case ip of V4 d \<Rightarrow> ipv4_accepts cfg d | V6 d \<Rightarrow> accept_v6 d)"

lemma slice_in_frame: "length hs = a \<Longrightarrow> length seg = n \<Longrightarrow> slice a n (hs @ seg @ pad) = seg"
  by (simp add: slice_def)

lemma classify_tcp_frame:
  assumes macs: "length our_mac = 6" "length dst_mac = 6"
    and frame: "fill_tcp_frame our_mac dst_mac ip_id m options payload = Some frame"
    and len: "20 + (20 + length options + length payload) \<le> 65535" and acc: "dst_accepted cfg accept_v6 (sm_dst_ip m)"
  obtains p where "classify cfg accept_v6 (frame @ pad) = Ip p" "l3_proto p = PROTO_TCP" "l3_src p = sm_local_ip m"
    "l3_dst p = sm_dst_ip m" "l4 p (frame @ pad) = Some (tcp_segment m options payload)"
proof -
  let ?seg = "tcp_segment m options payload" and ?n = "20 + length options + length payload"
  have sl: "length ?seg = ?n" by (rule tcp_segment_length)
  consider (v4) a b where "sm_local_ip m = V4 a" "sm_dst_ip m = V4 b" | (v6) a b where "sm_local_ip m = V6 a" "sm_dst_ip m = V6 b"
    using frame by (auto simp: fill_tcp_frame_def Let_def split: IpAddr.splits)
  then show thesis
  proof cases
    case v4
    let ?eth = "ethernet_fill_header dst_mac our_mac ETHERTYPE_IPV4"
    define ip_hdr where "ip_hdr = ipv4_fill_header a b PROTO_TCP (20 + ?n) ip_id"
    have fr: "frame @ pad = ?eth @ ip_hdr @ ?seg @ pad"
      using frame v4 len by (simp add: ip_hdr_def fill_tcp_frame_def as_u16_id IPV4_HDR_LEN_def TCP_HDR_LEN_def)
    have ip: "ipv4_parse cfg (ip_hdr @ ?seg @ pad) = Some \<lparr>p4_src = a, p4_dst = b, p4_protocol = PROTO_TCP, p4_off = 20, p4_payload = ?seg\<rparr>"
      using ipv4_parse_fill [of "20 + ?n" ?seg cfg b a PROTO_TCP ip_id pad] sl len acc v4 by (simp add: dst_accepted_def ip_hdr_def)
    have hl: "length (?eth @ ip_hdr) = 34" using macs by (simp add: ip_hdr_def ethernet_fill_header_def ipv4_fill_header_def)
    show ?thesis
    proof (rule that)
      show "classify cfg accept_v6 (frame @ pad) = Ip \<lparr>l3_proto = PROTO_TCP, l3_src = V4 a, l3_dst = V4 b, l4_off = 34, l4_len = ?n,
          snoop_mac = (if same_subnet cfg a then Some our_mac else None)\<rparr>" (is "_ = Ip ?p")
        unfolding fr classify_def ethernet_parse_fill [OF macs(2,1)] summarize_ipv4_def
        by (simp add: ip ETHERTYPE_ARP_def ETHERTYPE_IPV4_def ETH_HDR_LEN_def sl)
      show "l4 ?p (frame @ pad) = Some ?seg"
        using slice_in_frame [of "?eth @ ip_hdr" 34 ?seg ?n pad] hl sl unfolding fr l4_def by simp
    qed (simp_all add: v4)
  next
    case v6
    let ?eth = "ethernet_fill_header dst_mac our_mac ETHERTYPE_IPV6" and ?ip = "ipv6_fill_header a b PROTO_TCP 64 ?n"
    have fr: "frame @ pad = ?eth @ ?ip @ ?seg @ pad"
      using frame v6 len by (simp add: fill_tcp_frame_def as_u16_id TCP_HDR_LEN_def)
    have ip: "ipv6_parse (?ip @ ?seg @ pad)
        = Some \<lparr>p6_src = a, p6_dst = b, p6_next_header = PROTO_TCP, p6_hop_limit = 64, p6_payload = ?seg\<rparr>"
      using ipv6_parse_fill [of ?n ?seg a b PROTO_TCP 64 pad] sl len by simp
    have hl: "length (?eth @ ?ip) = 54" using macs by (simp add: ethernet_fill_header_def ipv6_fill_header_def)
    show ?thesis
    proof (rule that)
      show "classify cfg accept_v6 (frame @ pad) = Ip \<lparr>l3_proto = PROTO_TCP, l3_src = V6 a, l3_dst = V6 b, l4_off = 54, l4_len = ?n,
          snoop_mac = Some our_mac\<rparr>" (is "_ = Ip ?p")
        unfolding fr classify_def ethernet_parse_fill [OF macs(2,1)] summarize_ipv6_def
        using acc v6 by (simp add: ip ETHERTYPE_ARP_def ETHERTYPE_IPV4_def ETHERTYPE_IPV6_def ETH_HDR_LEN_def IPV6_HDR_LEN_def
            sl dst_accepted_def)
      show "l4 ?p (frame @ pad) = Some ?seg"
        using slice_in_frame [of "?eth @ ?ip" 54 ?seg ?n pad] hl sl unfolding fr l4_def by simp
    qed (simp_all add: v6)
  qed
qed

lemma segment_ports:
  "of_be (slice 0 2 (tcp_segment m options payload)) = sm_src_port m" "of_be (slice 2 2 (tcp_segment m options payload)) = sm_dst_port m"
  by (simp_all add: tcp_segment_def Let_def tcp_header_bytes_def slice_def)

lemma owner_of_segment:
  assumes "l4 p frame = Some (tcp_segment m options payload)" "l3_src p = sm_local_ip m" "l3_dst p = sm_dst_ip m"
  shows "owner p frame n = flow_owner (sm_local_ip m) (sm_dst_ip m) (sm_src_port m) (sm_dst_port m) n"
  using assms tcp_segment_length [of m options payload] by (simp add: owner_def segment_ports Let_def)

section \<open>Properties\<close>

text \<open>C24: What the frame builder emits the receive side reads back. For either address family, any
  options of whole words and any payload that fits a 16-bit length, the frame (with any padding the
  link adds) classifies as an IP packet of the addressed host, its TCP header has the ports, sequence
  numbers, flags and window of the segment, the data offset skips exactly the options, the payload is
  the payload sent, and the flow hash sees the segment's own 4-tuple.\<close>

theorem tcp_frame_roundtrip:
  assumes "length our_mac = 6" and "length dst_mac = 6"
    and "fill_tcp_frame our_mac dst_mac ip_id m options payload = Some frame"
    and "20 + (20 + length options + length payload) \<le> 65535" and "dst_accepted cfg accept_v6 (sm_dst_ip m)"
    and "length options mod 4 = 0" and "length options \<le> 40"
  shows "\<exists>p seg. classify cfg accept_v6 (frame @ pad) = Ip p \<and> l3_proto p = PROTO_TCP
    \<and> l3_src p = sm_local_ip m \<and> l3_dst p = sm_dst_ip m \<and> l4 p (frame @ pad) = Some seg
    \<and> parse_tcp_header seg = Some (header_of m options) \<and> data_offset (header_of m options) = 20 + length options
    \<and> slice 20 (length options) seg = options \<and> drop (20 + length options) seg = payload
    \<and> owner p (frame @ pad) n = flow_owner (sm_local_ip m) (sm_dst_ip m) (sm_src_port m) (sm_dst_port m) n"
proof -
  let ?seg = "tcp_segment m options payload"
  obtain p where p: "classify cfg accept_v6 (frame @ pad) = Ip p" "l3_proto p = PROTO_TCP" "l3_src p = sm_local_ip m"
    "l3_dst p = sm_dst_ip m" "l4 p (frame @ pad) = Some ?seg" by (rule classify_tcp_frame [OF assms(1-5)])
  have "slice 20 (length options) ?seg = options" "drop (20 + length options) ?seg = payload"
    by (simp_all add: tcp_segment_def Let_def slice_def)
  then show ?thesis
    using p parse_tcp_segment [of m options payload] data_offset_header [OF assms(6,7), of m] owner_of_segment [OF p(5,3,4), of n] by blast
qed

definition demo_meta :: SegmentMeta where
  "demo_meta = \<lparr>sm_local_ip = V4 0xC0A80101, sm_dst_ip = V4 0xC0A80102, sm_src_port = 49152, sm_dst_port = 80, sm_seq = 7,
     sm_ack = 9, sm_flags = 0x18, sm_window = 1000\<rparr>"

definition demo_cfg :: NetConfig where
  "demo_cfg = \<lparr>cfg_ip = 0xC0A80102, cfg_mask = 0xFFFFFF00\<rparr>"

theorem tcp_frame_roundtrip_witness:
  "\<exists>frame p seg. fill_tcp_frame [1,2,3,4,5,6] [7,8,9,10,11,12] 3 demo_meta [2,4,5,180] [42] = Some frame
     \<and> classify demo_cfg (\<lambda>_. False) (frame @ [0,0]) = Ip p \<and> l4 p (frame @ [0,0]) = Some seg \<and> drop 24 seg = [42]"
proof -
  obtain frame where f: "fill_tcp_frame [1,2,3,4,5,6] [7,8,9,10,11,12] 3 demo_meta [2,4,5,180] [42] = Some frame"
    by (simp add: fill_tcp_frame_def demo_meta_def)
  have "dst_accepted demo_cfg (\<lambda>_. False) (sm_dst_ip demo_meta)"
    by (simp add: dst_accepted_def ipv4_accepts_def demo_meta_def demo_cfg_def)
  from tcp_frame_roundtrip [OF _ _ f _ this, of "[0,0]" 1] f show ?thesis by auto
qed

text \<open>The checksums verify at the receiver. An IPv4 header the stack fills sums to zero under the
  internet checksum, and a TCP segment whose checksum field, holding the pseudo-header partial sum,
  is completed by the checksum pass of the driver sums, together with the pseudo header of its
  address family, to all ones.\<close>

theorem frame_checksums_verify:
  assumes "same_family (sm_local_ip m) (sm_dst_ip m)" and "length options + length payload \<le> 65535"
    and "seg = tcp_segment m options payload" and "c = internet_checksum seg"
  shows "internet_checksum (ipv4_fill_header s d proto total_len ip_id) = 0
    \<and> csum_fold (sum_words (pseudo_header (sm_local_ip m) (sm_dst_ip m) PROTO_TCP (length seg)
        @ take 16 seg @ le_bytes 2 c @ drop 18 seg)) = 0xFFFF"
proof
  let ?xs = "[0x45, 0] @ be_bytes 2 (of_nat total_len :: u16) @ be_bytes 2 ip_id @ be_bytes 2 (0x4000 :: u16) @ [64, proto]"
    and ?ys = "octets4 s @ octets4 d"
  have "ipv4_header s d proto total_len ip_id x = ?xs @ le_bytes 2 x @ ?ys" for x by (simp add: ipv4_header_def)
  then show "internet_checksum (ipv4_fill_header s d proto total_len ip_id) = 0"
    unfolding ipv4_fill_header_def using checksum_verifies [of ?xs ?ys] by simp
  define p where "p = l4_pseudo_partial (sm_local_ip m) (sm_dst_ip m) PROTO_TCP (length seg)"
  have len: "length seg = 20 + length options + length payload" using assms(3) tcp_segment_length by simp
  have seg: "seg = tcp_header_bytes m (length options) p @ options @ payload"
    unfolding p_def len unfolding assms(3) tcp_segment_def Let_def TCP_HDR_LEN_def ..
  have parts: "seg = take 16 seg @ le_bytes 2 p @ drop 18 seg"
    unfolding seg by (simp add: tcp_header_bytes_def)
  have "c = internet_checksum (take 16 seg @ le_bytes 2 p @ drop 18 seg)" using assms(4) parts by simp
  then show "csum_fold (sum_words (pseudo_header (sm_local_ip m) (sm_dst_ip m) PROTO_TCP (length seg)
      @ take 16 seg @ le_bytes 2 c @ drop 18 seg)) = 0xFFFF"
    using len assms(2) by (intro l4_checksum_verifies [OF assms(1) _ _ p_def]) simp_all
qed

theorem frame_checksums_verify_witness:
  "csum_fold (sum_words (pseudo_header (V4 0xC0A80101) (V4 0xC0A80102) PROTO_TCP 21 @ take 16 (tcp_segment demo_meta [] [42])
      @ le_bytes 2 (internet_checksum (tcp_segment demo_meta [] [42])) @ drop 18 (tcp_segment demo_meta [] [42]))) = 0xFFFF"
  using frame_checksums_verify [of demo_meta "[]" "[42]", OF _ _ refl refl]
  by (simp add: same_family_def demo_meta_def tcp_segment_length)

end
