(* ===== verification/Tcp_Options.thy ===== *)
theory Tcp_Options
  imports Net_Wire
begin

text \<open>
  The TCP options: the option blob of SYN-shaped segments (\<open>syn_option_blob\<close> in
  \<open>crates/net/tcp/src/send.rs\<close>), the SACK option of an acknowledgement (\<open>emit_ack\<close> in \<open>receive.rs\<close>), and
  the two option walks of \<open>receive.rs\<close>. A walk by index is a recursion on the bytes from the index on.
\<close>

section \<open>Writing options\<close>

definition SYN_OPTS_MAX :: nat where "SYN_OPTS_MAX = 12"

fun syn_option_blob :: "u16 \<Rightarrow> bool \<Rightarrow> bool \<Rightarrow> bytes" where
  "syn_option_blob mss True False = [2, 4] @ be_bytes 2 mss @ [1, 3, 3, 0]"
| "syn_option_blob mss True True = [2, 4] @ be_bytes 2 mss @ [1, 3, 3, 0, 4, 2, 1, 1]"
| "syn_option_blob mss False True = [2, 4] @ be_bytes 2 mss @ [4, 2, 1, 1]"
| "syn_option_blob mss False False = [2, 4] @ be_bytes 2 mss"

definition sack_option :: "(u32 \<times> u32) list \<Rightarrow> bytes" where
  "sack_option blocks =
     [1, 1, 5, of_nat (2 + 8 * length blocks)] @ concat (map (\<lambda>(l, r). be_bytes 4 l @ be_bytes 4 r) blocks)"

section \<open>Reading options\<close>

record SynOptions =
  so_wscale :: "nat option"
  so_mss :: "u16 option"
  so_sack_permitted :: bool

definition syn_options_default :: SynOptions where
  "syn_options_default = \<lparr>so_wscale = None, so_mss = None, so_sack_permitted = False\<rparr>"

definition get_or_insert :: "'a option \<Rightarrow> 'a \<Rightarrow> 'a option" where
  "get_or_insert cur v = (case cur of None \<Rightarrow> Some v | Some x \<Rightarrow> Some x)"

text \<open>One option of kind \<open>kind\<close> and length \<open>len\<close>; \<open>vals\<close> are the bytes after its length byte.\<close>

definition note_option :: "u8 \<Rightarrow> nat \<Rightarrow> bytes \<Rightarrow> SynOptions \<Rightarrow> SynOptions" where
  "note_option kind len vals out =
     (if kind = 2 \<and> len = 4 then
        (if length vals \<ge> 2 then out\<lparr>so_mss := get_or_insert (so_mss out) (of_be (take 2 vals))\<rparr> else out)
      else if kind = 3 \<and> len = 3 then
        (if length vals \<ge> 1 then out\<lparr>so_wscale := get_or_insert (so_wscale out) (min (unat (vals ! 0)) 14)\<rparr> else out)
      else if kind = 4 \<and> len = 2 then out\<lparr>so_sack_permitted := True\<rparr>
      else out)"

function syn_options_loop :: "SynOptions \<Rightarrow> bytes \<Rightarrow> SynOptions" where
  "syn_options_loop out [] = out"
| "syn_options_loop out (kind # rest) =
     (if kind = 0 then out
      else if kind = 1 then syn_options_loop out rest
      else case rest of
          [] \<Rightarrow> out
        | lenb # vals \<Rightarrow>
            let len = unat lenb
            in if len < 2 then out
               else syn_options_loop (note_option kind len vals out) (drop len (kind # rest)))"
  by pat_completeness auto
termination
  by (relation "measure (\<lambda>(out, opts). length opts)") auto

definition parse_syn_options :: "bytes \<Rightarrow> SynOptions" where
  "parse_syn_options opts = syn_options_loop syn_options_default opts"

text \<open>The block loop: while eight bytes are left and the output has room.\<close>

fun read_blocks :: "nat \<Rightarrow> bytes \<Rightarrow> (u32 \<times> u32) list" where
  "read_blocks 0 bs = []"
| "read_blocks (Suc n) bs =
     (if length bs \<ge> 8 then (of_be (take 4 bs), of_be (take 4 (drop 4 bs))) # read_blocks n (drop 8 bs) else [])"

function parse_sack_blocks :: "nat \<Rightarrow> bytes \<Rightarrow> (u32 \<times> u32) list" where
  "parse_sack_blocks out_len [] = []"
| "parse_sack_blocks out_len (kind # rest) =
     (if kind = 0 then []
      else if kind = 1 then parse_sack_blocks out_len rest
      else case rest of
          [] \<Rightarrow> []
        | lenb # vals \<Rightarrow>
            let len = unat lenb
            in if len < 2 then []
               else if kind = 5 then read_blocks out_len (take (len - 2) vals)
               else parse_sack_blocks out_len (drop len (kind # rest)))"
  by pat_completeness auto
termination
  by (relation "measure (\<lambda>(n, opts). length opts)") auto

section \<open>Lemmas\<close>

lemma syn_option_blob_length:
  "length (syn_option_blob mss ws sk) mod 4 = 0" "length (syn_option_blob mss ws sk) \<le> SYN_OPTS_MAX"
  by (cases ws; cases sk; simp add: SYN_OPTS_MAX_def)+

lemma sack_option_length: "length (sack_option bs) = 4 + 8 * length bs"
proof -
  have "length (concat (map (\<lambda>(l, r). be_bytes 4 l @ be_bytes 4 r) bs)) = 8 * length bs" by (induction bs) auto
  then show ?thesis by (simp add: sack_option_def)
qed

lemma note_option_wscale: "\<forall>w. so_wscale out = Some w \<longrightarrow> w \<le> 14 \<Longrightarrow> \<forall>w. so_wscale (note_option k n v out) = Some w \<longrightarrow> w \<le> 14"
  by (auto simp: note_option_def get_or_insert_def split: option.splits)

lemma syn_options_loop_wscale:
  "\<forall>w. so_wscale out = Some w \<longrightarrow> w \<le> 14 \<Longrightarrow> \<forall>w. so_wscale (syn_options_loop out opts) = Some w \<longrightarrow> w \<le> 14"
proof (induction out opts rule: syn_options_loop.induct)
  case (2 out kind rest)
  show ?case
  proof (cases rest)
    case Nil
    then show ?thesis using "2.IH"(1) "2.prems" by (cases "kind = 1") auto
  next
    case (Cons lenb vals)
    then show ?thesis
      using "2.IH"(1) "2.IH"(2) [OF _ _ Cons refl] "2.prems" note_option_wscale [OF "2.prems"] by (cases "kind = 1") (auto simp: Let_def)
  qed
qed simp

lemma read_blocks_concat:
  "length bs \<le> n \<Longrightarrow> read_blocks n (concat (map (\<lambda>(l, r). be_bytes 4 l @ be_bytes 4 r) bs)) = bs"
proof (induction bs arbitrary: n)
  case Nil
  then show ?case by (cases n) simp_all
next
  case (Cons b bs)
  then show ?case by (cases n) (auto simp: split_beta)
qed

lemma parse_sack_option:
  assumes "length bs \<le> 4" "length bs \<le> n"
  shows "parse_sack_blocks n (sack_option bs) = bs"
proof -
  have "unat (of_nat (2 + 8 * length bs) :: u8) = 2 + 8 * length bs" using assms(1) unfolding unat_of_nat by simp
  moreover have "length (concat (map (\<lambda>(l, r). be_bytes 4 l @ be_bytes 4 r) bs)) = 8 * length bs" by (induction bs) auto
  ultimately show ?thesis using assms read_blocks_concat [of bs n] by (simp add: sack_option_def Let_def del: of_nat_add of_nat_Suc)
qed

section \<open>Properties\<close>

text \<open>C25: The options a SYN-shaped segment is sent with are the options the peer's walk finds: the
  MSS always, the window scale and SACK permission exactly when they were offered. The SACK blocks of
  an acknowledgement come back in order. Both blobs are whole header words that fit the 40 bytes of
  option space.\<close>

theorem tcp_options_roundtrip:
  assumes "length blocks \<le> 4"
  shows "parse_syn_options (syn_option_blob mss ws sk)
      = \<lparr>so_wscale = (if ws then Some 0 else None), so_mss = Some mss, so_sack_permitted = sk\<rparr>
    \<and> parse_sack_blocks 4 (sack_option blocks) = blocks
    \<and> length (syn_option_blob mss ws sk) mod 4 = 0 \<and> length (syn_option_blob mss ws sk) \<le> SYN_OPTS_MAX
    \<and> length (sack_option blocks) mod 4 = 0 \<and> length (sack_option blocks) \<le> 40"
proof -
  obtain hi lo where m: "be_bytes 2 mss = [hi, lo]" by (simp add: be_bytes_2)
  then have "of_be [hi, lo] = mss" using of_be_simps(1) [of mss] by simp
  then have "parse_syn_options (syn_option_blob mss ws sk)
      = \<lparr>so_wscale = (if ws then Some 0 else None), so_mss = Some mss, so_sack_permitted = sk\<rparr>"
    by (cases ws; cases sk) (simp_all add: m parse_syn_options_def syn_options_default_def note_option_def get_or_insert_def Let_def)
  then show ?thesis
    using parse_sack_option [of blocks 4] assms syn_option_blob_length sack_option_length [of blocks] by (simp add: mod_add_eq [symmetric])
qed

theorem tcp_options_roundtrip_witness:
  "parse_sack_blocks 4 (sack_option [(5, 9), (20, 30)]) = [(5, 9), (20, 30)]"
  using tcp_options_roundtrip [of "[(5, 9), (20, 30)]"] by simp

text \<open>The walk over the options of a received SYN is total on every byte string, however its
  length bytes are forged, and never yields a window-scale shift above 14.\<close>

theorem syn_options_bounded:
  assumes "so_wscale (parse_syn_options opts) = Some w"
  shows "w \<le> 14"
  using syn_options_loop_wscale [of syn_options_default opts] assms by (simp add: parse_syn_options_def syn_options_default_def)

theorem syn_options_bounded_witness:
  "so_wscale (parse_syn_options [1, 3, 3, 200, 7]) = Some 14 \<and> (14 :: nat) \<le> 14"
proof -
  have "so_wscale (parse_syn_options [1, 3, 3, 200, 7]) = Some 14"
    by (simp add: parse_syn_options_def syn_options_default_def note_option_def get_or_insert_def Let_def)
  with syn_options_bounded [OF this] show ?thesis by simp
qed

end
