(* ===== verification/Tcp_Core.thy ===== *)
theory Tcp_Core
  imports Tcp_Slots
begin

text \<open>
  The invariant of one core's TCP state and the laws its operations are composed by.

  A property of single control blocks that a fresh and a recycled block have, and that does not speak
  of the list links, is kept by everything the pool does: this is the interface \<open>slot_property\<close>, which
  the timer discipline instantiates here and further invariants of a connection in the theories above. The
  predicate \<open>core_ok\<close> joins the well-formed pool, the accept rings and the timer discipline. Its parameter
  is the set of slots that are flagged as members of the armed-timer list but are not in it.
\<close>

section \<open>Properties of every slot\<close>

definition all_slots :: "(tcb \<Rightarrow> bool) \<Rightarrow> core \<Rightarrow> bool" where
  "all_slots P k \<longleftrightarrow> (\<forall>s. P (conns k s))"

lemma all_slots_cong: "conns k' = conns k \<Longrightarrow> all_slots P k' = all_slots P k"
  by (simp add: all_slots_def)

lemma all_slots_upd: "all_slots P k \<Longrightarrow> P c \<Longrightarrow> conns k' = (conns k)(i := c) \<Longrightarrow> all_slots P k'"
  by (simp add: all_slots_def)

locale slot_property =
  fixes P :: "tcb \<Rightarrow> bool"
  assumes fresh: "P (tcb_new\<lparr>slot_index := s\<rparr>)"
    and reset: "P c \<Longrightarrow> P (reset_preserving g c)"
    and next_free: "P c \<Longrightarrow> P (c\<lparr>next_free := x\<rparr>)"
    and tick_next: "P c \<Longrightarrow> P (c\<lparr>tick_next := x\<rparr>)"
begin

lemma new_core: "all_slots P (core_new c n isns e)"
  using fresh [of 0] by (simp add: all_slots_def core_new_def tcb_new_def)

lemma free_slot: "all_slots P k \<Longrightarrow> all_slots P (free_slot s k)"
  by (simp add: all_slots_def free_slot_def next_free)

lemma fold_free_slot: "all_slots P k \<Longrightarrow> all_slots P (fold (\<lambda>i. free_slot (b + i)) is k)"
  by (induction "is" arbitrary: k) (simp_all add: free_slot)

lemma grow_segment:
  assumes "all_slots P k" "grow_segment k = (b, k')"
  shows "all_slots P k'"
proof -
  obtain ok e where t: "try_alloc (core_env k) = (ok, e)" by fastforce
  define base where "base = min (as_u16 (nsegs k) * SEGMENT_SIZE) U16_MAX"
  define k2 where "k2 = (k\<lparr>core_env := e\<rparr>)\<lparr>conns := (\<lambda>s. if base \<le> s \<and> s < base + SEGMENT_SIZE then tcb_new\<lparr>slot_index := s\<rparr>
      else conns (k\<lparr>core_env := e\<rparr>) s), nsegs := nsegs k + 1\<rparr>"
  have "all_slots P k2" "all_slots P (k\<lparr>core_env := e\<rparr>)" using assms(1) fresh by (simp_all add: all_slots_def k2_def)
  moreover have "k' = (if nsegs k \<ge> MAX_SEGMENTS then k else if ok then fold (\<lambda>i. Tcp_Pool.free_slot (base + i)) (rev [0..<SEGMENT_SIZE]) k2
      else k\<lparr>core_env := e\<rparr>)"
    using assms(2) t by (simp add: grow_segment_def Let_def base_def k2_def split: if_splits)
  ultimately show ?thesis using assms(1) fold_free_slot by simp
qed

lemma pool_alloc: "all_slots P k \<Longrightarrow> pool_alloc k = (r, k') \<Longrightarrow> all_slots P k'"
proof (induction k rule: pool_alloc.induct)
  case (1 k)
  show ?case
  proof (cases "free_head k = NULL_SLOT")
    case False
    with 1(3) have "k' = k\<lparr>free_head := next_free (conns k (free_head k))\<rparr>" by (simp add: pool_alloc_cases [of k])
    then show ?thesis using 1(2) by (simp add: all_slots_def)
  next
    case True
    obtain b k1 where g: "grow_segment k = (b, k1)" by fastforce
    note k1 = grow_segment [OF 1(2) g]
    show ?thesis
    proof (cases b)
      case True
      with g 1(3) \<open>free_head k = NULL_SLOT\<close> have "pool_alloc k1 = (r, k')" by (simp add: pool_alloc_cases [of k])
      with 1(1) k1 g True \<open>free_head k = NULL_SLOT\<close> show ?thesis by simp
    next
      case False
      with g 1(3) \<open>free_head k = NULL_SLOT\<close> have "k' = k1" by (simp add: pool_alloc_cases [of k])
      with k1 show ?thesis by simp
    qed
  qed
qed

lemma tick_unlink: "all_slots P k \<Longrightarrow> all_slots P (tick_unlink s k)"
  by (simp add: all_slots_def tick_unlink_def Let_def tick_next split: option.split)

lemma free_connection:
  assumes "all_slots P k"
  shows "all_slots P (free_connection s k)"
proof -
  have step: "all_slots P (Tcp_Pool.free_slot s (k2\<lparr>core_env := e, conns := (conns k2)(s := reset_preserving g (conns k2 s))\<rparr>))"
    if "all_slots P k2" for k2 e g
    using that by (intro free_slot) (simp add: all_slots_def reset)
  have "all_slots P (k\<lparr>hash := h\<rparr>)" for h using assms by (simp add: all_slots_def)
  from step [OF this] step [OF tick_unlink [OF this]] step [OF assms] step [OF tick_unlink [OF assms]] assms
  show ?thesis by (simp add: free_connection_def Let_def)
qed

lemma alloc_connection:
  assumes "all_slots P k" "alloc_connection k = (r, k')"
  shows "all_slots P k'"
proof -
  obtain q k1 where q: "pool_alloc k = (q, k1)" by fastforce
  note k1 = pool_alloc [OF assms(1) q]
  have "all_slots P (k1\<lparr>conns := (conns k1)(s := reset_preserving g (conns k1 s))\<rparr>)" for s g
    using k1 by (simp add: all_slots_def reset)
  moreover have "all_slots P k''" if "Tcp_Pool.pool_alloc (Tcp_Pool.free_connection i k1) = (r', k'')" for i r' k''
    using pool_alloc [OF free_connection [OF k1] that] .
  ultimately show ?thesis using assms(2) q k1
    by (auto simp: alloc_connection_def Let_def simp del: reclaim_victim.simps split: option.splits)
qed

end

interpretation listed_slots: slot_property listed
  by unfold_locales (auto simp: listed_def armed_def tcb_new_def reset_preserving_def Let_def)

section \<open>The invariant of a core\<close>

definition core_ok :: "core \<Rightarrow> nat set \<Rightarrow> bool" where
  "core_ok k D \<longleftrightarrow> (\<exists>fs ts. pool_ok k fs ts D) \<and> rings_ok k \<and> all_slots listed k"

text \<open>A slot of the pool that is not on the free list.\<close>

definition in_use :: "nat \<Rightarrow> core \<Rightarrow> bool" where
  "in_use s k \<longleftrightarrow> s < pool_capacity k \<and> (\<forall>fs. chain (\<lambda>i. next_free (conns k i)) (free_head k) fs \<longrightarrow> s \<notin> set fs)"

lemma chain_unique: "chain nx h ss \<Longrightarrow> chain nx h ts \<Longrightarrow> ss = ts"
proof (induction ss arbitrary: h ts)
  case (Cons s ss)
  then show ?case by (cases ts) auto
qed (simp add: chain_null)

lemma in_use_iff: "pool_ok k fs ts D \<Longrightarrow> in_use s k \<longleftrightarrow> s < pool_capacity k \<and> s \<notin> set fs"
  using chain_unique [of "\<lambda>i. next_free (conns k i)" "free_head k" fs] by (auto simp: in_use_def pool_ok_def free_list_ok_def)

lemma core_okI: "pool_ok k fs ts D \<Longrightarrow> rings_ok k \<Longrightarrow> all_slots listed k \<Longrightarrow> core_ok k D"
  by (auto simp: core_ok_def)

lemma core_okE:
  assumes "core_ok k D"
  obtains fs ts where "pool_ok k fs ts D" "rings_ok k" "all_slots listed k" "\<And>s. in_use s k \<longleftrightarrow> s < pool_capacity k \<and> s \<notin> set fs"
  using assms in_use_iff by (auto simp: core_ok_def)

lemma in_use_bound: "core_ok k D \<Longrightarrow> in_use s k \<Longrightarrow> s < pool_capacity k \<and> s < 65472"
  using capacity_bound [of k] by (auto simp: core_ok_def pool_ok_def in_use_def)

lemma not_closed_in_use: "core_ok k D \<Longrightarrow> s < pool_capacity k \<Longrightarrow> state (conns k s) \<noteq> Closed \<Longrightarrow> in_use s k"
  by (erule core_okE) (auto simp: pool_ok_def free_list_ok_def)

lemma indexed_in_use:
  assumes "core_ok k D" "tcp_hash_find (hash k) key = Some s"
  shows "in_use s k" "live (conns k s)" "conn_key (conns k s) = key" "s < pool_capacity k"
proof -
  from assms show *: "live (conns k s)" "conn_key (conns k s) = key" "s < pool_capacity k"
    by (auto simp: core_ok_def pool_ok_def index_ok_def)
  then show "in_use s k" using not_closed_in_use [OF assms(1)] by (simp add: live_def)
qed

lemma core_ok_new: "core_ok (core_new c n isns e) {}"
  using pool_ok_new rings_ok_new listed_slots.new_core by (rule core_okI)

text \<open>The fields the invariant does not speak of.\<close>

lemma core_ok_frame:
  assumes "core_ok k D" "conns k' = conns k" "nsegs k' = nsegs k" "free_head k' = free_head k" "hash k' = hash k"
    "ring_ports k' = ring_ports k" "rings k' = rings k" "tick_head (core_env k') = tick_head (core_env k)"
  shows "core_ok k' D"
proof -
  have cap: "pool_capacity k' = pool_capacity k" using assms(3) by (rule capacity_cong)
  obtain fs ts where ok: "pool_ok k fs ts D" "rings_ok k" "all_slots listed k" using assms(1) by (auto simp: core_ok_def)
  have "pool_ok k' fs ts D"
    using ok(1) assms(2-5,8) cap by (simp add: pool_ok_def slots_ok_def free_list_ok_def tick_list_ok_def index_ok_def)
  then show ?thesis using ok(2,3) assms rings_ok_cong [of k' k] all_slots_cong [of k' k] by (auto intro: core_okI)
qed

lemma in_use_cong:
  assumes "conns k' = conns k" "nsegs k' = nsegs k" "free_head k' = free_head k"
  shows "in_use s k' = in_use s k"
  using assms by (simp add: in_use_def capacity_cong [of k' k])

section \<open>Operations on one slot\<close>

lemma pool_ok_put_in_use:
  assumes "pool_ok k fs ts D" "pool_ok k' fs ts' D'" "pool_capacity k' = pool_capacity k"
  shows "in_use s k' = in_use s k"
  using assms in_use_iff by metis

lemma listed_truncate [simp]: "listed (tcb.truncate c) = listed c"
  by (simp add: listed_def armed_def)

lemma core_ok_put_gen:
  assumes ok: "core_ok k D" and i: "in_use i k"
    and id: "slot_index c' = slot_index (conns k i)" "next_free c' = next_free (conns k i)" and ln: "link (conn_at i k) c'"
    and en: "\<And>key. tcp_hash_find (hash k) key = Some i \<Longrightarrow> live c' \<and> conn_key c' = key" and l: "listed c'"
  shows "core_ok (conn_put i c' k) D" "in_use s (conn_put i c' k) = in_use s k"
proof -
  obtain fs ts where p: "pool_ok k fs ts D" "rings_ok k" "all_slots listed k" "i < pool_capacity k" "i \<notin> set fs"
    using ok i by (auto elim: core_okE)
  obtain ts' where p': "pool_ok (conn_put i c' k) fs ts' D" using conn_put_gen [OF p(1,4,5) id ln en] by blast
  have "all_slots listed (conn_put i c' k)" using p(3) l by (intro all_slots_upd [OF p(3)]) simp_all
  then show "core_ok (conn_put i c' k) D" using p' p(2) rings_ok_cong [of "conn_put i c' k" k] by (auto intro: core_okI)
  show "in_use s (conn_put i c' k) = in_use s k" using pool_ok_put_in_use [OF p(1) p'] by simp
qed

lemma core_ok_put:
  assumes ok: "core_ok k D" and i: "in_use i k" and t: "touches (conn_at i k) c'"
  shows "core_ok (conn_put i c' k) D" "in_use s (conn_put i c' k) = in_use s k"
proof -
  have id: "slot_index c' = slot_index (conns k i)" "next_free c' = next_free (conns k i)" "link (conn_at i k) c'"
    "conn_key c' = conn_key (conns k i)" "live c' = live (conns k i)"
    using t by (simp_all add: touches_def ident_def conn_key_def live_def)
  have l: "listed c'" using t ok by (auto simp: touches_def core_ok_def all_slots_def listed_def armed_def)
  have en: "live c' \<and> conn_key c' = key" if "tcp_hash_find (hash k) key = Some i" for key
    using indexed_in_use [OF ok that] id by simp
  show "core_ok (conn_put i c' k) D" "in_use s (conn_put i c' k) = in_use s k"
    using core_ok_put_gen [OF ok i id(1-3) en l] by simp_all
qed

lemma core_ok_on_conn:
  assumes "core_ok k D" "in_use i k" "\<And>c. touches c (f c)"
  shows "core_ok (on_conn i f k) D" "in_use s (on_conn i f k) = in_use s k"
  using core_ok_put [OF assms(1,2,3)] by (simp_all add: on_conn_def)

text \<open>A dead slot is not in the index.\<close>

lemma core_ok_put_dead:
  assumes ok: "core_ok k D" and i: "in_use i k" and dead: "\<not> live (conns k i)"
    and id: "slot_index c' = slot_index (conns k i)" "next_free c' = next_free (conns k i)" and ln: "link (conn_at i k) c'"
    and l: "listed c'"
  shows "core_ok (conn_put i c' k) D" "in_use s (conn_put i c' k) = in_use s k"
  using core_ok_put_gen [OF ok i id ln _ l] indexed_in_use(2) [OF ok] dead by blast+

lemma core_ok_free:
  assumes ok: "core_ok k D" and i: "in_use i k"
  shows "core_ok (free_connection i k) (D - {i})" "pool_capacity (free_connection i k) = pool_capacity k"
    "in_use s (free_connection i k) \<longleftrightarrow> in_use s k \<and> s \<noteq> i"
    "s \<noteq> i \<Longrightarrow> \<exists>t. conns (free_connection i k) s = (conns k s)\<lparr>tick_next := t\<rparr>"
proof -
  obtain fs ts where p: "pool_ok k fs ts D" "rings_ok k" "all_slots listed k" "i < pool_capacity k" "i \<notin> set fs"
    using ok i by (auto elim: core_okE)
  obtain p' t hd h where eff: "free_connection i k = k\<lparr>hash := h,
       conns := (conns k)(p' := (conns k p')\<lparr>tick_next := t\<rparr>,
         i := (reset_preserving (as_u16 (generation (conns k i) + 1)) (conns k i))\<lparr>next_free := free_head k\<rparr>),
       core_env := wake (send_waker (conns k i)) (wake (recv_waker (conns k i)) ((core_env k)\<lparr>tick_head := hd\<rparr>)),
       free_head := i\<rparr>"
    by (rule free_connection_effect [OF p(1,4,5)]) simp_all
  have f: "pool_ok (free_connection i k) (i # fs) (removeAll i ts) (D - {i})" using p(1,4,5) by (rule free_connection_ok)
  have "rings_ok (free_connection i k)" using p(2) rings_ok_cong [of "free_connection i k" k] eff by simp
  with f show "core_ok (free_connection i k) (D - {i})" using listed_slots.free_connection [OF p(3)] by (rule core_okI)
  show cap: "pool_capacity (free_connection i k) = pool_capacity k" by (simp add: eff pool_capacity_def)
  show "in_use s (free_connection i k) \<longleftrightarrow> in_use s k \<and> s \<noteq> i" using in_use_iff [OF f] in_use_iff [OF p(1)] cap by auto
  have same: "\<exists>t. c = c\<lparr>tick_next := t\<rparr>" for c :: tcb by (rule exI [of _ "tick_next c"]) simp
  show "\<exists>t. conns (free_connection i k) s = (conns k s)\<lparr>tick_next := t\<rparr>" if "s \<noteq> i"
  proof (cases "s = p'")
    case True
    then show ?thesis using eff that by auto
  next
    case False
    then have "conns (free_connection i k) s = conns k s" using eff that by simp
    then show ?thesis using same [of "conns k s"] by (simp only:)
  qed
qed

lemma pool_alloc_rings: "pool_alloc k = (r, k') \<Longrightarrow> ring_ports k' = ring_ports k \<and> rings k' = rings k"
proof (induction k rule: pool_alloc.induct)
  case (1 k)
  have fold: "ring_ports (fold (\<lambda>i. free_slot (b + i)) is k) = ring_ports k \<and> rings (fold (\<lambda>i. free_slot (b + i)) is k) = rings k" for b "is" k
    by (induction "is" arbitrary: k) (simp_all add: free_slot_def)
  obtain b k1 where g: "grow_segment k = (b, k1)" by fastforce
  then have k1: "ring_ports k1 = ring_ports k" "rings k1 = rings k"
    by (auto simp: grow_segment_def Let_def fold split: if_splits prod.splits)
  from 1(2) consider "k' = k\<lparr>free_head := next_free (conns k (free_head k))\<rparr>" | "k' = k1" | "free_head k = NULL_SLOT" "b" "pool_alloc k1 = (r, k')"
    using g by (cases b) (auto simp: pool_alloc_cases [of k] split: if_splits)
  then show ?case using 1(1) k1 g by cases auto
qed

lemma free_connection_rings:
  assumes "pool_ok k fs ts D" "i < pool_capacity k" "i \<notin> set fs"
  shows "ring_ports (free_connection i k) = ring_ports k" "rings (free_connection i k) = rings k"
  by (rule free_connection_effect [OF assms], simp)+

lemma alloc_connection_rings:
  assumes ok: "pool_ok k fs ts D" and a: "alloc_connection k = (r, k')"
  shows "ring_ports k' = ring_ports k" "rings k' = rings k"
proof -
  obtain q k1 where q: "pool_alloc k = (q, k1)" by fastforce
  note k1 = pool_alloc_rings [OF q]
  have "ring_ports k' = ring_ports k \<and> rings k' = rings k"
  proof (cases q)
    case (Some s)
    then show ?thesis using a q k1 by (simp add: alloc_connection_def Let_def) auto
  next
    case None
    note n = pool_alloc_none [OF ok q [unfolded None]]
    show ?thesis
    proof (cases "reclaim_victim k1 [FinWait1, FinWait2, LastAck, TimeWait, CloseWait]")
      case None
      then show ?thesis using a q k1 \<open>q = None\<close> by (simp add: alloc_connection_def del: reclaim_victim.simps)
    next
      case (Some i)
      have i: "i < pool_capacity k1" using reclaim_victim_some [OF Some] by simp
      have "pool_alloc (free_connection i k1) = (r, k')"
        using a q Some \<open>q = None\<close> by (simp add: alloc_connection_def del: reclaim_victim.simps)
      from pool_alloc_rings [OF this] free_connection_rings [OF n(2) i] k1 show ?thesis by simp
    qed
  qed
  then show "ring_ports k' = ring_ports k" "rings k' = rings k" by simp_all
qed

lemma core_ok_alloc:
  assumes ok: "core_ok k D" and a: "alloc_connection k = (r, k')"
  obtains D' where "core_ok k' D'" "D' \<subseteq> D" "pool_capacity k \<le> pool_capacity k'"
    "\<And>s. r = Some s \<Longrightarrow> in_use s k' \<and> (\<exists>g c. conns k' s = reset_preserving g c)"
    "r = None \<Longrightarrow> \<forall>i<pool_capacity k. state (conns k i) \<notin> {FinWait1, FinWait2, LastAck, TimeWait, CloseWait}"
    "\<And>i. i < pool_capacity k \<Longrightarrow> r \<noteq> Some i \<Longrightarrow> \<exists>t. conns k' i = (conns k i)\<lparr>tick_next := t\<rparr>"
    "\<And>s. r = Some s \<Longrightarrow> s < pool_capacity k \<Longrightarrow>
       \<not> in_use s k \<or> state (conns k s) \<in> {FinWait1, FinWait2, LastAck, TimeWait, CloseWait}"
proof -
  obtain fs ts where p: "pool_ok k fs ts D" "rings_ok k" "all_slots listed k" using ok by (auto elim: core_okE)
  from p(1) a obtain fs' ts' D' where q: "pool_ok k' fs' ts' D'" "D' \<subseteq> D" "pool_capacity k \<le> pool_capacity k'"
    "\<And>s. r = Some s \<Longrightarrow> s < pool_capacity k' \<and> s \<notin> set fs' \<and> state (conns k' s) = Closed \<and> s \<notin> set ts'"
    "\<And>s. r = Some s \<Longrightarrow> \<exists>g c. conns k' s = reset_preserving g c"
    "r = None \<Longrightarrow> fs' = [] \<and> (\<forall>i<pool_capacity k. state (conns k i) \<notin> {FinWait1, FinWait2, LastAck, TimeWait, CloseWait})"
    "\<And>i. i < pool_capacity k \<Longrightarrow> r \<noteq> Some i \<Longrightarrow> \<exists>t. conns k' i = (conns k i)\<lparr>tick_next := t\<rparr>"
    "\<And>s. r = Some s \<Longrightarrow> s < pool_capacity k \<Longrightarrow>
       s \<in> set fs \<or> fs = [] \<and> state (conns k s) \<in> {FinWait1, FinWait2, LastAck, TimeWait, CloseWait}"
    by (rule alloc_connection_ok) blast
  have "rings_ok k'" using p(2) rings_ok_cong [OF alloc_connection_rings [OF p(1) a]] by simp
  then have "core_ok k' D'" using q(1) listed_slots.alloc_connection [OF p(3) a] by (auto intro: core_okI)
  then show thesis using q in_use_iff [OF q(1)] in_use_iff [OF p(1)] by (intro that [of D']) auto
qed

lemma core_ok_index:
  assumes ok: "core_ok k D"
  shows "s < pool_capacity k \<Longrightarrow> live (conns k s) \<Longrightarrow> core_ok (k\<lparr>hash := tcp_hash_insert (conn_key (conns k s)) s (hash k)\<rparr>) D"
    "core_ok (k\<lparr>hash := tcp_hash_remove (conn_key c) (hash k)\<rparr>) D"
proof -
  obtain fs ts where p: "pool_ok k fs ts D" "rings_ok k" "all_slots listed k" using ok by (auto elim: core_okE)
  have r: "rings_ok (k\<lparr>hash := h\<rparr>)" "all_slots listed (k\<lparr>hash := h\<rparr>)" for h
    using p(2,3) rings_ok_cong [of "k\<lparr>hash := h\<rparr>" k] all_slots_cong [of "k\<lparr>hash := h\<rparr>" k] by simp_all
  show "core_ok (k\<lparr>hash := tcp_hash_insert (conn_key (conns k s)) s (hash k)\<rparr>) D" if "s < pool_capacity k" "live (conns k s)"
    using pool_ok_index_insert [OF p(1) that] r by (rule core_okI)
  show "core_ok (k\<lparr>hash := tcp_hash_remove (conn_key c) (hash k)\<rparr>) D"
    using pool_ok_index_remove [OF p(1)] r by (rule core_okI)
qed

lemma index_found:
  assumes ok: "core_ok k D" and s: "s < pool_capacity k" "live (conns k s)"
  shows "tcp_hash_find (tcp_hash_insert (conn_key (conns k s)) s (hash k)) = (tcp_hash_find (hash k))(conn_key (conns k s) \<mapsto> s)"
  using ok s index_ok_insert(2) by (auto simp: core_ok_def pool_ok_def)

lemma index_gone:
  assumes "core_ok k D"
  shows "tcp_hash_find (tcp_hash_remove (conn_key c) (hash k)) = (tcp_hash_find (hash k))(conn_key c := None)"
  using assms index_ok_remove(2) by (auto simp: core_ok_def pool_ok_def)

text \<open>Two indexed connections never share a key, so a connection leaves the index when its key does.\<close>

lemma unindexed_after_remove:
  assumes "core_ok k D"
  shows "tcp_hash_find (tcp_hash_remove (conn_key (conns k s)) (hash k)) key \<noteq> Some s"
  using indexed_in_use(3) [OF assms] index_gone [OF assms, of "conns k s"] by auto

lemma reset_slot_fields [simp]:
  "\<not> live (reset_preserving g c)" "\<not> armed (reset_preserving g c)" "listed (reset_preserving g c)"
  by (simp_all add: live_def listed_def armed_def reset_preserving_def tcb_new_def Let_def)

section \<open>What allocation does to the environment\<close>

definition env_quiet :: "env \<Rightarrow> env \<Rightarrow> bool" where
  "env_quiet e e' \<longleftrightarrow> now_ms e' = now_ms e \<and> tx_log e' = tx_log e \<and> mac_known e' = mac_known e
     \<and> txbuf_results e' = txbuf_results e \<and> has_direct_fill e' = has_direct_fill e
     \<and> (alloc_results e = [] \<longrightarrow> alloc_results e' = [])"

lemma env_quiet_refl: "env_quiet e e"
  by (simp add: env_quiet_def)

lemma env_quiet_trans: "env_quiet a b \<Longrightarrow> env_quiet b c \<Longrightarrow> env_quiet a c"
  by (simp add: env_quiet_def)

lemma env_quiet_alloc: "try_alloc e = (ok, e') \<Longrightarrow> env_quiet e e'"
  by (auto simp: env_quiet_def try_alloc_def split: list.splits)

lemma pool_alloc_env: "pool_alloc k = (r, k') \<Longrightarrow> env_quiet (core_env k) (core_env k') \<and> core_id k' = core_id k \<and> num_cores k' = num_cores k"
proof (induction k rule: pool_alloc.induct)
  case (1 k)
  have fold: "core_env (fold (\<lambda>i. free_slot (b + i)) is k) = core_env k \<and> core_id (fold (\<lambda>i. free_slot (b + i)) is k) = core_id k
      \<and> num_cores (fold (\<lambda>i. free_slot (b + i)) is k) = num_cores k" for b "is" k
    by (induction "is" arbitrary: k) (simp_all add: free_slot_def)
  obtain b k1 where g: "grow_segment k = (b, k1)" by fastforce
  obtain ok e where t: "try_alloc (core_env k) = (ok, e)" by fastforce
  have k1: "env_quiet (core_env k) (core_env k1)" "core_id k1 = core_id k" "num_cores k1 = num_cores k"
    using g t env_quiet_alloc [OF t] env_quiet_refl by (auto simp: grow_segment_def Let_def fold split: if_splits)
  from 1(2) consider "k' = k\<lparr>free_head := next_free (conns k (free_head k))\<rparr>" | "k' = k1" | "free_head k = NULL_SLOT" "b" "pool_alloc k1 = (r, k')"
    using g by (cases b) (auto simp: pool_alloc_cases [of k] split: if_splits)
  then show ?case using 1(1) k1 g env_quiet_refl env_quiet_trans by cases auto
qed

lemma free_connection_env:
  assumes "pool_ok k fs ts D" "i < pool_capacity k" "i \<notin> set fs"
  shows "env_quiet (core_env k) (core_env (free_connection i k))" "core_id (free_connection i k) = core_id k"
    "num_cores (free_connection i k) = num_cores k"
proof -
  have w: "env_quiet e (wake w e)" for w e by (simp add: wake_def env_quiet_def split: option.split)
  have t: "env_quiet e (e\<lparr>tick_head := h\<rparr>)" for e h by (simp add: env_quiet_def)
  show "env_quiet (core_env k) (core_env (free_connection i k))" "core_id (free_connection i k) = core_id k"
    "num_cores (free_connection i k) = num_cores k"
    by (rule free_connection_effect [OF assms], simp add: env_quiet_trans [OF t env_quiet_trans [OF w w]])+
qed

lemma alloc_connection_env:
  assumes ok: "core_ok k D" and a: "alloc_connection k = (r, k')"
  shows "env_quiet (core_env k) (core_env k')" "core_id k' = core_id k" "num_cores k' = num_cores k"
proof -
  obtain fs ts where p: "pool_ok k fs ts D" using ok by (auto elim: core_okE)
  obtain q k1 where q: "pool_alloc k = (q, k1)" by fastforce
  note k1 = pool_alloc_env [OF q]
  have "env_quiet (core_env k) (core_env k') \<and> core_id k' = core_id k \<and> num_cores k' = num_cores k"
  proof (cases q)
    case (Some s)
    then show ?thesis using a q k1 by (simp add: alloc_connection_def Let_def) auto
  next
    case None
    note n = pool_alloc_none [OF p q [unfolded None]]
    show ?thesis
    proof (cases "reclaim_victim k1 [FinWait1, FinWait2, LastAck, TimeWait, CloseWait]")
      case None
      then show ?thesis using a q k1 \<open>q = None\<close> by (simp add: alloc_connection_def del: reclaim_victim.simps)
    next
      case (Some i)
      have i: "i < pool_capacity k1" using reclaim_victim_some [OF Some] by simp
      have "pool_alloc (free_connection i k1) = (r, k')"
        using a q Some \<open>q = None\<close> by (simp add: alloc_connection_def del: reclaim_victim.simps)
      from pool_alloc_env [OF this] free_connection_env [OF n(2) i] k1 show ?thesis
        by (auto intro: env_quiet_trans)
    qed
  qed
  then show "env_quiet (core_env k) (core_env k')" "core_id k' = core_id k" "num_cores k' = num_cores k" by simp_all
qed

end
