(* ===== verification/Tcp_Connect.thy ===== *)
theory Tcp_Connect
  imports Tcp_Core Tcp_Options
begin

text \<open>
  Active opens (\<open>crates/net/tcp/src/connect.rs\<close>) and their ephemeral ports (\<open>ephemeral.rs\<close>).

  A port scan is a search over the interval of its offsets. The results: the port chosen is free for
  its destination and lies in the ephemeral range, the frames of the peer's answers hash to the
  connecting core, and an open that succeeds leaves a published, listed and armed connection behind.
\<close>

section \<open>Ephemeral ports\<close>

definition EPHEMERAL_LO :: nat where "EPHEMERAL_LO = 49152"
definition EPHEMERAL_COUNT :: nat where "EPHEMERAL_COUNT = 16384"
definition MAX_CORES :: nat where "MAX_CORES = 22"

definition tuple_in_use :: "IpAddr \<Rightarrow> u16 \<Rightarrow> u16 \<Rightarrow> core \<Rightarrow> bool" where
  "tuple_in_use r_ip r_port port k =
     (case tcp_hash_find (hash k) (tcp_hash_key r_ip r_port port) of
        None \<Rightarrow> False
      | Some s \<Rightarrow> let c = conns k s
          in state c \<noteq> Closed \<and> remote_ip c = r_ip \<and> remote_port c = r_port \<and> local_port c = port)"

definition ephemeral_at :: "nat \<Rightarrow> u16" where
  "ephemeral_at off = of_nat (EPHEMERAL_LO + off)"

definition alloc_ephemeral_port :: "IpAddr \<Rightarrow> IpAddr \<Rightarrow> u16 \<Rightarrow> core \<Rightarrow> u16 option \<times> core" where
  "alloc_ephemeral_port l_ip r_ip r_port k =
     (let cursor = (if core_id k < MAX_CORES then next_offset k else 0);
          off_of = (\<lambda>i. (cursor + i) mod EPHEMERAL_COUNT)
      in case find (\<lambda>i. let port = ephemeral_at (off_of i)
                        in \<not> tuple_in_use r_ip r_port port k
                           \<and> flow_owner r_ip l_ip r_port port (num_cores k) = core_id k) [0..<EPHEMERAL_COUNT] of
          Some i \<Rightarrow>
            (Some (ephemeral_at (off_of i)),
             if core_id k < MAX_CORES then k\<lparr>next_offset := (off_of i + 1) mod EPHEMERAL_COUNT\<rparr> else k)
        | None \<Rightarrow>
            (let sl = EPHEMERAL_COUNT div max (num_cores k) 1;
                 base = (core_id k mod max (num_cores k) 1) * sl
             in (map_option (\<lambda>i. ephemeral_at (base + i))
                   (find (\<lambda>i. \<not> tuple_in_use r_ip r_port (ephemeral_at (base + i)) k) [0..<sl]), k)))"

section \<open>Active open\<close>

definition send_syn :: "conn \<Rightarrow> conn" where
  "send_syn c =
     emit \<lparr>sm_local_ip = local_ip c, sm_dst_ip = remote_ip c, sm_src_port = local_port c, sm_dst_port = remote_port c,
            sm_seq = snd_una c, sm_ack = 0, sm_flags = TCP_SYN, sm_window = as_u16 RX_RING_BYTES\<rparr>
       [] (syn_option_blob (of_nat (mss_for (local_ip c))) True True) c"

definition retransmit_syn :: "nat \<Rightarrow> conn \<Rightarrow> conn" where
  "retransmit_syn now c =
     (let c1 = send_syn c;
          c2 = c1\<lparr>rtt_anchor_active := False\<rparr>;
          c3 = c2\<lparr>fin_retx_count := sat_add8 (fin_retx_count c2) 1\<rparr>
      in arm_fin_timer now c3)"

text \<open>The control block of a connection that is about to send its SYN.\<close>

definition syn_sent_setup :: "IpAddr \<Rightarrow> IpAddr \<Rightarrow> u16 \<Rightarrow> u16 \<Rightarrow> u32 \<Rightarrow> conn \<Rightarrow> conn" where
  "syn_sent_setup l_ip r_ip l_port r_port iss c =
     c\<lparr>state := SynSent, remote_ip := r_ip, local_ip := l_ip, local_port := l_port, remote_port := r_port,
       snd_una := iss, snd_nxt := iss + 1, listener_port := 0, accepted := True,
       rtt_anchor_ms := clock c, rtt_anchor_seq := iss + 1, rtt_anchor_active := True\<rparr>"

text \<open>From the slot with its ring to the armed connection: the body of \<open>connect_on_core\<close> after its two
  early returns.\<close>

definition open_slot :: "IpAddr \<Rightarrow> IpAddr \<Rightarrow> u16 \<Rightarrow> u16 \<Rightarrow> nat \<Rightarrow> core \<Rightarrow> core" where
  "open_slot l_ip r_ip l_port r_port slot k3 =
     (let (iss, k4) = next_seq k3;
          now = now_ms (core_env k4);
          k5 = on_conn slot (syn_sent_setup l_ip r_ip l_port r_port iss) k4;
          k6 = k5\<lparr>hash := tcp_hash_insert (tcp_hash_key r_ip r_port l_port) slot (hash k5)\<rparr>
      in on_conn slot (\<lambda>c. arm_fin_timer now (send_syn c)) k6)"

definition connect_on_core :: "IpAddr \<Rightarrow> IpAddr \<Rightarrow> u16 \<Rightarrow> core \<Rightarrow> (u64 \<times> nat) option \<times> core" where
  "connect_on_core l_ip r_ip r_port k =
     (case alloc_ephemeral_port l_ip r_ip r_port k of
        (None, k1) \<Rightarrow> (None, k1)
      | (Some l_port, k1) \<Rightarrow>
     (case alloc_connection k1 of
        (None, k2) \<Rightarrow> (None, k2)
      | (Some slot, k2) \<Rightarrow>
          let (ok, c) = ensure_rx_ring (conn_at slot k2); k3 = conn_put slot c k2
          in if \<not> ok then (None, free_connection slot k3)
             else (Some (encode_handle (core_id k) slot, generation (conns k3 slot)), open_slot l_ip r_ip l_port r_port slot k3)))"

datatype TcpConnectStatus = InProgress | ConnectEstablished | ConnectRefused | ConnectTimedOut

definition connect_status :: "u64 \<Rightarrow> nat \<Rightarrow> machine \<Rightarrow> TcpConnectStatus" where
  "connect_status handle gen m =
     (case decode_handle m handle of
        None \<Rightarrow> ConnectTimedOut
      | Some (core, slot) \<Rightarrow>
          let c = conns (m ! core) slot
          in if generation c \<noteq> gen then ConnectTimedOut
             else case state c of
                SynSent \<Rightarrow> InProgress
              | Closed \<Rightarrow> (case connect_failure c of Refused \<Rightarrow> ConnectRefused | _ \<Rightarrow> ConnectTimedOut)
              | _ \<Rightarrow> ConnectEstablished)"

definition fail_connect :: "nat \<Rightarrow> ConnectFailure \<Rightarrow> core \<Rightarrow> core" where
  "fail_connect slot failure k =
     (let c = conns k slot;
          k1 = k\<lparr>hash := tcp_hash_remove (conn_key c) (hash k)\<rparr>;
          c1 = c\<lparr>connect_failure := failure, state := Closed, lifecycle_deadline_ms := 0, fin_retx_count := 0,
                 rtt_anchor_active := False, send_waker := None, recv_waker := None\<rparr>
      in k1\<lparr>conns := (conns k1)(slot := c1), core_env := wake (recv_waker c) (wake (send_waker c) (core_env k1))\<rparr>)"

section \<open>The port search\<close>

lemma ephemeral_at_unat: "off < EPHEMERAL_COUNT \<Longrightarrow> unat (ephemeral_at off) = EPHEMERAL_LO + off"
  unfolding ephemeral_at_def EPHEMERAL_LO_def EPHEMERAL_COUNT_def by (subst unat_of_nat) simp

lemma slice_bound:
  assumes "i < EPHEMERAL_COUNT div max n 1"
  shows "(c mod max n 1) * (EPHEMERAL_COUNT div max n 1) + i < EPHEMERAL_COUNT"
proof -
  let ?n = "max n 1" and ?sl = "EPHEMERAL_COUNT div max n 1"
  have "(c mod ?n) * ?sl + i < (c mod ?n + 1) * ?sl" using assms by simp
  also have "\<dots> \<le> ?n * ?sl" using mod_less_divisor [of ?n c] by (intro mult_right_mono) (simp_all add: Suc_le_eq)
  also have "\<dots> \<le> EPHEMERAL_COUNT" by (rule times_div_less_eq_dividend)
  finally show ?thesis .
qed

text \<open>The rotated scan visits every offset.\<close>

lemma rotation_covers:
  assumes "off < EPHEMERAL_COUNT"
  shows "\<exists>i<EPHEMERAL_COUNT. (cur + i) mod EPHEMERAL_COUNT = off"
proof -
  let ?n = EPHEMERAL_COUNT and ?i = "(off + (EPHEMERAL_COUNT - cur mod EPHEMERAL_COUNT)) mod EPHEMERAL_COUNT"
  have n: "0 < ?n" by (simp add: EPHEMERAL_COUNT_def)
  have "(cur + ?i) mod ?n = (cur mod ?n + (off + (?n - cur mod ?n))) mod ?n" by (simp only: mod_simps)
  also have "cur mod ?n + (off + (?n - cur mod ?n)) = off + ?n" using mod_less_divisor [OF n, of cur] by linarith
  finally have "(cur + ?i) mod ?n = off" using assms by simp
  then show ?thesis using n by (intro exI [of _ ?i]) simp
qed

lemma alloc_ephemeral_port_cases:
  assumes a: "alloc_ephemeral_port l_ip r_ip r_port k = (res, k')"
  defines "free \<equiv> \<lambda>off. \<not> tuple_in_use r_ip r_port (ephemeral_at off) k"
    and "home \<equiv> \<lambda>off. flow_owner r_ip l_ip r_port (ephemeral_at off) (num_cores k) = core_id k"
    and "own \<equiv> \<lambda>i. (core_id k mod max (num_cores k) 1) * (EPHEMERAL_COUNT div max (num_cores k) 1) + i"
  shows "\<exists>x. k' = k\<lparr>next_offset := x\<rparr>"
    and "res = Some p \<Longrightarrow> \<exists>off<EPHEMERAL_COUNT. p = ephemeral_at off \<and> free off
      \<and> (home off \<or> (\<forall>off<EPHEMERAL_COUNT. free off \<longrightarrow> \<not> home off))"
    and "res = None \<Longrightarrow> (\<forall>off<EPHEMERAL_COUNT. free off \<longrightarrow> \<not> home off)
      \<and> (\<forall>i<EPHEMERAL_COUNT div max (num_cores k) 1. \<not> free (own i))"
proof -
  define cur where "cur = (if core_id k < MAX_CORES then next_offset k else 0)"
  define off_of where "off_of i = (cur + i) mod EPHEMERAL_COUNT" for i
  define P where "P i \<longleftrightarrow> free (off_of i) \<and> home (off_of i)" for i
  define sl where "sl = EPHEMERAL_COUNT div max (num_cores k) 1"
  have e: "alloc_ephemeral_port l_ip r_ip r_port k = (case find P [0..<EPHEMERAL_COUNT] of
      Some i \<Rightarrow> (Some (ephemeral_at (off_of i)),
        if core_id k < MAX_CORES then k\<lparr>next_offset := (off_of i + 1) mod EPHEMERAL_COUNT\<rparr> else k)
    | None \<Rightarrow> (map_option (\<lambda>i. ephemeral_at (own i)) (find (\<lambda>i. free (own i)) [0..<sl]), k))"
    by (simp only: alloc_ephemeral_port_def Let_def P_def [abs_def] off_of_def cur_def free_def home_def own_def sl_def)
  have same: "\<exists>x. k = k\<lparr>next_offset := x\<rparr>" by (rule exI [of _ "next_offset k"]) simp
  have none: "\<forall>off<EPHEMERAL_COUNT. free off \<longrightarrow> \<not> home off" if "find P [0..<EPHEMERAL_COUNT] = None"
  proof (intro allI impI)
    fix off assume "off < EPHEMERAL_COUNT" "free off"
    from rotation_covers [OF this(1), of cur] obtain i where i: "i < EPHEMERAL_COUNT" "off_of i = off" by (auto simp: off_of_def)
    then show "\<not> home off" using that \<open>free off\<close> by (auto simp: find_index P_def)
  qed
  have off: "off_of i < EPHEMERAL_COUNT" for i by (simp add: off_of_def EPHEMERAL_COUNT_def)
  show "\<exists>x. k' = k\<lparr>next_offset := x\<rparr>" using a e same by (auto split: option.splits if_splits)
  show "\<exists>off<EPHEMERAL_COUNT. p = ephemeral_at off \<and> free off \<and> (home off \<or> (\<forall>off<EPHEMERAL_COUNT. free off \<longrightarrow> \<not> home off))"
    if r: "res = Some p"
  proof (cases "find P [0..<EPHEMERAL_COUNT]")
    case (Some i)
    then have "P i" "p = ephemeral_at (off_of i)" using a e r find_index(1) [OF Some] by auto
    then show ?thesis using off [of i] by (auto simp: P_def)
  next
    case None
    then obtain i where i: "find (\<lambda>i. free (own i)) [0..<sl] = Some i" "p = ephemeral_at (own i)" using a e r by auto
    then have "i < sl" "free (own i)" using find_index(1) [OF i(1)] by simp_all
    moreover from this have "own i < EPHEMERAL_COUNT" using slice_bound [of i "num_cores k" "core_id k"] by (simp add: own_def sl_def)
    ultimately show ?thesis using i(2) none [OF None] by blast
  qed
  show "(\<forall>off<EPHEMERAL_COUNT. free off \<longrightarrow> \<not> home off) \<and> (\<forall>i<EPHEMERAL_COUNT div max (num_cores k) 1. \<not> free (own i))"
    if "res = None"
  proof (cases "find P [0..<EPHEMERAL_COUNT]")
    case None
    then have "find (\<lambda>i. free (own i)) [0..<sl] = None" using a e that by simp
    then show ?thesis using none [OF None] unfolding find_index sl_def by blast
  qed (use a e that in simp)
qed

section \<open>The open\<close>

lemma touches_send_syn [touching]: "touches c (send_syn c)"
  unfolding send_syn_def by (rule touches_emit)

lemma touches_syn_sent: "touches c (arm_fin_timer now (send_syn c))"
  by (rule touches_trans [OF touches_send_syn touches_arm_fin_timer])

lemma touches_retransmit_syn [touching]: "touches c (retransmit_syn now c)"
proof -
  let ?c = "send_syn c"
  have "touches c ?c" by (rule touches_send_syn)
  also have "touches ?c (?c\<lparr>rtt_anchor_active := False, fin_retx_count := sat_add8 (fin_retx_count ?c) 1\<rparr>)"
    by (simp add: touch_defs)
  also have "touches \<dots> (retransmit_syn now c)" by (simp add: retransmit_syn_def Let_def touches_arm_fin_timer)
  finally show ?thesis .
qed

lemma setup_slot_ok:
  assumes "core_ok k D" "in_use i k" "\<not> live (conns k i)" "listed (conns k i)"
  shows "core_ok (on_conn i (syn_sent_setup l_ip r_ip l_port r_port iss) k) D"
    "in_use s (on_conn i (syn_sent_setup l_ip r_ip l_port r_port iss) k) = in_use s k"
  using core_ok_put_dead [OF assms(1-3), of "syn_sent_setup l_ip r_ip l_port r_port iss (conn_at i k)"] assms(4)
  by (simp_all add: on_conn_def syn_sent_setup_def link_def listed_def armed_def)

text \<open>A connection of the given 4-tuple that waits for the answer to its SYN.\<close>

definition syn_pending :: "IpAddr \<Rightarrow> IpAddr \<Rightarrow> u16 \<Rightarrow> u16 \<Rightarrow> nat \<Rightarrow> core \<Rightarrow> bool" where
  "syn_pending l_ip r_ip l_port r_port s k \<longleftrightarrow> (let c = conns k s
     in in_use s k \<and> state c = SynSent \<and> local_ip c = l_ip \<and> remote_ip c = r_ip \<and> local_port c = l_port
       \<and> remote_port c = r_port \<and> snd_nxt c = snd_una c + 1 \<and> rx_ring c \<noteq> None
       \<and> tcp_hash_find (hash k) (tcp_hash_key r_ip r_port l_port) = Some s
       \<and> lifecycle_deadline_ms c = now_ms (core_env k) + RTO_INITIAL_MS \<and> tick_in_list c)"

definition syn_of :: "tcb \<Rightarrow> sent_segment" where
  "syn_of c = \<lparr>seg_meta = \<lparr>sm_local_ip = local_ip c, sm_dst_ip = remote_ip c, sm_src_port = local_port c,
       sm_dst_port = remote_port c, sm_seq = snd_una c, sm_ack = 0, sm_flags = TCP_SYN, sm_window = as_u16 RX_RING_BYTES\<rparr>,
     seg_options = syn_option_blob (of_nat (mss_for (local_ip c))) True True, seg_payload = []\<rparr>"

lemma ensure_rx_ring_slot:
  assumes "ensure_rx_ring (conn_at s k) = (ok, c')"
  shows "\<exists>r. tcb.truncate c' = (conns k s)\<lparr>rx_ring := r\<rparr> \<and> (ok \<longrightarrow> r \<noteq> None)" "env_quiet (core_env k) (cenv c')"
proof -
  obtain b e where t: "try_alloc (core_env k) = (b, e)" by fastforce
  have tr: "tcb.truncate (conn_at s k) = conns k s" by (simp add: conn_at_def attach_def tcb.extend_def conn.fields_def tcb.truncate_def)
  have tr': "tcb.truncate (conn_at s k\<lparr>cenv := e, rx_ring := r\<rparr>) = (conns k s)\<lparr>rx_ring := r\<rparr>"
    "tcb.truncate (conn_at s k\<lparr>cenv := e\<rparr>) = conns k s" for r
    by (simp_all add: tcb.truncate_def conn_at_def attach_def tcb.extend_def conn.fields_def)
  show "\<exists>r. tcb.truncate c' = (conns k s)\<lparr>rx_ring := r\<rparr> \<and> (ok \<longrightarrow> r \<noteq> None)"
  proof (cases "rx_ring (conns k s)")
    case None
    show ?thesis
    proof (cases b)
      case True
      then have "c' = conn_at s k\<lparr>cenv := e, rx_ring := Some (replicate RX_RING_BYTES 0)\<rparr>" using None t assms by (simp add: ensure_rx_ring_def)
      then have "tcb.truncate c' = (conns k s)\<lparr>rx_ring := Some (replicate RX_RING_BYTES 0)\<rparr>" using tr'(1) by simp
      then show ?thesis by blast
    next
      case False
      then have "c' = conn_at s k\<lparr>cenv := e\<rparr>" "\<not> ok" using None t assms by (simp_all add: ensure_rx_ring_def)
      then have "tcb.truncate c' = (conns k s)\<lparr>rx_ring := rx_ring (conns k s)\<rparr>" using tr'(2) by simp
      then show ?thesis using \<open>\<not> ok\<close> by blast
    qed
  next
    case (Some r)
    then have "c' = conn_at s k" using assms by (simp add: ensure_rx_ring_def)
    then have "tcb.truncate c' = (conns k s)\<lparr>rx_ring := rx_ring (conns k s)\<rparr>" using tr by simp
    moreover have "rx_ring (conns k s) \<noteq> None" using Some by simp
    ultimately show ?thesis by (intro exI [of _ "rx_ring (conns k s)"] conjI impI)
  qed
  show "env_quiet (core_env k) (cenv c')"
    using assms t env_quiet_alloc [OF t] env_quiet_refl by (auto simp: ensure_rx_ring_def Let_def split: option.splits if_splits)
qed

lemma arm_for_tick_env [simp]:
  "mac_known (cenv (arm_for_tick c)) = mac_known (cenv c)" "txbuf_results (cenv (arm_for_tick c)) = txbuf_results (cenv c)"
  by (simp_all add: arm_for_tick_def Let_def)

lemma now_emit [simp]: "now_ms (cenv (emit m p opts c)) = now_ms (cenv c)"
  by (simp add: emit_def)

lemma emit_on_wire:
  assumes "mac_known (cenv c) (sm_dst_ip m)" "txbuf_results (cenv c) = []" "length p \<le> MSS_MAX"
  shows "tx_log (cenv (emit m p opts c)) = tx_log (cenv c) @ [\<lparr>seg_meta = m, seg_options = opts, seg_payload = p\<rparr>]"
  using assms by (simp add: emit_def send_segment_opts_def build_and_send_frame_def acquire_tx_buf_def push_tx_def Let_def)

lemma open_slot_ok:
  fixes l_ip r_ip l_port r_port
  assumes ok: "core_ok k D" and s: "in_use s k" "conns k s = (reset_preserving g c0)\<lparr>rx_ring := Some ring\<rparr>"
  defines "k' \<equiv> open_slot l_ip r_ip l_port r_port s k"
  shows "core_ok k' D" "syn_pending l_ip r_ip l_port r_port s k'" "generation (conns k' s) = g"
    "mac_known (core_env k) r_ip \<Longrightarrow> txbuf_results (core_env k) = [] \<Longrightarrow> tx_log (core_env k') = tx_log (core_env k) @ [syn_of (conns k' s)]"
    "i \<noteq> s \<Longrightarrow> conns k' i = conns k i"
proof -
  define k4 where "k4 = k\<lparr>isn_drawn := isn_drawn k + 1\<rparr>"
  define iss where "iss = isn_source k (isn_drawn k)"
  define k5 where "k5 = on_conn s (syn_sent_setup l_ip r_ip l_port r_port iss) k4"
  define k6 where "k6 = k5\<lparr>hash := tcp_hash_insert (tcp_hash_key r_ip r_port l_port) s (hash k5)\<rparr>"
  have k': "k' = on_conn s (\<lambda>c. arm_fin_timer (now_ms (core_env k)) (send_syn c)) k6"
    by (simp add: k'_def open_slot_def next_seq_def k4_def k5_def k6_def iss_def Let_def)
  have ok4: "core_ok k4 D" "in_use i k4 = in_use i k" for i
    using core_ok_frame [OF ok, of k4] in_use_cong [of k4 k] by (simp_all add: k4_def)
  have dead: "\<not> live (conns k4 s)" "listed (conns k4 s)"
    using s(2) by (simp_all add: k4_def live_def listed_def armed_def reset_preserving_def tcb_new_def Let_def)
  have ok5: "core_ok k5 D" "in_use i k5 = in_use i k" for i
    using setup_slot_ok [OF ok4(1) _ dead] s(1) ok4(2) by (simp_all add: k5_def)
  have c5: "conn_key (conns k5 s) = tcp_hash_key r_ip r_port l_port" "live (conns k5 s)" "s < pool_capacity k5"
    using in_use_bound [OF ok5(1)] ok5(2) s(1) by (simp_all add: k5_def on_conn_def syn_sent_setup_def conn_key_def live_def)
  have ok6: "core_ok k6 D" "in_use i k6 = in_use i k" for i
    using core_ok_index(1) [OF ok5(1) c5(3,2)] c5(1) ok5(2) in_use_cong [of k6 k5] by (simp_all add: k6_def)
  have found: "tcp_hash_find (hash k6) (tcp_hash_key r_ip r_port l_port) = Some s"
    using index_found [OF ok5(1) c5(3,2)] c5(1) by (simp add: k6_def)
  show "core_ok k' D" unfolding k' using ok6 s(1) touches_syn_sent by (intro core_ok_on_conn) simp_all
  have use: "in_use s k'" using core_ok_on_conn(2) [OF ok6(1) _ touches_syn_sent] ok6(2) s(1) by (simp add: k')
  have rto: "backoff_interval 0 c = RTO_INITIAL_MS" if "\<not> rtt_seeded c" for c :: conn
    using that by (simp add: backoff_interval_def estimated_rto_def tcp_consts)
  show "syn_pending l_ip r_ip l_port r_port s k'"
    using use found s(2) unfolding syn_pending_def Let_def k' k6_def k5_def k4_def
    by (simp add: on_conn_def syn_sent_setup_def arm_fin_timer_def send_syn_def rto reset_preserving_def tcb_new_def Let_def)
  show "generation (conns k' s) = g" "i \<noteq> s \<Longrightarrow> conns k' i = conns k i"
    using s(2) by (simp_all add: k' k6_def k5_def k4_def on_conn_def syn_sent_setup_def arm_fin_timer_def send_syn_def)
  show "tx_log (core_env k') = tx_log (core_env k) @ [syn_of (conns k' s)]" if "mac_known (core_env k) r_ip" "txbuf_results (core_env k) = []"
    using that by (simp add: k' k6_def k5_def k4_def on_conn_def syn_sent_setup_def arm_fin_timer_def send_syn_def emit_on_wire syn_of_def)
qed

lemma connect_cases:
  assumes ok: "core_ok k D" and c: "connect_on_core l_ip r_ip r_port k = (res, k')"
  obtains (no) D' where "res = None" "core_ok k' D'" "D' \<subseteq> D" "env_quiet (core_env k) (core_env k')"
  | (yes) l_port k1 s g k3 ring c0 D' where "alloc_ephemeral_port l_ip r_ip r_port k = (Some l_port, k1)"
      "res = Some (encode_handle (core_id k) s, g)" "k' = open_slot l_ip r_ip l_port r_port s k3" "core_ok k3 D'" "D' \<subseteq> D" "in_use s k3"
      "conns k3 s = (reset_preserving g c0)\<lparr>rx_ring := Some ring\<rparr>" "env_quiet (core_env k) (core_env k3)" "num_cores k3 = num_cores k"
proof -
  obtain pr k1 where p: "alloc_ephemeral_port l_ip r_ip r_port k = (pr, k1)" by fastforce
  obtain x where k1: "k1 = k\<lparr>next_offset := x\<rparr>" using alloc_ephemeral_port_cases(1) [OF p] by blast
  have ok1: "core_ok k1 D" "core_env k1 = core_env k" "num_cores k1 = num_cores k" using core_ok_frame [OF ok, of k1] k1 by simp_all
  show thesis
  proof (cases pr)
    case None
    then have "res = None" "k' = k1" using c p by (simp_all add: connect_on_core_def)
    then show ?thesis using ok1 by (intro no [of D]) (simp_all add: env_quiet_refl)
  next
    case (Some l_port)
    obtain r k2 where a: "alloc_connection k1 = (r, k2)" by fastforce
    note env2 = alloc_connection_env [OF ok1(1) a]
    obtain D' where ok2: "core_ok k2 D'" "D' \<subseteq> D" "\<And>s. r = Some s \<Longrightarrow> in_use s k2 \<and> (\<exists>g c. conns k2 s = reset_preserving g c)"
      using core_ok_alloc [OF ok1(1) a] by metis
    show ?thesis
    proof (cases r)
      case None
      then have "res = None" "k' = k2" using c p a Some by (simp_all add: connect_on_core_def)
      then show ?thesis using ok2 env2(1) ok1(2) by (intro no [of D']) simp_all
    next
      case r: (Some s)
      obtain ring_ok c3 where e: "ensure_rx_ring (conn_at s k2) = (ring_ok, c3)" by fastforce
      define k3 where "k3 = conn_put s c3 k2"
      have s: "in_use s k2" using ok2(3) r by simp
      obtain g c0 where g: "conns k2 s = reset_preserving g c0" using ok2(3) r by blast
      have t: "touches (conn_at s k2) c3" using touches_ensure_rx_ring [of "conn_at s k2"] e by simp
      have ok3: "core_ok k3 D'" "in_use s k3" using core_ok_put [OF ok2(1) s t] s by (simp_all add: k3_def)
      obtain ring where ring: "tcb.truncate c3 = (conns k2 s)\<lparr>rx_ring := ring\<rparr>" "ring_ok \<Longrightarrow> ring \<noteq> None"
        using ensure_rx_ring_slot(1) [OF e] by blast
      have env3: "env_quiet (core_env k) (core_env k3)" "num_cores k3 = num_cores k"
        using env_quiet_trans [OF env2(1) ensure_rx_ring_slot(2) [OF e]] ok1(2,3) env2(3) by (simp_all add: k3_def)
      show ?thesis
      proof (cases ring_ok)
        case False
        then have res: "res = None" "k' = free_connection s k3" using c p a Some r e by (simp_all add: connect_on_core_def k3_def)
        obtain fs ts where pk: "pool_ok k3 fs ts D'" "s < pool_capacity k3" "s \<notin> set fs" using ok3 by (auto elim: core_okE)
        show ?thesis
        proof (rule no [OF res(1)])
          show "core_ok k' (D' - {s})" unfolding res using ok3 by (rule core_ok_free(1))
          show "D' - {s} \<subseteq> D" using ok2(2) by blast
          show "env_quiet (core_env k) (core_env k')" unfolding res using env3(1) free_connection_env(1) [OF pk] by (rule env_quiet_trans)
        qed
      next
        case True
        then obtain rg where rg: "ring = Some rg" using ring(2) by blast
        have c3: "conns k3 s = (reset_preserving g c0)\<lparr>rx_ring := Some rg\<rparr>" using ring(1) g rg by (simp add: k3_def)
        have "generation (conns k3 s) = g" by (simp add: c3)
        then have "res = Some (encode_handle (core_id k) s, g)" "k' = open_slot l_ip r_ip l_port r_port s k3"
          using c p a Some r e True by (simp_all add: connect_on_core_def k3_def Let_def)
        then show ?thesis using ok3 ok2(2) c3 env3 Some p by (intro yes [of l_port k1 s g k3 D' rg c0]) simp_all
      qed
    qed
  qed
qed

lemma handle_slot_inj:
  assumes "encode_handle c s = encode_handle c s'" "s < 65472" "s' < 65472"
  shows "s = s'"
proof -
  have u: "unat ((encode_handle c i - 1) AND 0xFFFF) = i" if "i < 65472" for i
  proof -
    have m: "(0xFFFF :: u64) = mask 16" by (simp add: mask_eq_decr_exp)
    have "(push_bit 16 (of_nat c) OR (of_nat i AND mask 16)) AND mask 16 = (of_nat i AND mask 16 :: u64)"
      by (rule bit_word_eqI) (auto simp: bit_simps)
    then have "unat ((encode_handle c i - 1) AND 0xFFFF) = unat (of_nat i AND mask 16 :: u64)" unfolding encode_handle_def m by simp
    also have "\<dots> = i"
      unfolding take_bit_eq_mask [symmetric] take_bit_of_nat using that by (simp add: take_bit_nat_eq_self unat_of_nat)
    finally show ?thesis .
  qed
  show ?thesis by (rule trans [OF u [OF assms(2), symmetric] u [OF assms(3), folded assms(1)]])
qed

text \<open>With memory and room in the pool, neither allocation of an open fails.\<close>

lemma alloc_succeeds:
  assumes ok: "core_ok k D" and room: "free_head k \<noteq> NULL_SLOT \<or> nsegs k < MAX_SEGMENTS" and mem: "alloc_results (core_env k) = []"
  obtains s k' where "alloc_connection k = (Some s, k')" "alloc_results (core_env k') = []"
proof -
  obtain fs ts where p: "pool_ok k fs ts D" using ok by (auto elim: core_okE)
  have "\<exists>s k1. pool_alloc k = (Some s, k1)"
  proof (cases "free_head k = NULL_SLOT")
    case True
    obtain b k1 where g: "grow_segment k = (b, k1)" by fastforce
    then have b: "b" using room mem True by (auto simp: grow_segment_def try_alloc_def Let_def split: if_splits)
    have "fs = []" using True p free_list_null by (auto simp: pool_ok_def)
    from grow_segment_ok(1) [OF p [unfolded this] g] b have "pool_ok k1 [pool_capacity k..<pool_capacity k + SEGMENT_SIZE] ts D" by simp
    moreover have "[pool_capacity k..<pool_capacity k + SEGMENT_SIZE] \<noteq> []" by (simp add: tcp_consts)
    ultimately have "free_head k1 \<noteq> NULL_SLOT" using free_list_null by (auto simp: pool_ok_def)
    then show ?thesis using g b True by (simp add: pool_alloc_cases [of k] pool_alloc_cases [of k1])
  qed (simp add: pool_alloc_cases [of k])
  then obtain s k' where "alloc_connection k = (Some s, k')" by (auto simp: alloc_connection_def Let_def)
  then show thesis using that alloc_connection_env(1) [OF ok] mem by (simp add: env_quiet_def)
qed

lemma connect_succeeds:
  assumes ok: "core_ok k D" and port: "alloc_ephemeral_port l_ip r_ip r_port k = (Some p, k1)"
    and room: "free_head k \<noteq> NULL_SLOT \<or> nsegs k < MAX_SEGMENTS" and mem: "alloc_results (core_env k) = []"
  obtains h g k' where "connect_on_core l_ip r_ip r_port k = (Some (h, g), k')"
proof -
  obtain x where k1: "k1 = k\<lparr>next_offset := x\<rparr>" using alloc_ephemeral_port_cases(1) [OF port] by blast
  have "core_ok k1 D" "nsegs k1 = nsegs k" "free_head k1 = free_head k" "core_env k1 = core_env k" using core_ok_frame [OF ok, of k1] k1 by simp_all
  then obtain s k2 where a: "alloc_connection k1 = (Some s, k2)" "alloc_results (core_env k2) = []" using alloc_succeeds room mem by metis
  obtain c where "ensure_rx_ring (conn_at s k2) = (True, c)"
    using a(2) by (cases "rx_ring (conns k2 s)") (simp_all add: ensure_rx_ring_def try_alloc_def)
  then show thesis using that port a by (simp add: connect_on_core_def)
qed

section \<open>Failing an open\<close>

lemma conn_put_attach: "conn_put s (attach c e) k = k\<lparr>conns := (conns k)(s := c), core_env := e\<rparr>"
  by (cases c) (simp add: conn_put_def detach_def attach_def tcb.extend_def conn.fields_def tcb.truncate_def)

lemma fail_connect_ok:
  assumes ok: "core_ok k D" and s: "in_use s k"
  shows "core_ok (fail_connect s f k) D" "in_use i (fail_connect s f k) = in_use i k"
proof -
  define k1 where "k1 = k\<lparr>hash := tcp_hash_remove (conn_key (conns k s)) (hash k)\<rparr>"
  define c1 where "c1 = (conns k s)\<lparr>connect_failure := f, state := Closed, lifecycle_deadline_ms := 0, fin_retx_count := 0,
    rtt_anchor_active := False, send_waker := None, recv_waker := None\<rparr>"
  define e where "e = wake (recv_waker (conns k s)) (wake (send_waker (conns k s)) (core_env k))"
  have f: "fail_connect s f k = conn_put s (attach c1 e) k1"
    by (simp add: fail_connect_def conn_put_attach k1_def c1_def e_def Let_def)
  have ok1: "core_ok k1 D" "in_use i k1 = in_use i k" for i
    using core_ok_index(2) [OF ok] in_use_cong [of k1 k] by (simp_all add: k1_def)
  have at: "slot_index (attach c1 e) = slot_index (conns k1 s)" "next_free (attach c1 e) = next_free (conns k1 s)"
    "link (conn_at s k1) (attach c1 e)"
    by (simp_all add: attach_def tcb.extend_def conn.fields_def c1_def k1_def link_def e_def)
  have l: "listed (attach c1 e)"
    using ok by (simp add: core_ok_def all_slots_def listed_def armed_def attach_def tcb.extend_def conn.fields_def c1_def)
  have un: "tcp_hash_find (hash k1) key \<noteq> Some s" for key using unindexed_after_remove [OF ok] by (simp add: k1_def)
  show "core_ok (fail_connect s f k) D" "in_use i (fail_connect s f k) = in_use i k"
    unfolding f using core_ok_put_gen [OF ok1(1) _ at _ l] s ok1(2) un by simp_all
qed

section \<open>Properties\<close>

text \<open>The ephemeral port. A port handed out lies in the range 49152 to 65535, its 4-tuple is not that of
  a live connection, and the flow hash sends the peer's answers to this core whenever some free port of
  the range has that property. No port is handed out only when every port that hashes to this core and
  every port of this core's share of the range is taken; free ports outside both do not count.\<close>

theorem ephemeral_port_choice:
  assumes "alloc_ephemeral_port l_ip r_ip r_port k = (res, k')"
  shows "case res of
      Some p \<Rightarrow> 49152 \<le> unat p \<and> \<not> tuple_in_use r_ip r_port p k
        \<and> ((\<exists>off<16384. \<not> tuple_in_use r_ip r_port (ephemeral_at off) k
              \<and> flow_owner r_ip l_ip r_port (ephemeral_at off) (num_cores k) = core_id k)
            \<longrightarrow> flow_owner r_ip l_ip r_port p (num_cores k) = core_id k)
    | None \<Rightarrow> (\<forall>off<16384. flow_owner r_ip l_ip r_port (ephemeral_at off) (num_cores k) = core_id k
          \<longrightarrow> tuple_in_use r_ip r_port (ephemeral_at off) k)
        \<and> (\<forall>i<16384 div max (num_cores k) 1.
          tuple_in_use r_ip r_port (ephemeral_at ((core_id k mod max (num_cores k) 1) * (16384 div max (num_cores k) 1) + i)) k)"
proof (cases res)
  case None
  then show ?thesis using alloc_ephemeral_port_cases(3) [OF assms] unfolding EPHEMERAL_COUNT_def by auto
next
  case (Some p)
  from alloc_ephemeral_port_cases(2) [OF assms Some] obtain off where off: "off < EPHEMERAL_COUNT" "p = ephemeral_at off"
    "\<not> tuple_in_use r_ip r_port (ephemeral_at off) k"
    "flow_owner r_ip l_ip r_port (ephemeral_at off) (num_cores k) = core_id k
      \<or> (\<forall>off<EPHEMERAL_COUNT. \<not> tuple_in_use r_ip r_port (ephemeral_at off) k
            \<longrightarrow> flow_owner r_ip l_ip r_port (ephemeral_at off) (num_cores k) \<noteq> core_id k)" by blast
  have "49152 \<le> unat p" using ephemeral_at_unat [OF off(1)] off(2) by (simp add: EPHEMERAL_LO_def)
  then show ?thesis using Some off unfolding EPHEMERAL_COUNT_def by auto
qed

lemma demo_port:
  "alloc_ephemeral_port (V4 l) (V4 r) q demo_core = (Some 49152, demo_core\<lparr>next_offset := 1\<rparr>)"
  "\<not> tuple_in_use (V4 r) q p demo_core" "flow_owner (V4 r) (V4 l) q p (num_cores demo_core) = core_id demo_core"
proof -
  show u: "\<not> tuple_in_use (V4 r) q p demo_core" for p
    using pool_ok_new [of 0 1 "\<lambda>_. 7" demo_env] by (auto simp: tuple_in_use_def demo_core_def pool_ok_def index_ok_def core_new_def
      tcb_new_def live_def pool_capacity_def width_simps split: option.split)
  have o: "flow_owner (V4 r) (V4 l) q p 1 = 0" for p by (simp add: flow_hash_v4_def)
  have n: "0 < EPHEMERAL_COUNT" "Suc 0 mod EPHEMERAL_COUNT = 1" by (simp_all add: EPHEMERAL_COUNT_def)
  then have up: "[0..<EPHEMERAL_COUNT] = 0 # [1..<EPHEMERAL_COUNT]" by (simp add: upt_conv_Cons)
  have at: "ephemeral_at 0 = 49152" by (simp add: ephemeral_at_def EPHEMERAL_LO_def)
  have core: "core_id demo_core = 0" "num_cores demo_core = 1" "next_offset demo_core = 0" by (simp_all add: demo_core_def core_new_def)
  show "flow_owner (V4 r) (V4 l) q p (num_cores demo_core) = core_id demo_core" unfolding core by (rule o)
  show "alloc_ephemeral_port (V4 l) (V4 r) q demo_core = (Some 49152, demo_core\<lparr>next_offset := 1\<rparr>)"
    unfolding alloc_ephemeral_port_def core up Let_def using u o n by (simp add: at MAX_CORES_def)
qed

theorem ephemeral_port_choice_witness:
  "49152 \<le> unat (49152 :: u16) \<and> \<not> tuple_in_use (V4 0xC0A80102) 80 49152 demo_core"
  using ephemeral_port_choice [OF demo_port(1)] by simp

text \<open>An open that just succeeded is reported as in progress.\<close>

lemma connect_status_pending:
  assumes ok: "core_ok (m ! c) D" and s: "syn_pending l_ip r_ip p r_port s (m ! c)" and m: "c < length m" "length m \<le> 4294967296"
  shows "connect_status (encode_handle c s) (generation (conns (m ! c) s)) m = InProgress"
proof -
  obtain fs ts where "pool_ok (m ! c) fs ts D" using ok by (auto elim: core_okE)
  then have "slots_ok (m ! c)" by (simp add: pool_ok_def)
  moreover have "s < pool_capacity (m ! c)" "state (conns (m ! c) s) = SynSent"
    using s in_use_bound [OF ok] by (simp_all add: syn_pending_def Let_def)
  ultimately show ?thesis using decode_encode(1) [OF m] by (simp add: connect_status_def)
qed

text \<open>C26: An active open. Whatever allocations fail, \<open>connect_on_core\<close> keeps the core's invariant. When it
  returns a handle, the slot behind it holds a connection in SYN-SENT for the requested peer and a free
  ephemeral port, the connection index finds it by that 4-tuple, its SYN timer is armed on the timer list,
  its status is in progress, and a SYN with the stack's options and the connection's initial sequence
  number is the only frame sent if the next hop is resolved and the driver has buffers. When it returns
  nothing, no frame was sent, and either no ephemeral port was found, or the pool is full, or a heap
  allocation may fail.\<close>

theorem connect_opens:
  assumes "core_ok k D" and "connect_on_core l_ip r_ip r_port k = (res, k')"
  shows "\<exists>D'\<subseteq>D. core_ok k' D' \<and> (case res of
      None \<Rightarrow> tx_log (core_env k') = tx_log (core_env k)
        \<and> (fst (alloc_ephemeral_port l_ip r_ip r_port k) = None
           \<or> free_head k = NULL_SLOT \<and> MAX_SEGMENTS \<le> nsegs k \<or> alloc_results (core_env k) \<noteq> [])
    | Some (h, g) \<Rightarrow> \<exists>s p. h = encode_handle (core_id k) s \<and> g = generation (conns k' s) \<and> syn_pending l_ip r_ip p r_port s k'
        \<and> (\<forall>m. core_id k < length m \<and> length m \<le> 4294967296 \<and> m ! core_id k = k' \<longrightarrow> connect_status h g m = InProgress)
        \<and> 49152 \<le> unat p \<and> \<not> tuple_in_use r_ip r_port p k
        \<and> (mac_known (core_env k) r_ip \<and> txbuf_results (core_env k) = []
            \<longrightarrow> tx_log (core_env k') = tx_log (core_env k) @ [syn_of (conns k' s)]))"
  using assms
proof (cases rule: connect_cases)
  case (no D')
  have "fst (alloc_ephemeral_port l_ip r_ip r_port k) = None
      \<or> free_head k = NULL_SLOT \<and> MAX_SEGMENTS \<le> nsegs k \<or> alloc_results (core_env k) \<noteq> []"
  proof (rule ccontr)
    assume n: "\<not> ?thesis"
    then obtain p k1 where "alloc_ephemeral_port l_ip r_ip r_port k = (Some p, k1)"
      by (cases "alloc_ephemeral_port l_ip r_ip r_port k") auto
    from connect_succeeds [OF assms(1) this] n show False using assms(2) no(1) by auto
  qed
  then show ?thesis using no by (auto simp: env_quiet_def)
next
  case (yes p k1 s g k3 ring c0 D')
  note o = open_slot_ok [OF yes(4,6,7), where l_ip = l_ip and r_ip = r_ip and l_port = p and r_port = r_port, folded yes(3)]
  from alloc_ephemeral_port_cases(2) [OF yes(1) refl] obtain off where "off < EPHEMERAL_COUNT" "p = ephemeral_at off"
    "\<not> tuple_in_use r_ip r_port (ephemeral_at off) k" by blast
  then have p: "49152 \<le> unat p" "\<not> tuple_in_use r_ip r_port p k" using ephemeral_at_unat by (simp_all add: EPHEMERAL_LO_def)
  have "tx_log (core_env k') = tx_log (core_env k) @ [syn_of (conns k' s)]" if "mac_known (core_env k) r_ip" "txbuf_results (core_env k) = []"
    using o(4) that yes(8) by (simp add: env_quiet_def)
  moreover have "connect_status (encode_handle (core_id k) s) g m = InProgress"
    if "core_id k < length m" "length m \<le> 4294967296" "m ! core_id k = k'" for m
    using connect_status_pending [of m "core_id k" D' l_ip r_ip p r_port s] o(1-3) that by simp
  ultimately show ?thesis using yes(2,5) o(1-3) p by auto
qed

lemma demo_core_ok: "core_ok demo_core {}"
  unfolding demo_core_def by (rule core_ok_new)

lemma demo_core_room: "nsegs demo_core < MAX_SEGMENTS" "alloc_results (core_env demo_core) = []"
  by (simp_all add: demo_core_def core_new_def demo_env_def tcp_consts)

lemmas demo_core_allocates = disjI2 [OF demo_core_room(1)] demo_core_room(2)

theorem connect_opens_witness:
  "\<exists>h g s p k'. connect_on_core (V4 0xC0A80101) (V4 0xC0A80102) 80 demo_core = (Some (h, g), k')
     \<and> core_ok k' {} \<and> syn_pending (V4 0xC0A80101) (V4 0xC0A80102) p 80 s k' \<and> connect_status h g [k'] = InProgress"
proof -
  obtain h g k' where c: "connect_on_core (V4 0xC0A80101) (V4 0xC0A80102) 80 demo_core = (Some (h, g), k')"
    using connect_succeeds [OF demo_core_ok demo_port(1) demo_core_allocates] by blast
  have "core_id demo_core = 0" by (simp add: demo_core_def core_new_def)
  with connect_opens [OF demo_core_ok c] c show ?thesis by (auto dest!: spec [of _ "[k']"])
qed

text \<open>C27: Port affinity end to end. If an open succeeds and some free port of the range hashes home, then every
  frame the peer builds for this connection, whatever its flags, options and payload, is classified as
  a TCP packet whose flow hash names the core that opened the connection, and there the connection index
  finds the opened slot under the 4-tuple the header of the answer parses to.\<close>

theorem replies_reach_opener:
  assumes "core_ok k D" and "connect_on_core l_ip r_ip r_port k = (Some (h, g), k')"
    and "\<exists>off<16384. \<not> tuple_in_use r_ip r_port (ephemeral_at off) k
           \<and> flow_owner r_ip l_ip r_port (ephemeral_at off) (num_cores k) = core_id k"
    and "h = encode_handle (core_id k) s" and "in_use s k'"
    and "sm_local_ip m = r_ip" and "sm_dst_ip m = l_ip" and "sm_src_port m = r_port" and "sm_dst_port m = local_port (conns k' s)"
    and "length peer_mac = 6" and "length our_mac = 6"
    and "fill_tcp_frame peer_mac our_mac ip_id m options payload = Some frame"
    and "20 + (20 + length options + length payload) \<le> 65535" and "dst_accepted cfg accept_v6 l_ip"
  shows "\<exists>p seg hdr. classify cfg accept_v6 (frame @ pad) = Ip p \<and> l3_proto p = PROTO_TCP
    \<and> owner p (frame @ pad) (num_cores k) = core_id k
    \<and> l4 p (frame @ pad) = Some seg \<and> parse_tcp_header seg = Some hdr
    \<and> tcp_hash_find (hash k') (tcp_hash_key (l3_src p) (th_src_port hdr) (th_dst_port hdr)) = Some s"
  using assms(1,2)
proof (cases rule: connect_cases)
  case (yes lp k1 s' g' k3 ring c0 D')
  note o = open_slot_ok [OF yes(4,6,7), where l_ip = l_ip and r_ip = r_ip and l_port = lp and r_port = r_port, folded yes(3)]
  have "s' < 65472" "s < 65472" using in_use_bound [OF o(1)] o(2) assms(5) by (auto simp: syn_pending_def Let_def)
  moreover have "encode_handle (core_id k) s = encode_handle (core_id k) s'" using yes(2) assms(4) by simp
  ultimately have "s = s'"
    using handle_slot_inj by blast
  then have lp: "local_port (conns k' s) = lp" and found: "tcp_hash_find (hash k') (tcp_hash_key r_ip r_port lp) = Some s"
    using o(2) by (simp_all add: syn_pending_def Let_def)
  have home: "flow_owner r_ip l_ip r_port lp (num_cores k) = core_id k"
    using alloc_ephemeral_port_cases(2) [OF yes(1) refl] assms(3) unfolding EPHEMERAL_COUNT_def by blast
  obtain p where p: "classify cfg accept_v6 (frame @ pad) = Ip p" "l3_proto p = PROTO_TCP" "l3_src p = sm_local_ip m"
    "l3_dst p = sm_dst_ip m" "l4 p (frame @ pad) = Some (tcp_segment m options payload)"
    using classify_tcp_frame [OF assms(10,11,12,13)] assms(14,7) by metis
  have "parse_tcp_header (tcp_segment m options payload) = Some (header_of m options)" by (rule parse_tcp_segment)
  moreover have "tcp_hash_find (hash k') (tcp_hash_key (l3_src p) (th_src_port (header_of m options)) (th_dst_port (header_of m options))) = Some s"
    using found p(3) assms(6,8,9) lp by (simp add: header_of_def)
  ultimately show ?thesis using p owner_of_segment [OF p(5,3,4), of "num_cores k"] assms(6-9) lp home by auto
qed simp

theorem replies_reach_opener_witness:
  "\<exists>k' h g s frame p seg hdr. connect_on_core (V4 0xC0A80102) (V4 0xC0A80101) 49152 demo_core = (Some (h, g), k')
     \<and> classify demo_cfg (\<lambda>_. False) (frame @ []) = Ip p \<and> owner p (frame @ []) (num_cores demo_core) = core_id demo_core
     \<and> h = encode_handle (core_id demo_core) s \<and> l4 p (frame @ []) = Some seg \<and> parse_tcp_header seg = Some hdr
     \<and> tcp_hash_find (hash k') (tcp_hash_key (l3_src p) (th_src_port hdr) (th_dst_port hdr)) = Some s"
proof -
  obtain h g k' where c: "connect_on_core (V4 0xC0A80102) (V4 0xC0A80101) 49152 demo_core = (Some (h, g), k')"
    using connect_succeeds [OF demo_core_ok demo_port(1) demo_core_allocates] by blast
  obtain s where s: "h = encode_handle (core_id demo_core) s" "in_use s k'"
    using demo_core_ok c
  proof (cases rule: connect_cases)
    case (yes lp k1 s' g' k3 ring c0 D')
    then show ?thesis using that [of s'] open_slot_ok(2) [OF yes(4,6,7)] by (simp add: syn_pending_def Let_def)
  qed simp
  define m where "m = demo_meta\<lparr>sm_dst_port := local_port (conns k' s)\<rparr>"
  obtain frame where f: "fill_tcp_frame [1,2,3,4,5,6] [7,8,9,10,11,12] 3 m [] [] = Some frame"
    by (simp add: fill_tcp_frame_def m_def demo_meta_def)
  have "dst_accepted demo_cfg (\<lambda>_. False) (V4 0xC0A80102)" by (simp add: dst_accepted_def ipv4_accepts_def demo_cfg_def)
  moreover have "\<exists>off<16384. \<not> tuple_in_use (V4 0xC0A80101) 49152 (ephemeral_at off) demo_core
      \<and> flow_owner (V4 0xC0A80101) (V4 0xC0A80102) 49152 (ephemeral_at off) (num_cores demo_core) = core_id demo_core"
    using demo_port(2,3) by (intro exI [of _ 0]) simp
  ultimately have "\<exists>p seg hdr. classify demo_cfg (\<lambda>_. False) (frame @ []) = Ip p \<and> l3_proto p = PROTO_TCP
      \<and> owner p (frame @ []) (num_cores demo_core) = core_id demo_core
      \<and> l4 p (frame @ []) = Some seg \<and> parse_tcp_header seg = Some hdr
      \<and> tcp_hash_find (hash k') (tcp_hash_key (l3_src p) (th_src_port hdr) (th_dst_port hdr)) = Some s"
    by (intro replies_reach_opener [OF demo_core_ok c _ s _ _ _ _ _ _ f]) (simp_all add: m_def demo_meta_def)
  then show ?thesis using c s(1) by blast
qed

end
