(* ===== verification/Tcp_Listener.thy ===== *)
theory Tcp_Listener
  imports Tcp_Connect
begin

text \<open>
  The operations of \<open>crates/net/tcp/src/listener.rs\<close>: listening, accepting, reading, closing, the waker
  hooks and the shutdown of every connection.

  Each operation is a function on the state of one core. Those that take a connection handle
  decode it against the machine and run on the core it names, after the generation check of the
  code. A destination buffer is its length, the bytes copied out are a result, and the hooks that
  register a waker return whether they woke it at once. An operation on a slot that keeps the core's invariant is
  the interface \<open>slot_op\<close>; running it through a handle then keeps the invariant of the machine.
\<close>

section \<open>Listening and accepting\<close>

text \<open>A write to the fields of one control block.\<close>

definition upd_slot :: "nat \<Rightarrow> (tcb \<Rightarrow> tcb) \<Rightarrow> core \<Rightarrow> core" where
  "upd_slot s u k = k\<lparr>conns := (conns k)(s := u (conns k s))\<rparr>"

definition listen_on_core :: "u16 \<Rightarrow> core \<Rightarrow> u64 \<times> core" where
  "listen_on_core port k =
     (case alloc_connection k of
        (None, k1) \<Rightarrow> (0, k1)
      | (Some slot, k1) \<Rightarrow>
          let k2 = upd_slot slot (\<lambda>c. c\<lparr>state := Listen, local_port := port\<rparr>) k1
          in (encode_handle (core_id k) slot, listener_register port slot k2))"

definition acceptable :: "u16 \<Rightarrow> tcb \<Rightarrow> bool" where
  "acceptable port c \<longleftrightarrow> state c = Established \<and> listener_port c = port \<and> \<not> accepted c"

definition mark_accepted :: "nat \<Rightarrow> core \<Rightarrow> core" where
  "mark_accepted i k = upd_slot i (\<lambda>c. c\<lparr>accepted := True\<rparr>) k"

text \<open>The loop over the accept ring; a ring holds 4096 entries at most, so the fuel is never used up.\<close>

fun accept_loop :: "nat \<Rightarrow> u16 \<Rightarrow> core \<Rightarrow> nat option \<times> core" where
  "accept_loop 0 port k = (None, k)"
| "accept_loop (Suc n) port k =
     (case accept_ring_pop port k of
        (None, k1) \<Rightarrow> (None, k1)
      | (Some i, k1) \<Rightarrow>
          if acceptable port (conns k1 i) then (Some i, mark_accepted i k1) else accept_loop n port k1)"

definition accept_on_port_core :: "u16 \<Rightarrow> core \<Rightarrow> (u64 \<times> nat) option \<times> core" where
  "accept_on_port_core port k =
     (case accept_loop (ACCEPT_RING_CAPACITY + 1) port k of
        (Some i, k1) \<Rightarrow> (Some (encode_handle (core_id k) i, generation (conns k1 i)), k1)
      | (None, k1) \<Rightarrow>
          (case find (\<lambda>i. acceptable port (conns k1 i)) [0..<pool_capacity k1] of
             Some i \<Rightarrow> (Some (encode_handle (core_id k) i, generation (conns k1 i)), mark_accepted i k1)
           | None \<Rightarrow> (None, k1)))"

section \<open>Operations on a handle\<close>

text \<open>Decode, check the generation, run on the slot; \<open>stale\<close> is the result for a handle that does not
  name a live slot.\<close>

definition with_handle :: "u64 \<Rightarrow> nat \<Rightarrow> 'r \<Rightarrow> (nat \<Rightarrow> core \<Rightarrow> 'r \<times> core) \<Rightarrow> machine \<Rightarrow> 'r \<times> machine" where
  "with_handle handle gen stale f m =
     (case decode_handle m handle of
        None \<Rightarrow> (stale, m)
      | Some (core, slot) \<Rightarrow>
          if generation (conns (m ! core) slot) \<noteq> gen then (stale, m)
          else let (r, k) = f slot (m ! core) in (r, m[core := k]))"

definition is_readable_or_closed :: "u64 \<Rightarrow> nat \<Rightarrow> machine \<Rightarrow> bool" where
  "is_readable_or_closed handle gen m =
     (case decode_handle m handle of
        None \<Rightarrow> True
      | Some (core, slot) \<Rightarrow>
          let c = conns (m ! core) slot
          in if generation c \<noteq> gen then True
             else if rx_used c > 0 \<or> pending_chunk c \<noteq> None then True
             else state c \<in> {Closed, CloseWait, LastAck, TimeWait})"

text \<open>The FIN both closing states send.\<close>

definition send_fin :: "TcpState \<Rightarrow> conn \<Rightarrow> conn" where
  "send_fin st c =
     (let c1 = emit (seg_of c (snd_nxt c) (TCP_FIN OR TCP_ACK) (as_u16 (rx_free c))) [] [] c;
          c2 = c1\<lparr>snd_nxt := snd_nxt c1 + 1, state := st\<rparr>
      in arm_fin_timer (clock c2) c2)"

definition close_slot :: "nat \<Rightarrow> core \<Rightarrow> core" where
  "close_slot slot k =
     (case state (conns k slot) of
        Established \<Rightarrow> on_conn slot (send_fin FinWait1) k
      | CloseWait \<Rightarrow> on_conn slot (send_fin LastAck) k
      | _ \<Rightarrow> free_connection slot k)"

definition tcp_close :: "u64 \<Rightarrow> nat \<Rightarrow> machine \<Rightarrow> machine" where
  "tcp_close handle gen m = snd (with_handle handle gen () (\<lambda>slot k. ((), close_slot slot k)) m)"

definition shutdown_slot :: "nat \<Rightarrow> core \<Rightarrow> core" where
  "shutdown_slot slot k =
     (let c = conns k slot;
          k1 = (if state c \<noteq> Closed \<and> state c \<noteq> Listen
                then free_connection slot (k\<lparr>core_env := send_rst (local_ip c) (remote_ip c) (local_port c) (remote_port c)
                       (snd_nxt c) (rcv_nxt c) (core_env k)\<rparr>)
                else k)
      in upd_slot slot (\<lambda>c. c\<lparr>rx_ring := None, rtx_queue := [], rtx_bytes_in_flight := 0\<rparr>) k1)"

definition shutdown_all :: "machine \<Rightarrow> machine" where
  "shutdown_all m = map (\<lambda>k. fold shutdown_slot [0..<pool_capacity k] k) m"

definition async_recv :: "u64 \<Rightarrow> nat \<Rightarrow> nat \<Rightarrow> machine \<Rightarrow> bytes \<times> machine" where
  "async_recv handle gen buf_len m =
     with_handle handle gen [] (\<lambda>slot k. let (out, c) = rx_pop buf_len (conn_at slot k) in (out, conn_put slot c k)) m"

text \<open>The result of the registration hooks: whether the waker was woken at once.\<close>

definition register_recv_waker :: "u64 \<Rightarrow> nat \<Rightarrow> nat \<Rightarrow> machine \<Rightarrow> bool \<times> machine" where
  "register_recv_waker handle gen waker m =
     with_handle handle gen True
       (\<lambda>slot k. (False, upd_slot slot (\<lambda>c. c\<lparr>recv_waker := Some waker\<rparr>) k)) m"

definition clear_recv_waker :: "u64 \<Rightarrow> nat \<Rightarrow> machine \<Rightarrow> machine" where
  "clear_recv_waker handle gen m =
     snd (with_handle handle gen () (\<lambda>slot k. ((), upd_slot slot (\<lambda>c. c\<lparr>recv_waker := None\<rparr>) k)) m)"

definition set_chunk_buf_slot :: "u64 \<Rightarrow> nat \<Rightarrow> machine \<Rightarrow> machine" where
  "set_chunk_buf_slot handle gen m =
     snd (with_handle handle gen () (\<lambda>slot k. ((), upd_slot slot (\<lambda>c. c\<lparr>chunk_wanted := True\<rparr>) k)) m)"

definition clear_chunk_buf_slot :: "u64 \<Rightarrow> nat \<Rightarrow> machine \<Rightarrow> machine" where
  "clear_chunk_buf_slot handle gen m =
     snd (with_handle handle gen () (\<lambda>slot k. ((), upd_slot slot (\<lambda>c. c\<lparr>chunk_wanted := False\<rparr>) k)) m)"

definition recv_chunk :: "conn \<Rightarrow> bytes option \<times> conn" where
  "recv_chunk c =
     (case pending_chunk c of
        Some b \<Rightarrow> (Some b, c\<lparr>pending_chunk := None\<rparr>)
      | None \<Rightarrow>
          let n = rx_used c
          in if n = 0 then (None, c)
             else let (ok, e) = try_alloc (cenv c); c1 = c\<lparr>cenv := e\<rparr>
                  in if \<not> ok then (None, c1)
                     else let (out, c2) = rx_pop n c1 in (Some out, c2))"

definition do_recv_chunk :: "u64 \<Rightarrow> nat \<Rightarrow> machine \<Rightarrow> bytes option \<times> machine" where
  "do_recv_chunk handle gen m =
     with_handle handle gen None (\<lambda>slot k. let (r, c) = recv_chunk (conn_at slot k) in (r, conn_put slot c k)) m"

definition register_send_waker :: "u64 \<Rightarrow> nat \<Rightarrow> nat \<Rightarrow> machine \<Rightarrow> bool \<times> machine" where
  "register_send_waker handle gen waker m =
     with_handle handle gen True
       (\<lambda>slot k. (False, upd_slot slot (\<lambda>c. c\<lparr>send_waker := Some waker\<rparr>) k)) m"

definition clear_send_waker :: "u64 \<Rightarrow> nat \<Rightarrow> machine \<Rightarrow> machine" where
  "clear_send_waker handle gen m =
     snd (with_handle handle gen () (\<lambda>slot k. ((), upd_slot slot (\<lambda>c. c\<lparr>send_waker := None\<rparr>) k)) m)"

section \<open>Field writes\<close>

text \<open>A write that leaves the links, the identity and the timers of the block alone.\<close>

locale quiet_update =
  fixes u :: "tcb \<Rightarrow> tcb"
  assumes links: "next_free (u c) = next_free c" "slot_index (u c) = slot_index c" "tick_next (u c) = tick_next c"
      "tick_in_list (u c) = tick_in_list c"
    and same: "state (u c) = state c" "remote_ip (u c) = remote_ip c" "remote_port (u c) = remote_port c"
      "local_port (u c) = local_port c" "generation (u c) = generation c"
    and timers: "rtx_deadline_ms (u c) = rtx_deadline_ms c" "tlp_deadline_ms (u c) = tlp_deadline_ms c"
      "rack_deadline_ms (u c) = rack_deadline_ms c" "persist_deadline_ms (u c) = persist_deadline_ms c"
      "lifecycle_deadline_ms (u c) = lifecycle_deadline_ms c"
begin

lemma fields [simp]:
  "next_free (conns (upd_slot s u k) i) = next_free (conns k i)" "slot_index (conns (upd_slot s u k) i) = slot_index (conns k i)"
  "tick_next (conns (upd_slot s u k) i) = tick_next (conns k i)" "tick_in_list (conns (upd_slot s u k) i) = tick_in_list (conns k i)"
  "state (conns (upd_slot s u k) i) = state (conns k i)" "conn_key (conns (upd_slot s u k) i) = conn_key (conns k i)"
  "live (conns (upd_slot s u k) i) = live (conns k i)" "listed (conns (upd_slot s u k) i) = listed (conns k i)"
  "pool_capacity (upd_slot s u k) = pool_capacity k" "hash (upd_slot s u k) = hash k" "free_head (upd_slot s u k) = free_head k"
  "core_env (upd_slot s u k) = core_env k" "nsegs (upd_slot s u k) = nsegs k" "ring_ports (upd_slot s u k) = ring_ports k"
  "rings (upd_slot s u k) = rings k" "core_id (upd_slot s u k) = core_id k"
  by (simp_all add: upd_slot_def links same timers conn_key_def live_def listed_def armed_def pool_capacity_def)

lemma core_ok: "core_ok k D \<Longrightarrow> core_ok (upd_slot s u k) D"
proof (erule core_okE)
  fix fs ts assume p: "pool_ok k fs ts D" "rings_ok k" "all_slots listed k"
  have "pool_ok (upd_slot s u k) fs ts D"
    using p(1) by (simp add: pool_ok_def slots_ok_def free_list_ok_def tick_list_ok_def index_ok_def)
  moreover have "rings_ok (upd_slot s u k)" "all_slots listed (upd_slot s u k)"
    using p(2,3) rings_ok_cong [of "upd_slot s u k" k] by (simp_all add: all_slots_def)
  ultimately show "Tcp_Core.core_ok (upd_slot s u k) D" by (rule core_okI)
qed

lemma in_use: "in_use i (upd_slot s u k) = in_use i k"
  by (simp add: in_use_def)

end

interpretation accepted_update: quiet_update "\<lambda>c. c\<lparr>accepted := True\<rparr>" by unfold_locales simp_all
interpretation recv_waker_update: quiet_update "\<lambda>c. c\<lparr>recv_waker := w\<rparr>" for w by unfold_locales simp_all
interpretation send_waker_update: quiet_update "\<lambda>c. c\<lparr>send_waker := w\<rparr>" for w by unfold_locales simp_all
interpretation chunk_wanted_update: quiet_update "\<lambda>c. c\<lparr>chunk_wanted := b\<rparr>" for b by unfold_locales simp_all
interpretation buffers_update: quiet_update "\<lambda>c. c\<lparr>rx_ring := None, rtx_queue := [], rtx_bytes_in_flight := 0\<rparr>"
  by unfold_locales simp_all

section \<open>Operations through a handle\<close>

definition machine_ok :: "machine \<Rightarrow> bool" where
  "machine_ok m \<longleftrightarrow> (\<forall>c<length m. \<exists>D. core_ok (m ! c) D)"

text \<open>A handle whose generation is the current one of its slot names a slot that was not freed: no
  handle is kept while its slot is freed and reused \<open>2^16\<close> times.\<close>

definition handle_current :: "machine \<Rightarrow> u64 \<Rightarrow> nat \<Rightarrow> bool" where
  "handle_current m h g \<longleftrightarrow> (case decode_handle m h of None \<Rightarrow> True
     | Some (c, s) \<Rightarrow> generation (conns (m ! c) s) = g \<longrightarrow> in_use s (m ! c))"

definition handle_stale :: "machine \<Rightarrow> u64 \<Rightarrow> nat \<Rightarrow> bool" where
  "handle_stale m h g \<longleftrightarrow> (case decode_handle m h of None \<Rightarrow> True | Some (c, s) \<Rightarrow> generation (conns (m ! c) s) \<noteq> g)"

lemma with_handle_stale: "handle_stale m h g \<Longrightarrow> with_handle h g stale f m = (stale, m)"
  by (auto simp: handle_stale_def with_handle_def split: option.splits)

lemma decode_core: "decode_handle m h = Some (c, s) \<Longrightarrow> c < length m \<and> s < pool_capacity (m ! c)"
  by (simp add: decode_handle_def Let_def split: if_splits)

locale slot_op =
  fixes f :: "nat \<Rightarrow> core \<Rightarrow> 'r \<times> core"
  assumes keeps: "core_ok k D \<Longrightarrow> in_use s k \<Longrightarrow> \<exists>D'\<subseteq>D. core_ok (snd (f s k)) D'"
begin

lemma keeps_machine:
  assumes m: "machine_ok m" and h: "handle_current m h g"
  shows "machine_ok (snd (with_handle h g stale f m))"
proof (cases "handle_stale m h g")
  case True
  then show ?thesis using m with_handle_stale [OF True, of stale f] by simp
next
  case False
  then obtain c s where d: "decode_handle m h = Some (c, s)" "generation (conns (m ! c) s) = g"
    by (auto simp: handle_stale_def split: option.splits)
  then have s: "in_use s (m ! c)" "c < length m" using h decode_core [OF d(1)] by (simp_all add: handle_current_def)
  then obtain D where "core_ok (m ! c) D" using m by (auto simp: machine_ok_def)
  from keeps [OF this s(1)] obtain D' where "core_ok (snd (f s (m ! c))) D'" by blast
  moreover have "snd (with_handle h g stale f m) = m[c := snd (f s (m ! c))]" using d by (simp add: with_handle_def case_prod_beta)
  ultimately show ?thesis using m s(2) by (auto simp: machine_ok_def nth_list_update)
qed

end

lemma keeps_intro: "core_ok k' D \<Longrightarrow> \<exists>D'\<subseteq>D. core_ok k' D'"
  by blast

lemma touching_op:
  assumes "\<And>c. touches c (snd (f c))" "core_ok k D" "in_use s k"
  shows "core_ok (snd (let (r, c) = f (conn_at s k) in (r, conn_put s c k))) D"
  using core_ok_put(1) [OF assms(2,3) assms(1)] by (simp add: case_prod_beta Let_def)

lemma touches_recv_chunk [touching]: "touches c (snd (recv_chunk c))"
proof -
  obtain ok e where e: "try_alloc (cenv c) = (ok, e)" by fastforce
  have t: "touches c (c\<lparr>cenv := e\<rparr>)" using e by (auto simp: touch_defs dest!: try_alloc_cases)
  have q: "touches c (c\<lparr>pending_chunk := None\<rparr>)" by (simp add: touch_defs)
  obtain out c2 where r: "rx_pop (rx_used c) (c\<lparr>cenv := e\<rparr>) = (out, c2)" by fastforce
  have "touches c c2" using touches_trans [OF t touches_rx_pop [of _ "rx_used c"]] r by (metis snd_conv)
  then show ?thesis using t q e r touches_refl by (simp add: recv_chunk_def Let_def split: option.split)
qed

lemma touches_send_fin: "live c \<Longrightarrow> st \<noteq> Closed \<Longrightarrow> st \<noteq> Listen \<Longrightarrow> touches c (send_fin st c)"
proof -
  assume l: "live c" "st \<noteq> Closed" "st \<noteq> Listen"
  define c1 where "c1 = emit (seg_of c (snd_nxt c) (TCP_FIN OR TCP_ACK) (as_u16 (rx_free c))) [] [] c"
  have "touches c c1" unfolding c1_def by (rule touches_emit)
  also have "touches c1 (c1\<lparr>snd_nxt := snd_nxt c1 + 1, state := st\<rparr>)" using l by (simp add: touch_defs c1_def)
  also have "touches \<dots> (send_fin st c)" unfolding send_fin_def c1_def [symmetric] Let_def by (rule touches_arm_fin_timer)
  finally show ?thesis .
qed

lemma close_slot_ok:
  assumes ok: "core_ok k D" and s: "in_use s k"
  shows "\<exists>D'\<subseteq>D. core_ok (close_slot s k) D'"
proof -
  have fin: "core_ok (on_conn s (send_fin st) k) D" if "st \<in> {FinWait1, LastAck}" "live (conns k s)" for st
    using that core_ok_put(1) [OF ok s touches_send_fin] by (auto simp: on_conn_def live_def)
  consider "state (conns k s) = Established" | "state (conns k s) = CloseWait" | "close_slot s k = free_connection s k"
    by (cases "state (conns k s)") (simp_all add: close_slot_def)
  then show ?thesis
  proof cases
    case 1
    then have "core_ok (close_slot s k) D" using fin [of FinWait1] by (simp add: close_slot_def live_def)
    then show ?thesis by blast
  next
    case 2
    then have "core_ok (close_slot s k) D" using fin [of LastAck] by (simp add: close_slot_def live_def)
    then show ?thesis by blast
  next
    case 3
    then have "core_ok (close_slot s k) (D - {s})" using core_ok_free(1) [OF ok s] by simp
    then show ?thesis by blast
  qed
qed

interpretation close_op: slot_op "\<lambda>slot k. ((), close_slot slot k)"
  by unfold_locales (simp only: snd_conv, rule close_slot_ok)
interpretation recv_op: slot_op "\<lambda>slot k. let (out, c) = rx_pop n (conn_at slot k) in (out, conn_put slot c k)" for n
  by unfold_locales (rule keeps_intro, rule touching_op [OF touches_rx_pop])
interpretation chunk_op: slot_op "\<lambda>slot k. let (r, c) = recv_chunk (conn_at slot k) in (r, conn_put slot c k)"
  by unfold_locales (rule keeps_intro, rule touching_op [OF touches_recv_chunk])
interpretation recv_waker_op: slot_op "\<lambda>slot k. (r, upd_slot slot (\<lambda>c. c\<lparr>recv_waker := w\<rparr>) k)" for r w
  by unfold_locales (rule keeps_intro, simp only: snd_conv, rule recv_waker_update.core_ok)
interpretation send_waker_op: slot_op "\<lambda>slot k. (r, upd_slot slot (\<lambda>c. c\<lparr>send_waker := w\<rparr>) k)" for r w
  by unfold_locales (rule keeps_intro, simp only: snd_conv, rule send_waker_update.core_ok)
interpretation chunk_wanted_op: slot_op "\<lambda>slot k. (r, upd_slot slot (\<lambda>c. c\<lparr>chunk_wanted := w\<rparr>) k)" for r w
  by unfold_locales (rule keeps_intro, simp only: snd_conv, rule chunk_wanted_update.core_ok)

section \<open>Accepting\<close>

text \<open>Port 0 names the rings no port has claimed, which are empty.\<close>

lemma port_zero_ring:
  assumes "rings_ok k"
  shows "accept_ring_pop 0 k = (None, k)" "accept_items 0 k = []"
proof -
  have e: "ring_items (rings k ! i) = [] \<and> ar_head (rings k ! i) = ar_tail (rings k ! i)"
    if "find (\<lambda>i. ring_ports k ! i = 0) [0..<MAX_ACCEPT_RINGS] = Some i" for i
    using assms find_index(1) [OF that] ring_items_empty [of "rings k ! i"] by (simp add: rings_ok_def)
  show "accept_items 0 k = []" using e by (auto simp: accept_items_def split: option.split)
  show "accept_ring_pop 0 k = (None, k)"
    using e by (cases "find (\<lambda>i. ring_ports k ! i = 0) [0..<MAX_ACCEPT_RINGS]") (simp_all add: accept_ring_pop_def ring_idx_for_port_def)
qed

lemma accept_loop_nonzero:
  assumes "rings_ok k" "port \<noteq> 0" "length (accept_items port k) < n" "accept_loop n port k = (r, k')"
  shows "rings_ok k' \<and> r = find (\<lambda>i. acceptable port (conns k i)) (accept_items port k)
    \<and> conns k' = (case r of None \<Rightarrow> conns k | Some i \<Rightarrow> (conns k)(i := (conns k i)\<lparr>accepted := True\<rparr>))
    \<and> (\<exists>ps rs. k' = k\<lparr>ring_ports := ps, rings := rs, conns := conns k'\<rparr>)"
  using assms
proof (induction n arbitrary: k)
  case (Suc n)
  obtain q k1 where p: "accept_ring_pop port k = (q, k1)" by fastforce
  note pop = accept_ring_pop_correct [OF Suc.prems(1,2) p]
  obtain ps rs where k1: "k1 = k\<lparr>ring_ports := ps, rings := rs\<rparr>" using pop(4) by blast
  have same: "\<exists>ps rs. k1 = k\<lparr>ring_ports := ps, rings := rs, conns := conns k\<rparr>" using k1 by (intro exI [of _ ps] exI [of _ rs]) simp
  have c1: "conns k1 = conns k" by (simp add: k1)
  show ?case
  proof (cases "accept_items port k")
    case Nil
    then have "r = None" "k' = k1" using pop(2) p Suc.prems(4) by simp_all
    then show ?thesis using Nil pop(1) same c1 by simp
  next
    case (Cons i items)
    then have q: "q = Some i" using pop(2) by simp
    show ?thesis
    proof (cases "acceptable port (conns k i)")
      case True
      then have r: "r = Some i" "k' = mark_accepted i k1" using p q Suc.prems(4) c1 by simp_all
      have "rings_ok k'" using pop(1) rings_ok_cong [of k' k1] by (simp add: r mark_accepted_def upd_slot_def)
      moreover have "\<exists>ps rs. k' = k\<lparr>ring_ports := ps, rings := rs, conns := conns k'\<rparr>"
        unfolding r mark_accepted_def upd_slot_def k1 by (intro exI [of _ ps] exI [of _ rs]) simp
      moreover have "conns k' = (conns k)(i := (conns k i)\<lparr>accepted := True\<rparr>)" by (simp add: r mark_accepted_def upd_slot_def c1)
      then have "conns k' = (case r of None \<Rightarrow> conns k | Some i \<Rightarrow> (conns k)(i := (conns k i)\<lparr>accepted := True\<rparr>))" by (simp add: r(1))
      moreover have "r = find (\<lambda>i. acceptable port (conns k i)) (accept_items port k)" using True Cons r(1) by simp
      ultimately show ?thesis by (intro conjI)
    next
      case False
      then have l: "accept_loop n port k1 = (r, k')" using p q Suc.prems(4) c1 by simp
      have it: "accept_items port k1 = items" using pop(3) [OF Suc.prems(2)] Cons by simp
      have len: "length (accept_items port k1) < n" using Suc.prems(3) Cons it by simp
      note IH' = Suc.IH [OF pop(1) Suc.prems(2) len l, unfolded it c1]
      note IH = IH' [THEN conjunct1] IH' [THEN conjunct2, THEN conjunct1]
        IH' [THEN conjunct2, THEN conjunct2, THEN conjunct1] IH' [THEN conjunct2, THEN conjunct2, THEN conjunct2]
      from IH(4) have "\<exists>ps rs. k' = k\<lparr>ring_ports := ps, rings := rs, conns := conns k'\<rparr>" unfolding k1 by simp
      moreover have "r = find (\<lambda>i. acceptable port (conns k i)) (accept_items port k)" using IH(2) Cons False by simp
      ultimately show ?thesis using IH(1,3) by (intro conjI)
    qed
  qed
qed simp

lemma accept_loop_correct:
  assumes "rings_ok k" "length (accept_items port k) < n" "accept_loop n port k = (r, k')"
  shows "rings_ok k' \<and> r = find (\<lambda>i. acceptable port (conns k i)) (accept_items port k)
    \<and> conns k' = (case r of None \<Rightarrow> conns k | Some i \<Rightarrow> (conns k)(i := (conns k i)\<lparr>accepted := True\<rparr>))
    \<and> (\<exists>ps rs. k' = k\<lparr>ring_ports := ps, rings := rs, conns := conns k'\<rparr>)"
proof (cases "port = 0")
  case True
  then have "r = None" "k' = k" using assms(2,3) port_zero_ring(1) [OF assms(1)] by (cases n; simp)+
  moreover have "\<exists>ps rs. k = k\<lparr>ring_ports := ps, rings := rs, conns := conns k\<rparr>"
    by (intro exI [of _ "ring_ports k"] exI [of _ "rings k"]) simp
  ultimately show ?thesis using assms(1) port_zero_ring(2) [OF assms(1)] True by simp
next
  case False
  show ?thesis by (rule accept_loop_nonzero [OF assms(1) False assms(2,3)])
qed

lemma accept_items_bound: "rings_ok k \<Longrightarrow> length (accept_items port k) \<le> ACCEPT_RING_CAPACITY"
  by (auto simp: accept_items_def rings_ok_def split: option.split dest!: find_index(1))

lemma find_append: "find P (xs @ ys) = (case find P xs of None \<Rightarrow> find P ys | Some x \<Rightarrow> Some x)"
  by (induction xs) simp_all

lemma accept_on_port_correct:
  assumes "rings_ok k" and "accept_on_port_core port k = (r, k')"
  shows "rings_ok k' \<and> (case find (\<lambda>i. acceptable port (conns k i)) (accept_items port k @ [0..<pool_capacity k]) of
      None \<Rightarrow> r = None \<and> conns k' = conns k
    | Some i \<Rightarrow> r = Some (encode_handle (core_id k) i, generation (conns k i)) \<and> conns k' = (conns k)(i := (conns k i)\<lparr>accepted := True\<rparr>))"
proof -
  obtain q k1 where l: "accept_loop (ACCEPT_RING_CAPACITY + 1) port k = (q, k1)" by fastforce
  have "length (accept_items port k) < ACCEPT_RING_CAPACITY + 1" using accept_items_bound [OF assms(1), of port] by simp
  note a = accept_loop_correct [OF assms(1) this l]
  obtain ps rs where k1: "k1 = k\<lparr>ring_ports := ps, rings := rs, conns := conns k1\<rparr>" using a by blast
  have cap: "pool_capacity k1 = pool_capacity k" by (subst k1) (simp add: pool_capacity_def)
  show ?thesis
  proof (cases q)
    case (Some i)
    then have "r = Some (encode_handle (core_id k) i, generation (conns k1 i))" "k' = k1" using assms(2) l by (auto simp: accept_on_port_core_def simp del: accept_loop.simps)
    moreover have "conns k1 = (conns k)(i := (conns k i)\<lparr>accepted := True\<rparr>)" "find (\<lambda>i. acceptable port (conns k i)) (accept_items port k) = Some i"
      using a Some by simp_all
    ultimately show ?thesis using a by (simp add: find_append)
  next
    case None
    then have c1: "conns k1 = conns k" "find (\<lambda>i. acceptable port (conns k i)) (accept_items port k) = None" using a by simp_all
    show ?thesis
    proof (cases "find (\<lambda>i. acceptable port (conns k i)) [0..<pool_capacity k]")
      case None
      then have "r = None" "k' = k1" using assms(2) l \<open>q = None\<close> c1 cap by (auto simp: accept_on_port_core_def simp del: accept_loop.simps)
      then show ?thesis using a None c1 by (simp add: find_append)
    next
      case (Some i)
      then have r: "r = Some (encode_handle (core_id k) i, generation (conns k i))" "k' = mark_accepted i k1"
        using assms(2) l \<open>q = None\<close> c1 cap by (auto simp: accept_on_port_core_def simp del: accept_loop.simps)
      have "rings_ok k'" using a rings_ok_cong [of k' k1] by (simp add: r mark_accepted_def upd_slot_def)
      then show ?thesis using Some c1 r by (simp add: find_append mark_accepted_def upd_slot_def)
    qed
  qed
qed

text \<open>C28: Accepting is exact. A call returns the first connection, in the order of the port's accept ring and
  then of the pool, that is established on the port and was not accepted before, marks it accepted
  and changes no other connection; it returns nothing only when no connection is waiting on the port. The
  loop over the ring ends within the capacity of a ring.\<close>

theorem accept_exact:
  assumes "rings_ok k" and "accept_on_port_core port k = (r, k')"
  shows "rings_ok k' \<and> (case find (\<lambda>i. acceptable port (conns k i)) (accept_items port k @ [0..<pool_capacity k]) of
      None \<Rightarrow> r = None \<and> conns k' = conns k
    | Some i \<Rightarrow> r = Some (encode_handle (core_id k) i, generation (conns k i)) \<and> conns k' = (conns k)(i := (conns k i)\<lparr>accepted := True\<rparr>))"
  using assms by (rule accept_on_port_correct)

definition demo_accept :: core where
  "demo_accept = accept_ring_push 80 4 (upd_slot 4 (\<lambda>c. c\<lparr>state := Established, listener_port := 80\<rparr>) demo_core)"

theorem accept_exact_witness:
  "\<exists>r k'. accept_on_port_core 80 demo_accept = (r, k') \<and> rings_ok k' \<and> r = Some (encode_handle 0 4, 0) \<and> accepted (conns k' 4)"
proof -
  define k where "k = upd_slot 4 (\<lambda>c. c\<lparr>state := Established, listener_port := 80\<rparr>) demo_core"
  have ok: "rings_ok k" using rings_ok_new [of 0 1 "\<lambda>_. 7" demo_env] rings_ok_cong [of k demo_core]
    by (simp add: k_def upd_slot_def demo_core_def)
  have "accept_items 80 k = accept_items 80 demo_core" by (simp add: accept_items_def k_def upd_slot_def cong: option.case_cong)
  then have new: "accept_items 80 k = []" by (simp add: demo_core_def accept_items_new)
  have claim: "ring_claimable 80 k" unfolding ring_claimable_def
    by (rule exI [of _ 0]) (simp add: k_def upd_slot_def demo_core_def core_new_def MAX_ACCEPT_RINGS_def)
  have d: "demo_accept = accept_ring_push 80 4 k" by (simp add: demo_accept_def k_def)
  have items: "rings_ok demo_accept" "accept_items 80 demo_accept = [4]"
    using accept_ring_push_correct(1) [OF ok, of 80 4] accept_ring_push_correct(2) [OF ok, of 80 80 4] new claim
    by (simp_all add: d ACCEPT_RING_CAPACITY_def)
  have "conns demo_accept = conns k \<and> core_id demo_accept = core_id k"
    by (simp add: d accept_ring_push_def ring_idx_for_port_def Let_def split: prod.splits option.splits if_splits)
  then have c: "conns demo_accept 4 = tcb_new\<lparr>state := Established, listener_port := 80\<rparr>" "core_id demo_accept = 0"
    by (simp_all add: k_def upd_slot_def demo_core_def core_new_def)
  obtain r k' where a: "accept_on_port_core 80 demo_accept = (r, k')" by fastforce
  have "acceptable 80 (conns demo_accept 4)" "generation (conns demo_accept 4) = 0" unfolding c by (simp_all add: acceptable_def tcb_new_def)
  then show ?thesis using accept_exact [OF items(1) a] a items(2) c(2) by auto
qed

section \<open>Listening and accepting keep the invariant\<close>

lemma core_ok_rings:
  assumes ok: "core_ok k D" and r: "rings_ok k'"
    and e: "conns k' = conns k" "nsegs k' = nsegs k" "free_head k' = free_head k" "hash k' = hash k" "core_env k' = core_env k"
  shows "core_ok k' D"
proof -
  obtain fs ts where p: "pool_ok k fs ts D" "all_slots listed k" using ok by (auto elim: core_okE)
  have "pool_ok k' fs ts D"
    using p(1) e capacity_cong [OF e(2)] by (simp add: pool_ok_def slots_ok_def free_list_ok_def tick_list_ok_def index_ok_def)
  then show ?thesis using r p(2) all_slots_cong [OF e(1)] by (auto intro: core_okI)
qed

lemma accept_core_ok:
  assumes ok: "core_ok k D"
  shows "core_ok (snd (accept_on_port_core port k)) D"
proof -
  have ro: "rings_ok k" using ok by (simp add: core_ok_def)
  obtain q k1 where l: "accept_loop (ACCEPT_RING_CAPACITY + 1) port k = (q, k1)" by fastforce
  have "length (accept_items port k) < ACCEPT_RING_CAPACITY + 1" using accept_items_bound [OF ro, of port] by simp
  note a = accept_loop_correct [OF ro this l]
  obtain ps rs where k1: "k1 = k\<lparr>ring_ports := ps, rings := rs, conns := conns k1\<rparr>" using a by blast
  define k0 where "k0 = k\<lparr>ring_ports := ps, rings := rs\<rparr>"
  have "ring_ports k1 = ps" "rings k1 = rs" by (subst k1, simp)+
  then have "rings_ok k0" using a rings_ok_cong [of k0 k1] by (simp add: k0_def)
  then have ok0: "core_ok k0 D" using core_ok_rings [OF ok, of k0] by (simp add: k0_def)
  have c: "k1 = k0 \<or> (\<exists>i. k1 = mark_accepted i k0)"
  proof (cases q)
    case None
    then have "conns k1 = conns k" using a by simp
    then have "k1 = k0" by (subst k1) (simp add: k0_def)
    then show ?thesis by simp
  next
    case (Some i)
    then have "conns k1 = (conns k)(i := (conns k i)\<lparr>accepted := True\<rparr>)" using a by simp
    then have "k1 = mark_accepted i k0" by (subst k1) (simp add: k0_def mark_accepted_def upd_slot_def)
    then show ?thesis by blast
  qed
  then have ok1: "core_ok k1 D" using ok0 accepted_update.core_ok [OF ok0] by (auto simp: mark_accepted_def)
  have "snd (accept_on_port_core port k) = k1 \<or> (\<exists>i. snd (accept_on_port_core port k) = mark_accepted i k1)"
    unfolding accept_on_port_core_def l prod.case
    by (cases q; cases "find (\<lambda>i. acceptable port (conns k1 i)) [0..<pool_capacity k1]") auto
  then show ?thesis using ok1 accepted_update.core_ok [OF ok1] by (auto simp: mark_accepted_def)
qed

lemma listener_register_frame:
  "conns (listener_register p s k) = conns k" "nsegs (listener_register p s k) = nsegs k" "free_head (listener_register p s k) = free_head k"
  "hash (listener_register p s k) = hash k" "core_env (listener_register p s k) = core_env k"
  "ring_ports (listener_register p s k) = ring_ports k" "rings (listener_register p s k) = rings k"
  by (simp_all add: listener_register_def split: option.split)

lemma listen_core_ok:
  assumes ok: "core_ok k D"
  shows "\<exists>D'\<subseteq>D. core_ok (snd (listen_on_core port k)) D'"
proof -
  obtain r k1 where a: "alloc_connection k = (r, k1)" by fastforce
  obtain D' where ok1: "core_ok k1 D'" "D' \<subseteq> D" "\<And>s. r = Some s \<Longrightarrow> in_use s k1 \<and> (\<exists>g c. conns k1 s = reset_preserving g c)"
    using core_ok_alloc [OF ok a] by metis
  show ?thesis
  proof (cases r)
    case None
    then show ?thesis using a ok1 by (auto simp: listen_on_core_def)
  next
    case (Some s)
    define c where "c = (conns k1 s)\<lparr>state := Listen, local_port := port\<rparr>"
    define k2 where "k2 = conn_put s (attach c (core_env k1)) k1"
    obtain g c0 where g: "conns k1 s = reset_preserving g c0" using ok1(3) [OF Some] by blast
    have f: "slot_index (attach c (core_env k1)) = slot_index (conns k1 s)" "next_free (attach c (core_env k1)) = next_free (conns k1 s)"
      "link (conn_at s k1) (attach c (core_env k1))" "listed (attach c (core_env k1))"
      using g reset_slot_fields(3) [of g c0] by (simp_all add: attach_def tcb.extend_def conn.fields_def c_def link_def listed_def armed_def)
    have ok2: "core_ok k2 D'" unfolding k2_def
      using core_ok_put_dead(1) [OF ok1(1) _ _ f] ok1(3) [OF Some] g by simp
    have k2: "upd_slot s (\<lambda>c. c\<lparr>state := Listen, local_port := port\<rparr>) k1 = k2"
      by (simp add: k2_def conn_put_attach c_def upd_slot_def)
    have e: "snd (listen_on_core port k) = listener_register port s k2" by (simp add: listen_on_core_def a Some k2 Let_def)
    have "core_ok (snd (listen_on_core port k)) D'" unfolding e by (rule core_ok_frame [OF ok2]) (simp_all only: listener_register_frame)
    then show ?thesis using ok1(2) by blast
  qed
qed

section \<open>Stale handles\<close>

lemma freed_slot:
  assumes "core_ok k D" "in_use s k"
  shows "generation (conns (free_connection s k) s) = as_u16 (generation (conns k s) + 1)"
    "state (conns (free_connection s k) s) = Closed"
    "\<not> armed (conns (free_connection s k) s) \<and> \<not> tick_in_list (conns (free_connection s k) s)"
proof -
  obtain fs ts where p: "pool_ok k fs ts D" "s < pool_capacity k" "s \<notin> set fs" using assms by (auto elim: core_okE)
  show "generation (conns (free_connection s k) s) = as_u16 (generation (conns k s) + 1)"
    "state (conns (free_connection s k) s) = Closed"
    "\<not> armed (conns (free_connection s k) s) \<and> \<not> tick_in_list (conns (free_connection s k) s)"
    by (rule free_connection_effect [OF p], simp add: armed_def reset_preserving_def tcb_new_def Let_def)+
qed

lemma next_generation: "as_u16 (g + 1) \<noteq> g"
proof
  assume "as_u16 (g + 1) = g"
  then have e: "(g + 1) mod 65536 = g" by (simp add: as_u16_def)
  then have "g < 65536" by (metis mod_less_divisor zero_less_numeral)
  then show False using e by (cases "g = 65535") simp_all
qed

section \<open>Shutdown\<close>

definition rst_of :: "tcb \<Rightarrow> sent_segment" where
  "rst_of c = \<lparr>seg_meta = \<lparr>sm_local_ip = local_ip c, sm_dst_ip = remote_ip c, sm_src_port = local_port c, sm_dst_port = remote_port c,
     sm_seq = snd_nxt c, sm_ack = rcv_nxt c, sm_flags = TCP_RST OR TCP_ACK, sm_window = 0\<rparr>, seg_options = [], seg_payload = []\<rparr>"

definition wire_up :: "env \<Rightarrow> bool" where
  "wire_up e \<longleftrightarrow> (\<forall>ip. mac_known e ip) \<and> txbuf_results e = []"

lemma send_rst_env:
  assumes "wire_up (core_env k)"
  shows "send_rst (local_ip c) (remote_ip c) (local_port c) (remote_port c) (snd_nxt c) (rcv_nxt c) (core_env k)
    = (core_env k)\<lparr>tx_log := tx_log (core_env k) @ [rst_of c]\<rparr>"
  using assms by (simp add: wire_up_def send_rst_def send_segment_def send_segment_opts_def build_and_send_frame_def acquire_tx_buf_def
    push_tx_def rst_of_def Let_def)

lemma shutdown_slot_ok:
  assumes ok: "core_ok k D" and s: "s < pool_capacity k" and up: "wire_up (core_env k)"
  defines "k' \<equiv> shutdown_slot s k"
  shows "\<exists>D'\<subseteq>D. core_ok k' D'" "pool_capacity k' = pool_capacity k" "wire_up (core_env k')"
    "tx_log (core_env k') = tx_log (core_env k) @ (if live (conns k s) then [rst_of (conns k s)] else [])"
    "\<not> live (conns k' s) \<and> rx_ring (conns k' s) = None \<and> rtx_queue (conns k' s) = []"
    "live (conns k s) \<longrightarrow> \<not> armed (conns k' s) \<and> \<not> tick_in_list (conns k' s)"
    "i \<noteq> s \<Longrightarrow> \<exists>t. conns k' i = (conns k i)\<lparr>tick_next := t\<rparr>"
proof -
  let ?u = "\<lambda>c. c\<lparr>rx_ring := None, rtx_queue := [], rtx_bytes_in_flight := 0\<rparr>"
  define k0 where "k0 = k\<lparr>core_env := (core_env k)\<lparr>tx_log := tx_log (core_env k) @ [rst_of (conns k s)]\<rparr>\<rparr>"
  define k1 where "k1 = (if live (conns k s) then free_connection s k0 else k)"
  have k': "k' = upd_slot s ?u k1"
    by (simp add: k'_def shutdown_slot_def k1_def k0_def live_def send_rst_env [OF up] Let_def)
  have ok0: "core_ok k0 D" using core_ok_frame [OF ok, of k0] by (simp add: k0_def)
  have use: "in_use s k0" if "live (conns k s)"
    using that not_closed_in_use [OF ok0, of s] s by (simp add: k0_def live_def pool_capacity_def)
  have cap0: "pool_capacity k0 = pool_capacity k" by (simp add: k0_def pool_capacity_def)
  have same: "\<exists>t. c = c\<lparr>tick_next := t\<rparr>" for c :: tcb by (rule exI [of _ "tick_next c"]) simp
  have k1: "(\<exists>D'\<subseteq>D. core_ok k1 D') \<and> pool_capacity k1 = pool_capacity k \<and> wire_up (core_env k1) \<and> \<not> live (conns k1 s)
      \<and> tx_log (core_env k1) = tx_log (core_env k) @ (if live (conns k s) then [rst_of (conns k s)] else [])
      \<and> (live (conns k s) \<longrightarrow> \<not> armed (conns k1 s) \<and> \<not> tick_in_list (conns k1 s))
      \<and> (i \<noteq> s \<longrightarrow> (\<exists>t. conns k1 i = (conns k i)\<lparr>tick_next := t\<rparr>))" for i
  proof (cases "live (conns k s)")
    case True
    obtain fs ts where p: "pool_ok k0 fs ts D" "s < pool_capacity k0" "s \<notin> set fs" using ok0 use [OF True] by (auto elim: core_okE)
    have e: "env_quiet (core_env k0) (core_env k1)" using free_connection_env(1) [OF p] True by (simp add: k1_def)
    have "core_ok k1 (D - {s})" "pool_capacity k1 = pool_capacity k" "\<not> live (conns k1 s)"
      "\<not> armed (conns k1 s) \<and> \<not> tick_in_list (conns k1 s)"
      using core_ok_free(1,2) [OF ok0 use [OF True]] freed_slot(2,3) [OF ok0 use [OF True]] True cap0 by (simp_all add: k1_def live_def)
    moreover have "wire_up (core_env k1)" "tx_log (core_env k1) = tx_log (core_env k) @ [rst_of (conns k s)]"
      using e up by (simp_all add: env_quiet_def wire_up_def k0_def)
    moreover have "\<exists>t. conns k1 i = (conns k i)\<lparr>tick_next := t\<rparr>" if "i \<noteq> s"
      using core_ok_free(4) [OF ok0 use [OF True] that] True by (simp add: k1_def k0_def)
    ultimately show ?thesis using True by auto
  next
    case False
    then have "k1 = k" by (simp add: k1_def)
    then show ?thesis using False ok up same [of "conns k i"] by auto
  qed
  from k1 obtain D' where D': "D' \<subseteq> D" "core_ok k1 D'" by blast
  show "\<exists>D'\<subseteq>D. core_ok k' D'" unfolding k' using buffers_update.core_ok [OF D'(2)] D'(1) by blast
  show "pool_capacity k' = pool_capacity k" "wire_up (core_env k')"
    "tx_log (core_env k') = tx_log (core_env k) @ (if live (conns k s) then [rst_of (conns k s)] else [])"
    "\<not> live (conns k' s) \<and> rx_ring (conns k' s) = None \<and> rtx_queue (conns k' s) = []"
    "live (conns k s) \<longrightarrow> \<not> armed (conns k' s) \<and> \<not> tick_in_list (conns k' s)"
    unfolding k' using k1 [of s] by (simp_all add: buffers_update.fields) (simp_all add: upd_slot_def armed_def)
  show "\<exists>t. conns k' i = (conns k i)\<lparr>tick_next := t\<rparr>" if "i \<noteq> s"
    unfolding k' upd_slot_def using k1 [of i] that by simp
qed

lemma shutdown_fold:
  assumes "core_ok k D" "wire_up (core_env k)" "distinct xs" "\<forall>s \<in> set xs. s < pool_capacity k"
  shows "let k' = fold shutdown_slot xs k in (\<exists>D'\<subseteq>D. core_ok k' D')
    \<and> tx_log (core_env k') = tx_log (core_env k) @ map (\<lambda>s. rst_of (conns k s)) (filter (\<lambda>s. live (conns k s)) xs)
    \<and> (\<forall>s \<in> set xs. \<not> live (conns k' s) \<and> rx_ring (conns k' s) = None \<and> rtx_queue (conns k' s) = []
         \<and> (live (conns k s) \<longrightarrow> \<not> armed (conns k' s) \<and> \<not> tick_in_list (conns k' s)))
    \<and> (\<forall>i. i \<notin> set xs \<longrightarrow> (\<exists>t. conns k' i = (conns k i)\<lparr>tick_next := t\<rparr>))"
  using assms
proof (induction xs arbitrary: k D)
  case Nil
  have same: "\<exists>t. c = c\<lparr>tick_next := t\<rparr>" for c :: tcb by (rule exI [of _ "tick_next c"]) simp
  show ?case unfolding Let_def fold_simps id_apply
  proof (intro conjI allI impI)
    show "\<exists>D'\<subseteq>D. core_ok k D'" using Nil(1) by blast
    show "\<exists>t. conns k i = (conns k i)\<lparr>tick_next := t\<rparr>" for i by (rule same)
  qed simp_all
next
  case (Cons s xs)
  define k1 where "k1 = shutdown_slot s k"
  define k' where "k' = fold shutdown_slot xs k1"
  note one = shutdown_slot_ok [OF Cons.prems(1) _ Cons.prems(2), of s, folded k1_def]
  have s: "s < pool_capacity k" "s \<notin> set xs" using Cons.prems(3,4) by simp_all
  obtain D1 where D1: "D1 \<subseteq> D" "core_ok k1 D1" using one(1) [OF s(1)] by blast
  have xs: "distinct xs" "\<forall>i \<in> set xs. i < pool_capacity k1" using Cons.prems(3,4) one(2) [OF s(1)] by simp_all
  have other: "live (conns k1 i) = live (conns k i)" "rst_of (conns k1 i) = rst_of (conns k i)" if ne: "i \<noteq> s" for i
  proof -
    obtain t where "conns k1 i = (conns k i)\<lparr>tick_next := t\<rparr>" using one(7) [OF s(1) ne] by blast
    then show "live (conns k1 i) = live (conns k i)" "rst_of (conns k1 i) = rst_of (conns k i)" by (simp_all add: live_def rst_of_def)
  qed
  have "map (\<lambda>i. rst_of (conns k1 i)) (filter (\<lambda>i. live (conns k1 i)) xs) = map (\<lambda>i. rst_of (conns k i)) (filter (\<lambda>i. live (conns k i)) xs)"
    using s(2) other by (induction xs) auto
  then have log: "tx_log (core_env k') = tx_log (core_env k) @ map (\<lambda>s. rst_of (conns k s)) (filter (\<lambda>s. live (conns k s)) (s # xs))"
    and D': "\<exists>D'\<subseteq>D. core_ok k' D'"
    and dead: "\<forall>i \<in> set xs. \<not> live (conns k' i) \<and> rx_ring (conns k' i) = None \<and> rtx_queue (conns k' i) = []
      \<and> (live (conns k1 i) \<longrightarrow> \<not> armed (conns k' i) \<and> \<not> tick_in_list (conns k' i))"
    and fr: "\<forall>i. i \<notin> set xs \<longrightarrow> (\<exists>t. conns k' i = (conns k1 i)\<lparr>tick_next := t\<rparr>)"
    using Cons.IH [OF D1(2) one(3) [OF s(1)] xs, folded k'_def, unfolded Let_def] one(4) [OF s(1)] D1(1)
    by (simp, meson subset_trans, blast, blast)
  have "\<not> live (conns k' s) \<and> rx_ring (conns k' s) = None \<and> rtx_queue (conns k' s) = []
    \<and> (live (conns k s) \<longrightarrow> \<not> armed (conns k' s) \<and> \<not> tick_in_list (conns k' s))"
  proof -
    obtain t where "conns k' s = (conns k1 s)\<lparr>tick_next := t\<rparr>" using fr s(2) by blast
    then show ?thesis using one(5,6) [OF s(1)] by (simp add: live_def armed_def)
  qed
  moreover have frame: "\<exists>t. conns k' i = (conns k i)\<lparr>tick_next := t\<rparr>" if ni: "i \<notin> set (s # xs)" for i
  proof -
    obtain t where t: "conns k' i = (conns k1 i)\<lparr>tick_next := t\<rparr>" using fr ni by auto
    obtain t' where "conns k1 i = (conns k i)\<lparr>tick_next := t'\<rparr>" using one(7) [OF s(1), of i] ni by auto
    with t have "conns k' i = (conns k i)\<lparr>tick_next := t\<rparr>" by simp
    then show ?thesis by blast
  qed
  moreover have "live (conns k1 i) = live (conns k i)" if "i \<in> set xs" for i using other(1) [of i] that s(2) by blast
  ultimately have fin: "\<not> live (conns k' i) \<and> rx_ring (conns k' i) = None \<and> rtx_queue (conns k' i) = []
    \<and> (live (conns k i) \<longrightarrow> \<not> armed (conns k' i) \<and> \<not> tick_in_list (conns k' i))" if "i \<in> set (s # xs)" for i
    using dead that by auto
  have f: "fold shutdown_slot (s # xs) k = k'" by (simp add: k'_def k1_def)
  show ?case unfolding Let_def f
  proof (intro conjI allI impI ballI)
    show "\<exists>t. conns k' i = (conns k i)\<lparr>tick_next := t\<rparr>" if "i \<notin> set (s # xs)" for i using that by (rule frame)
  qed (use log D' fin in blast)+
qed

text \<open>C30: Shutdown. For every core, shutting down sends exactly one RST per connection that is neither closed
  nor listening, in slot order, with the connection's own addresses, ports and sequence numbers; afterwards no
  slot holds a live connection, a receive buffer or a retransmission queue, no slot that held a connection
  has a timer armed or is on the timer list, and the core still satisfies its invariant. The next hops are
  resolved and the driver has buffers.\<close>

theorem shutdown_resets_all:
  assumes "machine_ok m" and "c < length m" and "wire_up (core_env (m ! c))"
  shows "let k = m ! c; k' = shutdown_all m ! c
    in (\<exists>D. core_ok k' D)
      \<and> tx_log (core_env k') = tx_log (core_env k) @ map (\<lambda>s. rst_of (conns k s)) (filter (\<lambda>s. live (conns k s)) [0..<pool_capacity k])
      \<and> (\<forall>s<pool_capacity k. \<not> live (conns k' s) \<and> rx_ring (conns k' s) = None \<and> rtx_queue (conns k' s) = []
           \<and> (live (conns k s) \<longrightarrow> \<not> armed (conns k' s) \<and> \<not> tick_in_list (conns k' s)))"
proof -
  obtain D where D: "core_ok (m ! c) D" using assms(1,2) by (auto simp: machine_ok_def)
  have e: "shutdown_all m ! c = fold shutdown_slot [0..<pool_capacity (m ! c)] (m ! c)" using assms(2) by (simp add: shutdown_all_def)
  note f = shutdown_fold [OF D assms(3), of "[0..<pool_capacity (m ! c)]", folded e, unfolded Let_def]
  have "\<exists>D. core_ok (shutdown_all m ! c) D" "tx_log (core_env (shutdown_all m ! c)) = tx_log (core_env (m ! c))
        @ map (\<lambda>s. rst_of (conns (m ! c) s)) (filter (\<lambda>s. live (conns (m ! c) s)) [0..<pool_capacity (m ! c)])"
    "\<forall>s<pool_capacity (m ! c). \<not> live (conns (shutdown_all m ! c) s) \<and> rx_ring (conns (shutdown_all m ! c) s) = None
      \<and> rtx_queue (conns (shutdown_all m ! c) s) = []
      \<and> (live (conns (m ! c) s) \<longrightarrow> \<not> armed (conns (shutdown_all m ! c) s) \<and> \<not> tick_in_list (conns (shutdown_all m ! c) s))"
    using f by auto
  then show ?thesis unfolding Let_def by blast
qed

theorem shutdown_resets_all_witness:
  "\<exists>m. machine_ok m \<and> length (tx_log (core_env (shutdown_all m ! 0))) > length (tx_log (core_env (m ! 0)))"
proof -
  obtain h g k' where c: "connect_on_core (V4 0xC0A80102) (V4 0xC0A80101) 49152 demo_core = (Some (h, g), k')"
    using connect_succeeds [OF demo_core_ok demo_port(1) demo_core_allocates] by blast
  obtain s where s: "in_use s k'" "state (conns k' s) = SynSent" "core_ok k' {}"
    using demo_core_ok c
  proof (cases rule: connect_cases)
    case (yes lp k1 s' g' k3 ring c0 D')
    then show ?thesis using that [of s'] open_slot_ok(1-2) [OF yes(4,6,7)] by (simp add: syn_pending_def Let_def)
  qed simp
  define k where "k = k'\<lparr>core_env := (core_env k')\<lparr>mac_known := \<lambda>_. True, txbuf_results := []\<rparr>\<rparr>"
  have k: "core_ok k {}" "wire_up (core_env k)" using core_ok_frame [OF s(3), of k] by (simp_all add: k_def wire_up_def)
  then have m: "machine_ok [k]" by (auto simp: machine_ok_def)
  have "s < pool_capacity k" "live (conns k s)" using s(2) in_use_bound [OF s(3,1)] by (simp_all add: k_def live_def pool_capacity_def)
  then have "filter (\<lambda>s. live (conns k s)) [0..<pool_capacity k] \<noteq> []" by (auto simp: filter_empty_conv)
  then show ?thesis using shutdown_resets_all [OF m, of 0] k(2) m by (intro exI [of _ "[k]"]) (simp add: Let_def)
qed

end
