(* ===== verification/Tcp_Timers.thy ===== *)
theory Tcp_Timers
  imports Tcp_Connect
begin

text \<open>
  The timer tick of a core (\<open>crates/net/tcp/src/retransmit.rs\<close>).

  \<open>on_tcp_tick\<close> detaches the list of connections with an armed timer, walks it, lets every due timer of a
  connection fire, and publishes the list of those that still have a timer armed. The walk is a loop
  over links in the control blocks, so it carries fuel; that the fuel is enough is proved for every
  well-formed core. The results say what a tick leaves behind, both when no connection is given up and when
  one is.
\<close>

section \<open>Model\<close>

definition tick_due :: "nat \<Rightarrow> nat \<Rightarrow> bool" where
  "tick_due now deadline \<longleftrightarrow> deadline \<noteq> 0 \<and> now \<ge> deadline"

definition rtx_giveup :: "nat \<Rightarrow> tcb \<Rightarrow> bool" where
  "rtx_giveup now c \<longleftrightarrow> tick_due now (rtx_deadline_ms c) \<and> rtx_backoff c \<ge> RTX_MAX_RETRIES"

definition tick_rtx :: "nat \<Rightarrow> conn \<Rightarrow> conn" where
  "tick_rtx now c =
     (if tick_due now (rtx_deadline_ms c) then retransmit_oldest now c
      else if tick_due now (tlp_deadline_ms c)
      then (if state c = Established then send_tlp_probe now c else c\<lparr>tlp_deadline_ms := 0\<rparr>)
      else c)"

definition tick_rack :: "nat \<Rightarrow> conn \<Rightarrow> conn" where
  "tick_rack now c = (if tick_due now (rack_deadline_ms c) then rack_detect now c else c)"

definition persist_giveup :: "nat \<Rightarrow> tcb \<Rightarrow> bool" where
  "persist_giveup now c \<longleftrightarrow>
     tick_due now (persist_deadline_ms c) \<and> state c = Established \<and> persist_backoff c \<ge> PERSIST_MAX_PROBES"

definition tick_persist :: "nat \<Rightarrow> conn \<Rightarrow> conn" where
  "tick_persist now c =
     (if tick_due now (persist_deadline_ms c)
      then (if state c = Established then send_window_probe now c else c\<lparr>persist_deadline_ms := 0\<rparr>)
      else c)"

definition tick_lifecycle :: "nat \<Rightarrow> nat \<Rightarrow> core \<Rightarrow> core" where
  "tick_lifecycle now i k =
     (let c = conns k i
      in if \<not> tick_due now (lifecycle_deadline_ms c) then k
         else case state c of
            FinWait1 \<Rightarrow> if fin_retx_count c \<ge> FIN_RETX_MAX then free_connection i k else on_conn i (retransmit_fin now) k
          | LastAck \<Rightarrow> if fin_retx_count c \<ge> FIN_RETX_MAX then free_connection i k else on_conn i (retransmit_fin now) k
          | TimeWait \<Rightarrow> free_connection i k
          | SynSent \<Rightarrow> if fin_retx_count c \<ge> SYN_RETX_MAX then fail_connect i TimedOut k else on_conn i (retransmit_syn now) k
          | _ \<Rightarrow> on_conn i (\<lambda>c. c\<lparr>lifecycle_deadline_ms := 0\<rparr>) k)"

text \<open>The body of the walk up to the decision on the slot's place in the new list. The flag says that the
  body ended in \<open>continue\<close> after a give-up.\<close>

definition tick_slot :: "nat \<Rightarrow> nat \<Rightarrow> core \<Rightarrow> bool \<times> core" where
  "tick_slot now i k =
     (if rtx_giveup now (conns k i) then (True, free_connection i k)
      else let k1 = on_conn i (tick_rtx now) k;
               k2 = on_conn i (tick_rack now) k1
           in if persist_giveup now (conns k2 i) then (True, free_connection i k2)
              else (False, tick_lifecycle now i (on_conn i (tick_persist now) k2)))"

definition tick_relink :: "nat \<Rightarrow> nat \<Rightarrow> core \<Rightarrow> nat \<times> core" where
  "tick_relink walker new_head k =
     (let c = conns k walker
      in if armed c then (walker, k\<lparr>conns := (conns k)(walker := c\<lparr>tick_next := new_head\<rparr>)\<rparr>)
         else (new_head, k\<lparr>conns := (conns k)(walker := c\<lparr>tick_in_list := False\<rparr>)\<rparr>))"

fun tick_walk :: "nat \<Rightarrow> nat \<Rightarrow> nat \<Rightarrow> nat \<Rightarrow> core \<Rightarrow> (nat \<times> core) option" where
  "tick_walk 0 now walker new_head k = None"
| "tick_walk (Suc n) now walker new_head k =
     (if walker = NULL_SLOT then Some (new_head, k)
      else let nx = tick_next (conns k walker);
               (continue, k1) = tick_slot now walker k
           in if continue then tick_walk n now walker new_head k1
              else let (h, k2) = tick_relink walker new_head k1
                   in tick_walk n now nx h k2)"

text \<open>A list holds 65472 slots at most; the fuel leaves room for one more visit of a slot that was given up.\<close>

definition on_tcp_tick :: "core \<Rightarrow> core option" where
  "on_tcp_tick k =
     (let now = now_ms (core_env k); (old_head, k1) = tick_head_take k
      in map_option (\<lambda>(new_head, k2). tick_head_publish new_head k2) (tick_walk 65536 now old_head NULL_SLOT k1))"

definition has_armed_timers :: "core \<Rightarrow> bool" where
  "has_armed_timers k \<longleftrightarrow> tick_head (core_env k) \<noteq> NULL_SLOT"

section \<open>One slot\<close>

lemma touches_tick [touching]:
  "touches c (tick_rtx now c)" "touches c (tick_rack now c)" "touches c (tick_persist now c)"
  "touches c (c\<lparr>lifecycle_deadline_ms := 0\<rparr>)"
proof -
  have q: "touches c (c\<lparr>tlp_deadline_ms := 0\<rparr>)" "touches c (c\<lparr>persist_deadline_ms := 0\<rparr>)" "touches c (c\<lparr>lifecycle_deadline_ms := 0\<rparr>)"
    by (auto simp: touch_defs)
  show "touches c (tick_rtx now c)" "touches c (tick_rack now c)" "touches c (tick_persist now c)"
    unfolding tick_rtx_def tick_rack_def tick_persist_def
    using q touches_refl touches_retransmit_oldest touches_send_tlp_probe touches_rack_detect touches_send_window_probe by simp_all
  show "touches c (c\<lparr>lifecycle_deadline_ms := 0\<rparr>)" by (rule q(3))
qed

text \<open>What the timers of the walked slot \<open>i\<close> may do to a core: nothing to other slots and to the empty published
  list, and the slot either keeps its place in the walk or is free.\<close>

definition tick_effect :: "nat \<Rightarrow> core \<Rightarrow> nat set \<Rightarrow> core \<Rightarrow> bool" where
  "tick_effect i k D k' \<longleftrightarrow> (\<forall>j. j \<noteq> i \<longrightarrow> conns k' j = conns k j) \<and> tick_head (core_env k') = NULL_SLOT
     \<and> pool_capacity k' = pool_capacity k \<and> now_ms (core_env k') = now_ms (core_env k)
     \<and> (core_ok k' D \<and> in_use i k' \<and> tick_in_list (conns k' i) \<and> tick_next (conns k' i) = tick_next (conns k i)
        \<or> core_ok k' (D - {i}) \<and> \<not> in_use i k' \<and> \<not> tick_in_list (conns k' i) \<and> tick_next (conns k' i) = NULL_SLOT
          \<and> \<not> armed (conns k' i))"

definition walking :: "nat \<Rightarrow> core \<Rightarrow> nat set \<Rightarrow> bool" where
  "walking i k D \<longleftrightarrow> core_ok k D \<and> in_use i k \<and> tick_in_list (conns k i) \<and> tick_head (core_env k) = NULL_SLOT"

lemma tick_effect_trans:
  assumes "tick_effect i k D k1" "walking i k1 D \<Longrightarrow> tick_effect i k1 D k2" "walking i k1 D"
  shows "tick_effect i k D k2"
  using assms by (auto simp: tick_effect_def walking_def)

lemma tick_effect_on_conn:
  assumes w: "walking i k D" and t: "\<And>c. touches c (f c)"
  shows "tick_effect i k D (on_conn i f k)" "walking i (on_conn i f k) D"
proof -
  have l: "link (conn_at i k) (f (conn_at i k))" "now_ms (cenv (f (conn_at i k))) = now_ms (core_env k)"
    using t [of "conn_at i k"] by (simp_all add: touches_def)
  have "core_ok (on_conn i f k) D" "in_use i (on_conn i f k)"
    using core_ok_on_conn(1) [OF _ _ t] core_ok_on_conn(2) [OF _ _ t, of k D i i] w by (simp_all add: walking_def)
  then show "tick_effect i k D (on_conn i f k)" "walking i (on_conn i f k) D"
    using l w by (simp_all add: tick_effect_def walking_def link_def on_conn_def)
qed

lemma tick_unlink_detached: "tick_head (core_env k) = NULL_SLOT \<Longrightarrow> i \<noteq> NULL_SLOT \<Longrightarrow> tick_unlink i k = k"
  by (simp add: tick_unlink_def Let_def)

lemma tick_effect_free:
  assumes w: "walking i k D"
  shows "tick_effect i k D (free_connection i k)"
proof -
  have ok: "core_ok k D" "in_use i k" "tick_in_list (conns k i)" "tick_head (core_env k) = NULL_SLOT" using w by (simp_all add: walking_def)
  have n: "i \<noteq> NULL_SLOT" using in_use_bound [OF ok(1,2)] by (simp add: tcp_consts)
  define h where "h = (if live (conns k i) then tcp_hash_remove (conn_key (conns k i)) (hash k) else hash k)"
  define k1 where "k1 = k\<lparr>hash := h\<rparr>"
  have u: "tick_unlink i k1 = k1" using tick_unlink_detached [of k1 i] ok(4) n by (simp add: k1_def)
  have nf: "next_free (conns k i) = NULL_SLOT" using ok(1,2) by (auto simp: core_ok_def pool_ok_def free_list_ok_def in_use_def)
  have e: "free_connection i k = free_slot i (k1\<lparr>core_env := wake (send_waker (conns k i)) (wake (recv_waker (conns k i)) (core_env k)),
      conns := (conns k)(i := reset_preserving (as_u16 (generation (conns k i) + 1)) (conns k i))\<rparr>)"
  proof -
    have "(if state (conns k i) \<noteq> Closed \<and> state (conns k i) \<noteq> Listen then k\<lparr>hash := tcp_hash_remove (conn_key (conns k i)) (hash k)\<rparr> else k) = k1"
      by (simp add: k1_def h_def live_def)
    then show ?thesis unfolding free_connection_def Let_def using u ok(3) nf by (simp add: k1_def)
  qed
  have f: "conns (free_connection i k) j = conns k j" if "j \<noteq> i" for j using that by (simp add: e free_slot_def)
  have g: "tick_next (conns (free_connection i k) i) = NULL_SLOT" "\<not> tick_in_list (conns (free_connection i k) i)"
    "\<not> armed (conns (free_connection i k) i)"
    by (simp_all add: e free_slot_def reset_preserving_def tcb_new_def armed_def Let_def)
  have "tick_head (core_env (free_connection i k)) = NULL_SLOT" "now_ms (core_env (free_connection i k)) = now_ms (core_env k)"
    using ok(4) by (simp_all add: e free_slot_def)
  then show ?thesis using core_ok_free(1,2) [OF ok(1,2)] core_ok_free(3) [OF ok(1,2), of i] f g by (simp add: tick_effect_def)
qed

lemma tick_effect_fail:
  assumes w: "walking i k D"
  shows "tick_effect i k D (fail_connect i f k)"
proof -
  have ok: "core_ok k D" "in_use i k" using w by (simp_all add: walking_def)
  have "pool_capacity (fail_connect i f k) = pool_capacity k" by (simp add: fail_connect_def Let_def pool_capacity_def)
  then show ?thesis using fail_connect_ok(1) [OF ok] fail_connect_ok(2) [OF ok, of i] w
    by (simp add: tick_effect_def walking_def) (simp add: fail_connect_def Let_def)
qed

lemma tick_effect_refl: "walking i k D \<Longrightarrow> tick_effect i k D k"
  by (simp add: walking_def tick_effect_def)

lemma tick_effect_lifecycle:
  assumes w: "walking i k D"
  shows "tick_effect i k D (tick_lifecycle now i k)"
proof -
  note e = tick_effect_refl [OF w] tick_effect_free [OF w] tick_effect_fail [OF w, of TimedOut]
    tick_effect_on_conn(1) [where f = "retransmit_fin now", OF w touches_retransmit_fin] tick_effect_on_conn(1) [where f = "retransmit_syn now", OF w touches_retransmit_syn]
    tick_effect_on_conn(1) [OF w touches_tick(4)]
  show ?thesis unfolding tick_lifecycle_def Let_def by (cases "state (conns k i)") (simp_all add: e)
qed

lemma tick_slot_effect:
  assumes w: "walking i k D" and t: "tick_slot now i k = (cont, k')"
  shows "tick_effect i k D k'" "cont \<Longrightarrow> \<not> in_use i k'"
proof -
  define k1 where "k1 = on_conn i (tick_rtx now) k"
  define k2 where "k2 = on_conn i (tick_rack now) k1"
  define k3 where "k3 = on_conn i (tick_persist now) k2"
  note e1 = tick_effect_on_conn [where f = "tick_rtx now", OF w touches_tick(1), folded k1_def]
  note e2 = tick_effect_on_conn [where f = "tick_rack now", OF e1(2) touches_tick(2), folded k2_def]
  note e3 = tick_effect_on_conn [where f = "tick_persist now", OF e2(2) touches_tick(3), folded k3_def]
  have e12: "tick_effect i k D k2" using e1(1) e2(1) e1(2) by (rule tick_effect_trans)
  have e: "(cont, k') = (if rtx_giveup now (conns k i) then (True, free_connection i k)
      else if persist_giveup now (conns k2 i) then (True, free_connection i k2) else (False, tick_lifecycle now i k3))"
    unfolding t [symmetric] tick_slot_def k1_def k2_def k3_def Let_def by (rule refl)
  have "tick_effect i k D (free_connection i k2)" using e12 tick_effect_free [OF e2(2)] e2(2) by (rule tick_effect_trans)
  moreover have "tick_effect i k D (tick_lifecycle now i k3)"
    using e12 tick_effect_trans [OF e3(1) tick_effect_lifecycle [OF e3(2)] e3(2)] e2(2) by (rule tick_effect_trans)
  ultimately show "tick_effect i k D k'" using e tick_effect_free [OF w] by (auto split: if_splits)
  have "\<not> in_use i (free_connection i k)" "\<not> in_use i (free_connection i k2)"
    using core_ok_free(3) [of k D i i] core_ok_free(3) [of k2 D i i] w e2(2) by (simp_all add: walking_def)
  then show "\<not> in_use i k'" if "cont" using that e by (auto split: if_splits)
qed

text \<open>The persist timer is not touched by the timers handled before it.\<close>

lemma emit_marked_persist [simp]:
  "state (emit_marked b ls is c) = state c" "persist_deadline_ms (emit_marked b ls is c) = persist_deadline_ms c"
  "persist_backoff (emit_marked b ls is c) = persist_backoff c"
  by (induction b ls "is" c rule: emit_marked.induct) simp_all

lemma rack_detect_persist [simp]:
  "state (rack_detect now c) = state c" "persist_deadline_ms (rack_detect now c) = persist_deadline_ms c"
  "persist_backoff (rack_detect now c) = persist_backoff c"
  by (simp_all add: rack_detect_def Let_def split: option.split prod.split)

lemma tick_persist_frame:
  "persist_deadline_ms (tick_rtx n c) = persist_deadline_ms c" "persist_backoff (tick_rtx n c) = persist_backoff c"
  "state (tick_rtx n c) = state c" "persist_deadline_ms (tick_rack n c) = persist_deadline_ms c"
  "persist_backoff (tick_rack n c) = persist_backoff c" "state (tick_rack n c) = state c"
  by (simp_all add: tick_rtx_def tick_rack_def retransmit_oldest_def retransmit_oldest_segment_def congestion_on_rto_def
    send_tlp_probe_def arm_tlp_def Let_def)

definition gives_up :: "nat \<Rightarrow> tcb \<Rightarrow> bool" where
  "gives_up now c \<longleftrightarrow> rtx_giveup now c \<or> persist_giveup now c"

lemma tick_slot_gives_up: "fst (tick_slot now i k) = gives_up now (conns k i)"
proof -
  have "persist_giveup now (conns (on_conn i (tick_rack now) (on_conn i (tick_rtx now) k)) i) = persist_giveup now (conns k i)"
    by (simp add: on_conn_def tick_persist_frame persist_giveup_def)
  then show ?thesis by (simp add: tick_slot_def gives_up_def Let_def)
qed

section \<open>The walk\<close>

definition walk_ok :: "core \<Rightarrow> nat set \<Rightarrow> nat \<Rightarrow> nat list \<Rightarrow> nat \<Rightarrow> nat list \<Rightarrow> bool" where
  "walk_ok k D walker rem new_head reb \<longleftrightarrow> core_ok k (D \<union> set rem \<union> set reb) \<and> tick_head (core_env k) = NULL_SLOT
     \<and> chain (\<lambda>s. tick_next (conns k s)) walker rem \<and> chain (\<lambda>s. tick_next (conns k s)) new_head reb
     \<and> distinct (rem @ reb) \<and> D \<inter> set (rem @ reb) = {} \<and> (\<forall>s \<in> set reb. armed (conns k s)) \<and> NULL_SLOT \<notin> set (rem @ reb)"

lemma detached_flagged:
  assumes "core_ok k D" "tick_head (core_env k) = NULL_SLOT"
  shows "D = {s. s < pool_capacity k \<and> tick_in_list (conns k s)}" "s \<in> D \<Longrightarrow> in_use s k"
proof -
  obtain fs ts where p: "pool_ok k fs ts D" "\<And>s. in_use s k \<longleftrightarrow> s < pool_capacity k \<and> s \<notin> set fs" using assms(1) by (auto elim: core_okE)
  then have "ts = []" using assms(2) by (simp add: pool_ok_def tick_list_ok_def chain_null)
  with p(1) show d: "D = {s. s < pool_capacity k \<and> tick_in_list (conns k s)}" by (simp add: pool_ok_def tick_list_ok_def)
  show "in_use s k" if "s \<in> D" using that d p by (auto simp: pool_ok_def free_list_ok_def)
qed

lemma relink_core_ok:
  assumes ok: "core_ok k D" and h: "tick_head (core_env k) = NULL_SLOT"
    and f: "slot_index c = slot_index (conns k i)" "next_free c = next_free (conns k i)" "state c = state (conns k i)"
      "conn_key c = conn_key (conns k i)" "listed c" "tick_in_list c \<Longrightarrow> tick_in_list (conns k i)"
  shows "core_ok (k\<lparr>conns := (conns k)(i := c)\<rparr>) (if tick_in_list c then D else D - {i})"
proof -
  define k' where "k' = k\<lparr>conns := (conns k)(i := c)\<rparr>"
  obtain fs ts where p: "pool_ok k fs ts D" "rings_ok k" "all_slots listed k" using ok by (auto elim: core_okE)
  have ts: "ts = []" using p(1) h by (simp add: pool_ok_def tick_list_ok_def chain_null)
  have k': "pool_capacity k' = pool_capacity k" "nsegs k' = nsegs k" "free_head k' = free_head k" "hash k' = hash k" "core_env k' = core_env k"
    by (simp_all add: k'_def pool_capacity_def)
  have nf: "next_free (conns k' s) = next_free (conns k s)" "state (conns k' s) = state (conns k s)"
    "conn_key (conns k' s) = conn_key (conns k s)" "slot_index (conns k' s) = slot_index (conns k s)" for s
    using f(1-4) by (simp_all add: k'_def)
  have lv: "live (conns k' s) = live (conns k s)" for s using nf(2) [of s] by (simp only: live_def)
  have fl: "tick_in_list (conns k' s) \<Longrightarrow> tick_in_list (conns k s)" for s using f(6) by (auto simp: k'_def split: if_splits)
  have "slots_ok k'" "index_ok k'" using p(1) by (simp_all add: pool_ok_def slots_ok_def index_ok_def k' nf lv)
  moreover have "free_list_ok k' fs" using p(1) fl by (auto simp: pool_ok_def free_list_ok_def k' nf)
  moreover have "tick_list_ok k' [] (if tick_in_list c then D else D - {i})"
    using detached_flagged(1) [OF ok h] h f(6) by (auto simp: tick_list_ok_def k' chain_null) (auto simp: k'_def split: if_splits)
  ultimately have "pool_ok k' fs [] (if tick_in_list c then D else D - {i})" by (simp add: pool_ok_def)
  moreover have "rings_ok k'" using p(2) rings_ok_cong [of k' k] by (simp add: k'_def)
  moreover have "all_slots listed k'" using p(3) f(5) by (simp add: all_slots_def k'_def)
  ultimately show ?thesis unfolding k'_def by (rule core_okI)
qed

lemma relink_ok:
  assumes ok: "core_ok k D" and h: "tick_head (core_env k) = NULL_SLOT" and r: "tick_relink i x k = (y, k')"
  shows "core_ok k' (if armed (conns k i) then D else D - {i})" "tick_head (core_env k') = NULL_SLOT"
    "y = (if armed (conns k i) then i else x)" "j \<noteq> i \<Longrightarrow> conns k' j = conns k j"
    "armed (conns k i) \<Longrightarrow> conns k' i = (conns k i)\<lparr>tick_next := x\<rparr>" "now_ms (core_env k') = now_ms (core_env k)"
proof -
  let ?c = "conns k i"
  have l: "listed ?c" using ok by (simp add: core_ok_def all_slots_def)
  have a: "core_ok (k\<lparr>conns := (conns k)(i := ?c\<lparr>tick_next := x\<rparr>)\<rparr>) D" if "armed ?c"
  proof -
    have "tick_in_list ?c" using l that by (simp add: listed_def)
    then show ?thesis using relink_core_ok [OF ok h, of "?c\<lparr>tick_next := x\<rparr>" i] by (simp add: conn_key_def listed_def)
  qed
  have b: "core_ok (k\<lparr>conns := (conns k)(i := ?c\<lparr>tick_in_list := False\<rparr>)\<rparr>) (D - {i})" if "\<not> armed ?c"
    using relink_core_ok [OF ok h, of "?c\<lparr>tick_in_list := False\<rparr>" i] l that by (simp add: conn_key_def listed_def armed_def)
  show "core_ok k' (if armed ?c then D else D - {i})" using r a b by (auto simp: tick_relink_def Let_def split: if_splits)
  show "tick_head (core_env k') = NULL_SLOT" "y = (if armed ?c then i else x)" "j \<noteq> i \<Longrightarrow> conns k' j = conns k j"
    "armed ?c \<Longrightarrow> conns k' i = ?c\<lparr>tick_next := x\<rparr>" "now_ms (core_env k') = now_ms (core_env k)"
    using r h by (auto simp: tick_relink_def Let_def split: if_splits)
qed

lemma tick_walk_null: "0 < n \<Longrightarrow> tick_walk n now NULL_SLOT h k = Some (h, k)"
  by (cases n) simp_all

lemma tick_walk_step:
  assumes w: "walk_ok k D i (i # rem) new_head reb" and t: "tick_slot now i k = (False, k1)" and r: "tick_relink i new_head k1 = (h, k2)"
  shows "walk_ok k2 D (tick_next (conns k i)) rem h (if armed (conns k1 i) then i # reb else reb)"
    "j \<noteq> i \<Longrightarrow> conns k2 j = conns k j" "now_ms (core_env k2) = now_ms (core_env k)"
proof -
  let ?A = "D \<union> set (i # rem) \<union> set reb"
  have ok: "core_ok k ?A" "tick_head (core_env k) = NULL_SLOT" using w by (simp_all add: walk_ok_def)
  have "walking i k ?A" using ok detached_flagged [OF ok] by (auto simp: walking_def)
  note e = tick_slot_effect(1) [OF this t]
  have other: "conns k1 j = conns k j" if "j \<noteq> i" for j using e that by (simp add: tick_effect_def)
  have h1: "tick_head (core_env k1) = NULL_SLOT" using e by (simp add: tick_effect_def)
  define A1 where "A1 = (if tick_in_list (conns k1 i) then ?A else ?A - {i})"
  have ok1: "core_ok k1 A1" using e by (auto simp: tick_effect_def A1_def)
  note rl = relink_ok [OF ok1 h1 r]
  have i: "i \<notin> set rem" "i \<notin> set reb" "i \<notin> D" "i \<noteq> NULL_SLOT" using w by (auto simp: walk_ok_def)
  have arm: "tick_in_list (conns k1 i)" if "armed (conns k1 i)" using e that ok1 by (auto simp: core_ok_def all_slots_def listed_def)
  show o2: "conns k2 j = conns k j" if "j \<noteq> i" for j using rl(4) [OF that] other [OF that] by simp
  have ch: "chain (\<lambda>s. tick_next (conns k2 s)) x xs = chain (\<lambda>s. tick_next (conns k s)) x xs" if "i \<notin> set xs" for x xs
    using that o2 by (intro chain_cong) metis
  have D2: "core_ok k2 (D \<union> set rem \<union> set (if armed (conns k1 i) then i # reb else reb))"
  proof (cases "armed (conns k1 i)")
    case True
    then have "core_ok k2 ?A" using rl(1) arm by (simp add: A1_def)
    moreover have "?A = D \<union> set rem \<union> set (i # reb)" by auto
    ultimately show ?thesis using True by simp
  next
    case False
    then have "core_ok k2 (A1 - {i})" using rl(1) by simp
    moreover have "A1 - {i} = D \<union> set rem \<union> set reb" using i by (auto simp: A1_def)
    ultimately show ?thesis using False by simp
  qed
  have "\<forall>s \<in> set reb. armed (conns k2 s)" using w o2 i(2) by (auto simp: walk_ok_def) metis
  moreover have "armed (conns k2 i)" if "armed (conns k1 i)" using rl(5) [OF that] that by (simp add: armed_def)
  moreover have "chain (\<lambda>s. tick_next (conns k2 s)) (tick_next (conns k i)) rem" using w ch [OF i(1)] by (simp add: walk_ok_def)
  moreover have "chain (\<lambda>s. tick_next (conns k2 s)) h (if armed (conns k1 i) then i # reb else reb)"
    using w ch [OF i(2)] rl(3,5) i(4) by (simp add: walk_ok_def)
  ultimately show "walk_ok k2 D (tick_next (conns k i)) rem h (if armed (conns k1 i) then i # reb else reb)"
    using w D2 rl(2) i by (auto simp: walk_ok_def)
  show "now_ms (core_env k2) = now_ms (core_env k)" using rl(6) e by (simp add: tick_effect_def)
qed

text \<open>A give-up: the slot is free, the next round drops it and stops, and what was left of the list is not
  in any list any more.\<close>

lemma tick_walk_giveup:
  assumes w: "walk_ok k D i (i # rem) new_head reb" and t: "tick_slot now i k = (True, k1)" and n: "2 \<le> n"
  shows "\<exists>k2. tick_walk n now i new_head k1 = Some (new_head, k2) \<and> walk_ok k2 (D \<union> set rem) NULL_SLOT [] new_head reb
    \<and> (\<forall>j. j \<noteq> i \<longrightarrow> conns k2 j = conns k j)"
proof -
  let ?A = "D \<union> set (i # rem) \<union> set reb"
  have ok: "core_ok k ?A" "tick_head (core_env k) = NULL_SLOT" using w by (simp_all add: walk_ok_def)
  have w0: "walking i k ?A" using ok detached_flagged [OF ok] by (auto simp: walking_def)
  note e = tick_slot_effect [OF w0 t]
  have i: "i \<notin> set rem" "i \<notin> set reb" "i \<notin> D" "i \<noteq> NULL_SLOT" using w by (auto simp: walk_ok_def)
  have ok1: "core_ok k1 (?A - {i})" "tick_head (core_env k1) = NULL_SLOT" "tick_next (conns k1 i) = NULL_SLOT" "\<not> armed (conns k1 i)"
    "\<And>j. j \<noteq> i \<Longrightarrow> conns k1 j = conns k j" using e by (auto simp: tick_effect_def)
  have dead: "\<not> tick_due now (rtx_deadline_ms (conns k1 i))" "\<not> tick_due now (tlp_deadline_ms (conns k1 i))"
    "\<not> tick_due now (rack_deadline_ms (conns k1 i))" "\<not> tick_due now (persist_deadline_ms (conns k1 i))"
    "\<not> tick_due now (lifecycle_deadline_ms (conns k1 i))"
    using ok1(4) by (simp_all add: armed_def tick_due_def)
  have put: "conn_put i (conn_at i k1) k1 = k1" by (simp add: conn_at_def conn_put_attach)
  have idle: "tick_rtx now (conn_at i k1) = conn_at i k1" "tick_rack now (conn_at i k1) = conn_at i k1"
    "tick_persist now (conn_at i k1) = conn_at i k1" using dead by (simp_all add: tick_rtx_def tick_rack_def tick_persist_def)
  have ts: "tick_slot now i k1 = (False, k1)"
    using dead by (simp add: tick_slot_def on_conn_def idle put rtx_giveup_def persist_giveup_def tick_lifecycle_def Let_def)
  obtain h k2 where r: "tick_relink i new_head k1 = (h, k2)" by fastforce
  note rl = relink_ok [OF ok1(1,2) r]
  obtain m where m: "n = Suc (Suc m)" using n by (metis Suc_le_D numeral_2_eq_2 le_SucE Suc_le_mono)
  have walk: "tick_walk n now i new_head k1 = Some (new_head, k2)"
    using i(4) ok1(3) ts r rl(3) ok1(4) by (simp add: m)
  have o2: "conns k2 j = conns k j" if "j \<noteq> i" for j using rl(4) [OF that] ok1(5) [OF that] by simp
  have "core_ok k2 (?A - {i} - {i})" using rl(1) ok1(4) by simp
  moreover have "?A - {i} - {i} = D \<union> set rem \<union> set [] \<union> set reb" using i by auto
  ultimately have "core_ok k2 (D \<union> set rem \<union> set [] \<union> set reb)" by simp
  moreover have "chain (\<lambda>s. tick_next (conns k2 s)) new_head reb = chain (\<lambda>s. tick_next (conns k s)) new_head reb"
    using i(2) o2 by (intro chain_cong) metis
  moreover have "\<forall>s \<in> set reb. armed (conns k2 s)" using w o2 i(2) by (auto simp: walk_ok_def) metis
  ultimately have "walk_ok k2 (D \<union> set rem) NULL_SLOT [] new_head reb" using w rl(2) by (auto simp: walk_ok_def)
  then show ?thesis using walk o2 by blast
qed

lemma tick_walk_ok:
  assumes "walk_ok k D walker rem new_head reb" "length rem + 2 \<le> n"
  shows "\<exists>h k' reb' Z. tick_walk n now walker new_head k = Some (h, k') \<and> walk_ok k' (D \<union> Z) NULL_SLOT [] h reb'
    \<and> Z \<subseteq> set rem \<and> ((\<forall>s \<in> set rem. \<not> gives_up now (conns k s)) \<longrightarrow> Z = {})"
  using assms
proof (induction rem arbitrary: k walker new_head reb n)
  case Nil
  then have "walker = NULL_SLOT" by (simp add: walk_ok_def)
  then have "tick_walk n now walker new_head k = Some (new_head, k)" using Nil(2) by (cases n) simp_all
  then show ?case using Nil(1) \<open>walker = NULL_SLOT\<close> by (intro exI [of _ new_head] exI [of _ k] exI [of _ reb] exI [of _ "{}"]) simp
next
  case (Cons i rem)
  then have i: "walker = i" "i \<noteq> NULL_SLOT" "i \<notin> set rem" by (simp_all add: walk_ok_def)
  obtain m where m: "n = Suc m" "length rem + 2 \<le> m" using Cons.prems(2) by (cases n) auto
  obtain cont k1 where t: "tick_slot now i k = (cont, k1)" by fastforce
  show ?case
  proof (cases cont)
    case True
    have t': "tick_slot now i k = (True, k1)" using t True by simp
    have gu: "gives_up now (conns k i)" using tick_slot_gives_up [of now i k] t True by simp
    obtain k2 where k2: "tick_walk m now i new_head k1 = Some (new_head, k2)" "walk_ok k2 (D \<union> set rem) NULL_SLOT [] new_head reb"
      using tick_walk_giveup [OF Cons.prems(1) [unfolded i(1)] t', of m] m(2) i(1) by auto
    have "tick_walk n now walker new_head k = Some (new_head, k2)" using i(1,2) t True k2(1) by (simp add: m(1))
    then show ?thesis using k2(2) gu by (intro exI [of _ new_head] exI [of _ k2] exI [of _ reb] exI [of _ "set rem"]) auto
  next
    case False
    have t': "tick_slot now i k = (False, k1)" using t False by simp
    obtain h k2 where r: "tick_relink i new_head k1 = (h, k2)" by fastforce
    note st = tick_walk_step [OF Cons.prems(1) [unfolded i(1)] t' r]
    have same: "gives_up now (conns k2 s) = gives_up now (conns k s)" if "s \<in> set rem" for s
    proof -
      have "s \<noteq> i" using that i(3) by metis
      then show ?thesis by (simp add: st(2))
    qed
    from Cons.IH [OF st(1) m(2)] obtain h' k' reb' Z where IH: "tick_walk m now (tick_next (conns k i)) h k2 = Some (h', k')"
      "walk_ok k' (D \<union> Z) NULL_SLOT [] h' reb'" "Z \<subseteq> set rem" "(\<forall>s \<in> set rem. \<not> gives_up now (conns k2 s)) \<longrightarrow> Z = {}" by blast
    have "tick_walk n now walker new_head k = Some (h', k')" using i(1,2) t False r IH(1) by (simp add: m(1))
    then show ?thesis using IH(2-4) same by (intro exI [of _ h'] exI [of _ k'] exI [of _ reb'] exI [of _ Z]) auto
  qed
qed

section \<open>A tick\<close>

lemma tick_list_length:
  assumes "pool_ok k fs ts D"
  shows "length ts \<le> 65472"
proof -
  have "distinct ts" "set ts \<subseteq> {..<pool_capacity k}" using assms by (auto simp: pool_ok_def tick_list_ok_def)
  then have "length ts \<le> pool_capacity k" using card_mono [of "{..<pool_capacity k}" "set ts"] by (simp add: distinct_card)
  then show ?thesis using capacity_bound [of k] assms by (simp add: pool_ok_def)
qed

lemma take_walk_ok:
  assumes ok: "pool_ok k fs ts D" "rings_ok k" "all_slots listed k"
  defines "k1 \<equiv> k\<lparr>core_env := (core_env k)\<lparr>tick_head := NULL_SLOT\<rparr>\<rparr>"
  shows "walk_ok k1 D (tick_head (core_env k)) ts NULL_SLOT []" "conns k1 = conns k"
proof -
  have f: "pool_capacity k1 = pool_capacity k" "conns k1 = conns k" "nsegs k1 = nsegs k" "hash k1 = hash k" "free_head k1 = free_head k"
    "tick_head (core_env k1) = NULL_SLOT" by (simp_all add: k1_def pool_capacity_def)
  have "slots_ok k1" "index_ok k1" "free_list_ok k1 fs"
    using ok(1) unfolding pool_ok_def slots_ok_def index_ok_def free_list_ok_def f by blast+
  moreover have "tick_list_ok k1 [] (D \<union> set ts)"
    using ok(1) unfolding pool_ok_def tick_list_ok_def f by auto
  ultimately have "pool_ok k1 fs [] (D \<union> set ts)" by (simp add: pool_ok_def)
  moreover have "rings_ok k1" "all_slots listed k1" using ok rings_ok_cong [of k1 k] by (simp_all add: k1_def all_slots_def)
  ultimately have "core_ok k1 (D \<union> set ts)" by (rule core_okI)
  then show "walk_ok k1 D (tick_head (core_env k)) ts NULL_SLOT []"
    using ok(1) chain_not_null [of "\<lambda>s. tick_next (conns k s)" "tick_head (core_env k)" ts]
    by (auto simp: walk_ok_def k1_def pool_ok_def tick_list_ok_def)
  show "conns k1 = conns k" by (simp add: k1_def)
qed

lemma publish_ok:
  assumes w: "walk_ok k D NULL_SLOT [] h reb"
  defines "k' \<equiv> tick_head_publish h k"
  shows "\<exists>fs. pool_ok k' fs reb D" "core_ok k' D" "conns k' = conns k" "tick_head (core_env k') = h" "pool_capacity k' = pool_capacity k"
proof -
  have k': "k' = k\<lparr>core_env := (core_env k)\<lparr>tick_head := h\<rparr>\<rparr>" using w by (simp add: k'_def tick_head_publish_def walk_ok_def)
  show c: "conns k' = conns k" "tick_head (core_env k') = h" and cap: "pool_capacity k' = pool_capacity k"
    by (simp_all add: k' pool_capacity_def)
  have ok: "core_ok k (D \<union> set reb)" "tick_head (core_env k) = NULL_SLOT" using w by (simp_all add: walk_ok_def)
  obtain fs ts where p: "pool_ok k fs ts (D \<union> set reb)" "rings_ok k" "all_slots listed k" using ok(1) by (auto elim: core_okE)
  have f: "nsegs k' = nsegs k" "hash k' = hash k" "free_head k' = free_head k" by (simp_all add: k')
  have "slots_ok k'" "index_ok k'" "free_list_ok k' fs"
    using p(1) unfolding pool_ok_def slots_ok_def index_ok_def free_list_ok_def f c cap by blast+
  moreover have "tick_list_ok k' reb D"
    using w detached_flagged(1) [OF ok] by (auto simp: walk_ok_def tick_list_ok_def c cap)
  ultimately have pk: "pool_ok k' fs reb D" by (simp add: pool_ok_def)
  then show "\<exists>fs. pool_ok k' fs reb D" by blast
  have "rings_ok k'" "all_slots listed k'" using p rings_ok_cong [of k' k] by (simp_all add: k' all_slots_def)
  with pk show "core_ok k' D" by (rule core_okI)
qed

lemma tick_ok:
  assumes ok: "pool_ok k fs ts D" "rings_ok k" "all_slots listed k"
  shows "\<exists>k' fs' ts' Z. on_tcp_tick k = Some k' \<and> core_ok k' (D \<union> Z) \<and> pool_ok k' fs' ts' (D \<union> Z) \<and> (\<forall>s \<in> set ts'. armed (conns k' s)) \<and> Z \<subseteq> set ts
    \<and> ((\<forall>s \<in> set ts. \<not> gives_up (now_ms (core_env k)) (conns k s)) \<longrightarrow> Z = {})"
proof -
  let ?now = "now_ms (core_env k)" and ?h = "tick_head (core_env k)"
  define k1 where "k1 = k\<lparr>core_env := (core_env k)\<lparr>tick_head := NULL_SLOT\<rparr>\<rparr>"
  note w = take_walk_ok [OF ok, folded k1_def]
  have "length ts + 2 \<le> 65536" using tick_list_length [OF ok(1)] by simp
  from tick_walk_ok [OF w(1) this, of ?now, unfolded w(2)] obtain h k2 ts' Z where t: "tick_walk 65536 ?now ?h NULL_SLOT k1 = Some (h, k2)"
    "walk_ok k2 (D \<union> Z) NULL_SLOT [] h ts'" "Z \<subseteq> set ts" "(\<forall>s \<in> set ts. \<not> gives_up ?now (conns k s)) \<longrightarrow> Z = {}" by blast
  note p = publish_ok [OF t(2)]
  obtain fs' where "pool_ok (tick_head_publish h k2) fs' ts' (D \<union> Z)" using p(1) by blast
  moreover have "on_tcp_tick k = Some (tick_head_publish h k2)" using t(1) by (simp add: on_tcp_tick_def tick_head_take_def k1_def Let_def)
  moreover have "\<forall>s \<in> set ts'. armed (conns (tick_head_publish h k2) s)" using t(2) p(3) by (simp add: walk_ok_def)
  ultimately show ?thesis using p(2) t(3,4) by blast
qed

section \<open>Cores with armed connections\<close>

text \<open>Freshly allocated slots have no retransmission and no persist timer.\<close>

definition no_data_timer :: "tcb \<Rightarrow> bool" where
  "no_data_timer c \<longleftrightarrow> rtx_deadline_ms c = 0 \<and> persist_deadline_ms c = 0"

interpretation data_timer_slots: slot_property no_data_timer
  by unfold_locales (auto simp: no_data_timer_def tcb_new_def reset_preserving_def Let_def)

lemma arm_new_slot:
  assumes ok: "core_ok k {}" and q: "all_slots no_data_timer k" and a: "alloc_connection k = (Some s, k1)"
  defines "k2 \<equiv> on_conn s (arm_fin_timer 1) k1"
  shows "core_ok k2 {}" "in_use s k2" "armed (conns k2 s)" "all_slots no_data_timer k2"
    "\<And>i. in_use i k \<Longrightarrow> state (conns k i) = Closed \<Longrightarrow> i \<noteq> s \<and> i < pool_capacity k2 \<and> (\<exists>t. conns k2 i = (conns k i)\<lparr>tick_next := t\<rparr>)"
    "state (conns k2 s) = Closed"
proof -
  obtain D' where al: "core_ok k1 D'" "D' \<subseteq> {}" "pool_capacity k \<le> pool_capacity k1"
    "\<And>s'. Some s = Some s' \<Longrightarrow> in_use s' k1 \<and> (\<exists>g c. conns k1 s' = reset_preserving g c)"
    "\<And>i. i < pool_capacity k \<Longrightarrow> Some s \<noteq> Some i \<Longrightarrow> \<exists>t. conns k1 i = (conns k i)\<lparr>tick_next := t\<rparr>"
    "\<And>s'. Some s = Some s' \<Longrightarrow> s' < pool_capacity k \<Longrightarrow>
       \<not> in_use s' k \<or> state (conns k s') \<in> {FinWait1, FinWait2, LastAck, TimeWait, CloseWait}" by (rule core_ok_alloc [OF ok a]) metis
  have ok1: "core_ok k1 {}" "in_use s k1" using al(1,2,4) by auto
  show "core_ok k2 {}" "in_use s k2"
    unfolding k2_def using core_ok_on_conn(1) [OF ok1 touches_arm_fin_timer] core_ok_on_conn(2) [OF ok1 touches_arm_fin_timer, of s] ok1(2) by simp_all
  obtain g c where c: "conns k1 s = reset_preserving g c" using al(4) by blast
  show "armed (conns k2 s)" "state (conns k2 s) = Closed"
    using c by (simp_all add: k2_def on_conn_def arm_fin_timer_def armed_def)
  have q1: "all_slots no_data_timer k1" using q a by (rule data_timer_slots.alloc_connection)
  then show "all_slots no_data_timer k2"
    by (intro all_slots_upd [OF q1, of "tcb.truncate (arm_fin_timer 1 (conn_at s k1))"])
      (simp_all add: k2_def on_conn_def arm_fin_timer_def no_data_timer_def all_slots_def)
  show "i \<noteq> s \<and> i < pool_capacity k2 \<and> (\<exists>t. conns k2 i = (conns k i)\<lparr>tick_next := t\<rparr>)" if i: "in_use i k" "state (conns k i) = Closed" for i
  proof -
    have cap: "i < pool_capacity k" using in_use_bound [OF ok i(1)] by simp
    then have "i \<noteq> s" using al(6) i by auto
    moreover have "conns k2 i = conns k1 i" using \<open>i \<noteq> s\<close> by (simp add: k2_def on_conn_def)
    moreover have "pool_capacity k2 = pool_capacity k1" by (simp add: k2_def on_conn_def)
    ultimately show ?thesis using al(3) al(5) [OF cap] cap by auto
  qed
qed

lemma demo_alloc:
  obtains s k1 where "alloc_connection demo_core = (Some s, k1)" "nsegs k1 < MAX_SEGMENTS" "alloc_results (core_env k1) = []"
proof -
  have ok: "pool_ok demo_core [] [] {}" by (simp add: demo_core_def pool_ok_new)
  obtain b k1 where g: "grow_segment demo_core = (b, k1)" by fastforce
  then have b: "b" using demo_core_room by (auto simp: grow_segment_def try_alloc_def Let_def split: if_splits)
  have "nsegs k1 = 1" using grow_segment_nsegs(1) [OF g] b by (simp add: demo_core_def core_new_def)
  have "pool_ok k1 [pool_capacity demo_core..<pool_capacity demo_core + SEGMENT_SIZE] [] {}" using grow_segment_ok(1) [OF ok g] b by simp
  moreover have "[pool_capacity demo_core..<pool_capacity demo_core + SEGMENT_SIZE] \<noteq> []" by (simp add: tcp_consts)
  ultimately have "free_head k1 \<noteq> NULL_SLOT" using free_list_null by (auto simp: pool_ok_def)
  moreover have "free_head demo_core = NULL_SLOT" by (simp add: demo_core_def core_new_def)
  ultimately obtain s k' where a: "alloc_connection demo_core = (Some s, k')" "nsegs k' = 1"
    using g b \<open>nsegs k1 = 1\<close> by (simp add: alloc_connection_def pool_alloc_cases [of demo_core] pool_alloc_cases [of k1] Let_def)
  have "alloc_results (core_env k') = []" using alloc_connection_env(1) [OF demo_core_ok a(1)] demo_core_room(2) by (simp add: env_quiet_def)
  then show thesis using that a by (simp add: tcp_consts)
qed

lemma armed_in_list:
  assumes "core_ok k D" "in_use s k" "armed (conns k s)" "s \<notin> D"
  obtains fs ts where "pool_ok k fs ts D" "rings_ok k" "all_slots listed k" "s \<in> set ts"
proof -
  obtain fs ts where p: "pool_ok k fs ts D" "rings_ok k" "all_slots listed k" using assms(1) by (auto elim: core_okE)
  have l: "tick_in_list (conns k s)" "s < pool_capacity k"
    using assms(3) p(3) in_use_bound [OF assms(1,2)] by (simp_all add: all_slots_def listed_def)
  have "tick_list_ok k ts D" using p(1) by (simp add: pool_ok_def)
  then have "s \<in> set ts" using l assms(4) unfolding tick_list_ok_def by blast
  then show thesis using that p by blast
qed

text \<open>Two connections with an armed timer.\<close>

lemma demo_two_armed:
  obtains k s s' where "core_ok k {}" "s \<noteq> s'" "in_use s k" "in_use s' k" "armed (conns k s)" "armed (conns k s')" "all_slots no_data_timer k"
proof -
  obtain s k1 where a: "alloc_connection demo_core = (Some s, k1)" "nsegs k1 < MAX_SEGMENTS" "alloc_results (core_env k1) = []"
    by (rule demo_alloc)
  define k where "k = on_conn s (arm_fin_timer 1) k1"
  have q: "all_slots no_data_timer demo_core" unfolding demo_core_def by (rule data_timer_slots.new_core)
  note n = arm_new_slot [OF demo_core_ok q a(1), folded k_def]
  have "nsegs k < MAX_SEGMENTS" "alloc_results (core_env k) = []"
    using a(2,3) by (simp_all add: k_def on_conn_def arm_fin_timer_def arm_for_tick_def)
  then obtain s' k2 where a': "alloc_connection k = (Some s', k2)" using alloc_succeeds [OF n(1)] by blast
  define k' where "k' = on_conn s' (arm_fin_timer 1) k2"
  note n' = arm_new_slot [OF n(1,4) a', folded k'_def]
  obtain t where s: "s \<noteq> s'" "s < pool_capacity k'" "conns k' s = (conns k s)\<lparr>tick_next := t\<rparr>" using n'(5) [OF n(2,6)] by blast
  have ar: "armed (conns k' s)" using n(3) s(3) by (simp add: armed_def)
  have "in_use s k'"
  proof -
    obtain fs ts where p: "pool_ok k' fs ts {}" "all_slots listed k'" "\<And>i. in_use i k' \<longleftrightarrow> i < pool_capacity k' \<and> i \<notin> set fs"
      using n'(1) by (auto elim: core_okE)
    have "tick_in_list (conns k' s)" using ar p(2) by (simp add: all_slots_def listed_def)
    then show ?thesis using p s(2) by (auto simp: pool_ok_def free_list_ok_def)
  qed
  then show thesis using that [OF n'(1) s(1) _ n'(2) ar n'(3,4)] by simp
qed

lemma demo_giving_up:
  obtains k i rest fs s where "pool_ok k fs (i # rest) {}" "rings_ok k" "all_slots listed k" "gives_up (now_ms (core_env k)) (conns k i)"
    "s \<in> set rest" "armed (conns k s)"
proof -
  obtain k s s' where k: "core_ok k {}" "s \<noteq> s'" "in_use s k" "in_use s' k" "armed (conns k s)" "armed (conns k s')" "all_slots no_data_timer k"
    by (rule demo_two_armed)
  obtain fs ts where p: "pool_ok k fs ts {}" "s \<in> set ts" using armed_in_list [OF k(1,3,5)] by blast
  have c: "chain (\<lambda>s. tick_next (conns k s)) (tick_head (core_env k)) ts" using p(1) by (simp add: pool_ok_def tick_list_ok_def)
  obtain fs' ts' where "pool_ok k fs' ts' {}" "s' \<in> set ts'" using armed_in_list [OF k(1,4,6)] by blast
  moreover then have "ts' = ts" using chain_unique [OF _ c] by (auto simp: pool_ok_def tick_list_ok_def)
  ultimately have s': "s' \<in> set ts" by simp
  obtain i rest where ts: "ts = i # rest" using p(2) by (cases ts) auto
  obtain r where r: "r \<in> set rest" "armed (conns k r)" using p(2) s' k(2,5,6) ts by auto
  have i: "in_use i k" "r \<noteq> i" using p(1) ts r(1) in_use_iff [OF p(1), of i] by (auto simp: pool_ok_def tick_list_ok_def free_list_ok_def)
  define c where "c = (conn_at i k)\<lparr>rtx_deadline_ms := 1, rtx_backoff := RTX_MAX_RETRIES\<rparr>"
  define k1 where "k1 = conn_put i c k"
  define k2 where "k2 = k1\<lparr>core_env := (core_env k1)\<lparr>now_ms := 1\<rparr>\<rparr>"
  have t: "touches (conn_at i k) c"
    using k(1) p(1) ts by (simp add: c_def touches_def ident_def live_def link_def listed_def pool_ok_def tick_list_ok_def set_eq_iff) blast
  have ok1: "core_ok k1 {}" unfolding k1_def using k(1) i(1) t by (rule core_ok_put)
  have ok2: "core_ok k2 {}" using ok1 by (rule core_ok_frame) (simp_all add: k2_def)
  obtain fs2 ts2 where p2: "pool_ok k2 fs2 ts2 {}" "rings_ok k2" "all_slots listed k2" using ok2 by (auto elim: core_okE)
  have "(\<lambda>s. tick_next (conns k2 s)) = (\<lambda>s. tick_next (conns k s))" "tick_head (core_env k2) = tick_head (core_env k)"
    by (simp_all add: k2_def k1_def c_def fun_eq_iff)
  then have "ts2 = i # rest" using p2(1) c ts chain_unique [OF _ c, of ts2] by (simp add: pool_ok_def tick_list_ok_def)
  moreover have "gives_up (now_ms (core_env k2)) (conns k2 i)" by (simp add: k2_def k1_def c_def gives_up_def rtx_giveup_def tick_due_def)
  moreover have "armed (conns k2 r)" using r(2) i(2) by (simp add: k2_def k1_def)
  ultimately show thesis using that p2 r(1) by blast
qed

section \<open>Properties\<close>

text \<open>C31: A tick that gives no connection up is exact. From a well-formed core whose timer list is complete,
  that is on which no earlier give-up has orphaned a connection (C32), the walk ends within its fuel, and afterwards the timer list holds exactly the connections that have a
  timer armed: no armed connection is lost and none without a timer stays. In particular the check the
  event loop makes before it sleeps answers exactly whether some connection has a timer armed.\<close>

theorem tick_exact:
  assumes "core_ok k {}" and "\<forall>s<pool_capacity k. \<not> gives_up (now_ms (core_env k)) (conns k s)"
  shows "\<exists>k'. on_tcp_tick k = Some k' \<and> core_ok k' {}
    \<and> (\<forall>s<pool_capacity k'. tick_in_list (conns k' s) \<longleftrightarrow> armed (conns k' s))
    \<and> (has_armed_timers k' \<longleftrightarrow> (\<exists>s<pool_capacity k'. armed (conns k' s)))"
proof -
  obtain fs ts where p: "pool_ok k fs ts {}" "rings_ok k" "all_slots listed k" using assms(1) by (auto elim: core_okE)
  have "\<forall>s \<in> set ts. \<not> gives_up (now_ms (core_env k)) (conns k s)" using assms(2) p(1) by (auto simp: pool_ok_def tick_list_ok_def)
  with tick_ok [OF p] obtain k' fs' ts' where k': "on_tcp_tick k = Some k'" "core_ok k' {}" "pool_ok k' fs' ts' {}" "\<forall>s \<in> set ts'. armed (conns k' s)"
    by auto
  have ts': "set ts' = {s. s < pool_capacity k' \<and> tick_in_list (conns k' s)}" "chain (\<lambda>s. tick_next (conns k' s)) (tick_head (core_env k')) ts'"
    using k'(3) by (auto simp: pool_ok_def tick_list_ok_def)
  have l: "tick_in_list (conns k' s) \<longleftrightarrow> armed (conns k' s)" if "s < pool_capacity k'" for s
    using that k'(2,4) ts'(1) by (auto simp: core_ok_def all_slots_def listed_def)
  have "has_armed_timers k' \<longleftrightarrow> ts' \<noteq> []" using ts'(2) by (cases ts') (auto simp: has_armed_timers_def)
  also have "\<dots> \<longleftrightarrow> (\<exists>s<pool_capacity k'. armed (conns k' s))" using ts'(1) l by (auto simp: set_eq_iff) (metis list.set_sel(1))+
  finally show ?thesis using k'(1,2) l by blast
qed

theorem tick_exact_witness:
  "\<exists>k k'. core_ok k {} \<and> has_armed_timers k \<and> on_tcp_tick k = Some k' \<and> core_ok k' {}
     \<and> (has_armed_timers k' \<longleftrightarrow> (\<exists>s<pool_capacity k'. armed (conns k' s)))"
proof -
  obtain k s s' where k: "core_ok k {}" "s \<noteq> s'" "in_use s k" "in_use s' k" "armed (conns k s)" "armed (conns k s')" "all_slots no_data_timer k"
    by (rule demo_two_armed)
  have "\<forall>s<pool_capacity k. \<not> gives_up (now_ms (core_env k)) (conns k s)"
    using k(7) by (simp add: all_slots_def no_data_timer_def gives_up_def rtx_giveup_def persist_giveup_def tick_due_def)
  moreover have "has_armed_timers k" 
  proof -
    obtain fs ts where "pool_ok k fs ts {}" "s \<in> set ts" using armed_in_list [OF k(1,3,5)] by blast
    then show ?thesis by (cases ts) (simp_all add: has_armed_timers_def pool_ok_def tick_list_ok_def)
  qed
  ultimately show ?thesis using tick_exact [OF k(1)] k(1) by blast
qed

text \<open>C32: A give-up loses the rest of the list. When the connection at the head of the timer list is given up
  after too many retransmissions, the walk continues from the freed slot, whose link was cleared, and stops:
  the timer list is empty afterwards, although every other connection of the list still has its timers and
  its membership flag. The check before sleeping then reports no timer, later ticks do nothing for them, and arming
  a timer of such a connection again does not put it back.\<close>

theorem giveup_orphans_rest:
  assumes "pool_ok k fs (i # rest) {}" and "rings_ok k" and "all_slots listed k" and "gives_up (now_ms (core_env k)) (conns k i)"
  shows "\<exists>k'. on_tcp_tick k = Some k' \<and> \<not> has_armed_timers k' \<and> core_ok k' (set rest)
    \<and> (\<forall>s \<in> set rest. conns k' s = conns k s \<and> tick_in_list (conns k' s) \<and> arm_for_tick (conn_at s k') = conn_at s k')
    \<and> (\<exists>k''. on_tcp_tick k' = Some k'' \<and> conns k'' = conns k' \<and> \<not> has_armed_timers k'')"
proof -
  let ?now = "now_ms (core_env k)"
  define k1 where "k1 = k\<lparr>core_env := (core_env k)\<lparr>tick_head := NULL_SLOT\<rparr>\<rparr>"
  note w = take_walk_ok [OF assms(1-3), folded k1_def]
  have i: "tick_head (core_env k) = i" "i \<noteq> NULL_SLOT" "i \<notin> set rest" using assms(1) by (auto simp: pool_ok_def tick_list_ok_def)
  obtain b k2 where t0: "tick_slot ?now i k1 = (b, k2)" by fastforce
  then have t: "tick_slot ?now i k1 = (True, k2)" using tick_slot_gives_up [of ?now i k1] assms(4) w(2) by simp
  from tick_walk_giveup [OF w(1) [unfolded i(1)] t, of 65535] obtain k3 where
    k3: "tick_walk 65535 ?now i NULL_SLOT k2 = Some (NULL_SLOT, k3)" "walk_ok k3 ({} \<union> set rest) NULL_SLOT [] NULL_SLOT []"
      "\<And>j. j \<noteq> i \<Longrightarrow> conns k3 j = conns k1 j" by auto
  have "tick_walk (Suc 65535) ?now i NULL_SLOT k1 = Some (NULL_SLOT, k3)"
    unfolding tick_walk.simps Let_def using i(2) t k3(1) by simp
  then have tw: "tick_walk 65536 ?now i NULL_SLOT k1 = Some (NULL_SLOT, k3)" by simp
  define k' where "k' = tick_head_publish NULL_SLOT k3"
  note p = publish_ok [OF k3(2), folded k'_def]
  have tick: "on_tcp_tick k = Some k'" using tw i(1) by (simp add: on_tcp_tick_def tick_head_take_def k1_def k'_def Let_def)
  have same: "conns k' s = conns k s" if "s \<in> set rest" for s using k3(3) [of s] that i(3) p(3) w(2) by auto
  have fl: "tick_in_list (conns k' s)" if "s \<in> set rest" for s
    using same [OF that] that assms(1) by (auto simp: pool_ok_def tick_list_ok_def)
  have ar: "arm_for_tick (conn_at s k') = conn_at s k'" if "s \<in> set rest" for s using fl [OF that] by (simp add: arm_for_tick_def)
  have h: "tick_head (core_env k') = NULL_SLOT" using p(4) .
  have "on_tcp_tick k' = Some (k'\<lparr>core_env := (core_env k')\<lparr>tick_head := NULL_SLOT\<rparr>\<rparr>)"
    using h by (simp add: on_tcp_tick_def tick_head_take_def tick_head_publish_def tick_walk_null Let_def)
  then have "\<exists>k''. on_tcp_tick k' = Some k'' \<and> conns k'' = conns k' \<and> \<not> has_armed_timers k''" by (simp add: has_armed_timers_def)
  then show ?thesis using tick p(2) same fl ar h by (intro exI [of _ k']) (simp add: has_armed_timers_def)
qed

theorem giveup_orphans_rest_witness:
  "\<exists>k k' s. core_ok k {} \<and> on_tcp_tick k = Some k' \<and> \<not> has_armed_timers k' \<and> armed (conns k' s) \<and> tick_in_list (conns k' s)"
proof -
  obtain k i rest fs s where k: "pool_ok k fs (i # rest) {}" "rings_ok k" "all_slots listed k" "gives_up (now_ms (core_env k)) (conns k i)"
    "s \<in> set rest" "armed (conns k s)"
    by (rule demo_giving_up)
  have "core_ok k {}" using k(1-3) by (rule core_okI)
  moreover obtain k' where "on_tcp_tick k = Some k'" "\<not> has_armed_timers k'" "conns k' s = conns k s" "tick_in_list (conns k' s)"
    using giveup_orphans_rest [OF k(1-4)] k(5) by blast
  ultimately show ?thesis using k(6) by (intro exI [of _ k] exI [of _ k'] exI [of _ s]) simp
qed

end
