(* ===== verification/Tcp_Receive.thy ===== *)
theory Tcp_Receive
  imports Tcp_Listener
begin

text \<open>
  The inbound path of TCP, \<open>crates/net/tcp/src/receive.rs\<close>: \<open>tcp_receive_inner\<close> with each of its branches,
  the challenge acknowledgements of RFC 5961 and their rate limit, and the reaction to a path-MTU report.

  A segment arrives as the chain of its parts, each the bytes it exposes. Reading the header gives a
  record; each branch of the handler is a function of that record. The branches for a synchronized connection
  follow the order of the code: acknowledgement, data, FIN, a FIN in TimeWait, window refresh. Additions
  the code writes without \<open>wrapping_add\<close> wrap, as they do in the release profile.
\<close>

section \<open>The segment\<close>

record rx_seg =
  sg_src_ip :: IpAddr
  sg_dst_ip :: IpAddr
  sg_src_port :: u16
  sg_dst_port :: u16
  sg_seq :: u32
  sg_ack :: u32
  sg_flags :: u8
  sg_window :: nat
  sg_data_offset :: nat
  sg_payload_len :: nat
  sg_syn :: SynOptions
  sg_parts :: "bytes list"

definition has_flag :: "u8 \<Rightarrow> rx_seg \<Rightarrow> bool" where
  "has_flag f s \<longleftrightarrow> sg_flags s AND f \<noteq> 0"

text \<open>\<open>first.data().get(20..data_offset)\<close>\<close>

definition header_options :: "nat \<Rightarrow> bytes \<Rightarrow> bytes option" where
  "header_options doff d = (if 20 \<le> doff \<and> doff \<le> length d then Some (take (doff - 20) (drop 20 d)) else None)"

definition read_segment :: "IpAddr \<Rightarrow> IpAddr \<Rightarrow> bytes list \<Rightarrow> rx_seg option" where
  "read_segment src dst parts =
     (case parts of
        [] \<Rightarrow> None
      | d # _ \<Rightarrow>
     (case parse_tcp_header d of
        None \<Rightarrow> None
      | Some h \<Rightarrow>
          let doff = data_offset h
          in Some \<lparr>sg_src_ip = src, sg_dst_ip = dst, sg_src_port = th_src_port h, sg_dst_port = th_dst_port h,
               sg_seq = th_seq h, sg_ack = th_ack h, sg_flags = th_flags h, sg_window = unat (th_window h),
               sg_data_offset = doff, sg_payload_len = length (concat parts) - doff,
               sg_syn = (if th_flags h AND TCP_SYN \<noteq> 0 \<and> doff > 20
                         then (case header_options doff d of None \<Rightarrow> syn_options_default | Some o' \<Rightarrow> parse_syn_options o')
                         else syn_options_default),
               sg_parts = parts\<rparr>))"

text \<open>The walk over the parts that skips the header.\<close>

fun payload_parts :: "nat \<Rightarrow> bytes list \<Rightarrow> bytes list" where
  "payload_parts skip [] = []"
| "payload_parts skip (b # bs) =
     (if skip \<ge> length b then payload_parts (skip - length b) bs else drop skip b # payload_parts 0 bs)"

section \<open>Acknowledgements\<close>

definition CHALLENGE_ACK_RATE :: nat where "CHALLENGE_ACK_RATE = 100"

definition challenge_ack_allowed :: "core \<Rightarrow> bool \<times> core" where
  "challenge_ack_allowed k =
     (if core_id k \<ge> MAX_CORES then (True, k)
      else let now = now_ms (core_env k);
               last = challenge_last_ms k;
               refill = sat_mul64 (now - last) CHALLENGE_ACK_RATE div 1000;
               k1 = (if now > last \<and> refill > 0
                     then k\<lparr>challenge_tokens := as_u32 (min (challenge_tokens k + refill) CHALLENGE_ACK_BURST),
                            challenge_last_ms := now\<rparr>
                     else k)
           in if challenge_tokens k1 > 0 then (True, k1\<lparr>challenge_tokens := challenge_tokens k1 - 1\<rparr>) else (False, k1))"

text \<open>A segment back to the sender of \<open>s\<close>.\<close>

definition reply_meta :: "rx_seg \<Rightarrow> u32 \<Rightarrow> u32 \<Rightarrow> u8 \<Rightarrow> nat \<Rightarrow> SegmentMeta" where
  "reply_meta s sq ak fl w =
     \<lparr>sm_local_ip = sg_dst_ip s, sm_dst_ip = sg_src_ip s, sm_src_port = sg_dst_port s, sm_dst_port = sg_src_port s,
      sm_seq = sq, sm_ack = ak, sm_flags = fl, sm_window = w\<rparr>"

definition send_challenge_ack :: "rx_seg \<Rightarrow> u32 \<Rightarrow> u32 \<Rightarrow> nat \<Rightarrow> core \<Rightarrow> core" where
  "send_challenge_ack s sn rn w k =
     (let (ok, k1) = challenge_ack_allowed k
      in if \<not> ok then k1 else k1\<lparr>core_env := send_segment (reply_meta s sn rn TCP_ACK w) [] (core_env k1)\<rparr>)"

definition emit_ack :: "rx_seg \<Rightarrow> conn \<Rightarrow> conn" where
  "emit_ack s c =
     (let m = reply_meta s (snd_nxt c) (rcv_nxt c) TCP_ACK (as_u16 (rx_free c))
      in if sack_ok c \<and> \<not> ooo_is_empty (ooo c)
         then let blocks = sack_blocks 4 (ooo c)
              in if blocks \<noteq> [] then emit m [] (sack_option blocks) c else emit m [] [] c
         else emit m [] [] c)"

definition bare_ack :: "rx_seg \<Rightarrow> conn \<Rightarrow> conn" where
  "bare_ack s c = emit (reply_meta s (snd_nxt c) (rcv_nxt c) TCP_ACK (as_u16 (rx_free c))) [] [] c"

definition wake_sender :: "conn \<Rightarrow> conn" where
  "wake_sender c = c\<lparr>send_waker := None, cenv := wake (send_waker c) (cenv c)\<rparr>"

definition wake_receiver :: "conn \<Rightarrow> conn" where
  "wake_receiver c = c\<lparr>recv_waker := None, cenv := wake (recv_waker c) (cenv c)\<rparr>"

section \<open>Path MTU\<close>

datatype PathMtuOutcome = Applied | Rejected | NoConn

fun pmtu_floor :: "IpAddr \<Rightarrow> nat" where
  "pmtu_floor (V4 a) = 536"
| "pmtu_floor (V6 a) = 1220"

text \<open>The lookup that compares the 4-tuple of the slot found.\<close>

definition find_tuple :: "IpAddr \<Rightarrow> u16 \<Rightarrow> u16 \<Rightarrow> core \<Rightarrow> nat option" where
  "find_tuple r_ip r_port l_port k =
     (case tcp_hash_find (hash k) (tcp_hash_key r_ip r_port l_port) of
        None \<Rightarrow> None
      | Some i \<Rightarrow> let c = conns k i
          in if remote_ip c = r_ip \<and> remote_port c = r_port \<and> local_port c = l_port then Some i else None)"

definition note_path_mtu :: "IpAddr \<Rightarrow> u16 \<Rightarrow> u16 \<Rightarrow> u32 \<Rightarrow> nat \<Rightarrow> core \<Rightarrow> PathMtuOutcome \<times> core" where
  "note_path_mtu r_ip r_port l_port sq candidate k =
     (case find_tuple r_ip r_port l_port k of
        None \<Rightarrow> (NoConn, k)
      | Some slot \<Rightarrow>
          let c = conns k slot;
              in_window = unat (sq - snd_una c) < flight c
          in if state c \<noteq> Established \<or> \<not> in_window then (Rejected, k)
             else let new_mss = max candidate (pmtu_floor (local_ip c))
                  in if new_mss < snd_mss c then (Applied, upd_slot slot (\<lambda>c. c\<lparr>snd_mss := new_mss\<rparr>) k) else (Rejected, k))"

section \<open>Resets\<close>

definition receive_rst :: "rx_seg \<Rightarrow> core \<Rightarrow> core" where
  "receive_rst s k =
     (case tcp_linear_find (sg_src_ip s) (sg_src_port s) (sg_dst_port s) k of
        None \<Rightarrow> k
      | Some i \<Rightarrow>
          let c = conns k i
          in if state c = SynSent
             then (if has_flag TCP_ACK s \<and> sg_ack s = snd_nxt c then fail_connect i Refused k else k)
             else if sg_seq s = rcv_nxt c then free_connection i k else k)"

section \<open>New connections\<close>

definition negotiated_mss :: "IpAddr \<Rightarrow> u16 option \<Rightarrow> nat" where
  "negotiated_mss l_ip peer =
     (let local_mss = as_u16 (mss_for l_ip)
      in case peer of Some p \<Rightarrow> max (min local_mss (unat p)) 536 | None \<Rightarrow> local_mss)"

definition opt_or_zero :: "nat option \<Rightarrow> nat" where
  "opt_or_zero w = (case w of None \<Rightarrow> 0 | Some x \<Rightarrow> x)"

definition syn_received_setup :: "rx_seg \<Rightarrow> u32 \<Rightarrow> conn \<Rightarrow> conn" where
  "syn_received_setup s isn c =
     (let c1 = c\<lparr>state := SynReceived, remote_ip := sg_src_ip s, local_ip := sg_dst_ip s, local_port := sg_dst_port s,
                 remote_port := sg_src_port s, snd_nxt := isn, snd_una := isn, snd_wnd := sg_window s, snd_wl1 := sg_seq s,
                 snd_wl2 := 0, wscale_ok := so_wscale (sg_syn s) \<noteq> None, snd_wscale := opt_or_zero (so_wscale (sg_syn s)),
                 sack_ok := so_sack_permitted (sg_syn s), snd_mss := negotiated_mss (sg_dst_ip s) (so_mss (sg_syn s)),
                 rcv_nxt := sg_seq s + 1, listener_port := sg_dst_port s, accepted := False\<rparr>;
          c2 = congestion_init c1
      in c2\<lparr>rx_head := 0, rx_tail := 0, rx_used := 0, chunk_wanted := False, pending_chunk := None\<rparr>)"

definition send_syn_ack :: "rx_seg \<Rightarrow> conn \<Rightarrow> conn" where
  "send_syn_ack s c =
     emit (reply_meta s (snd_nxt c) (rcv_nxt c) (TCP_SYN OR TCP_ACK) (as_u16 RX_RING_BYTES)) []
       (syn_option_blob (of_nat (mss_for (local_ip c))) (wscale_ok c) (sack_ok c)) c"

text \<open>From the slot with its ring to the answered SYN.\<close>

definition open_passive :: "rx_seg \<Rightarrow> nat \<Rightarrow> core \<Rightarrow> core" where
  "open_passive s slot k =
     (let (isn, k1) = next_seq k;
          k2 = on_conn slot (syn_received_setup s isn) k1;
          k3 = k2\<lparr>hash := tcp_hash_insert (tcp_hash_key (sg_src_ip s) (sg_src_port s) (sg_dst_port s)) slot (hash k2)\<rparr>
      in on_conn slot (\<lambda>c. (send_syn_ack s c)\<lparr>snd_nxt := snd_nxt c + 1\<rparr>) k3)"

definition refuse :: "rx_seg \<Rightarrow> core \<Rightarrow> core" where
  "refuse s k = k\<lparr>core_env := send_rst (sg_dst_ip s) (sg_src_ip s) (sg_dst_port s) (sg_src_port s) 0 (sg_seq s + 1) (core_env k)\<rparr>"

definition find_listener :: "u16 \<Rightarrow> core \<Rightarrow> nat option" where
  "find_listener port k =
     (case listener_find port k of
        Some i \<Rightarrow> Some i
      | None \<Rightarrow> find (\<lambda>i. state (conns k i) = Listen \<and> local_port (conns k i) = port) [0..<pool_capacity k])"

text \<open>The rest of the SYN branch once no live connection answers for the 4-tuple.\<close>

definition admit_syn :: "rx_seg \<Rightarrow> nat option \<Rightarrow> core \<Rightarrow> core" where
  "admit_syn s stale k =
     (if find_listener (sg_dst_port s) k = None then refuse s k
      else let k1 = (case stale of Some i \<Rightarrow> free_connection i k | None \<Rightarrow> k)
           in case alloc_connection k1 of
                (None, k2) \<Rightarrow> k2
              | (Some slot, k2) \<Rightarrow>
                  let (ok, c) = ensure_rx_ring (conn_at slot k2); k3 = conn_put slot c k2
                  in if \<not> ok then free_connection slot (refuse s k3) else open_passive s slot k3)"

definition receive_syn :: "rx_seg \<Rightarrow> core \<Rightarrow> core" where
  "receive_syn s k =
     (case find_tuple (sg_src_ip s) (sg_src_port s) (sg_dst_port s) k of
        Some i \<Rightarrow>
          (let c = conns k i
           in if state c = Established
              then send_challenge_ack s (snd_nxt c) (rcv_nxt c) (as_u16 (rx_free c)) k
              else if state c = SynSent then k
              else admit_syn s (if state c \<noteq> Closed \<and> state c \<noteq> Listen then Some i else None) k)
      | None \<Rightarrow> admit_syn s None k)"

section \<open>The answer to our SYN\<close>

definition sample_syn_rtt :: "conn \<Rightarrow> conn" where
  "sample_syn_rtt c =
     (if rtt_anchor_active c \<and> \<not> seq_lt (snd_una c) (rtt_anchor_seq c)
      then let elapsed = clock c - rtt_anchor_ms c;
               c1 = (sample_rtt (min elapsed U32_MAX) c)\<lparr>rtt_anchor_active := False\<rparr>
           in c1\<lparr>rto_ms := estimated_rto c1\<rparr>
      else c)"

text \<open>The negotiated fields once the SYN-ACK is accepted.\<close>

definition establish_active :: "rx_seg \<Rightarrow> conn \<Rightarrow> conn" where
  "establish_active s c =
     (let c1 = c\<lparr>rcv_nxt := sg_seq s + 1, snd_una := sg_ack s, snd_wnd := sg_window s, snd_wl1 := sg_seq s,
                 snd_wl2 := sg_ack s, wscale_ok := so_wscale (sg_syn s) \<noteq> None,
                 snd_wscale := opt_or_zero (so_wscale (sg_syn s)), sack_ok := so_sack_permitted (sg_syn s),
                 snd_mss := negotiated_mss (local_ip c) (so_mss (sg_syn s)), state := Established,
                 lifecycle_deadline_ms := 0, fin_retx_count := 0\<rparr>
      in sample_syn_rtt (congestion_init c1))"

definition handle_syn_sent :: "rx_seg \<Rightarrow> conn \<Rightarrow> conn" where
  "handle_syn_sent s c =
     (let acceptable = has_flag TCP_ACK s \<and> sg_ack s = snd_nxt c
      in if has_flag TCP_ACK s \<and> \<not> acceptable then emit (reply_meta s (sg_ack s) 0 TCP_RST 0) [] [] c
         else if \<not> has_flag TCP_SYN s then c
         else if \<not> has_flag TCP_ACK s then c
         else wake_receiver (wake_sender (bare_ack s (establish_active s c))))"

section \<open>Synchronized connections\<close>

text \<open>Acknowledgement: the window, the state change, the retransmission queue.\<close>

definition ack_window :: "rx_seg \<Rightarrow> tcb \<Rightarrow> tcb" where
  "ack_window s c =
     (if seq_lt (snd_wl1 c) (sg_seq s) \<or> snd_wl1 c = sg_seq s \<and> \<not> seq_lt (sg_ack s) (snd_wl2 c)
      then c\<lparr>snd_wnd := (if wscale_ok c then as_u32 (sg_window s * 2 ^ snd_wscale c) else sg_window s),
             snd_wl1 := sg_seq s, snd_wl2 := sg_ack s\<rparr>
      else c)"

definition deliver_tcp_ready :: "u16 \<Rightarrow> core \<Rightarrow> core" where
  "deliver_tcp_ready port k =
     (case find (\<lambda>i. fst (tcp_registry k ! i) = port) [0..<length (tcp_registry k)] of
        None \<Rightarrow> k
      | Some i \<Rightarrow> k\<lparr>tcp_registry := (tcp_registry k)[i := (port, None)],
                    core_env := wake (snd (tcp_registry k ! i)) (core_env k)\<rparr>)"

definition ack_transition :: "rx_seg \<Rightarrow> bool \<Rightarrow> nat \<Rightarrow> core \<Rightarrow> core" where
  "ack_transition s advances slot k =
     (let c = conns k slot
      in if state c = SynReceived \<and> advances
         then let k1 = upd_slot slot (\<lambda>c. c\<lparr>state := Established, snd_una := sg_ack s\<rparr>) k;
                  port = listener_port c
              in deliver_tcp_ready port (accept_ring_push port (as_u16 slot) k1)
         else if state c = FinWait1 \<and> sg_ack s = snd_nxt c
         then upd_slot slot (\<lambda>c. c\<lparr>state := FinWait2, snd_una := sg_ack s, lifecycle_deadline_ms := 0, fin_retx_count := 0\<rparr>) k
         else if advances then upd_slot slot (\<lambda>c. c\<lparr>snd_una := sg_ack s\<rparr>) k
         else k)"

definition sacked_blocks :: "rx_seg \<Rightarrow> (u32 \<times> u32) list" where
  "sacked_blocks s =
     (case sg_parts s of
        [] \<Rightarrow> []
      | d # _ \<Rightarrow> (case header_options (sg_data_offset s) d of None \<Rightarrow> [] | Some o' \<Rightarrow> parse_sack_blocks 4 o'))"

definition ack_recovery :: "rx_seg \<Rightarrow> u32 \<Rightarrow> bool \<Rightarrow> conn \<Rightarrow> conn" where
  "ack_recovery s old_una is_dup_ack c =
     (let c1 = rtx_on_ack old_una c;
          c2 = (if sack_ok c1 \<and> sg_data_offset s > 20 \<and> sacked_blocks s \<noteq> [] then snd (apply_sack (sacked_blocks s) c1) else c1);
          c3 = (if is_dup_ack then on_dup_ack c2 else if snd_una c2 \<noteq> old_una then on_new_data_ack c2 else c2);
          c4 = rack_detect (clock c3) c3;
          c5 = (if snd_wnd c4 > 0 then c4\<lparr>persist_deadline_ms := 0, persist_backoff := 0\<rparr> else c4)
      in if usable_window c5 > 0 then wake_sender c5 else c5)"

text \<open>Whether the segment is done with, and the core after it.\<close>

definition process_ack :: "rx_seg \<Rightarrow> nat \<Rightarrow> core \<Rightarrow> bool \<times> core" where
  "process_ack s slot k =
     (let c = conns k slot
      in if seq_lt (snd_nxt c) (sg_ack s)
         then (True, send_challenge_ack s (snd_nxt c) (rcv_nxt c) (as_u16 (rx_free c)) k)
         else let old_una = snd_una c;
                  advances = seq_lt (snd_una c) (sg_ack s);
                  is_dup_ack = (sg_ack s = snd_una c \<and> sg_payload_len s = 0 \<and> sg_flags s AND (TCP_SYN OR TCP_FIN) = 0
                                \<and> seq_lt (snd_una c) (snd_nxt c));
                  k1 = upd_slot slot (ack_window s) k
              in if state c = LastAck \<and> sg_ack s = snd_nxt c then (True, free_connection slot k1)
                 else (False, on_conn slot (ack_recovery s old_una is_dup_ack) (ack_transition s advances slot k1)))"

text \<open>Data: straight to a waiting chunk reader, into the ring, or into the out-of-order queue.\<close>

fun deliver_parts :: "bytes list \<Rightarrow> 'a tcb_scheme \<Rightarrow> nat \<times> 'a tcb_scheme" where
  "deliver_parts [] c = (0, c)"
| "deliver_parts (b # bs) c =
     (let (n, c1) = deliver_payload b c; (m, c2) = deliver_parts bs c1 in (n + m, c2))"

definition narrow :: "nat \<Rightarrow> nat \<Rightarrow> bytes \<Rightarrow> bytes option" where
  "narrow off len b = (if off > length b then None else Some (take len (drop off b)))"

definition deliver_in_order :: "rx_seg \<Rightarrow> 'a tcb_scheme \<Rightarrow> nat \<times> 'a tcb_scheme" where
  "deliver_in_order s c =
     (if chunk_wanted c \<and> pending_chunk c = None \<and> rx_used c = 0 \<and> length (sg_parts s) = 1
      then (case narrow (sg_data_offset s) (sg_payload_len s) (hd (sg_parts s)) of
              Some b \<Rightarrow> (sg_payload_len s, c\<lparr>pending_chunk := Some b, chunk_wanted := False\<rparr>)
            | None \<Rightarrow> (0, c))
      else deliver_parts (payload_parts (sg_data_offset s) (sg_parts s)) c)"

definition drain_buffered :: "'a tcb_scheme \<Rightarrow> nat \<times> 'a tcb_scheme" where
  "drain_buffered c = (if \<not> ooo_is_empty (ooo c) then drain_ooo c else (0, c))"

definition process_in_order :: "rx_seg \<Rightarrow> conn \<Rightarrow> conn" where
  "process_in_order s c =
     (let (pushed, c1) = deliver_in_order s c;
          c2 = c1\<lparr>rcv_nxt := rcv_nxt c1 + of_nat pushed\<rparr>;
          (drained, c3) = drain_buffered c2;
          c4 = c3\<lparr>rcv_wnd := as_u16 (rx_free c3)\<rparr>;
          c5 = (if pushed + drained > 0 then wake_receiver c4 else c4)
      in emit_ack s c5)"

definition process_early :: "rx_seg \<Rightarrow> conn \<Rightarrow> conn" where
  "process_early s c =
     (let (ok, e) = try_alloc (cenv c);
          c1 = c\<lparr>cenv := e\<rparr>;
          buf = concat (payload_parts (sg_data_offset s) (sg_parts s));
          c2 = (if ok then c1\<lparr>ooo := snd (ooo_insert (rcv_nxt c1) (sg_seq s) buf (ooo c1))\<rparr> else c1)
      in emit_ack s c2)"

definition process_data :: "rx_seg \<Rightarrow> conn \<Rightarrow> conn" where
  "process_data s c =
     (if sg_payload_len s > 0 \<and> (state c = Established \<or> state c = FinWait1 \<or> state c = FinWait2)
      then (if sg_seq s = rcv_nxt c then process_in_order s c
            else if seq_lt (sg_seq s) (rcv_nxt c) then emit_ack s c
            else process_early s c)
      else c)"

definition process_fin :: "rx_seg \<Rightarrow> conn \<Rightarrow> conn" where
  "process_fin s c =
     (if has_flag TCP_FIN s \<and> sg_seq s + of_nat (sg_payload_len s) = rcv_nxt c
      then let c1 = bare_ack s (c\<lparr>rcv_nxt := rcv_nxt c + 1\<rparr>);
               c2 = (case state c1 of
                       Established \<Rightarrow> c1\<lparr>state := CloseWait\<rparr>
                     | SynReceived \<Rightarrow> c1\<lparr>state := CloseWait\<rparr>
                     | FinWait1 \<Rightarrow> arm_time_wait (clock c1) (c1\<lparr>state := TimeWait, fin_retx_count := 0\<rparr>)
                     | FinWait2 \<Rightarrow> arm_time_wait (clock c1) (c1\<lparr>state := TimeWait, fin_retx_count := 0\<rparr>)
                     | _ \<Rightarrow> c1)
           in if state c2 = CloseWait then wake_receiver c2 else c2
      else c)"

definition process_time_wait :: "TcpState \<Rightarrow> rx_seg \<Rightarrow> conn \<Rightarrow> conn" where
  "process_time_wait prev s c =
     (if prev = TimeWait \<and> has_flag TCP_FIN s then (let c1 = bare_ack s c in arm_time_wait (clock c1) c1) else c)"

definition refresh_reader :: "conn \<Rightarrow> conn" where
  "refresh_reader c =
     (if state c = Established
      then let c1 = maybe_send_window_update c
           in if rx_used c1 > 0 \<or> pending_chunk c1 \<noteq> None then wake_receiver c1 else c1
      else c)"

definition process_rest :: "TcpState \<Rightarrow> rx_seg \<Rightarrow> conn \<Rightarrow> conn" where
  "process_rest prev s c = refresh_reader (process_time_wait prev s (process_fin s (process_data s c)))"

definition receive_synchronized :: "rx_seg \<Rightarrow> nat \<Rightarrow> core \<Rightarrow> core" where
  "receive_synchronized s slot k =
     (let prev = state (conns k slot);
          (done_with, k1) = (if has_flag TCP_ACK s then process_ack s slot k else (False, k))
      in if done_with then k1 else on_conn slot (process_rest prev s) k1)"

section \<open>The entry point\<close>

definition lookup_segment :: "rx_seg \<Rightarrow> core \<Rightarrow> nat option" where
  "lookup_segment s k =
     (case tcp_hash_find (hash k) (tcp_hash_key (sg_src_ip s) (sg_src_port s) (sg_dst_port s)) of
        Some i \<Rightarrow> Some i
      | None \<Rightarrow> tcp_linear_find (sg_src_ip s) (sg_src_port s) (sg_dst_port s) k)"

definition receive_segment :: "rx_seg \<Rightarrow> core \<Rightarrow> core" where
  "receive_segment s k =
     (if has_flag TCP_RST s then receive_rst s k
      else if has_flag TCP_SYN s \<and> \<not> has_flag TCP_ACK s then receive_syn s k
      else case lookup_segment s k of
          None \<Rightarrow> k
        | Some slot \<Rightarrow>
            let st = state (conns k slot)
            in if st = Closed \<or> st = Listen then k
               else if st = SynSent then on_conn slot (handle_syn_sent s) k
               else receive_synchronized s slot k)"

definition tcp_receive :: "IpAddr \<Rightarrow> IpAddr \<Rightarrow> bytes list \<Rightarrow> core \<Rightarrow> core" where
  "tcp_receive src dst parts k = (case read_segment src dst parts of None \<Rightarrow> k | Some s \<Rightarrow> receive_segment s k)"

section \<open>Steps of one connection\<close>

lemma touches_emit_ack [touching]: "touches c (emit_ack s c)"
  by (simp add: emit_ack_def Let_def touches_emit)

lemma touches_bare_ack [touching]: "touches c (bare_ack s c)"
  unfolding bare_ack_def by (rule touches_emit)

lemma touches_wake [touching]: "touches c (wake_sender c)" "touches c (wake_receiver c)"
  by (simp_all add: touch_defs wake_sender_def wake_receiver_def)

lemma touches_sample_syn_rtt [touching]: "touches c (sample_syn_rtt c)"
  by (simp add: touch_defs sample_syn_rtt_def Let_def)

lemma touches_establish_active: "live c \<Longrightarrow> touches c (establish_active s c)"
proof -
  assume l: "live c"
  let ?c1 = "c\<lparr>rcv_nxt := sg_seq s + 1, snd_una := sg_ack s, snd_wnd := sg_window s, snd_wl1 := sg_seq s,
     snd_wl2 := sg_ack s, wscale_ok := so_wscale (sg_syn s) \<noteq> None,
     snd_wscale := opt_or_zero (so_wscale (sg_syn s)), sack_ok := so_sack_permitted (sg_syn s),
     snd_mss := negotiated_mss (local_ip c) (so_mss (sg_syn s)), state := Established,
     lifecycle_deadline_ms := 0, fin_retx_count := 0\<rparr>"
  have "touches c ?c1" using l by (auto simp: touch_defs)
  also have "touches ?c1 (congestion_init ?c1)" by (rule touches_congestion)
  also have "touches \<dots> (establish_active s c)" unfolding establish_active_def Let_def by (rule touches_sample_syn_rtt)
  finally show ?thesis .
qed

lemma touches_handle_syn_sent: "live c \<Longrightarrow> touches c (handle_syn_sent s c)"
  unfolding handle_syn_sent_def Let_def
  using touches_trans [OF touches_trans [OF touches_trans [OF touches_establish_active touches_bare_ack] touches_wake(1)] touches_wake(2)]
  by (simp add: touches_emit touches_refl)

lemma touches_ack_recovery [touching]: "touches c (ack_recovery s u d c)"
proof -
  define c1 where "c1 = rtx_on_ack u c"
  define c2 where "c2 = (if sack_ok c1 \<and> sg_data_offset s > 20 \<and> sacked_blocks s \<noteq> [] then snd (apply_sack (sacked_blocks s) c1) else c1)"
  define c3 where "c3 = (if d then on_dup_ack c2 else if snd_una c2 \<noteq> u then on_new_data_ack c2 else c2)"
  define c4 where "c4 = rack_detect (clock c3) c3"
  define c5 where "c5 = (if snd_wnd c4 > 0 then c4\<lparr>persist_deadline_ms := 0, persist_backoff := 0\<rparr> else c4)"
  have "touches c c1" unfolding c1_def by (rule touching)
  also have "touches c1 c2" by (simp add: c2_def touches_apply_sack touches_refl)
  also have "touches c2 c3" by (simp add: c3_def touches_on_dup_ack touches_refl) (simp add: on_new_data_ack_def touch_defs)
  also have "touches c3 c4" unfolding c4_def by (rule touching)
  also have "touches c4 c5" by (auto simp: c5_def touch_defs)
  also have "touches c5 (ack_recovery s u d c)"
    unfolding ack_recovery_def Let_def c1_def [symmetric] c2_def [symmetric] c3_def [symmetric] c4_def [symmetric] c5_def [symmetric]
    by (simp add: touches_wake touches_refl)
  finally show ?thesis .
qed

lemma touches_deliver_parts [touching]: "touches c (snd (deliver_parts bs c))"
proof (induction bs arbitrary: c)
  case (Cons b bs)
  obtain n c1 where n: "rx_ring_push b c = (n, c1)" by fastforce
  then have "touches c c1" using touches_rx_ring_push [of c b] by simp
  then show ?case using touches_trans [OF _ Cons.IH] by (simp add: deliver_payload_def n case_prod_beta)
qed (simp add: touches_refl)

lemma touches_deliver_in_order [touching]: "touches c (snd (deliver_in_order s c))"
proof -
  have "touches c (c\<lparr>pending_chunk := Some b, chunk_wanted := False\<rparr>)" for b by (simp add: touch_defs)
  then show ?thesis by (simp add: deliver_in_order_def touches_deliver_parts touches_refl split: option.split)
qed

lemma touches_process_in_order [touching]: "touches c (process_in_order s c)"
proof -
  obtain n c1 where d: "deliver_in_order s c = (n, c1)" by fastforce
  define c2 where "c2 = c1\<lparr>rcv_nxt := rcv_nxt c1 + of_nat n\<rparr>"
  obtain m c3 where o': "drain_buffered c2 = (m, c3)" by fastforce
  define c4 where "c4 = c3\<lparr>rcv_wnd := as_u16 (rx_free c3)\<rparr>"
  define c5 where "c5 = (if n + m > 0 then wake_receiver c4 else c4)"
  have "touches c c1" using touches_deliver_in_order [of c s] d by simp
  also have "touches c1 c2" by (simp add: c2_def touch_defs)
  also have "touches c2 c3" using touches_drain_ooo [of c2] o' touches_refl by (auto simp: drain_buffered_def split: if_splits)
  also have "touches c3 c4" by (simp add: c4_def touch_defs)
  also have "touches c4 c5" by (simp add: c5_def touches_wake touches_refl)
  also have "touches c5 (emit_ack s c5)" by (rule touches_emit_ack)
  also have "emit_ack s c5 = process_in_order s c"
    unfolding process_in_order_def by (simp only: d o' Let_def case_prod_conv c2_def [symmetric] c4_def [symmetric] c5_def [symmetric])
  finally show ?thesis .
qed

lemma touches_process_early [touching]: "touches c (process_early s c)"
proof -
  obtain ok e where e: "try_alloc (cenv c) = (ok, e)" by fastforce
  have te: "tick_head e = tick_head (cenv c)" "now_ms e = now_ms (cenv c)" using try_alloc_cases [OF e] by auto
  show ?thesis unfolding process_early_def e Let_def case_prod_conv
    by (rule touches_trans [OF _ touches_emit_ack]) (simp add: touch_defs te)
qed

lemma touches_process_data [touching]: "touches c (process_data s c)"
  by (simp add: process_data_def touches_process_in_order touches_process_early touches_emit_ack touches_refl)

lemma touches_process_fin [touching]: "touches c (process_fin s c)"
proof (cases "has_flag TCP_FIN s \<and> sg_seq s + of_nat (sg_payload_len s) = rcv_nxt c")
  case True
  define c1 where "c1 = bare_ack s (c\<lparr>rcv_nxt := rcv_nxt c + 1\<rparr>)"
  define c2 where "c2 = (case state c1 of Established \<Rightarrow> c1\<lparr>state := CloseWait\<rparr> | SynReceived \<Rightarrow> c1\<lparr>state := CloseWait\<rparr>
     | FinWait1 \<Rightarrow> arm_time_wait (clock c1) (c1\<lparr>state := TimeWait, fin_retx_count := 0\<rparr>)
     | FinWait2 \<Rightarrow> arm_time_wait (clock c1) (c1\<lparr>state := TimeWait, fin_retx_count := 0\<rparr>) | _ \<Rightarrow> c1)"
  have "touches c (c\<lparr>rcv_nxt := rcv_nxt c + 1\<rparr>)" by (simp add: touch_defs)
  also have "touches \<dots> c1" unfolding c1_def by (rule touches_bare_ack)
  also have "touches c1 c2"
  proof -
    have tw: "touches c1 (c1\<lparr>state := TimeWait, fin_retx_count := 0\<rparr>)" if "live c1" using that by (simp add: touch_defs)
    have cw: "touches c1 (c1\<lparr>state := CloseWait\<rparr>)" if "live c1" using that by (simp add: touch_defs)
    show ?thesis using touches_trans [OF tw touches_arm_time_wait] touches_refl
      by (auto simp: c2_def live_def cw split: TcpState.split)
  qed
  also have "touches c2 (process_fin s c)"
    using True by (simp add: process_fin_def c1_def [symmetric] c2_def [symmetric] touches_wake touches_refl)
  finally show ?thesis .
qed (auto simp: process_fin_def touches_refl)

lemma touches_process_time_wait [touching]: "touches c (process_time_wait p s c)"
  using touches_trans [OF touches_bare_ack touches_arm_time_wait] by (simp add: process_time_wait_def Let_def touches_refl)

lemma touches_refresh_reader [touching]: "touches c (refresh_reader c)"
  using touches_trans [OF touches_maybe_send_window_update touches_wake(2)]
  by (simp add: refresh_reader_def Let_def touches_refl touches_maybe_send_window_update)

lemma touches_process_rest [touching]: "touches c (process_rest p s c)"
  unfolding process_rest_def
  by (rule touches_trans [OF touches_trans [OF touches_trans [OF touches_process_data touches_process_fin] touches_process_time_wait] touches_refresh_reader])

section \<open>What acknowledgement processing leaves alone\<close>

text \<open>The fields the receiving side of a connection is about.\<close>

definition rx_view :: "'a tcb_scheme \<Rightarrow> _" where
  "rx_view c = (state c, listener_port c, accepted c, rcv_nxt c, rx_ring c, rx_head c, rx_tail c, rx_used c, ooo c, pending_chunk c,
     chunk_wanted c, snd_wnd c, snd_wl1 c, snd_nxt c)"

lemma rx_view_emit [simp]: "rx_view (emit m p opts c) = rx_view c"
  by (simp add: rx_view_def)

lemma rx_view_arm [simp]: "rx_view (arm_for_tick c) = rx_view c" "rx_view (arm_tlp now c) = rx_view c" "rx_view (arm_rtx c) = rx_view c"
  by (simp_all add: rx_view_def arm_tlp_def arm_rtx_def Let_def)

lemma rx_view_entry [simp]: "rx_view (emit_rtx_entry i c) = rx_view c"
  by (simp add: rx_view_def)

lemma rx_view_holes [simp]: "rx_view (emit_holes b h is c) = rx_view c"
  by (induction "is" arbitrary: c) (simp_all add: Let_def)

lemma rx_view_marked [simp]: "rx_view (emit_marked b ls is c) = rx_view c"
  by (induction b ls "is" c rule: emit_marked.induct) simp_all

lemma rx_view_update [simp]:
  "rx_view (c\<lparr>cc := x1\<rparr>) = rx_view c" "rx_view (c\<lparr>cwnd := x2\<rparr>) = rx_view c" "rx_view (c\<lparr>dup_acks := x3\<rparr>) = rx_view c"
  "rx_view (c\<lparr>rtx_queue := x4\<rparr>) = rx_view c" "rx_view (c\<lparr>rack_sack_hint := x5\<rparr>) = rx_view c"
  "rx_view (c\<lparr>rack_deadline_ms := x6\<rparr>) = rx_view c" "rx_view (c\<lparr>persist_deadline_ms := x7\<rparr>) = rx_view c"
  "rx_view (c\<lparr>persist_backoff := x8\<rparr>) = rx_view c" "rx_view (c\<lparr>rtx_backoff := x9\<rparr>) = rx_view c"
  "rx_view (c\<lparr>tlp_count := x10\<rparr>) = rx_view c" "rx_view (c\<lparr>rto_ms := x11\<rparr>) = rx_view c"
  "rx_view (c\<lparr>rtx_deadline_ms := x12\<rparr>) = rx_view c" "rx_view (c\<lparr>tlp_deadline_ms := x13\<rparr>) = rx_view c"
  "rx_view (c\<lparr>rtx_alloc_failed := x14\<rparr>) = rx_view c" "rx_view (c\<lparr>snd_una := x15\<rparr>) = rx_view c"
  "rx_view (c\<lparr>rcv_wnd := x16\<rparr>) = rx_view c" "rx_view (c\<lparr>tick_next := x18\<rparr>) = rx_view c"
  by (simp_all add: rx_view_def)

lemma rx_view_wake [simp]: "rx_view (wake_sender c) = rx_view c" "rx_view (wake_receiver c) = rx_view c"
  by (simp_all add: rx_view_def wake_sender_def wake_receiver_def)

lemma rx_view_rtx_on_ack [simp]: "rx_view (rtx_on_ack u c) = rx_view c"
proof -
  have v: "rx_view (snd (rtx_ack a c)) = rx_view c" "rx_view (cwnd_on_ack n c) = rx_view c" "rx_view (take_rtt_sample c) = rx_view c" for a n and c :: conn
    by (simp_all add: rx_view_def)
  have r: "rx_view (rtx_restart c) = rx_view c" for c by (simp add: rtx_restart_def Let_def)
  show ?thesis using v(1) [of "snd_una c" c] by (simp add: rtx_on_ack_def Let_def case_prod_beta r v)
qed

lemma rx_view_dup_ack [simp]: "rx_view (on_dup_ack c) = rx_view c" "rx_view (on_new_data_ack c) = rx_view c"
  by (simp_all add: on_dup_ack_def on_new_data_ack_def fast_retransmit_def sack_retransmit_holes_def retransmit_oldest_segment_def
      Let_def split: option.split)

lemma rx_view_sack [simp]: "rx_view (snd (apply_sack bs c)) = rx_view c"
  by (simp add: apply_sack_def Let_def)

lemma rx_view_rack [simp]: "rx_view (rack_detect now c) = rx_view c"
  by (simp add: rack_detect_def Let_def case_prod_beta split: option.split)

lemma rx_view_ack_recovery [simp]: "rx_view (ack_recovery s u d c) = rx_view c"
  by (simp add: ack_recovery_def Let_def)

lemma ack_recovery_fields [simp]:
  "state (ack_recovery s u d c) = state c" "listener_port (ack_recovery s u d c) = listener_port c" "rcv_nxt (ack_recovery s u d c) = rcv_nxt c"
  "accepted (ack_recovery s u d c) = accepted c" "snd_wnd (ack_recovery s u d c) = snd_wnd c" "snd_wl1 (ack_recovery s u d c) = snd_wl1 c"
  "snd_nxt (ack_recovery s u d c) = snd_nxt c"
  using rx_view_ack_recovery [of s u d c] by (simp_all only: rx_view_def prod.inject)

lemma rx_view_emit_ack [simp]: "rx_view (emit_ack s c) = rx_view c" "rx_view (bare_ack s c) = rx_view c"
  by (simp_all add: emit_ack_def bare_ack_def Let_def)

lemma rx_view_truncate [simp]: "rx_view (tcb.truncate c) = rx_view c" "rx_view (conn_at i k) = rx_view (conns k i)"
  by (simp_all add: rx_view_def)

section \<open>The core stays well-formed\<close>

text \<open>A half-open connection of a listener has the port it was opened on.\<close>

definition passive_port :: "tcb \<Rightarrow> bool" where
  "passive_port c \<longleftrightarrow> (state c = SynReceived \<longrightarrow> listener_port c \<noteq> 0)"

interpretation passive_slots: slot_property passive_port
  by unfold_locales (auto simp: passive_port_def tcb_new_def reset_preserving_def Let_def)

lemma passive_port_view: "rx_view c' = rx_view c \<Longrightarrow> passive_port (tcb.truncate c') = passive_port (tcb.truncate c)"
  by (simp add: rx_view_def passive_port_def)

definition core_inv :: "core \<Rightarrow> nat set \<Rightarrow> bool" where
  "core_inv k D \<longleftrightarrow> core_ok k D \<and> all_slots passive_port k"

lemma core_inv_frame:
  assumes "core_inv k D" "conns k' = conns k" "nsegs k' = nsegs k" "free_head k' = free_head k" "hash k' = hash k"
    "ring_ports k' = ring_ports k" "rings k' = rings k" "tick_head (core_env k') = tick_head (core_env k)"
  shows "core_inv k' D"
  using assms core_ok_frame [of k D k'] by (simp add: core_inv_def all_slots_def)

lemma core_inv_on_conn:
  assumes k: "core_inv k D" and i: "in_use i k" and t: "touches (conn_at i k) (f (conn_at i k))"
    and p: "passive_port (conns k i) \<Longrightarrow> passive_port (tcb.truncate (f (conn_at i k)))"
  shows "core_inv (on_conn i f k) D" "in_use j (on_conn i f k) = in_use j k"
proof -
  have ok: "core_ok k D" "all_slots passive_port k" using k by (simp_all add: core_inv_def)
  show "core_inv (on_conn i f k) D"
    using core_ok_put(1) [OF ok(1) i t] all_slots_upd [OF ok(2), of "tcb.truncate (f (conn_at i k))"] p ok(2)
    by (simp add: core_inv_def on_conn_def all_slots_def)
  show "in_use j (on_conn i f k) = in_use j k" using core_ok_put(2) [OF ok(1) i t] by (simp add: on_conn_def)
qed

lemma upd_slot_on_conn: "upd_slot i u k = on_conn i (\<lambda>c. attach (u (conns k i)) (cenv c)) k"
  by (simp add: on_conn_def conn_put_attach upd_slot_def)

lemma core_inv_upd:
  assumes k: "core_inv k D" and i: "in_use i k" and c: "c = conns k i"
    and same: "ident (u c) = ident c" "live (u c) = live c" "tick_in_list (u c) = tick_in_list c" "tick_next (u c) = tick_next c"
      "armed (u c) \<Longrightarrow> armed c" "passive_port c \<Longrightarrow> passive_port (u c)"
  shows "core_inv (upd_slot i u k) D" "in_use j (upd_slot i u k) = in_use j k"
proof -
  have at: "ident (attach d e) = ident d" "live (attach d e) = live d" "tick_in_list (attach d e) = tick_in_list d"
    "tick_next (attach d e) = tick_next d" "armed (attach d e) = armed d" "cenv (attach d e) = e" "tcb.truncate (attach d e) = d" for d e
    by (simp_all add: attach_def tcb.extend_def conn.fields_def ident_def live_def armed_def tcb.truncate_def)
  have at': "ident (conn_at i k) = ident c" "live (conn_at i k) = live c" "armed (conn_at i k) = armed c"
    by (simp_all add: c ident_def live_def armed_def)
  have t: "touches (conn_at i k) (attach (u (conns k i)) (cenv (conn_at i k)))"
    using same(1-5) by (intro touches_quiet) (simp_all add: at at' c)
  show "core_inv (upd_slot i u k) D" "in_use j (upd_slot i u k) = in_use j k"
    unfolding upd_slot_on_conn using core_inv_on_conn [OF k i, of "\<lambda>c. attach (u (conns k i)) (cenv c)"] t same(6) c by (simp_all add: at)
qed

lemma core_inv_free:
  assumes "core_inv k D" "in_use i k"
  shows "core_inv (free_connection i k) (D - {i})"
  using assms core_ok_free(1) passive_slots.free_connection by (simp add: core_inv_def)

lemma challenge_ack_frame:
  assumes "challenge_ack_allowed k = (ok, k')"
  shows "\<exists>t l. k' = k\<lparr>challenge_tokens := t, challenge_last_ms := l\<rparr>"
proof -
  let ?P = "\<lambda>k'. \<exists>t l. k' = k\<lparr>challenge_tokens := t, challenge_last_ms := l\<rparr>"
  define r where "r = sat_mul64 (now_ms (core_env k) - challenge_last_ms k) CHALLENGE_ACK_RATE div 1000"
  define k1 where "k1 = (if now_ms (core_env k) > challenge_last_ms k \<and> r > 0
    then k\<lparr>challenge_tokens := as_u32 (min (challenge_tokens k + r) CHALLENGE_ACK_BURST), challenge_last_ms := now_ms (core_env k)\<rparr> else k)"
  have same: "?P k" by (rule exI [of _ "challenge_tokens k"], rule exI [of _ "challenge_last_ms k"]) simp
  have k1: "?P k1" unfolding k1_def using same by auto
  have dec: "?P (k1\<lparr>challenge_tokens := x\<rparr>)" for x
    unfolding k1_def by (rule exI [of _ x], rule exI [of _ "challenge_last_ms k1"]) (simp add: k1_def)
  have "k' = k \<or> k' = k1 \<or> k' = k1\<lparr>challenge_tokens := challenge_tokens k1 - 1\<rparr>"
    using assms unfolding challenge_ack_allowed_def Let_def r_def [symmetric] k1_def [symmetric] by (simp only: prod.inject split: if_splits) blast+
  then show ?thesis using same k1 dec by (elim disjE) (simp_all only:)
qed

lemma send_challenge_ack_frame:
  obtains t l e where "send_challenge_ack s a b w k = k\<lparr>challenge_tokens := t, challenge_last_ms := l, core_env := e\<rparr>"
    "tick_head e = tick_head (core_env k)" "now_ms e = now_ms (core_env k)"
proof -
  obtain ok k1 where c: "challenge_ack_allowed k = (ok, k1)" by fastforce
  obtain t l where k1: "k1 = k\<lparr>challenge_tokens := t, challenge_last_ms := l\<rparr>" using challenge_ack_frame [OF c] by blast
  show thesis
  proof (cases ok)
    case True
    show ?thesis by (rule that [of "send_segment (reply_meta s a b TCP_ACK w) [] (core_env k)" l t])
        (simp_all add: send_challenge_ack_def c k1 True)
  next
    case False
    show ?thesis by (rule that [of "core_env k" l t]) (simp_all add: send_challenge_ack_def c k1 False)
  qed
qed

lemma send_challenge_ack_inv: "core_inv k D \<Longrightarrow> core_inv (send_challenge_ack s a b w k) D"
  by (rule send_challenge_ack_frame [of s a b w k], rule core_inv_frame) simp_all

lemma linear_find_some:
  assumes "tcp_linear_find ip p q k = Some i"
  shows "i < pool_capacity k" "live (conns k i)" "remote_ip (conns k i) = ip" "remote_port (conns k i) = p" "local_port (conns k i) = q"
  using find_index(1) [OF assms [unfolded tcp_linear_find_def]] by (simp_all add: Let_def live_def)

lemma live_in_use: "core_inv k D \<Longrightarrow> i < pool_capacity k \<Longrightarrow> live (conns k i) \<Longrightarrow> in_use i k"
  by (auto simp: core_inv_def live_def intro: not_closed_in_use)

lemma receive_rst_inv:
  assumes k: "core_inv k D"
  shows "\<exists>D'\<subseteq>D. core_inv (receive_rst s k) D'"
proof (cases "tcp_linear_find (sg_src_ip s) (sg_src_port s) (sg_dst_port s) k")
  case None
  then show ?thesis using k by (auto simp: receive_rst_def)
next
  case (Some i)
  have i: "in_use i k" using live_in_use [OF k linear_find_some(1,2) [OF Some]] .
  have ok: "core_ok k D" "all_slots passive_port k" using k by (simp_all add: core_inv_def)
  have "all_slots passive_port (fail_connect i Refused k)"
    using ok(2) by (simp add: all_slots_def passive_port_def fail_connect_def Let_def)
  then have "core_inv (fail_connect i Refused k) D" using fail_connect_ok(1) [OF ok(1) i] by (simp add: core_inv_def)
  then show ?thesis using Some k core_inv_free [OF k i] by (auto simp: receive_rst_def Let_def)
qed

lemma refuse_inv: "core_inv k D \<Longrightarrow> core_inv (refuse s k) D"
  by (rule core_inv_frame) (simp_all add: refuse_def send_rst_def)

lemma find_tuple_some:
  assumes "core_inv k D" "find_tuple ip p q k = Some i"
  shows "in_use i k" "live (conns k i)" "i < pool_capacity k" "remote_ip (conns k i) = ip" "remote_port (conns k i) = p"
    "local_port (conns k i) = q"
  using assms indexed_in_use [of k D "tcp_hash_key ip p q" i]
  by (auto simp: core_inv_def find_tuple_def Let_def split: option.splits if_splits)

text \<open>The connection a SYN leaves behind.\<close>

definition half_open :: "rx_seg \<Rightarrow> u32 \<Rightarrow> nat \<Rightarrow> core \<Rightarrow> bool" where
  "half_open s isn i k \<longleftrightarrow> (let c = conns k i
     in in_use i k \<and> state c = SynReceived \<and> remote_ip c = sg_src_ip s \<and> local_ip c = sg_dst_ip s \<and> remote_port c = sg_src_port s
       \<and> local_port c = sg_dst_port s \<and> listener_port c = sg_dst_port s \<and> \<not> accepted c \<and> snd_una c = isn \<and> snd_nxt c = isn + 1
       \<and> rcv_nxt c = sg_seq s + 1 \<and> rx_ring c \<noteq> None \<and> rx_used c = 0 \<and> pending_chunk c = None \<and> ooo_is_empty (ooo c)
       \<and> tcp_hash_find (hash k) (tcp_hash_key (sg_src_ip s) (sg_src_port s) (sg_dst_port s)) = Some i)"

definition syn_ack_of :: "rx_seg \<Rightarrow> u32 \<Rightarrow> sent_segment" where
  "syn_ack_of s isn = \<lparr>seg_meta = reply_meta s isn (sg_seq s + 1) (TCP_SYN OR TCP_ACK) (as_u16 RX_RING_BYTES),
     seg_options = syn_option_blob (of_nat (mss_for (sg_dst_ip s))) (so_wscale (sg_syn s) \<noteq> None) (so_sack_permitted (sg_syn s)),
     seg_payload = []\<rparr>"

lemma touches_send_syn_ack: "touches c ((send_syn_ack s c)\<lparr>snd_nxt := x\<rparr>)"
proof -
  have "touches c (send_syn_ack s c)" unfolding send_syn_ack_def by (rule touches_emit)
  also have "touches \<dots> ((send_syn_ack s c)\<lparr>snd_nxt := x\<rparr>)" by (simp add: touch_defs)
  finally show ?thesis .
qed

lemma setup_fields:
  "state (syn_received_setup s isn c) = SynReceived" "listener_port (syn_received_setup s isn c) = sg_dst_port s"
  "slot_index (syn_received_setup s isn c) = slot_index c" "next_free (syn_received_setup s isn c) = next_free c"
  "tick_in_list (syn_received_setup s isn c) = tick_in_list c" "tick_next (syn_received_setup s isn c) = tick_next c"
  "cenv (syn_received_setup s isn c) = cenv c" "armed (syn_received_setup s isn c) = armed c"
  "conn_key (syn_received_setup s isn c) = tcp_hash_key (sg_src_ip s) (sg_src_port s) (sg_dst_port s)"
  "generation (syn_received_setup s isn c) = generation c"
  by (simp_all add: syn_received_setup_def congestion_init_def Let_def armed_def conn_key_def)

lemma open_passive_ok:
  fixes s
  assumes k: "core_ok k D" and i: "in_use i k" "conns k i = (reset_preserving g c0)\<lparr>rx_ring := Some ring\<rparr>"
  defines "k' \<equiv> open_passive s i k" and "isn \<equiv> isn_source k (isn_drawn k)"
  shows "core_ok k' D" "half_open s isn i k'" "generation (conns k' i) = g" "j \<noteq> i \<Longrightarrow> conns k' j = conns k j"
    "mac_known (core_env k) (sg_src_ip s) \<Longrightarrow> txbuf_results (core_env k) = [] \<Longrightarrow>
       tx_log (core_env k') = tx_log (core_env k) @ [syn_ack_of s isn]"
    "sg_dst_port s \<noteq> 0 \<Longrightarrow> all_slots passive_port k \<Longrightarrow> all_slots passive_port k'"
proof -
  define k1 where "k1 = k\<lparr>isn_drawn := isn_drawn k + 1\<rparr>"
  define k2 where "k2 = on_conn i (syn_received_setup s isn) k1"
  define key where "key = tcp_hash_key (sg_src_ip s) (sg_src_port s) (sg_dst_port s)"
  define k3 where "k3 = k2\<lparr>hash := tcp_hash_insert key i (hash k2)\<rparr>"
  have k': "k' = on_conn i (\<lambda>c. (send_syn_ack s c)\<lparr>snd_nxt := snd_nxt c + 1\<rparr>) k3"
    by (simp add: k'_def open_passive_def next_seq_def k1_def k2_def k3_def isn_def key_def Let_def)
  have ok1: "core_ok k1 D" "in_use j k1 = in_use j k" for j
    using core_ok_frame [OF k, of k1] in_use_cong [of k1 k] by (simp_all add: k1_def)
  have dead: "\<not> live (conns k1 i)" "listed (conns k1 i)"
    using i(2) by (simp_all add: k1_def live_def listed_def armed_def reset_preserving_def tcb_new_def Let_def)
  have l: "listed (syn_received_setup s isn (conn_at i k1))" using dead(2) by (simp add: listed_def setup_fields) (simp add: armed_def)
  have ok2: "core_ok k2 D" "in_use j k2 = in_use j k" for j
    using core_ok_put_dead [OF ok1(1) _ dead(1), of "syn_received_setup s isn (conn_at i k1)"] l i(1) ok1(2)
    by (simp_all add: k2_def on_conn_def link_def setup_fields)
  have c2: "conn_key (conns k2 i) = key" "live (conns k2 i)" "i < pool_capacity k2"
    using in_use_bound [OF ok2(1)] ok2(2) i(1) setup_fields(9) [of s isn "conn_at i k1"]
    by (simp_all add: k2_def on_conn_def live_def setup_fields key_def conn_key_def)
  have ok3: "core_ok k3 D" "in_use j k3 = in_use j k" for j
    using core_ok_index(1) [OF ok2(1) c2(3,2)] c2(1) ok2(2) in_use_cong [of k3 k2] by (simp_all add: k3_def)
  have found: "tcp_hash_find (hash k3) key = Some i" using index_found [OF ok2(1) c2(3,2)] c2(1) by (simp add: k3_def)
  have put: "core_ok k' D" "in_use j k' = in_use j k3" for j
    unfolding k' using ok3 i(1) core_ok_on_conn [OF ok3(1) _ touches_send_syn_ack] by simp_all
  show "core_ok k' D" by (rule put)
  show "all_slots passive_port k'" if "sg_dst_port s \<noteq> 0" "all_slots passive_port k"
    using that by (simp add: all_slots_def k' k3_def k2_def k1_def on_conn_def passive_port_def setup_fields send_syn_ack_def)
  show "half_open s isn i k'"
    using put(2) ok3(2) i found unfolding half_open_def Let_def k' k3_def k2_def k1_def key_def
    by (simp add: on_conn_def syn_received_setup_def congestion_init_def send_syn_ack_def reset_preserving_def tcb_new_def
        ooo_is_empty_def ooo_clear_def Let_def)
  show "generation (conns k' i) = g" "j \<noteq> i \<Longrightarrow> conns k' j = conns k j"
    using i(2) by (simp_all add: k' k3_def k2_def k1_def on_conn_def setup_fields send_syn_ack_def)
  show "tx_log (core_env k') = tx_log (core_env k) @ [syn_ack_of s isn]" if "mac_known (core_env k) (sg_src_ip s)" "txbuf_results (core_env k) = []"
    using that by (simp add: k' k3_def k2_def k1_def on_conn_def syn_received_setup_def congestion_init_def send_syn_ack_def emit_on_wire
        syn_ack_of_def reply_meta_def Let_def)
qed

lemma admit_syn_inv:
  assumes k: "core_inv k D" and stale: "\<And>i. stale = Some i \<Longrightarrow> in_use i k" and port: "sg_dst_port s \<noteq> 0"
  shows "\<exists>D'\<subseteq>D. core_inv (admit_syn s stale k) D'"
proof (cases "find_listener (sg_dst_port s) k = None")
  case True
  then show ?thesis using refuse_inv [OF k, of s] by (auto simp: admit_syn_def)
next
  case False
  define k1 where "k1 = (case stale of Some i \<Rightarrow> free_connection i k | None \<Rightarrow> k)"
  have "\<exists>D1\<subseteq>D. core_inv k1 D1" using k core_inv_free [OF k stale] by (cases stale) (auto simp: k1_def)
  then obtain D1 where k1: "core_inv k1 D1" "D1 \<subseteq> D" by blast
  obtain r k2 where a: "alloc_connection k1 = (r, k2)" by fastforce
  obtain D2 where ok2: "core_ok k2 D2" "D2 \<subseteq> D1" "\<And>i. r = Some i \<Longrightarrow> in_use i k2 \<and> (\<exists>g c. conns k2 i = reset_preserving g c)"
    using core_ok_alloc [OF _ a] k1(1) unfolding core_inv_def by metis
  have k2: "core_inv k2 D2" using ok2(1) passive_slots.alloc_connection [OF _ a] k1(1) by (simp add: core_inv_def)
  show ?thesis
  proof (cases r)
    case None
    then show ?thesis using False a k2 ok2(2) k1(2) by (auto simp: admit_syn_def k1_def [symmetric])
  next
    case (Some i)
    obtain b c3 where e: "ensure_rx_ring (conn_at i k2) = (b, c3)" by fastforce
    define k3 where "k3 = conn_put i c3 k2"
    obtain g c0 where g: "conns k2 i = reset_preserving g c0" and i: "in_use i k2" using ok2(3) [OF Some] by blast
    obtain ring where ring: "tcb.truncate c3 = (conns k2 i)\<lparr>rx_ring := ring\<rparr>" "b \<Longrightarrow> ring \<noteq> None"
      using ensure_rx_ring_slot(1) [OF e] by blast
    have t: "touches (conn_at i k2) (snd (ensure_rx_ring (conn_at i k2)))" by (rule touches_ensure_rx_ring)
    have k3: "core_inv k3 D2" "in_use i k3"
      using core_inv_on_conn [OF k2 i, of "\<lambda>c. snd (ensure_rx_ring c)"] t ring(1) i e
      by (simp_all add: k3_def on_conn_def passive_port_def)
    have res: "admit_syn s stale k = (if \<not> b then free_connection i (refuse s k3) else open_passive s i k3)"
      by (subst admit_syn_def, subst if_not_P [OF False]) (simp add: a Some e k1_def [symmetric] k3_def Let_def)
    show ?thesis
    proof (cases b)
      case True
      then obtain rg where rg: "ring = Some rg" using ring(2) by blast
      then have "conns k3 i = (reset_preserving g c0)\<lparr>rx_ring := Some rg\<rparr>" using ring(1) g by (simp add: k3_def)
      moreover have "core_ok k3 D2" "all_slots passive_port k3" using k3(1) by (simp_all add: core_inv_def)
      ultimately have "core_inv (open_passive s i k3) D2" using open_passive_ok(1,6) k3(2) port unfolding core_inv_def by blast
      then show ?thesis using res True ok2(2) k1(2) by auto
    next
      case False
      have "core_inv (refuse s k3) D2" "in_use i (refuse s k3)"
        using refuse_inv [OF k3(1)] in_use_cong [of "refuse s k3" k3 i] k3(2) by (simp_all add: refuse_def)
      from core_inv_free [OF this] have "core_inv (admit_syn s stale k) (D2 - {i})" using res False by simp
      moreover have "D2 - {i} \<subseteq> D" using ok2(2) k1(2) by blast
      ultimately show ?thesis by blast
    qed
  qed
qed

lemma receive_syn_inv:
  assumes k: "core_inv k D" and port: "sg_dst_port s \<noteq> 0"
  shows "\<exists>D'\<subseteq>D. core_inv (receive_syn s k) D'"
proof -
  have a: "\<exists>D'\<subseteq>D. core_inv (admit_syn s None k) D'" using admit_syn_inv [OF k _ port, of None] by simp
  show ?thesis
  proof (cases "find_tuple (sg_src_ip s) (sg_src_port s) (sg_dst_port s) k")
    case (Some i)
    have b: "\<exists>D'\<subseteq>D. core_inv (admit_syn s (Some i) k) D'" using admit_syn_inv [OF k _ port, of "Some i"] find_tuple_some(1) [OF k Some] by simp
    have "\<exists>D'\<subseteq>D. core_inv (send_challenge_ack s x y z k) D'" for x y z using send_challenge_ack_inv [OF k] by blast
    then show ?thesis using Some a b k unfolding receive_syn_def by (simp add: Let_def) blast
  qed (use a in \<open>simp add: receive_syn_def\<close>)
qed

text \<open>Acknowledgements.\<close>

interpretation ack_window_update: quiet_update "ack_window s" for s
  by unfold_locales (simp_all add: ack_window_def)

lemma deliver_tcp_ready_frame:
  "conns (deliver_tcp_ready p k) = conns k" "nsegs (deliver_tcp_ready p k) = nsegs k" "free_head (deliver_tcp_ready p k) = free_head k"
  "hash (deliver_tcp_ready p k) = hash k" "ring_ports (deliver_tcp_ready p k) = ring_ports k" "rings (deliver_tcp_ready p k) = rings k"
  "tick_head (core_env (deliver_tcp_ready p k)) = tick_head (core_env k)" "now_ms (core_env (deliver_tcp_ready p k)) = now_ms (core_env k)"
  "core_id (deliver_tcp_ready p k) = core_id k" "tx_log (core_env (deliver_tcp_ready p k)) = tx_log (core_env k)"
  by (simp_all add: deliver_tcp_ready_def split: option.split)

lemma accept_ring_push_frame: "\<exists>ps rs. accept_ring_push p i k = k\<lparr>ring_ports := ps, rings := rs\<rparr>"
proof -
  have "\<exists>ps. snd (ring_idx_for_port p k) = k\<lparr>ring_ports := ps\<rparr>"
    by (auto simp: ring_idx_for_port_def intro: exI [of _ "ring_ports k"] split: option.split)
  then obtain ps where ps: "snd (ring_idx_for_port p k) = k\<lparr>ring_ports := ps\<rparr>" by blast
  obtain r where r: "ring_idx_for_port p k = (r, k\<lparr>ring_ports := ps\<rparr>)" using ps by (cases "ring_idx_for_port p k") simp
  have same: "\<exists>ps' rs. k\<lparr>ring_ports := ps\<rparr> = k\<lparr>ring_ports := ps', rings := rs\<rparr>"
    by (rule exI [of _ ps], rule exI [of _ "rings k"]) simp
  show ?thesis using same by (auto simp: accept_ring_push_def r Let_def split: option.split)
qed

lemma accept_ring_push_conns [simp]: "conns (accept_ring_push p i k) = conns k"
proof -
  obtain ps rs where "accept_ring_push p i k = k\<lparr>ring_ports := ps, rings := rs\<rparr>" using accept_ring_push_frame by blast
  then show ?thesis by simp
qed

lemma accept_push_inv:
  assumes k: "core_inv k D" and p: "p \<noteq> 0"
  shows "core_inv (deliver_tcp_ready p (accept_ring_push p i k)) D" "in_use j (deliver_tcp_ready p (accept_ring_push p i k)) = in_use j k"
proof -
  obtain ps rs where r: "accept_ring_push p i k = k\<lparr>ring_ports := ps, rings := rs\<rparr>" using accept_ring_push_frame by blast
  have "rings_ok k" using k by (simp add: core_inv_def core_ok_def)
  then have "rings_ok (k\<lparr>ring_ports := ps, rings := rs\<rparr>)" using accept_ring_push_correct(1) [OF _ p, of k i] r by simp
  then have "core_inv (k\<lparr>ring_ports := ps, rings := rs\<rparr>) D"
    using core_ok_rings [of k D "k\<lparr>ring_ports := ps, rings := rs\<rparr>"] k by (simp add: core_inv_def all_slots_def)
  then show "core_inv (deliver_tcp_ready p (accept_ring_push p i k)) D"
    unfolding r by (rule core_inv_frame) (simp_all add: deliver_tcp_ready_frame)
  show "in_use j (deliver_tcp_ready p (accept_ring_push p i k)) = in_use j k"
    by (rule in_use_cong) (simp_all add: r deliver_tcp_ready_frame)
qed

lemma ack_transition_inv:
  assumes k: "core_inv k D" and i: "in_use i k" and l: "live (conns k i)"
  shows "core_inv (ack_transition s adv i k) D" "in_use j (ack_transition s adv i k) = in_use j k"
proof -
  have p: "passive_port (conns k i)" using k by (simp add: core_inv_def all_slots_def)
  note u = core_inv_upd [OF k i refl]
  let ?e = "\<lambda>c. c\<lparr>state := Established, snd_una := sg_ack s\<rparr>"
  let ?f = "\<lambda>a c. c\<lparr>state := FinWait2, snd_una := a, lifecycle_deadline_ms := 0, fin_retx_count := 0\<rparr>"
  let ?g = "\<lambda>c. c\<lparr>snd_una := sg_ack s\<rparr>"
  have e: "core_inv (upd_slot i ?e k) D" "in_use j (upd_slot i ?e k) = in_use j k" for j
    using l u [of ?e] by (simp_all add: ident_def live_def armed_def passive_port_def)
  have f: "core_inv (upd_slot i (?f a) k) D" "in_use j (upd_slot i (?f a) k) = in_use j k" for j a
    using l u [of "?f a"] by (auto simp: ident_def live_def armed_def passive_port_def)
  have g: "core_inv (upd_slot i ?g k) D" "in_use j (upd_slot i ?g k) = in_use j k" for j
    using l u [of ?g] by (simp_all add: ident_def live_def armed_def passive_port_def)
  show "core_inv (ack_transition s adv i k) D" "in_use j (ack_transition s adv i k) = in_use j k"
    using k e f g p accept_push_inv [OF e(1)] unfolding ack_transition_def Let_def by (simp_all add: passive_port_def)
qed

lemma process_ack_inv:
  assumes k: "core_inv k D" and i: "in_use i k" and l: "live (conns k i)" and r: "process_ack s i k = (dn, k')"
  shows "\<exists>D'\<subseteq>D. core_inv k' D'" "\<not> dn \<Longrightarrow> core_inv k' D \<and> in_use i k' \<and> live (conns k' i)"
proof -
  define k1 where "k1 = upd_slot i (ack_window s) k"
  have k1: "core_inv k1 D" "in_use i k1" "live (conns k1 i)"
    using core_inv_upd [OF k i refl, of "ack_window s"] i l
    by (auto simp: k1_def ident_def live_def armed_def passive_port_def ack_window_def upd_slot_def)
  define adv where "adv = seq_lt (snd_una (conns k i)) (sg_ack s)"
  define k2 where "k2 = ack_transition s adv i k1"
  have k2: "core_inv k2 D" "in_use i k2" using ack_transition_inv [OF k1] k1(2) by (simp_all add: k2_def)
  have l2: "live (conns k2 i)"
    using k1(3) unfolding k2_def ack_transition_def Let_def
    by (auto simp: deliver_tcp_ready_frame live_def upd_slot_def)
  define d where "d = (sg_ack s = snd_una (conns k i) \<and> sg_payload_len s = 0 \<and> sg_flags s AND (TCP_SYN OR TCP_FIN) = 0
    \<and> seq_lt (snd_una (conns k i)) (snd_nxt (conns k i)))"
  define k3 where "k3 = on_conn i (ack_recovery s (snd_una (conns k i)) d) k2"
  have k3: "core_inv k3 D" "in_use i k3" "live (conns k3 i)"
    using core_inv_on_conn [OF k2, of "ack_recovery s (snd_una (conns k i)) d"] touches_ack_recovery k2 l2
      passive_port_view [OF rx_view_ack_recovery [of s "snd_una (conns k i)" d "conn_at i k2"]]
    by (simp_all add: k3_def) (simp_all add: on_conn_def live_def passive_port_def)
  have res: "process_ack s i k = (if seq_lt (snd_nxt (conns k i)) (sg_ack s)
      then (True, send_challenge_ack s (snd_nxt (conns k i)) (rcv_nxt (conns k i)) (as_u16 (rx_free (conns k i))) k)
      else if state (conns k i) = LastAck \<and> sg_ack s = snd_nxt (conns k i) then (True, free_connection i k1) else (False, k3))"
    by (simp only: process_ack_def Let_def k1_def k2_def k3_def adv_def d_def)
  show "\<exists>D'\<subseteq>D. core_inv k' D'" "\<not> dn \<Longrightarrow> core_inv k' D \<and> in_use i k' \<and> live (conns k' i)"
    using r [unfolded res] k3 core_inv_free [OF k1(1,2)] send_challenge_ack_inv [OF k] by (auto split: if_splits)
qed

text \<open>A field that delivery does not write survives data processing.\<close>

lemma rx_ring_push_keeps:
  assumes "\<And>c r t u. F (c\<lparr>rx_ring := r, rx_tail := t, rx_used := u\<rparr>) = F c"
  shows "F (snd (rx_ring_push b c)) = F c"
  using assms by (simp add: rx_ring_push_eq Let_def split: option.split)

lemma drain_ooo_loop_keeps:
  assumes "\<And>c r t u. F (c\<lparr>rx_ring := r, rx_tail := t, rx_used := u\<rparr>) = F c" "\<And>c q. F (c\<lparr>ooo := q\<rparr>) = F c"
    "\<And>c r. F (c\<lparr>rcv_nxt := r\<rparr>) = F c"
  shows "F (snd (drain_ooo_loop d c)) = F c"
proof (induction d c rule: drain_ooo_loop.induct)
  case (1 d c)
  obtain r q where t: "take_at (rcv_nxt c) (ooo c) = (r, q)" by fastforce
  show ?case
  proof (cases r)
    case None
    then show ?thesis using t assms(2) by (simp add: drain_ooo_loop.simps [of d c])
  next
    case (Some sg)
    define tl where "tl = drop (unat (rcv_nxt c - oo_seq_start sg)) (oo_bytes sg)"
    obtain n c2 where p: "rx_ring_push tl (c\<lparr>ooo := q\<rparr>) = (n, c2)" by fastforce
    define c3 where "c3 = c2\<lparr>rcv_nxt := rcv_nxt c2 + of_nat n\<rparr>"
    have "F c2 = F c" using rx_ring_push_keeps [of F, OF assms(1), of tl "c\<lparr>ooo := q\<rparr>"] p assms(2) by simp
    then have c3: "F c3 = F c" by (simp add: c3_def assms(3))
    have "F (snd (drain_ooo_loop (d + n) c3)) = F c3" if "\<not> n < length tl"
      using "1.IH" [OF t [symmetric] Some refl refl refl refl, of n c2 c3] p that by (simp add: tl_def c3_def)
    moreover have "drain_ooo_loop d c = (if n < length tl then (d + n, c3) else drain_ooo_loop (d + n) c3)"
      using p t Some by (subst drain_ooo_loop.simps) (simp add: tl_def c3_def Let_def)
    ultimately show ?thesis using c3 by simp
  qed
qed

lemma deliver_parts_keeps:
  assumes "\<And>c r t u. F (c\<lparr>rx_ring := r, rx_tail := t, rx_used := u\<rparr>) = F c"
  shows "F (snd (deliver_parts bs c)) = F c"
proof (induction bs arbitrary: c)
  case (Cons b bs)
  then show ?case using rx_ring_push_keeps [of F, OF assms, of b c] by (simp add: deliver_payload_def case_prod_beta)
qed simp

lemma process_data_frame:
  fixes F :: "conn \<Rightarrow> 'b"
  assumes "\<And>c r t u. F (c\<lparr>rx_ring := r, rx_tail := t, rx_used := u\<rparr>) = F c" "\<And>c q. F (c\<lparr>ooo := q\<rparr>) = F c"
    "\<And>c r. F (c\<lparr>rcv_nxt := r\<rparr>) = F c" "\<And>c b w. F (c\<lparr>pending_chunk := b, chunk_wanted := w\<rparr>) = F c" "\<And>c e. F (c\<lparr>cenv := e\<rparr>) = F c"
    "\<And>c w. F (c\<lparr>rcv_wnd := w\<rparr>) = F c" "\<And>c s. F (emit_ack s c) = F c" "\<And>c. F (wake_receiver c) = F c"
  shows "F (process_data s c) = F c"
proof -
  obtain n c1 where d: "deliver_in_order s c = (n, c1)" by fastforce
  then have c1: "F c1 = F c"
    using deliver_parts_keeps [of F, OF assms(1), of "payload_parts (sg_data_offset s) (sg_parts s)" c] assms(4)
    by (auto simp: deliver_in_order_def split: if_splits option.splits)
  have dr: "F (snd (drain_buffered c)) = F c" for c using drain_ooo_loop_keeps [of F, OF assms(1,2,3)] by (simp add: drain_buffered_def drain_ooo_def)
  have "F (process_in_order s c) = F c"
    by (simp add: process_in_order_def d Let_def case_prod_beta assms c1 dr)
  moreover have "F (process_early s c) = F c" by (simp add: process_early_def Let_def case_prod_beta assms)
  ultimately show ?thesis by (simp add: process_data_def assms)
qed

lemma process_rest_state:
  "state (process_rest p s c) = SynReceived \<Longrightarrow> state c = SynReceived \<and> listener_port (process_rest p s c) = listener_port c"
proof -
  have d: "state (process_data s c) = state c" "listener_port (process_data s c) = listener_port c" for c
    using process_data_frame [of state] process_data_frame [of listener_port] by (simp_all add: emit_ack_def wake_receiver_def Let_def)
  have f: "state (process_fin s c) = SynReceived \<Longrightarrow> state c = SynReceived" "listener_port (process_fin s c) = listener_port c" for c
    by (auto simp: process_fin_def Let_def bare_ack_def wake_receiver_def arm_time_wait_def split: if_splits TcpState.splits)
  have t: "state (process_time_wait p s c) = state c" "listener_port (process_time_wait p s c) = listener_port c" for c
    by (simp_all add: process_time_wait_def Let_def bare_ack_def arm_time_wait_def)
  have r: "state (refresh_reader c) = state c" "listener_port (refresh_reader c) = listener_port c" for c
    by (simp_all add: refresh_reader_def Let_def wake_receiver_def maybe_send_window_update_def)
  show "state (process_rest p s c) = SynReceived \<Longrightarrow> state c = SynReceived \<and> listener_port (process_rest p s c) = listener_port c"
    using f(1) [of "process_data s c"] by (simp add: process_rest_def d f(2) t r)
qed

lemma receive_synchronized_inv:
  assumes k: "core_inv k D" and i: "in_use i k" and l: "live (conns k i)"
  shows "\<exists>D'\<subseteq>D. core_inv (receive_synchronized s i k) D'"
proof -
  let ?prev = "state (conns k i)"
  obtain dn k1 where a: "(if has_flag TCP_ACK s then process_ack s i k else (False, k)) = (dn, k1)" by fastforce
  have r: "receive_synchronized s i k = (if dn then k1 else on_conn i (process_rest ?prev s) k1)"
    unfolding receive_synchronized_def Let_def a by simp
  show ?thesis
  proof (cases dn)
    case True
    then show ?thesis using r a process_ack_inv(1) [OF k i l, of s dn k1] k by (auto split: if_splits)
  next
    case False
    have k1: "core_inv k1 D" "in_use i k1"
      using a process_ack_inv(2) [OF k i l, of s dn k1] False k i by (auto split: if_splits)
    have "passive_port (tcb.truncate (process_rest ?prev s (conn_at i k1)))" if "passive_port (conns k1 i)"
      using that process_rest_state [of ?prev s "conn_at i k1"] by (auto simp: passive_port_def)
    from core_inv_on_conn(1) [where f = "process_rest ?prev s", OF k1 touches_process_rest this] show ?thesis using r False by auto
  qed
qed

lemma lookup_some:
  assumes k: "core_inv k D" and f: "lookup_segment s k = Some i"
  shows "in_use i k" "live (conns k i)" "i < pool_capacity k"
proof -
  have "in_use i k \<and> live (conns k i) \<and> i < pool_capacity k"
  proof (cases "tcp_hash_find (hash k) (tcp_hash_key (sg_src_ip s) (sg_src_port s) (sg_dst_port s))")
    case None
    then have "tcp_linear_find (sg_src_ip s) (sg_src_port s) (sg_dst_port s) k = Some i" using f by (simp add: lookup_segment_def)
    from linear_find_some(1,2) [OF this] live_in_use [OF k] show ?thesis by simp
  next
    case (Some j)
    then show ?thesis using f indexed_in_use [of k D, OF _ Some] k by (simp add: lookup_segment_def core_inv_def)
  qed
  then show "in_use i k" "live (conns k i)" "i < pool_capacity k" by simp_all
qed

text \<open>The one kind of segment that breaks the invariant: a connection request addressed to port 0.\<close>

definition syn_to_zero :: "rx_seg \<Rightarrow> bool" where
  "syn_to_zero s \<longleftrightarrow> has_flag TCP_SYN s \<and> \<not> has_flag TCP_ACK s \<and> \<not> has_flag TCP_RST s \<and> sg_dst_port s = 0"

lemma receive_segment_inv:
  assumes k: "core_inv k D" and port: "\<not> syn_to_zero s"
  shows "\<exists>D'\<subseteq>D. core_inv (receive_segment s k) D'"
proof (cases "lookup_segment s k")
  case None
  then show ?thesis using k receive_rst_inv [OF k, of s] receive_syn_inv [OF k, of s] port by (auto simp: receive_segment_def syn_to_zero_def)
next
  case (Some i)
  note i = lookup_some [OF k Some]
  have "passive_port (tcb.truncate (handle_syn_sent s (conn_at i k)))" if "state (conns k i) = SynSent"
    using that by (simp add: passive_port_def handle_syn_sent_def establish_active_def wake_receiver_def wake_sender_def bare_ack_def
        sample_syn_rtt_def congestion_init_def Let_def)
  then have h: "core_inv (on_conn i (handle_syn_sent s) k) D" if "state (conns k i) = SynSent"
    using core_inv_on_conn(1) [OF k i(1), of "handle_syn_sent s"] touches_handle_syn_sent [of "conn_at i k"] i(2) that
    by (simp add: live_def)
  show ?thesis using Some k h receive_rst_inv [OF k, of s] receive_syn_inv [OF k, of s] port receive_synchronized_inv [OF k i(1,2), of s]
    by (auto simp: receive_segment_def syn_to_zero_def Let_def)
qed

lemma tcp_receive_inv:
  assumes "core_inv k D" "\<And>s. read_segment src dst parts = Some s \<Longrightarrow> \<not> syn_to_zero s"
  shows "\<exists>D'\<subseteq>D. core_inv (tcp_receive src dst parts k) D'"
  using assms receive_segment_inv [OF assms(1)] by (auto simp: tcp_receive_def split: option.split)

section \<open>Admission of a SYN\<close>

lemma admit_syn_succeeds:
  assumes ok: "core_ok k D" and l: "find_listener (sg_dst_port s) k \<noteq> None" and room: "nsegs k < MAX_SEGMENTS"
    and mem: "alloc_results (core_env k) = []" and wire: "mac_known (core_env k) (sg_src_ip s)" "txbuf_results (core_env k) = []"
  obtains i isn D' k2 where "core_ok (admit_syn s None k) D'" "D' \<subseteq> D" "half_open s isn i (admit_syn s None k)"
    "tx_log (core_env (admit_syn s None k)) = tx_log (core_env k) @ [syn_ack_of s isn]"
    "sg_dst_port s \<noteq> 0 \<Longrightarrow> all_slots passive_port k \<Longrightarrow> all_slots passive_port (admit_syn s None k)"
    "alloc_connection k = (Some i, k2)" "\<And>j. j \<noteq> i \<Longrightarrow> conns (admit_syn s None k) j = conns k2 j"
proof -
  obtain i k2 where a: "alloc_connection k = (Some i, k2)" "alloc_results (core_env k2) = []" by (rule alloc_succeeds [OF ok disjI2 [OF room] mem])
  obtain D2 where ok2: "core_ok k2 D2" "D2 \<subseteq> D" "in_use i k2 \<and> (\<exists>g c. conns k2 i = reset_preserving g c)"
    using core_ok_alloc [OF ok a(1)] by (metis option.inject)
  have env: "env_quiet (core_env k) (core_env k2)" using alloc_connection_env(1) [OF ok a(1)] .
  obtain g c0 where g: "conns k2 i = reset_preserving g c0" using ok2(3) by blast
  obtain b c3 where e: "ensure_rx_ring (conn_at i k2) = (b, c3)" by fastforce
  have b: "b" using e a(2) by (auto simp: ensure_rx_ring_def try_alloc_def Let_def split: option.splits)
  obtain ring where ring: "tcb.truncate c3 = (conns k2 i)\<lparr>rx_ring := Some ring\<rparr>" using ensure_rx_ring_slot(1) [OF e] b by auto
  define k3 where "k3 = conn_put i c3 k2"
  have t: "touches (conn_at i k2) c3" using touches_ensure_rx_ring [of "conn_at i k2"] e by simp
  have ok3: "core_ok k3 D2" "in_use i k3" using core_ok_put [OF ok2(1) _ t] ok2(3) by (simp_all add: k3_def)
  have c3: "conns k3 i = (reset_preserving g c0)\<lparr>rx_ring := Some ring\<rparr>" using ring g by (simp add: k3_def)
  have env3: "env_quiet (core_env k) (core_env k3)" using env_quiet_trans [OF env ensure_rx_ring_slot(2) [OF e]] by (simp add: k3_def)
  have res: "admit_syn s None k = open_passive s i k3"
    by (subst admit_syn_def, subst if_not_P [OF l]) (simp add: a e b k3_def Let_def)
  note op = open_passive_ok [OF ok3 c3, where s = s]
  define isn where "isn = isn_source k3 (isn_drawn k3)"
  show thesis
  proof (rule that [of D2 isn i])
    show "core_ok (admit_syn s None k) D2" "D2 \<subseteq> D" using op(1) ok2(2) by (simp_all add: res)
    show "half_open s isn i (admit_syn s None k)" using op(2) by (simp add: res isn_def)
    show "tx_log (core_env (admit_syn s None k)) = tx_log (core_env k) @ [syn_ack_of s isn]"
      using op(5) wire env3 by (simp add: res isn_def env_quiet_def)
    show "all_slots passive_port (admit_syn s None k)" if p: "sg_dst_port s \<noteq> 0" "all_slots passive_port k"
    proof -
      have "all_slots passive_port k2" using p(2) a(1) by (rule passive_slots.alloc_connection)
      then have "all_slots passive_port k3" by (simp add: all_slots_def k3_def ring passive_port_def g)
      then show ?thesis using op(6) [OF p(1)] by (simp add: res)
    qed
    show "alloc_connection k = (Some i, k2)" by (rule a(1))
    show "conns (admit_syn s None k) j = conns k2 j" if "j \<noteq> i" for j using op(4) that by (simp add: res k3_def)
  qed
qed

section \<open>Challenge acknowledgements\<close>

text \<open>Challenges asked for at the clock readings \<open>ts\<close>.\<close>

fun challenge_run :: "(nat \<times> rx_seg \<times> u32 \<times> u32 \<times> nat) list \<Rightarrow> core \<Rightarrow> core" where
  "challenge_run [] k = k"
| "challenge_run ((t, s, a, b, w) # cs) k =
     challenge_run cs (send_challenge_ack s a b w (k\<lparr>core_env := (core_env k)\<lparr>now_ms := t\<rparr>\<rparr>))"

lemma send_segment_log: "length (tx_log (send_segment m p e)) \<le> Suc (length (tx_log e))"
  by (auto simp: send_segment_def send_segment_opts_def build_and_send_frame_def acquire_tx_buf_def push_tx_def Let_def split: list.split)

lemma challenge_step:
  fixes s a b w
  assumes "core_id k < MAX_CORES" "challenge_last_ms k \<le> T" "now_ms (core_env k) \<le> T"
  defines "k' \<equiv> send_challenge_ack s a b w k"
  shows "length (tx_log (core_env k')) + challenge_tokens k' + (T - challenge_last_ms k') * CHALLENGE_ACK_RATE div 1000
      \<le> length (tx_log (core_env k)) + challenge_tokens k + (T - challenge_last_ms k) * CHALLENGE_ACK_RATE div 1000"
    "challenge_last_ms k' \<le> T" "core_id k' = core_id k"
proof -
  let ?now = "now_ms (core_env k)" and ?last = "challenge_last_ms k"
  define r where "r = sat_mul64 (?now - ?last) CHALLENGE_ACK_RATE div 1000"
  define k1 where "k1 = (if ?now > ?last \<and> r > 0
    then k\<lparr>challenge_tokens := as_u32 (min (challenge_tokens k + r) CHALLENGE_ACK_BURST), challenge_last_ms := ?now\<rparr> else k)"
  have r: "r \<le> (?now - ?last) * CHALLENGE_ACK_RATE div 1000" by (simp add: r_def sat_mul64_def div_le_mono)
  have split: "(?now - ?last) * CHALLENGE_ACK_RATE div 1000 + (T - ?now) * CHALLENGE_ACK_RATE div 1000
      \<le> (T - ?last) * CHALLENGE_ACK_RATE div 1000" if "?last < ?now"
  proof -
    have "(T - ?last) * CHALLENGE_ACK_RATE = (?now - ?last) * CHALLENGE_ACK_RATE + (T - ?now) * CHALLENGE_ACK_RATE"
      using that assms(3) by (simp flip: add_mult_distrib)
    then show ?thesis using div_add1_eq [of "(?now - ?last) * CHALLENGE_ACK_RATE" "(T - ?now) * CHALLENGE_ACK_RATE" 1000] by simp
  qed
  have tok: "as_u32 (min (challenge_tokens k + r) CHALLENGE_ACK_BURST) \<le> challenge_tokens k + r"
    by (simp add: as_u32_def)
  have k1: "challenge_tokens k1 + (T - challenge_last_ms k1) * CHALLENGE_ACK_RATE div 1000
      \<le> challenge_tokens k + (T - ?last) * CHALLENGE_ACK_RATE div 1000" "challenge_last_ms k1 \<le> T" "core_env k1 = core_env k" "core_id k1 = core_id k"
    using tok r split assms(2,3) by (auto simp: k1_def)
  have al: "challenge_ack_allowed k = (if challenge_tokens k1 > 0 then (True, k1\<lparr>challenge_tokens := challenge_tokens k1 - 1\<rparr>) else (False, k1))"
    unfolding challenge_ack_allowed_def Let_def r_def [symmetric] k1_def [symmetric] using assms(1) by simp
  have "length (tx_log (send_segment (reply_meta s a b TCP_ACK w) [] (core_env k))) \<le> Suc (length (tx_log (core_env k)))"
    by (rule send_segment_log)
  then show "length (tx_log (core_env k')) + challenge_tokens k' + (T - challenge_last_ms k') * CHALLENGE_ACK_RATE div 1000
      \<le> length (tx_log (core_env k)) + challenge_tokens k + (T - ?last) * CHALLENGE_ACK_RATE div 1000"
    "challenge_last_ms k' \<le> T" "core_id k' = core_id k"
    using k1 by (auto simp: k'_def send_challenge_ack_def al)
qed

end
