(* ===== verification/Tcp_Handshake.thy ===== *)
theory Tcp_Handshake
  imports Tcp_Receive
begin

text \<open>
  What the inbound path promises of the connection state machine: a SYN to a listener is answered and the
  acknowledgement of the answer makes the connection the next one accepted; segments that do not fit
  the connection they name change nothing; challenges stay within their rate. And where the code falls short of
  this: port 0 counts as listening, and the window is taken from segments outside the receive window.
\<close>

section \<open>One segment on an established connection\<close>

lemma receive_synchronized_cases:
  assumes "lookup_segment s k = Some i" "state (conns k i) \<notin> {Closed, Listen, SynSent}"
    "\<not> has_flag TCP_RST s" "has_flag TCP_ACK s"
  shows "receive_segment s k = receive_synchronized s i k"
  using assms by (simp add: receive_segment_def Let_def)

lemma process_rest_keeps:
  fixes F :: "conn \<Rightarrow> 'b"
  assumes "\<And>c r t u. F (c\<lparr>rx_ring := r, rx_tail := t, rx_used := u\<rparr>) = F c" "\<And>c q. F (c\<lparr>ooo := q\<rparr>) = F c"
    "\<And>c r. F (c\<lparr>rcv_nxt := r\<rparr>) = F c" "\<And>c b w. F (c\<lparr>pending_chunk := b, chunk_wanted := w\<rparr>) = F c" "\<And>c e. F (c\<lparr>cenv := e\<rparr>) = F c"
    "\<And>c w. F (c\<lparr>rcv_wnd := w\<rparr>) = F c" "\<And>c w. F (c\<lparr>recv_waker := w\<rparr>) = F c" "\<And>c x. F (c\<lparr>state := x\<rparr>) = F c"
    "\<And>c x. F (c\<lparr>fin_retx_count := x\<rparr>) = F c" "\<And>c x. F (c\<lparr>lifecycle_deadline_ms := x\<rparr>) = F c"
    "\<And>c x y. F (c\<lparr>tick_next := x, tick_in_list := y\<rparr>) = F c"
  shows "F (process_rest p s c) = F c"
proof -
  have e: "F (emit m x opts c) = F c" for m x opts c by (simp add: emit_def assms(5))
  have a: "F (emit_ack s c) = F c" "F (bare_ack s c) = F c" for c s by (simp_all add: emit_ack_def bare_ack_def Let_def e)
  have w: "F (wake_receiver c) = F c" for c
    using assms(5) [where c = "c\<lparr>recv_waker := None\<rparr>"] assms(7) [where c = c] by (simp add: wake_receiver_def)
  have arm: "F (arm_for_tick c) = F c" for c
    using assms(5) [where c = "c\<lparr>tick_next := tick_head (cenv c), tick_in_list := True\<rparr>"] assms(11) [where c = c] by (simp add: arm_for_tick_def)
  have tw: "F (arm_time_wait n c) = F c" for n c by (simp add: arm_time_wait_def arm assms(10))
  have d: "F (process_data s c) = F c" for c by (rule process_data_frame) (simp_all add: assms a w)
  have st: "F (c\<lparr>state := x, fin_retx_count := y\<rparr>) = F c" for c x y using assms(9) [where c = "c\<lparr>state := x\<rparr>"] assms(8) [where c = c] by simp
  have f: "F (process_fin s c) = F c" for c
    by (simp add: process_fin_def Let_def w tw st a assms(3,8) split: TcpState.split)
  have t: "F (process_time_wait p s c) = F c" for c by (simp add: process_time_wait_def Let_def a tw)
  have "F (maybe_send_window_update c) = F c" for c by (simp add: maybe_send_window_update_def Let_def e assms(6))
  then have "F (refresh_reader c) = F c" for c by (simp add: refresh_reader_def Let_def w)
  then show ?thesis by (simp add: process_rest_def d f t)
qed

lemma process_rest_fields [simp]:
  "snd_wnd (process_rest p s c) = snd_wnd c" "snd_wl1 (process_rest p s c) = snd_wl1 c" "snd_nxt (process_rest p s c) = snd_nxt c"
  "accepted (process_rest p s c) = accepted c" "listener_port (process_rest p s c) = listener_port c"
  "snd_una (process_rest p s c) = snd_una c" "cwnd (process_rest p s c) = cwnd c"
  by (rule process_rest_keeps, simp_all)+

lemma process_rest_established:
  assumes "\<not> has_flag TCP_FIN s"
  shows "state (process_rest p s c) = state c"
proof -
  have "state (process_data s c) = state c"
    by (rule process_data_frame) (simp_all add: emit_ack_def wake_receiver_def Let_def)
  then show ?thesis using assms
    by (simp add: process_rest_def process_fin_def process_time_wait_def refresh_reader_def wake_receiver_def Let_def)
qed

text \<open>A segment with an acceptable acknowledgement, on a connection it does not end.\<close>

lemma receive_acked:
  assumes "has_flag TCP_ACK s" "\<not> seq_lt (snd_nxt (conns k i)) (sg_ack s)" "state (conns k i) \<noteq> LastAck"
  shows "\<exists>d. receive_synchronized s i k = on_conn i (process_rest (state (conns k i)) s)
    (on_conn i (ack_recovery s (snd_una (conns k i)) d) (ack_transition s (seq_lt (snd_una (conns k i)) (sg_ack s)) i (upd_slot i (ack_window s) k)))"
  using assms unfolding receive_synchronized_def process_ack_def Let_def by auto

lemma ack_window_fields [simp]:
  "state (ack_window s c) = state c" "snd_una (ack_window s c) = snd_una c" "snd_nxt (ack_window s c) = snd_nxt c"
  "listener_port (ack_window s c) = listener_port c" "accepted (ack_window s c) = accepted c" "cwnd (ack_window s c) = cwnd c"
  by (simp_all add: ack_window_def)

text \<open>The acknowledgement that completes the handshake the SYN \<open>s\<close> opened.\<close>

definition completes :: "rx_seg \<Rightarrow> rx_seg \<Rightarrow> u32 \<Rightarrow> bool" where
  "completes a s isn \<longleftrightarrow> sg_src_ip a = sg_src_ip s \<and> sg_src_port a = sg_src_port s \<and> sg_dst_port a = sg_dst_port s
     \<and> has_flag TCP_ACK a \<and> \<not> has_flag TCP_SYN a \<and> \<not> has_flag TCP_RST a \<and> \<not> has_flag TCP_FIN a \<and> sg_ack a = isn + 1"

interpretation waiting_slots: slot_property "\<lambda>c. \<not> acceptable port c" for port
  by unfold_locales (simp_all add: acceptable_def tcb_new_def)

lemma seq_lt_asym:
  assumes "seq_lt a b" "a \<noteq> b + 0x80000000"
  shows "\<not> seq_lt b a"
proof
  assume "seq_lt b a"
  then have "2147483648 \<le> unat (b - a)" "2147483648 \<le> unat (a - b)" using assms(1) by (simp_all add: seq_lt_unat)
  moreover have "unat (b - a) = 4294967296 - unat (a - b)" if "a \<noteq> b"
  proof -
    have "0 < unat (a - b)" using that by (simp add: unat_gt_0)
    then show ?thesis using unat_of_nat_diff_neg [of 0 "unat (a - b)" 0] unsigned_less [of "a - b"] by simp
  qed
  ultimately have "unat (a - b) = 2147483648" using assms(1) by (cases "a = b") auto
  moreover have "a - b = of_nat (unat (a - b))" by simp
  ultimately have "a - b = 0x80000000" by (simp del: of_nat_unat)
  then show False using assms(2) by (simp add: algebra_simps)
qed

lemma seq_lt_suc: "seq_lt x (x + 1)"
  using seq_lt_offsets [of 0 1 x] by simp

lemma handshake_ack:
  assumes ok: "core_ok k D" and h: "half_open s isn i k" and a: "completes a s isn"
  defines "k' \<equiv> receive_segment a k"
  shows "acceptable (sg_dst_port s) (conns k' i)" "j \<noteq> i \<Longrightarrow> conns k' j = conns k j" "pool_capacity k' = pool_capacity k"
    "hash k' = hash k" "ident (conns k' i) = ident (conns k i)" "rcv_nxt (conns k i) = sg_seq s + 1"
proof -
  have c: "state (conns k i) = SynReceived" "snd_una (conns k i) = isn" "snd_nxt (conns k i) = isn + 1" "listener_port (conns k i) = sg_dst_port s"
    "\<not> accepted (conns k i)" "lookup_segment a k = Some i"
    using h a by (simp_all add: half_open_def completes_def lookup_segment_def Let_def)
  have f: "has_flag TCP_ACK a" "\<not> has_flag TCP_RST a" "\<not> has_flag TCP_FIN a" "sg_ack a = isn + 1" using a by (simp_all add: completes_def)
  have r: "k' = receive_synchronized a i k" unfolding k'_def using c f by (intro receive_synchronized_cases) simp_all
  define k1 where "k1 = upd_slot i (ack_window a) k"
  define k2 where "k2 = ack_transition a True i k1"
  have "\<not> seq_lt (snd_nxt (conns k i)) (sg_ack a)" "state (conns k i) \<noteq> LastAck" by (simp_all add: c f)
  from receive_acked [OF f(1) this] obtain d where "receive_synchronized a i k = on_conn i (process_rest (state (conns k i)) a)
    (on_conn i (ack_recovery a (snd_una (conns k i)) d) (ack_transition a (seq_lt (snd_una (conns k i)) (sg_ack a)) i (upd_slot i (ack_window a) k)))" ..
  then have k': "k' = on_conn i (process_rest SynReceived a) (on_conn i (ack_recovery a isn d) k2)"
    by (simp only: r k2_def k1_def c f seq_lt_suc)
  have c1: "state (conns k1 i) = SynReceived" using c by (simp add: k1_def upd_slot_def)
  have c2: "conns k2 = (conns k1)(i := (conns k1 i)\<lparr>state := Established, snd_una := isn + 1\<rparr>)"
    using c1 f(4) by (simp add: k2_def ack_transition_def Let_def deliver_tcp_ready_frame upd_slot_def)
  have k2: "nsegs k2 = nsegs k" "hash k2 = hash k"
    using c1 accept_ring_push_frame [of "listener_port (conns k1 i)" "as_u16 i" "upd_slot i (\<lambda>c. c\<lparr>state := Established, snd_una := isn + 1\<rparr>) k1"] f(4)
    by (auto simp: k2_def ack_transition_def Let_def deliver_tcp_ready_frame k1_def upd_slot_def)
  have "ident (process_rest SynReceived a c) = ident c" "ident (ack_recovery a isn d c) = ident c" for c
    using touches_process_rest [of c SynReceived a] touches_ack_recovery [of c a isn d] by (simp_all add: touches_def)
  then show "ident (conns k' i) = ident (conns k i)" unfolding k'
    by (simp add: on_conn_def ident_def c2 k1_def upd_slot_def ack_window_def)
  show "hash k' = hash k" unfolding k' using k2 by (simp add: on_conn_def)
  show "rcv_nxt (conns k i) = sg_seq s + 1" using h by (simp add: half_open_def Let_def)
  show "acceptable (sg_dst_port s) (conns k' i)"
    using c f process_rest_established [OF f(3)] unfolding k' by (simp add: on_conn_def acceptable_def c2 k1_def upd_slot_def)
  show "j \<noteq> i \<Longrightarrow> conns k' j = conns k j" unfolding k' by (simp add: on_conn_def c2 k1_def upd_slot_def)
  show "pool_capacity k' = pool_capacity k" unfolding k' using k2 by (simp add: on_conn_def pool_capacity_def)
qed

lemma find_only:
  assumes "i \<in> set xs" "\<And>j. P j \<longleftrightarrow> j = i"
  shows "find P xs = Some i"
  using assms(1) by (induction xs) (auto simp: assms(2))

section \<open>Properties\<close>

text \<open>C33: A passive open completes. A SYN to a port with a listener, from a peer with no connection, is answered with one
  SYN-ACK and leaves a half-open connection of that 4-tuple; the segment that acknowledges the SYN-ACK establishes
  it, and with no other connection waiting on the port the next accept hands out exactly this connection.\<close>

theorem passive_open_completes:
  assumes "core_inv k D" and "has_flag TCP_SYN s" "\<not> has_flag TCP_ACK s" "\<not> has_flag TCP_RST s" and "sg_dst_port s \<noteq> 0"
    and "find_listener (sg_dst_port s) k \<noteq> None" and "find_tuple (sg_src_ip s) (sg_src_port s) (sg_dst_port s) k = None"
    and "nsegs k < MAX_SEGMENTS" and "alloc_results (core_env k) = []"
    and "mac_known (core_env k) (sg_src_ip s)" "txbuf_results (core_env k) = []"
    and "all_slots (\<lambda>c. \<not> acceptable (sg_dst_port s) c) k"
  shows "\<exists>i isn. let k1 = receive_segment s k
    in half_open s isn i k1 \<and> tx_log (core_env k1) = tx_log (core_env k) @ [syn_ack_of s isn]
      \<and> (\<forall>a. completes a s isn \<longrightarrow> (let k2 = receive_segment a k1
          in state (conns k2 i) = Established
            \<and> fst (accept_on_port_core (sg_dst_port s) k2) = Some (encode_handle (core_id k2) i, generation (conns k2 i))))"
proof -
  have ok: "core_ok k D" "all_slots passive_port k" using assms(1) by (simp_all add: core_inv_def)
  obtain i isn D' k2 where a': "core_ok (admit_syn s None k) D'" "D' \<subseteq> D" "half_open s isn i (admit_syn s None k)"
    "tx_log (core_env (admit_syn s None k)) = tx_log (core_env k) @ [syn_ack_of s isn]"
    "sg_dst_port s \<noteq> 0 \<Longrightarrow> all_slots passive_port k \<Longrightarrow> all_slots passive_port (admit_syn s None k)"
    "alloc_connection k = (Some i, k2)" "\<And>j. j \<noteq> i \<Longrightarrow> conns (admit_syn s None k) j = conns k2 j"
    by (rule admit_syn_succeeds [OF ok(1) assms(6,8-11)]) (rule that)
  note a = a'(1,3,4) a'(5) [OF assms(5) ok(2)] a'(6,7)
  define k1 where "k1 = receive_segment s k"
  have k1: "k1 = admit_syn s None k" using assms(2-4,7) by (simp add: k1_def receive_segment_def receive_syn_def)
  have no: "\<not> acceptable (sg_dst_port s) (conns k2 j)" for j
    using waiting_slots.alloc_connection [OF assms(12) a(5)] by (simp add: all_slots_def)
  have "state (conns k2 i) = Established \<and> fst (accept_on_port_core (sg_dst_port s) k2) = Some (encode_handle (core_id k2) i, generation (conns k2 i))"
    if c: "completes c s isn" and k2: "k2 = receive_segment c k1" for c k2
  proof -
    note hs = handshake_ack [OF a(1,2) c, folded k1 k2]
    have i: "i < pool_capacity k2" using a(1,2) in_use_bound [OF a(1), of i] hs(3) by (simp add: half_open_def Let_def k1)
    have only: "j = i" if "acceptable (sg_dst_port s) (conns k2 j)" for j
    proof (rule ccontr)
      assume j: "j \<noteq> i"
      then have "conns k2 j = conns (snd (alloc_connection k)) j" using hs(2) a(5,6) k1 by simp
      then show False using that no a(5) by simp
    qed
    have "core_inv k1 D'" using a(1,4) by (simp add: core_inv_def k1)
    moreover have "\<not> syn_to_zero c" using c assms(5) by (simp add: completes_def syn_to_zero_def)
    ultimately have "rings_ok k2" using receive_segment_inv [of k1 D' c] unfolding k2 core_inv_def core_ok_def by blast
    moreover have "find (\<lambda>j. acceptable (sg_dst_port s) (conns k2 j)) (accept_items (sg_dst_port s) k2 @ [0..<pool_capacity k2]) = Some i"
    proof (rule find_only)
      show "i \<in> set (accept_items (sg_dst_port s) k2 @ [0..<pool_capacity k2])" using i by simp
      show "acceptable (sg_dst_port s) (conns k2 j) \<longleftrightarrow> j = i" for j using hs(1) only [of j] by blast
    qed
    ultimately show ?thesis using accept_on_port_correct [of k2 "sg_dst_port s"] hs(1)
      by (cases "accept_on_port_core (sg_dst_port s) k2") (auto simp: acceptable_def)
  qed
  then show ?thesis using a(2,3) unfolding Let_def k1_def [symmetric] k1 [symmetric] by blast
qed

text \<open>A core with a registered listener, and a client's SYN.\<close>

definition demo_listening :: core where
  "demo_listening = listener_register 80 0 demo_core"

definition demo_syn :: "u16 \<Rightarrow> rx_seg" where
  "demo_syn port = \<lparr>sg_src_ip = V4 0xC0A80102, sg_dst_ip = V4 0xC0A80101, sg_src_port = 40000, sg_dst_port = port, sg_seq = 900,
     sg_ack = 0, sg_flags = TCP_SYN, sg_window = 65535, sg_data_offset = 20, sg_payload_len = 0, sg_syn = syn_options_default, sg_parts = []\<rparr>"

lemma has_flag_simps:
  "has_flag TCP_SYN (demo_syn p)" "\<not> has_flag TCP_ACK (demo_syn p)" "\<not> has_flag TCP_RST (demo_syn p)"
  by (simp_all add: has_flag_def demo_syn_def TCP_SYN_def TCP_ACK_def TCP_RST_def)

lemma demo_listening_ok: "core_inv demo_listening {}"
proof -
  have "core_inv demo_core {}"
    using demo_core_ok passive_slots.new_core by (simp add: core_inv_def demo_core_def)
  then show ?thesis by (rule core_inv_frame) (simp_all add: demo_listening_def listener_register_def split: option.split)
qed

lemma find_tuple_none: "find_tuple a b c demo_core = None" "find_tuple a b c demo_listening = None"
  using hidx.find_empty by (simp_all add: find_tuple_def demo_listening_def listener_register_def demo_core_def core_new_def split: option.split)

lemma demo_listening_fields:
  "nsegs demo_listening < MAX_SEGMENTS" "alloc_results (core_env demo_listening) = []" "mac_known (core_env demo_listening) ip"
  "txbuf_results (core_env demo_listening) = []" "find_listener 80 demo_listening \<noteq> None" "conns demo_listening = conns demo_core"
proof -
  have u: "[0..<MAX_LISTENERS_PER_CORE] = 0 # [1..<8]" by (simp add: MAX_LISTENERS_PER_CORE_def upt_conv_Cons)
  have p: "lst_ports demo_core = replicate MAX_LISTENERS_PER_CORE 0" "0 < MAX_LISTENERS_PER_CORE"
    by (simp_all add: demo_core_def core_new_def MAX_LISTENERS_PER_CORE_def)
  have d: "demo_listening = demo_core\<lparr>lst_ports := (lst_ports demo_core)[0 := 80], lst_slots := (lst_slots demo_core)[0 := 0]\<rparr>"
    using p by (simp add: demo_listening_def listener_register_def u)
  show "find_listener 80 demo_listening \<noteq> None" using p by (simp add: find_listener_def listener_find_def u d)
  show "nsegs demo_listening < MAX_SEGMENTS" "alloc_results (core_env demo_listening) = []" "mac_known (core_env demo_listening) ip"
    "txbuf_results (core_env demo_listening) = []" "conns demo_listening = conns demo_core"
    by (simp_all add: d) (simp_all add: demo_core_def core_new_def demo_env_def tcp_consts)
qed

theorem passive_open_completes_witness:
  "\<exists>i isn. let k1 = receive_segment (demo_syn 80) demo_listening
    in half_open (demo_syn 80) isn i k1 \<and> tx_log (core_env k1) = tx_log (core_env demo_listening) @ [syn_ack_of (demo_syn 80) isn]"
proof -
  have no: "all_slots (\<lambda>c. \<not> acceptable p c) demo_listening" for p
    using waiting_slots.new_core [of p] by (simp add: all_slots_def demo_listening_fields demo_core_def)
  have port: "(80 :: u16) \<noteq> 0" by simp
  have d: "sg_dst_port (demo_syn 80) = 80" "sg_src_ip (demo_syn 80) = V4 0xC0A80102" by (simp_all add: demo_syn_def)
  show ?thesis
    using passive_open_completes [OF demo_listening_ok has_flag_simps, of 80, unfolded d, OF port demo_listening_fields(5) find_tuple_none(2)
        demo_listening_fields(1-4) no]
    unfolding Let_def by blast
qed

text \<open>The core after the client's acknowledgement.\<close>

definition demo_ack :: "u32 \<Rightarrow> u32 \<Rightarrow> u8 \<Rightarrow> rx_seg" where
  "demo_ack sq ak fl = (demo_syn 80)\<lparr>sg_seq := sq, sg_ack := ak, sg_flags := fl\<rparr>"

interpretation closed_slots: slot_property "\<lambda>c. state c = Closed"
  by unfold_locales (simp_all add: tcb_new_def)

lemma demo_established:
  obtains k i D where "core_inv k D" "state (conns k i) = Established"
    "tcp_linear_find (V4 0xC0A80102) 40000 80 k = Some i" "find_tuple (V4 0xC0A80102) 40000 80 k = Some i"
proof -
  note d = demo_syn_def [of 80]
  have f: "sg_dst_port (demo_syn 80) = 80" "sg_src_ip (demo_syn 80) = V4 0xC0A80102" "sg_src_port (demo_syn 80) = 40000" by (simp_all add: d)
  have ok: "core_ok demo_listening {}" "all_slots passive_port demo_listening" using demo_listening_ok by (simp_all add: core_inv_def)
  have l: "find_listener (sg_dst_port (demo_syn 80)) demo_listening \<noteq> None" unfolding f by (rule demo_listening_fields)
  let ?k = "admit_syn (demo_syn 80) None demo_listening"
  obtain i isn D k2 where adm: "core_ok ?k D" "D \<subseteq> {}" "half_open (demo_syn 80) isn i ?k"
    "tx_log (core_env ?k) = tx_log (core_env demo_listening) @ [syn_ack_of (demo_syn 80) isn]"
    "sg_dst_port (demo_syn 80) \<noteq> 0 \<Longrightarrow> all_slots passive_port demo_listening \<Longrightarrow> all_slots passive_port ?k"
    "alloc_connection demo_listening = (Some i, k2)" "\<And>j. j \<noteq> i \<Longrightarrow> conns ?k j = conns k2 j"
    by (rule admit_syn_succeeds [OF ok(1) l demo_listening_fields(1-4)]) (rule that)
  define k1 where "k1 = ?k"
  note a' = adm [folded k1_def]
  have a: "core_ok k1 D" "half_open (demo_syn 80) isn i k1" "all_slots passive_port k1" using a'(1,3,5) ok(2) by (simp_all add: d)
  define k where "k = receive_segment (demo_ack 901 (isn + 1) TCP_ACK) k1"
  have c: "completes (demo_ack 901 (isn + 1) TCP_ACK) (demo_syn 80) isn"
    by (simp add: completes_def demo_ack_def d has_flag_def TCP_ACK_def TCP_SYN_def TCP_RST_def TCP_FIN_def)
  note h = handshake_ack [OF a(1,2) c, folded k_def]
  have inv: "core_inv k1 D" using a(1,3) by (simp add: core_inv_def)
  have "\<not> syn_to_zero (demo_ack 901 (isn + 1) TCP_ACK)" by (simp add: syn_to_zero_def demo_ack_def d)
  from receive_segment_inv [OF inv this] obtain D' where k: "core_inv k D'" unfolding k_def by blast
  have hf: "tcp_hash_find (hash k) (tcp_hash_key (V4 0xC0A80102) 40000 80) = Some i" "remote_ip (conns k i) = V4 0xC0A80102"
      "remote_port (conns k i) = 40000" "local_port (conns k i) = 80" "in_use i k1"
    using a(2) h(4,5) f by (simp_all add: half_open_def Let_def ident_def)
  have est: "state (conns k i) = Established" using h(1) by (simp add: acceptable_def)
  have others: "state (conns k j) = Closed" if "j \<noteq> i" for j
  proof -
    have "all_slots (\<lambda>c. state c = Closed) k2"
      using closed_slots.alloc_connection [OF _ a'(6)] closed_slots.new_core by (simp add: demo_listening_fields(6) all_slots_def demo_core_def)
    then show ?thesis using h(2) [OF that] a'(7) [OF that] by (simp add: all_slots_def)
  qed
  have "find (\<lambda>j. let c = conns k j in state c \<noteq> Closed \<and> state c \<noteq> Listen \<and> remote_ip c = V4 0xC0A80102 \<and> local_port c = 80 \<and> remote_port c = 40000)
    [0..<pool_capacity k] = Some i"
  proof (rule find_only)
    show "i \<in> set [0..<pool_capacity k]" using in_use_bound [OF _ hf(5)] inv h(3) by (auto simp: core_inv_def)
    show "(let c = conns k j in state c \<noteq> Closed \<and> state c \<noteq> Listen \<and> remote_ip c = V4 0xC0A80102 \<and> local_port c = 80 \<and> remote_port c = 40000) \<longleftrightarrow> j = i" for j
      using est hf(2-4) others [of j] by (cases "j = i") simp_all
  qed
  then have "tcp_linear_find (V4 0xC0A80102) 40000 80 k = Some i" by (simp only: tcp_linear_find_def)
  moreover have "find_tuple (V4 0xC0A80102) 40000 80 k = Some i" using hf by (simp add: find_tuple_def)
  ultimately show thesis using that [OF k est] by blast
qed

text \<open>C34: Segments that do not fit are rejected. For the established connection that both lookups of the
  receiver, the index and the scan of the pool, find under a segment's 4-tuple, a reset that is not exactly at the next expected sequence number, a SYN, and an acknowledgement of data
  never sent all leave every connection and the index as they are; at most one segment is sent in
  answer.\<close>

theorem blind_segments_rejected:
  assumes "core_inv k D" and "state (conns k i) = Established"
    and "tcp_linear_find (sg_src_ip s) (sg_src_port s) (sg_dst_port s) k = Some i"
    and "find_tuple (sg_src_ip s) (sg_src_port s) (sg_dst_port s) k = Some i"
    and "has_flag TCP_RST s \<and> sg_seq s \<noteq> rcv_nxt (conns k i)
      \<or> \<not> has_flag TCP_RST s \<and> has_flag TCP_SYN s \<and> \<not> has_flag TCP_ACK s
      \<or> \<not> has_flag TCP_RST s \<and> has_flag TCP_ACK s \<and> seq_lt (snd_nxt (conns k i)) (sg_ack s)"
  shows "conns (receive_segment s k) = conns k \<and> hash (receive_segment s k) = hash k
    \<and> length (tx_log (core_env (receive_segment s k))) \<le> Suc (length (tx_log (core_env k)))"
proof -
  have ch: "conns (send_challenge_ack s a b w k) = conns k \<and> hash (send_challenge_ack s a b w k) = hash k
      \<and> length (tx_log (core_env (send_challenge_ack s a b w k))) \<le> Suc (length (tx_log (core_env k)))" for a b w
  proof -
    obtain ok k1 where c: "challenge_ack_allowed k = (ok, k1)" by fastforce
    obtain t l where k1: "k1 = k\<lparr>challenge_tokens := t, challenge_last_ms := l\<rparr>" using challenge_ack_frame [OF c] by blast
    show ?thesis using send_segment_log [of "reply_meta s a b TCP_ACK w" "[]" "core_env k"] by (simp add: send_challenge_ack_def c k1)
  qed
  have l: "lookup_segment s k = Some i" using assms(4) by (auto simp: find_tuple_def lookup_segment_def Let_def split: option.splits if_splits)
  consider (rst) "receive_segment s k = k" | (ch) a b w where "receive_segment s k = send_challenge_ack s a b w k"
    using assms(2,3,4,5) l
    by (auto simp: receive_segment_def receive_rst_def receive_syn_def receive_synchronized_def process_ack_def Let_def)
  then show ?thesis using ch by cases simp_all
qed

theorem blind_segments_rejected_witness:
  "\<exists>k i. state (conns k i) = Established \<and> conns (receive_segment (demo_syn 80) k) = conns k"
proof -
  obtain k i D where k: "core_inv k D" "state (conns k i) = Established"
    "tcp_linear_find (V4 0xC0A80102) 40000 80 k = Some i" "find_tuple (V4 0xC0A80102) 40000 80 k = Some i" by (rule demo_established)
  have f: "sg_dst_port (demo_syn 80) = 80" "sg_src_ip (demo_syn 80) = V4 0xC0A80102" "sg_src_port (demo_syn 80) = 40000" by (simp_all add: demo_syn_def)
  show ?thesis using blind_segments_rejected [OF k(1,2), of "demo_syn 80", unfolded f, OF k(3,4)] has_flag_simps k(2) by blast
qed

text \<open>C35: Challenges are rate-limited. Whatever sequence of triggers arrives up to time \<open>T\<close>, on a core within the bucket table
  the challenge acknowledgements sent are at most the tokens of the bucket and one for every ten milliseconds since its last refill.\<close>

theorem challenge_acks_bounded:
  assumes "core_id k < MAX_CORES" and "challenge_tokens k \<le> CHALLENGE_ACK_BURST" and "challenge_last_ms k \<le> T"
    and "\<forall>c \<in> set cs. fst c \<le> T"
  shows "length (tx_log (core_env (challenge_run cs k)))
    \<le> length (tx_log (core_env k)) + CHALLENGE_ACK_BURST + (T - challenge_last_ms k) div 10"
proof -
  have "length (tx_log (core_env (challenge_run cs k)))
    \<le> length (tx_log (core_env k)) + challenge_tokens k + (T - challenge_last_ms k) * CHALLENGE_ACK_RATE div 1000"
    using assms(1,3,4)
  proof (induction cs k rule: challenge_run.induct)
    case (2 t s a b w cs k)
    let ?k = "k\<lparr>core_env := (core_env k)\<lparr>now_ms := t\<rparr>\<rparr>"
    have "length (tx_log (core_env (challenge_run cs (send_challenge_ack s a b w ?k))))
      \<le> length (tx_log (core_env (send_challenge_ack s a b w ?k))) + challenge_tokens (send_challenge_ack s a b w ?k)
        + (T - challenge_last_ms (send_challenge_ack s a b w ?k)) * CHALLENGE_ACK_RATE div 1000"
      using "2.prems" challenge_step(2,3) [of ?k T s a b w] by (intro "2.IH") simp_all
    also have "\<dots> \<le> length (tx_log (core_env ?k)) + challenge_tokens ?k + (T - challenge_last_ms ?k) * CHALLENGE_ACK_RATE div 1000"
      using "2.prems" by (intro challenge_step(1)) simp_all
    finally show ?case by simp
  qed simp
  moreover have "x * CHALLENGE_ACK_RATE div 1000 = x div 10" for x
    using div_mult_mult2 [of 100 x 10] by (simp add: CHALLENGE_ACK_RATE_def)
  ultimately show ?thesis using assms(2) by simp
qed

theorem challenge_acks_bounded_witness:
  "length (tx_log (core_env (challenge_run (replicate 500 (20, demo_syn 80, 1, 2, 3)) demo_core))) \<le> 102"
proof -
  have "length (tx_log (core_env (challenge_run (replicate 500 (20, demo_syn 80, 1, 2, 3)) demo_core)))
      \<le> length (tx_log (core_env demo_core)) + CHALLENGE_ACK_BURST + (20 - challenge_last_ms demo_core) div 10"
    by (rule challenge_acks_bounded) (simp_all add: demo_core_def core_new_def MAX_CORES_def)
  then show ?thesis by (simp add: demo_core_def core_new_def demo_env_def CHALLENGE_ACK_BURST_def)
qed

text \<open>C36: Port 0 is open. While the listener table of a core has a free entry, a SYN addressed to port 0 is answered and leaves a half-open
  connection, although no connection of the core listens on that port: the search takes the free entry, whose
  port is 0, for a listener.\<close>

theorem syn_to_port_zero_admitted:
  assumes "core_ok k D" and "sg_dst_port s = 0" and "has_flag TCP_SYN s" "\<not> has_flag TCP_ACK s" "\<not> has_flag TCP_RST s"
    and "\<exists>i<MAX_LISTENERS_PER_CORE. lst_ports k ! i = 0" and "all_slots (\<lambda>c. state c \<noteq> Listen) k"
    and "find_tuple (sg_src_ip s) (sg_src_port s) 0 k = None"
    and "nsegs k < MAX_SEGMENTS" and "alloc_results (core_env k) = []"
    and "mac_known (core_env k) (sg_src_ip s)" "txbuf_results (core_env k) = []"
  shows "\<exists>i isn. half_open s isn i (receive_segment s k)
    \<and> tx_log (core_env (receive_segment s k)) = tx_log (core_env k) @ [syn_ack_of s isn]"
proof -
  have "find_listener (sg_dst_port s) k \<noteq> None"
  proof -
    obtain i where "find (\<lambda>i. lst_ports k ! i = 0) [0..<MAX_LISTENERS_PER_CORE] = Some i"
      using assms(6) by (cases "find (\<lambda>i. lst_ports k ! i = 0) [0..<MAX_LISTENERS_PER_CORE]") (auto simp: find_index(2))
    then show ?thesis using find_index(1) by (fastforce simp: assms(2) find_listener_def listener_find_def)
  qed
  from admit_syn_succeeds [OF assms(1) this assms(9-12)]
  have "\<exists>i isn. half_open s isn i (admit_syn s None k) \<and> tx_log (core_env (admit_syn s None k)) = tx_log (core_env k) @ [syn_ack_of s isn]"
    by metis
  moreover have "receive_segment s k = admit_syn s None k"
    using assms(2-5,8) by (simp add: receive_segment_def receive_syn_def)
  ultimately show ?thesis by simp
qed

theorem syn_to_port_zero_admitted_witness:
  "\<exists>i isn. half_open (demo_syn 0) isn i (receive_segment (demo_syn 0) demo_core)"
proof -
  have d: "sg_dst_port (demo_syn 0) = 0" by (simp add: demo_syn_def)
  have "\<exists>i<MAX_LISTENERS_PER_CORE. lst_ports demo_core ! i = 0" by (rule exI [of _ 0]) (simp add: demo_core_def core_new_def MAX_LISTENERS_PER_CORE_def)
  moreover have "all_slots (\<lambda>c. state c \<noteq> Listen) demo_core" by (simp add: all_slots_def demo_core_def core_new_def tcb_new_def)
  moreover have "mac_known (core_env demo_core) (sg_src_ip (demo_syn 0))" "txbuf_results (core_env demo_core) = []"
    by (simp_all add: demo_core_def core_new_def demo_env_def)
  ultimately show ?thesis
    using syn_to_port_zero_admitted [OF demo_core_ok d has_flag_simps _ _ find_tuple_none(1) demo_core_room] by blast
qed

lemma ack_transition_fields:
  "snd_wnd (conns (ack_transition s adv i k) i) = snd_wnd (conns k i)" "snd_wl1 (conns (ack_transition s adv i k) i) = snd_wl1 (conns k i)"
  "state (conns k i) = Established \<Longrightarrow> state (conns (ack_transition s adv i k) i) = Established"
  by (simp_all add: ack_transition_def Let_def deliver_tcp_ready_frame upd_slot_def)

lemma established_window:
  assumes l: "lookup_segment g k = Some i" and st: "state (conns k i) = Established" and f: "has_flag TCP_ACK g" "\<not> has_flag TCP_RST g"
  shows "seq_lt (snd_nxt (conns k i)) (sg_ack g) \<Longrightarrow> conns (receive_segment g k) = conns k"
    "\<not> seq_lt (snd_nxt (conns k i)) (sg_ack g) \<Longrightarrow>
       snd_wnd (conns (receive_segment g k) i) = snd_wnd (ack_window g (conns k i)) \<and> snd_wl1 (conns (receive_segment g k) i) = snd_wl1 (ack_window g (conns k i))
       \<and> (\<not> has_flag TCP_FIN g \<longrightarrow> state (conns (receive_segment g k) i) = Established)"
proof -
  have r: "receive_segment g k = receive_synchronized g i k" using l st f by (intro receive_synchronized_cases) simp_all
  show "conns (receive_segment g k) = conns k" if "seq_lt (snd_nxt (conns k i)) (sg_ack g)"
    unfolding r using that f by (simp add: receive_synchronized_def process_ack_def Let_def)
      (rule send_challenge_ack_frame [of g "snd_nxt (conns k i)" "rcv_nxt (conns k i)" "as_u16 (rx_free (conns k i))" k], simp)
  assume ok: "\<not> seq_lt (snd_nxt (conns k i)) (sg_ack g)"
  have "state (conns k i) \<noteq> LastAck" using st by simp
  from receive_acked [OF f(1) ok this] obtain d where k': "receive_segment g k = on_conn i (process_rest (state (conns k i)) g)
    (on_conn i (ack_recovery g (snd_una (conns k i)) d) (ack_transition g (seq_lt (snd_una (conns k i)) (sg_ack g)) i (upd_slot i (ack_window g) k)))"
    unfolding r by blast
  have u: "conns (upd_slot i (ack_window g) k) i = ack_window g (conns k i)" by (simp add: upd_slot_def)
  show "snd_wnd (conns (receive_segment g k) i) = snd_wnd (ack_window g (conns k i)) \<and> snd_wl1 (conns (receive_segment g k) i) = snd_wl1 (ack_window g (conns k i))
      \<and> (\<not> has_flag TCP_FIN g \<longrightarrow> state (conns (receive_segment g k) i) = Established)"
    unfolding k' by (simp add: on_conn_def ack_transition_fields u process_rest_established st)
qed

text \<open>C37: A forged window sticks. The receive path checks the sequence number of an acknowledgement only against the last window
  update, not against the receive window. So a segment with any sequence number in the half of the space ahead of the last update
  that repeats the current acknowledgement and announces window 0 closes the send window of an established connection, and
  afterwards no segment of the peer with an earlier sequence number opens it again.\<close>

theorem forged_window_sticks:
  assumes "lookup_segment f k = Some i" and "state (conns k i) = Established"
    and "has_flag TCP_ACK f" "\<not> has_flag TCP_RST f" "\<not> has_flag TCP_FIN f" and "sg_window f = 0"
    and "sg_ack f = snd_una (conns k i)" "\<not> seq_lt (snd_nxt (conns k i)) (snd_una (conns k i))" and "seq_lt (snd_wl1 (conns k i)) (sg_seq f)"
  shows "let k' = receive_segment f k
    in state (conns k' i) = Established \<and> usable_window (conns k' i) = 0
      \<and> (\<forall>g. lookup_segment g k' = Some i \<and> has_flag TCP_ACK g \<and> \<not> has_flag TCP_RST g \<and> seq_lt (sg_seq g) (sg_seq f)
            \<and> sg_seq g \<noteq> sg_seq f + 0x80000000 \<longrightarrow> usable_window (conns (receive_segment g k') i) = 0)"
proof -
  define k' where "k' = receive_segment f k"
  have e: "\<not> seq_lt (snd_nxt (conns k i)) (sg_ack f)" using assms(7,8) by simp
  note w = established_window(2) [OF assms(1-4) e, folded k'_def]
  have k': "snd_wnd (conns k' i) = 0" "snd_wl1 (conns k' i) = sg_seq f" "state (conns k' i) = Established"
    using w assms(5,6,9) by (simp_all add: ack_window_def as_u32_def)
  have "snd_wnd (conns (receive_segment g k') i) = 0"
    if g: "lookup_segment g k' = Some i" "has_flag TCP_ACK g" "\<not> has_flag TCP_RST g" "seq_lt (sg_seq g) (sg_seq f)" "sg_seq g \<noteq> sg_seq f + 0x80000000" for g
  proof -
    have "\<not> seq_lt (sg_seq f) (sg_seq g)" "sg_seq g \<noteq> sg_seq f" using seq_lt_asym [OF g(4,5)] g(4) by auto
    then have "ack_window g (conns k' i) = conns k' i" using k'(2) by (simp add: ack_window_def)
    then show ?thesis using established_window [OF g(1) k'(3) g(2,3)] k'(1) by (cases "seq_lt (snd_nxt (conns k' i)) (sg_ack g)") simp_all
  qed
  then show ?thesis unfolding Let_def k'_def [symmetric] using k' by (auto simp: usable_window_def)
qed

text \<open>A core with one established connection that has sent up to 500 and whose last window came with sequence number 900.\<close>

definition demo_open :: core where
  "demo_open = upd_slot 0 (\<lambda>c. c\<lparr>state := Established, remote_ip := V4 0xC0A80102, remote_port := 40000, local_port := 80,
     snd_una := 500, snd_nxt := 500, snd_wl1 := 900, snd_wnd := 65535, cwnd := 14600\<rparr>) (demo_core\<lparr>nsegs := 1\<rparr>)"

lemma demo_open_lookup: "lookup_segment (demo_ack sq ak fl) demo_open = Some 0" "state (conns demo_open 0) = Established"
proof -
  have c: "conns demo_open j = (if j = 0 then tcb_new\<lparr>state := Established, remote_ip := V4 0xC0A80102, remote_port := 40000, local_port := 80,
     snd_una := 500, snd_nxt := 500, snd_wl1 := 900, snd_wnd := 65535, cwnd := 14600\<rparr> else tcb_new)" for j
    by (simp add: demo_open_def upd_slot_def demo_core_def core_new_def)
  have cap: "pool_capacity demo_open = 64"
    by (simp add: demo_open_def upd_slot_def demo_core_def core_new_def pool_capacity_def tcp_consts width_simps)
  have "tcp_linear_find (V4 0xC0A80102) 40000 80 demo_open = Some 0"
    unfolding tcp_linear_find_def by (rule find_only) (simp_all add: cap c tcb_new_def Let_def)
  then show "lookup_segment (demo_ack sq ak fl) demo_open = Some 0"
    using hidx.find_empty by (simp add: lookup_segment_def demo_ack_def demo_syn_def) (simp add: demo_open_def upd_slot_def demo_core_def core_new_def)
  show "state (conns demo_open 0) = Established" by (simp add: c)
qed

theorem forged_window_sticks_witness:
  "usable_window (conns demo_open 0) = 14600
    \<and> usable_window (conns (receive_segment ((demo_ack 0x40000000 500 TCP_ACK)\<lparr>sg_window := 0\<rparr>) demo_open) 0) = 0"
proof -
  let ?f = "(demo_ack 0x40000000 500 TCP_ACK)\<lparr>sg_window := 0\<rparr>"
  have "lookup_segment ?f demo_open = lookup_segment (demo_ack 0x40000000 500 TCP_ACK) demo_open" by (simp add: lookup_segment_def cong: option.case_cong)
  then have l: "lookup_segment ?f demo_open = Some 0" by (simp add: demo_open_lookup)
  have fl: "has_flag TCP_ACK ?f" "\<not> has_flag TCP_RST ?f" "\<not> has_flag TCP_FIN ?f" "sg_window ?f = 0"
    by (simp_all add: has_flag_def demo_ack_def TCP_ACK_def TCP_RST_def TCP_FIN_def)
  have c: "sg_ack ?f = snd_una (conns demo_open 0)" "\<not> seq_lt (snd_nxt (conns demo_open 0)) (snd_una (conns demo_open 0))"
    "seq_lt (snd_wl1 (conns demo_open 0)) (sg_seq ?f)" "usable_window (conns demo_open 0) = 14600"
    using seq_lt_offsets [of 900 "0x40000000" 0] by (simp_all add: demo_open_def upd_slot_def demo_ack_def usable_window_def flight_def)
  show ?thesis using forged_window_sticks [OF l demo_open_lookup(2) fl c(1-3)] c(4) by (simp add: Let_def)
qed

end
