(* ===== verification/Tcp_Stream.thy ===== *)
theory Tcp_Stream
  imports Tcp_Handshake
begin

text \<open>
  The receiving side as a whole delivers the peer's byte stream. \<open>S\<close> is the stream, \<open>L\<close> its length and \<open>irs\<close> the sequence
  number of its first byte. A segment is genuine when its payload is the part of the stream its sequence number
  names and its FIN, if it has one, is at the end of the stream; segments may be lost, repeated, reordered and cut anywhere. The
  invariant of one connection says that the bytes handed to the application, then the stashed chunk, then the ring are
  a prefix of the stream, and that the out-of-order queue holds later parts of it.
\<close>

section \<open>Positions\<close>

definition rx_payload :: "rx_seg \<Rightarrow> bytes" where
  "rx_payload s = concat (payload_parts (sg_data_offset s) (sg_parts s))"

definition unread :: "'a tcb_scheme \<Rightarrow> bytes" where
  "unread c = (case pending_chunk c of None \<Rightarrow> [] | Some b \<Rightarrow> b) @ rx_content c"

text \<open>Within half of the sequence space of the position \<open>p\<close>, as the lifetime of segments guarantees.\<close>

definition near :: "nat \<Rightarrow> nat \<Rightarrow> bool" where
  "near p o' \<longleftrightarrow> o' < p + 2147483648 \<and> p < o' + 2147483648"

definition genuine_at :: "(nat \<Rightarrow> u8) \<Rightarrow> nat \<Rightarrow> u32 \<Rightarrow> nat \<Rightarrow> rx_seg \<Rightarrow> bool" where
  "genuine_at S L irs p s \<longleftrightarrow> (\<exists>o'. near p o' \<and> sg_seq s = irs + of_nat o' \<and> length (rx_payload s) = sg_payload_len s
     \<and> sg_payload_len s < 65536 \<and> rx_payload s = map S [o'..<o' + sg_payload_len s]
     \<and> (has_flag TCP_FIN s \<longrightarrow> o' + sg_payload_len s = L))"

definition synced :: "(nat \<Rightarrow> u8) \<Rightarrow> u32 \<Rightarrow> nat \<Rightarrow> 'a tcb_scheme \<Rightarrow> bool" where
  "synced S irs p c \<longleftrightarrow> rcv_nxt c = irs + of_nat p \<and> ooo_inv (rcv_nxt c) (ooo c) \<and> q_genuine S p (rcv_nxt c) (ooo c)"

definition stream_inv :: "(nat \<Rightarrow> u8) \<Rightarrow> nat \<Rightarrow> u32 \<Rightarrow> bytes \<Rightarrow> nat \<Rightarrow> 'a tcb_scheme \<Rightarrow> bool" where
  "stream_inv S L irs used p c \<longleftrightarrow> rx_inv c \<and> state c \<notin> {Closed, Listen, SynSent} \<and> used @ unread c = map S [0..<p]
     \<and> (state c \<in> {SynReceived, Established, FinWait1, FinWait2} \<longrightarrow> synced S irs p c)
     \<and> (state c \<in> {CloseWait, LastAck, TimeWait} \<longrightarrow> p = L)"

lemma unread_cong:
  assumes "rx_ring c' = rx_ring c" "rx_head c' = rx_head c" "rx_tail c' = rx_tail c" "rx_used c' = rx_used c" "pending_chunk c' = pending_chunk c"
  shows "unread c' = unread c" "rx_inv c' = rx_inv c"
  using rx_fields_cong [OF assms(1-4)] assms(5) by (simp_all add: unread_def)

lemma synced_cong: "rcv_nxt c' = rcv_nxt c \<Longrightarrow> ooo c' = ooo c \<Longrightarrow> synced S irs p c' = synced S irs p c"
  by (simp add: synced_def)

lemma stream_inv_cong:
  assumes "rx_ring c' = rx_ring c" "rx_head c' = rx_head c" "rx_tail c' = rx_tail c" "rx_used c' = rx_used c" "pending_chunk c' = pending_chunk c"
    "state c' = state c" "rcv_nxt c' = rcv_nxt c" "ooo c' = ooo c"
  shows "stream_inv S L irs used p c' = stream_inv S L irs used p c"
  using unread_cong [OF assms(1-5)] assms(6-8) by (simp add: stream_inv_def synced_def)

lemma stream_inv_view: "rx_view c' = rx_view c \<Longrightarrow> stream_inv S L irs used p c' = stream_inv S L irs used p c"
  by (rule stream_inv_cong) (simp_all add: rx_view_def)

lemma concat_payload_parts: "concat (payload_parts n bs) = drop n (concat bs)"
  by (induction n bs rule: payload_parts.induct) simp_all

text \<open>The payload of a segment read from the wire has the length the code computes.\<close>

lemma read_segment_payload: "read_segment src dst parts = Some s \<Longrightarrow> length (rx_payload s) = sg_payload_len s"
  by (auto simp: read_segment_def rx_payload_def concat_payload_parts Let_def split: list.splits option.splits)

section \<open>Delivery\<close>

lemma deliver_parts_correct:
  assumes "rx_inv c" "deliver_parts bs c = (n, c')"
  shows "rx_inv c' \<and> n = (if rx_ring c = None then 0 else min (length (concat bs)) (rx_free c))
    \<and> rx_content c' = rx_content c @ take n (concat bs)"
  using assms
proof (induction bs arbitrary: c n c')
  case (Cons b bs)
  obtain n1 c1 where p: "rx_ring_push b c = (n1, c1)" by fastforce
  obtain n2 c2 where q: "deliver_parts bs c1 = (n2, c2)" by fastforce
  have n: "n = n1 + n2" "c' = c2" using Cons.prems(2) p q by (simp_all add: deliver_payload_def)
  note a = rx_ring_push_correct [OF Cons.prems(1) p]
  have r: "rx_ring c1 = None \<longleftrightarrow> rx_ring c = None" using p by (auto simp: rx_ring_push_eq Let_def split: option.splits if_splits)
  have free: "rx_free c1 = rx_free c - n1"
    using length_rx_content [OF a(1)] length_rx_content [OF Cons.prems(1)] a(2,4) by (simp add: rx_free_def)
  note IH = Cons.IH [OF a(1) q]
  have n2: "n1 < length b \<Longrightarrow> n2 = 0" using IH r free a(3) by (auto split: if_splits)
  have "take n (concat (b # bs)) = take n1 b @ take n2 (concat bs)"
    using n2 a(4) by (cases "n1 < length b") (simp_all add: n)
  moreover have "n = (if rx_ring c = None then 0 else min (length (concat (b # bs))) (rx_free c))"
  proof -
    have "min x f + min y (f - min x f) = min (x + y) f" for x y f :: nat by (auto simp: min_def)
    then show ?thesis using IH r free a(3) by (simp add: n)
  qed
  ultimately show ?case using IH a(2) by (simp add: n)
qed simp

lemma deliver_in_order_correct:
  assumes c: "rx_inv c" and d: "deliver_in_order s c = (n, c')" and len: "length (rx_payload s) = sg_payload_len s"
  shows "rx_inv c'" "unread c' = unread c @ take n (rx_payload s)" "n \<le> sg_payload_len s"
    "rcv_nxt c' = rcv_nxt c" "ooo c' = ooo c" "state c' = state c"
    "rx_ring c \<noteq> None \<Longrightarrow> sg_payload_len s \<le> rx_free c \<Longrightarrow> 0 < sg_payload_len s \<Longrightarrow> n = sg_payload_len s"
proof -
  note dp = deliver_parts_keeps [where bs = "payload_parts (sg_data_offset s) (sg_parts s)" and c = c]
  have k: "rcv_nxt c' = rcv_nxt c \<and> ooo c' = ooo c \<and> state c' = state c"
    using d dp [of rcv_nxt] dp [of ooo] dp [of state] by (auto simp: deliver_in_order_def split: if_splits option.splits)
  then show "rcv_nxt c' = rcv_nxt c" "ooo c' = ooo c" "state c' = state c" by simp_all
  have pay: "rx_payload s = drop (sg_data_offset s) (concat (sg_parts s))" by (simp add: rx_payload_def concat_payload_parts)
  have "rx_inv c' \<and> unread c' = unread c @ take n (rx_payload s) \<and> n \<le> sg_payload_len s
    \<and> (rx_ring c \<noteq> None \<and> sg_payload_len s \<le> rx_free c \<and> 0 < sg_payload_len s \<longrightarrow> n = sg_payload_len s)"
  proof (cases "chunk_wanted c \<and> pending_chunk c = None \<and> rx_used c = 0 \<and> length (sg_parts s) = 1")
    case True
    then obtain b where b: "sg_parts s = [b]" by (auto simp: length_Suc_conv)
    have e: "rx_content c = []" using length_rx_content [OF c] True by simp
    have u: "rx_content (c\<lparr>pending_chunk := x, chunk_wanted := y\<rparr>) = rx_content c" "rx_inv (c\<lparr>pending_chunk := x, chunk_wanted := y\<rparr>) = rx_inv c" for x y
      by (rule rx_fields_cong; simp)+
    show ?thesis
    proof (cases "sg_data_offset s \<le> length b")
      case fits: True
      then have "n = sg_payload_len s" "c' = c\<lparr>pending_chunk := Some (take (sg_payload_len s) (drop (sg_data_offset s) b)), chunk_wanted := False\<rparr>"
        using d True b by (auto simp add: deliver_in_order_def narrow_def)
      then show ?thesis using c True e u len pay b by (simp add: unread_def)
    next
      case False
      then show ?thesis using d True b c len pay by (auto simp: deliver_in_order_def narrow_def)
    qed
  next
    case False
    then have dl: "deliver_parts (payload_parts (sg_data_offset s) (sg_parts s)) c = (n, c')" using d by (simp only: deliver_in_order_def if_False)
    have "pending_chunk c' = pending_chunk c" using dp [of pending_chunk] dl by simp
    then show ?thesis using deliver_parts_correct [OF c dl] len by (simp add: unread_def rx_payload_def)
  qed
  then show "rx_inv c'" "unread c' = unread c @ take n (rx_payload s)" "n \<le> sg_payload_len s"
    "rx_ring c \<noteq> None \<Longrightarrow> sg_payload_len s \<le> rx_free c \<Longrightarrow> 0 < sg_payload_len s \<Longrightarrow> n = sg_payload_len s" by simp_all
qed

lemma drain_buffered_correct:
  assumes "rx_inv c" "ooo_inv b (ooo c)" "rcv_nxt c = b + of_nat n" "n < 2147483648" "q_genuine S p b (ooo c)" "drain_buffered c = (d, c')"
  shows "rx_inv c'" "unread c' = unread c @ map S [p + n ..< p + n + d]" "rcv_nxt c' = rcv_nxt c + of_nat d"
    "ooo_inv (rcv_nxt c') (ooo c')" "q_genuine S (p + n + d) (rcv_nxt c') (ooo c')" "d < RX_RING_BYTES" "state c' = state c"
proof -
  have k: "pending_chunk c' = pending_chunk c" "state c' = state c"
    using assms(6) drain_ooo_loop_keeps [where F = pending_chunk and c = c and d = 0] drain_ooo_loop_keeps [where F = state and c = c and d = 0]
    by (auto simp: drain_buffered_def drain_ooo_def split: if_splits)
  have "rx_inv c' \<and> rx_content c' = rx_content c @ map S [p + n ..< p + n + d] \<and> rcv_nxt c' = rcv_nxt c + of_nat d
    \<and> ooo_inv (rcv_nxt c') (ooo c') \<and> q_genuine S (p + n + d) (rcv_nxt c') (ooo c')"
  proof (cases "ooo_is_empty (ooo c)")
    case True
    then have "d = 0" "c' = c" "segs (ooo c) = []" using assms(6) by (simp_all add: drain_buffered_def ooo_is_empty_def)
    moreover have "ooo_inv (b + of_nat n) (ooo c)" "q_genuine S (p + n) (b + of_nat n) (ooo c)"
      using ooo_inv_advance [OF assms(2), of n] q_genuine_advance [OF assms(5), of n] calculation(3) by simp_all
    ultimately show ?thesis using assms(1,3) by simp
  next
    case False
    then have "drain_ooo c = (d, c')" using assms(6) by (simp add: drain_buffered_def)
    from drain_ooo_correct [OF assms(1-5) this] show ?thesis by simp
  qed
  then have r: "rx_inv c'" and cont: "rx_content c' = rx_content c @ map S [p + n ..< p + n + d]"
    and n: "rcv_nxt c' = rcv_nxt c + of_nat d" and q: "ooo_inv (rcv_nxt c') (ooo c')" "q_genuine S (p + n + d) (rcv_nxt c') (ooo c')" by blast+
  show "rx_inv c'" "rcv_nxt c' = rcv_nxt c + of_nat d" "ooo_inv (rcv_nxt c') (ooo c')" "q_genuine S (p + n + d) (rcv_nxt c') (ooo c')"
    by (rule r n q)+
  show "unread c' = unread c @ map S [p + n ..< p + n + d]" using cont k(1) by (simp add: unread_def)
  have "length (rx_content c') = rx_used c'" "rx_used c' < RX_RING_BYTES"
    using length_rx_content [OF r] r by (simp_all add: rx_inv_def)
  then show "d < RX_RING_BYTES" by (simp add: cont)
  show "state c' = state c" by (rule k)
qed

section \<open>One segment\<close>

lemma mod_mod_close:
  assumes "a mod n = b mod n" "a < b + n" "b < a + n"
  shows "a = (b :: nat)"
proof -
  have "x = y" if "x mod n = y mod n" "x < y + n" "y \<le> x" for x y :: nat
    using that dvd_imp_le [of n "x - y"] by (cases "x = y") (auto simp: mod_eq_dvd_iff_nat)
  then show ?thesis using assms by (metis linear)
qed

lemma near_unat:
  assumes "near p o'"
  shows "(irs + of_nat o' = irs + (of_nat p :: u32)) \<longleftrightarrow> o' = p" "seq_lt (irs + of_nat o') (irs + of_nat p) \<longleftrightarrow> o' < p"
    "p \<le> o' \<Longrightarrow> unat ((irs + of_nat o') - (irs + of_nat p :: u32)) = o' - p"
proof -
  show s: "seq_lt (irs + of_nat o') (irs + of_nat p) \<longleftrightarrow> o' < p" using assms by (intro seq_lt_offsets) (simp_all add: near_def)
  show "p \<le> o' \<Longrightarrow> unat ((irs + of_nat o') - (irs + of_nat p :: u32)) = o' - p" using assms by (intro unat_of_nat_diff) (auto simp: near_def)
  have "seq_lt (irs + of_nat p) (irs + of_nat o') \<longleftrightarrow> p < o'" using assms by (intro seq_lt_offsets) (simp_all add: near_def)
  then show "(irs + of_nat o' = irs + (of_nat p :: u32)) \<longleftrightarrow> o' = p" using s seq_lt_irrefl by (metis nat_neq_iff)
qed

lemma process_in_order_stream:
  assumes i: "stream_inv S L irs used p c" and y: "synced S irs p c" and st: "state c \<in> {SynReceived, Established, FinWait1, FinWait2}"
    and len: "length (rx_payload s) = sg_payload_len s" "sg_payload_len s < 65536" and pay: "rx_payload s = map S [p..<p + sg_payload_len s]"
  shows "\<exists>p'. p \<le> p' \<and> p' < p + 131072 \<and> stream_inv S L irs used p' (process_in_order s c) \<and> state (process_in_order s c) = state c
    \<and> (rx_ring c \<noteq> None \<and> sg_payload_len s \<le> rx_free c \<and> 0 < sg_payload_len s \<longrightarrow> p + sg_payload_len s \<le> p')"
proof -
  obtain n c1 where d: "deliver_in_order s c = (n, c1)" by fastforce
  define c2 where "c2 = c1\<lparr>rcv_nxt := rcv_nxt c1 + of_nat n\<rparr>"
  obtain m c3 where o': "drain_buffered c2 = (m, c3)" by fastforce
  have rx: "rx_inv c" "used @ unread c = map S [0..<p]" using i by (simp_all add: stream_inv_def)
  note a = deliver_in_order_correct [OF rx(1) d len(1)]
  have c2: "rx_inv c2" "unread c2 = unread c1" "ooo c2 = ooo c" "rcv_nxt c2 = rcv_nxt c + of_nat n" "state c2 = state c"
    using unread_cong [of c2 c1] a(1,4-6) by (simp_all add: c2_def)
  have y': "ooo_inv (rcv_nxt c) (ooo c2)" "q_genuine S p (rcv_nxt c) (ooo c2)" "rcv_nxt c = irs + of_nat p" using y unfolding synced_def c2(3) by blast+
  have "n < 2147483648" using a(3) len(2) by simp
  note b = drain_buffered_correct [OF c2(1) y'(1) c2(4) this y'(2) o']
  have v: "rx_view (process_in_order s c) = rx_view c3"
    by (simp add: process_in_order_def d o' c2_def [symmetric] Let_def)
  have "take n (rx_payload s) = map S [p..<p + n]" using a(3) by (simp add: pay take_map)
  then have u: "used @ unread c3 = map S [0..<p + n + m]"
    using rx(2) b(2) c2(2) a(2) upt_add_eq_append [of 0 p "n + m"] upt_add_eq_append [of p "p + n" m]
    by (simp add: add.assoc)
  have "synced S irs (p + n + m) c3" using b(3-5) c2(4) y'(3) by (simp add: synced_def add.assoc)
  then have "stream_inv S L irs used (p + n + m) c3" using b(1,7) u st c2(5) by (simp add: stream_inv_def) auto
  moreover have "n + m < 131072" using a(3) len(2) b(6) by (simp add: RX_RING_BYTES_def)
  moreover have "state (process_in_order s c) = state c" using v b(7) c2(5) by (simp add: rx_view_def)
  ultimately show ?thesis using stream_inv_view [OF v] a(7) by (intro exI [of _ "p + n + m"]) auto
qed

lemma process_data_stream:
  assumes i: "stream_inv S L irs used p c" and g: "genuine_at S L irs p s"
  shows "\<exists>p'. p \<le> p' \<and> p' < p + 131072 \<and> stream_inv S L irs used p' (process_data s c) \<and> state (process_data s c) = state c"
proof -
  obtain q where q: "near p q" "sg_seq s = irs + of_nat q" "length (rx_payload s) = sg_payload_len s" "sg_payload_len s < 65536"
    "rx_payload s = map S [q..<q + sg_payload_len s]" using g by (auto simp: genuine_at_def)
  have stay: ?thesis if "rx_view (process_data s c) = rx_view c"
    using i stream_inv_view [OF that] that by (intro exI [of _ p]) (simp add: rx_view_def)
  show ?thesis
  proof (cases "sg_payload_len s > 0 \<and> (state c = Established \<or> state c = FinWait1 \<or> state c = FinWait2)")
    case True
    then have y: "synced S irs p c" and st: "state c \<in> {SynReceived, Established, FinWait1, FinWait2}" using i by (auto simp: stream_inv_def)
    then have r: "rcv_nxt c = irs + of_nat p" by (simp add: synced_def)
    consider (now) "q = p" | (old) "q < p" | (early) "p < q" by linarith
    then show ?thesis
    proof cases
      case now
      then have "process_data s c = process_in_order s c" using True q(2) r by (simp add: process_data_def)
      then show ?thesis using process_in_order_stream [OF i y st q(3,4)] q(5) now by auto
    next
      case old
      then have "process_data s c = emit_ack s c" using True q(2) r near_unat(1,2) [OF q(1), of irs] by (simp add: process_data_def)
      then show ?thesis by (intro stay) simp
    next
      case early
      then have e: "process_data s c = process_early s c" using True q(2) r near_unat(1,2) [OF q(1), of irs] by (simp add: process_data_def)
      obtain ok e' where al: "try_alloc (cenv c) = (ok, e')" by fastforce
      obtain acc z where z: "ooo_insert (rcv_nxt c) (sg_seq s) (rx_payload s) (ooo c) = (acc, z)" by fastforce
      define c2 where "c2 = c\<lparr>cenv := e', ooo := (if ok then z else ooo c)\<rparr>"
      have v: "rx_view (process_data s c) = rx_view c2"
        using z by (simp add: e process_early_def al Let_def c2_def rx_payload_def rx_view_def emit_ack_def)
      have "unat (sg_seq s - rcv_nxt c) = q - p" using near_unat(3) [OF q(1), of irs] early by (simp add: q(2) r)
      then have "rx_payload s = map S [p + unat (sg_seq s - rcv_nxt c)..<p + unat (sg_seq s - rcv_nxt c) + length (rx_payload s)]"
        using early q(3,5) by simp
      then have "q_genuine S p (rcv_nxt c) z" using y unfolding synced_def by (intro q_genuine_insert [OF _ _ z]) blast+
      moreover have "ooo_inv (rcv_nxt c) z" using y unfolding synced_def by (intro ooo_insert_inv [OF _ z]) blast
      ultimately have "synced S irs p c2" using y by (cases ok) (simp_all add: synced_def c2_def cong: conj_cong)
      then have "stream_inv S L irs used p c2" using i unread_cong [of c2 c] by (simp add: stream_inv_def c2_def)
      moreover have "state (process_data s c) = state c" using v by (simp add: rx_view_def c2_def)
      ultimately show ?thesis using stream_inv_view [OF v] by (intro exI [of _ p]) simp
    qed
  next
    case False
    then have "process_data s c = c" by (simp only: process_data_def if_False)
    then show ?thesis by (intro stay) simp
  qed
qed

lemma process_fin_stream:
  assumes i: "stream_inv S L irs used p c" and g: "genuine_at S L irs p0 s" and p: "p0 \<le> p" "p < p0 + 131072"
  shows "stream_inv S L irs used p (process_fin s c)"
proof (cases "has_flag TCP_FIN s \<and> sg_seq s + of_nat (sg_payload_len s) = rcv_nxt c")
  case True
  obtain q where q: "near p0 q" "sg_seq s = irs + of_nat q" "sg_payload_len s < 65536" "q + sg_payload_len s = L"
    using g True by (auto simp: genuine_at_def)
  have L: "p = L" if "synced S irs p c"
  proof -
    have lt: "L < p + 4294967296" "p < L + 4294967296" using q p by (auto simp: near_def)
    have "irs + of_nat L = irs + of_nat p" using that True q(2,4) by (simp add: synced_def add.assoc flip: of_nat_add)
    then have "of_nat L = (of_nat p :: u32)" by simp
    then have "L mod 4294967296 = p mod 4294967296" by (simp add: word_of_nat_eq_iff take_bit_nat_def)
    then show ?thesis using lt by (metis mod_mod_close)
  qed
  have v: "unread (process_fin s c) = unread c" "rx_inv (process_fin s c) = rx_inv c"
    using True by (intro unread_cong; simp add: process_fin_def Let_def bare_ack_def wake_receiver_def arm_time_wait_def split: TcpState.splits)+
  have st: "state (process_fin s c) = (case state c of Established \<Rightarrow> CloseWait | SynReceived \<Rightarrow> CloseWait | FinWait1 \<Rightarrow> TimeWait | FinWait2 \<Rightarrow> TimeWait | x \<Rightarrow> x)"
    using True by (simp add: process_fin_def Let_def bare_ack_def wake_receiver_def arm_time_wait_def split: TcpState.splits)
  show ?thesis using i L v st by (auto simp: stream_inv_def split: TcpState.splits)
qed (use i in \<open>auto simp: process_fin_def\<close>)

text \<open>What an established connection does with the FIN of a segment.\<close>

lemma process_fin_established:
  fixes s
  assumes "state c = Established"
  defines "fin \<equiv> has_flag TCP_FIN s \<and> sg_seq s + of_nat (sg_payload_len s) = rcv_nxt c"
  shows "state (process_fin s c) = (if fin then CloseWait else Established)"
    "rcv_nxt (process_fin s c) = rcv_nxt c + (if fin then 1 else 0)"
  using assms by (simp_all add: process_fin_def Let_def bare_ack_def wake_receiver_def)

lemma process_rest_view: "rx_view (refresh_reader (process_time_wait prev s c)) = rx_view c"
proof -
  have t: "rx_view (process_time_wait prev s c) = rx_view c"
    by (simp add: process_time_wait_def Let_def arm_time_wait_def bare_ack_def) (simp add: rx_view_def)
  have r: "rx_view (refresh_reader c) = rx_view c" for c
    by (simp add: refresh_reader_def Let_def maybe_send_window_update_def)
  show ?thesis using t r by simp
qed

lemma process_rest_after:
  assumes "stream_inv S L irs used p c"
  shows "stream_inv S L irs used p (refresh_reader (process_time_wait prev s c))"
  using assms stream_inv_view [OF process_rest_view] by simp

lemma process_rest_stream:
  assumes "stream_inv S L irs used p c" and "genuine_at S L irs p s"
  shows "\<exists>p'. p \<le> p' \<and> p' < p + 131072 \<and> stream_inv S L irs used p' (process_rest prev s c)"
proof -
  obtain p' where p: "p \<le> p'" "p' < p + 131072" "stream_inv S L irs used p' (process_data s c)" using process_data_stream [OF assms] by blast
  have "stream_inv S L irs used p' (process_rest prev s c)"
    unfolding process_rest_def by (rule process_rest_after [OF process_fin_stream [OF p(3) assms(2) p(1,2)]])
  then show ?thesis using p by blast
qed

section \<open>The connection in its core\<close>

lemma free_connection_closed: "state (conns (free_connection i k) i) = Closed"
  by (simp add: free_connection_def Let_def free_slot_def reset_preserving_def tcb_new_def)

lemma send_challenge_ack_conns: "conns (send_challenge_ack s a b w k) = conns k"
proof -
  obtain t l e where "send_challenge_ack s a b w k = k\<lparr>challenge_tokens := t, challenge_last_ms := l, core_env := e\<rparr>" by (rule send_challenge_ack_frame)
  then show ?thesis by simp
qed

lemma ack_transition_conn:
  "conns (ack_transition s adv i k) i = (let c = conns k i in
     if state c = SynReceived \<and> adv then c\<lparr>state := Established, snd_una := sg_ack s\<rparr>
     else if state c = FinWait1 \<and> sg_ack s = snd_nxt c
     then c\<lparr>state := FinWait2, snd_una := sg_ack s, lifecycle_deadline_ms := 0, fin_retx_count := 0\<rparr>
     else if adv then c\<lparr>snd_una := sg_ack s\<rparr> else c)"
  by (simp add: ack_transition_def Let_def deliver_tcp_ready_frame upd_slot_def)

lemma stream_inv_advance:
  assumes "stream_inv S L irs used p c" and "rx_ring c' = rx_ring c" "rx_head c' = rx_head c" "rx_tail c' = rx_tail c" "rx_used c' = rx_used c"
    "pending_chunk c' = pending_chunk c" "rcv_nxt c' = rcv_nxt c" "ooo c' = ooo c"
    and "state c' = state c \<or> (state c, state c') \<in> {(SynReceived, Established), (Established, FinWait1), (FinWait1, FinWait2), (CloseWait, LastAck)}"
  shows "stream_inv S L irs used p c'"
proof -
  have y: "synced S irs p c' = synced S irs p c" by (rule synced_cong [OF assms(7,8)])
  show ?thesis using assms(1,9) unfolding stream_inv_def unread_cong [OF assms(2-6)] y by (cases "state c"; cases "state c'"; simp)
qed

lemma stream_inv_acked:
  assumes "stream_inv S L irs used p (conns k i)"
  shows "stream_inv S L irs used p (conns (ack_transition s adv i (upd_slot i (ack_window s) k)) i)"
  by (rule stream_inv_advance [OF assms]) (simp_all add: ack_transition_conn Let_def upd_slot_def ack_window_def)

lemma receive_segment_stream:
  assumes i: "stream_inv S L irs used p (conns k i)" and g: "genuine_at S L irs p s"
    and l: "lookup_segment s k = Some i" "\<not> has_flag TCP_RST s" "\<not> has_flag TCP_SYN s"
  shows "state (conns (receive_segment s k) i) = Closed \<or> (\<exists>p'. p \<le> p' \<and> stream_inv S L irs used p' (conns (receive_segment s k) i))"
proof -
  have st: "state (conns k i) \<notin> {Closed, Listen, SynSent}" using i by (simp add: stream_inv_def)
  have r: "receive_segment s k = receive_synchronized s i k" using l st by (simp add: receive_segment_def)
  have rest: "\<exists>p'. p \<le> p' \<and> stream_inv S L irs used p' (conns (on_conn i (process_rest q s) k') i)"
    if "stream_inv S L irs used p (conns k' i)" for q k'
  proof -
    have "stream_inv S L irs used p (conn_at i k')" using that stream_inv_view [of "conn_at i k'" "conns k' i"] by simp
    from process_rest_stream [OF this g, of q] show ?thesis
      using stream_inv_view [of "tcb.truncate (process_rest q s (conn_at i k'))" "process_rest q s (conn_at i k')"] by (fastforce simp: on_conn_def)
  qed
  consider (no) "\<not> has_flag TCP_ACK s" | (ch) "has_flag TCP_ACK s" "seq_lt (snd_nxt (conns k i)) (sg_ack s)"
    | (last) "has_flag TCP_ACK s" "\<not> seq_lt (snd_nxt (conns k i)) (sg_ack s)" "state (conns k i) = LastAck" "sg_ack s = snd_nxt (conns k i)"
    | (ok) "has_flag TCP_ACK s" "\<not> seq_lt (snd_nxt (conns k i)) (sg_ack s)" "\<not> (state (conns k i) = LastAck \<and> sg_ack s = snd_nxt (conns k i))"
    by blast
  then show ?thesis
  proof cases
    case no
    then show ?thesis using rest [OF i] r by (simp add: receive_synchronized_def Let_def)
  next
    case ch
    then have "conns (receive_segment s k) = conns k"
      using send_challenge_ack_conns by (simp add: r receive_synchronized_def process_ack_def Let_def)
    then show ?thesis using i by auto
  next
    case last
    then show ?thesis by (simp add: r receive_synchronized_def process_ack_def Let_def free_connection_closed)
  next
    case ok
    define k1 where "k1 = ack_transition s (seq_lt (snd_una (conns k i)) (sg_ack s)) i (upd_slot i (ack_window s) k)"
    have "stream_inv S L irs used p (conns k1 i)" unfolding k1_def by (rule stream_inv_acked [OF i])
    then have "stream_inv S L irs used p (conns (on_conn i (ack_recovery s u d) k1) i)" for u d
      using stream_inv_view [of "tcb.truncate (ack_recovery s u d (conn_at i k1))" "conns k1 i"] by (simp add: on_conn_def)
    from rest [OF this] show ?thesis using ok
      by (auto simp: r receive_synchronized_def process_ack_def Let_def k1_def)
  qed
qed

text \<open>What the segments of the connection and the calls of its owner do to the core and to the bytes handed out so far. The
  owner does not read with \<open>recv\<close> while a chunk is stashed: chunks are taken with \<open>recv_chunk\<close>.\<close>

inductive stream_step :: "(nat \<Rightarrow> u8) \<Rightarrow> nat \<Rightarrow> u32 \<Rightarrow> nat \<Rightarrow> core \<times> bytes \<Rightarrow> core \<times> bytes \<Rightarrow> bool" for S L irs i where
  arrive: "lookup_segment s k = Some i \<Longrightarrow> \<not> has_flag TCP_RST s \<Longrightarrow> \<not> has_flag TCP_SYN s \<Longrightarrow>
    genuine_at S L irs (length u + length (unread (conns k i))) s \<Longrightarrow> stream_step S L irs i (k, u) (receive_segment s k, u)"
| recv: "pending_chunk (conns k i) = None \<Longrightarrow> rx_pop n (conn_at i k) = (out, c) \<Longrightarrow> stream_step S L irs i (k, u) (conn_put i c k, u @ out)"
| chunk: "recv_chunk (conn_at i k) = (r, c) \<Longrightarrow> stream_step S L irs i (k, u) (conn_put i c k, u @ (case r of None \<Rightarrow> [] | Some b \<Rightarrow> b))"
| want: "stream_step S L irs i (k, u) (upd_slot i (\<lambda>c. c\<lparr>chunk_wanted := w\<rparr>) k, u)"
| close: "stream_step S L irs i (k, u) (close_slot i k, u)"

definition stream_ok :: "(nat \<Rightarrow> u8) \<Rightarrow> nat \<Rightarrow> u32 \<Rightarrow> nat \<Rightarrow> core \<Rightarrow> bytes \<Rightarrow> bool" where
  "stream_ok S L irs i k u \<longleftrightarrow> state (conns k i) = Closed \<or> stream_inv S L irs u (length u + length (unread (conns k i))) (conns k i)"

lemma stream_inv_pos: "stream_inv S L irs u p c \<Longrightarrow> p = length u + length (unread c)"
  by (metis stream_inv_def length_append length_map length_upt diff_zero)

lemma stream_okI: "stream_inv S L irs u p (conns k i) \<Longrightarrow> stream_ok S L irs i k u"
  using stream_inv_pos unfolding stream_ok_def by blast

lemma rx_pop_keeps:
  assumes "rx_pop n c = (out, c')"
  shows "pending_chunk c' = pending_chunk c" "state c' = state c" "rcv_nxt c' = rcv_nxt c" "ooo c' = ooo c"
proof -
  have "c' = snd (rx_pop n c)" using assms by simp
  then show "pending_chunk c' = pending_chunk c" "state c' = state c" "rcv_nxt c' = rcv_nxt c" "ooo c' = ooo c"
    by (simp_all add: rx_pop_def Let_def maybe_send_window_update_def split: option.split)
qed

lemma stream_inv_read:
  assumes "stream_inv S L irs u p c" "rx_pop n c = (out, c')" "pending_chunk c = None"
  shows "stream_inv S L irs (u @ out) p c'"
proof -
  have r: "rx_inv c" using assms(1) by (simp add: stream_inv_def)
  have "unread c = out @ unread c'" using rx_pop_correct(2,3) [OF r assms(2)] assms(3) rx_pop_keeps(1) [OF assms(2)] by (simp add: unread_def)
  moreover have "synced S irs p c' = synced S irs p c" by (intro synced_cong rx_pop_keeps(3,4) [OF assms(2)])
  ultimately show ?thesis using assms(1) rx_pop_correct(1) [OF r assms(2)] by (simp add: stream_inv_def rx_pop_keeps(2) [OF assms(2)])
qed

lemma stream_inv_chunk:
  assumes "stream_inv S L irs u p c" "recv_chunk c = (r, c')"
  shows "stream_inv S L irs (u @ (case r of None \<Rightarrow> [] | Some b \<Rightarrow> b)) p c'"
proof (cases "pending_chunk c")
  case None
  obtain ok e where e: "try_alloc (cenv c) = (ok, e)" by fastforce
  have i: "stream_inv S L irs u p (c\<lparr>cenv := e\<rparr>)" using assms(1) stream_inv_cong [of "c\<lparr>cenv := e\<rparr>" c] by simp
  obtain out c2 where p: "rx_pop (rx_used c) (c\<lparr>cenv := e\<rparr>) = (out, c2)" by fastforce
  have "recv_chunk c = (if rx_used c = 0 then (None, c) else if \<not> ok then (None, c\<lparr>cenv := e\<rparr>) else (Some out, c2))"
    using None e p by (simp add: recv_chunk_def Let_def)
  then have rc: "(r, c') = (if rx_used c = 0 then (None, c) else if \<not> ok then (None, c\<lparr>cenv := e\<rparr>) else (Some out, c2))"
    using assms(2) by (simp only:)
  then consider "r = None" "c' = c" | "r = None" "c' = c\<lparr>cenv := e\<rparr>" | "r = Some out" "c' = c2"
    by (metis prod.inject)
  then show ?thesis
  proof cases
    case 1
    then show ?thesis using assms(1) by (simp only: option.case append_Nil2)
  next
    case 2
    show ?thesis unfolding 2 using i by (simp only: option.case append_Nil2)
  next
    case 3
    show ?thesis unfolding 3 using stream_inv_read [OF i p] None by simp
  qed
next
  case (Some b)
  then have "r = Some b" "c' = c\<lparr>pending_chunk := None\<rparr>" using assms(2) by (simp_all add: recv_chunk_def)
  moreover have "rx_content (c\<lparr>pending_chunk := None\<rparr>) = rx_content c" "rx_inv (c\<lparr>pending_chunk := None\<rparr>) = rx_inv c" by (rule rx_fields_cong; simp)+
  moreover have "synced S irs p (c\<lparr>pending_chunk := None\<rparr>) = synced S irs p c" by (rule synced_cong) simp_all
  ultimately show ?thesis using assms(1) Some by (simp add: stream_inv_def unread_def)
qed

lemma stream_inv_send_fin:
  assumes "stream_inv S L irs u p c" "(state c, st) \<in> {(Established, FinWait1), (CloseWait, LastAck)}"
  shows "stream_inv S L irs u p (send_fin st c)"
  by (rule stream_inv_advance [OF assms(1)]) (use assms(2) in \<open>auto simp: send_fin_def Let_def arm_fin_timer_def\<close>)

lemma stream_inv_attach [simp]:
  "stream_inv S L irs u p (conn_at i k) = stream_inv S L irs u p (conns k i)" "stream_inv S L irs u p (tcb.truncate c) = stream_inv S L irs u p c"
  by (rule stream_inv_view; simp)+

lemma stream_step_ok:
  assumes "stream_step S L irs i x y" "stream_ok S L irs i (fst x) (snd x)"
  shows "stream_ok S L irs i (fst y) (snd y)"
  using assms
proof cases
  case (arrive s k u)
  show ?thesis
  proof (cases "state (conns k i) = Closed")
    case True
    then show ?thesis using arrive by (simp add: receive_segment_def stream_ok_def)
  next
    case False
    then have "stream_inv S L irs u (length u + length (unread (conns k i))) (conns k i)" using assms(2) arrive(1) by (simp add: stream_ok_def)
    from receive_segment_stream [OF this arrive(6,3-5)]
    consider "state (conns (receive_segment s k) i) = Closed" | p' where "stream_inv S L irs u p' (conns (receive_segment s k) i)" by blast
    then show ?thesis using stream_okI arrive(2) by cases (simp_all add: stream_ok_def)
  qed
next
  case (recv k n out c u)
  show ?thesis
  proof (cases "state (conns k i) = Closed")
    case True
    then show ?thesis using recv rx_pop_keeps(2) [OF recv(4)] by (simp add: stream_ok_def)
  next
    case False
    then have "stream_inv S L irs u (length u + length (unread (conns k i))) (conn_at i k)" using assms(2) recv(1) by (simp add: stream_ok_def)
    from stream_inv_read [OF this recv(4)] show ?thesis using recv(2,3) by (intro stream_okI) simp
  qed
next
  case (chunk k r c u)
  show ?thesis
  proof (cases "state (conns k i) = Closed")
    case True
    then have "state c = Closed" using chunk(3)
      by (auto simp: recv_chunk_def Let_def split: option.splits if_splits prod.splits dest: rx_pop_keeps(2))
    then show ?thesis using chunk by (simp add: stream_ok_def)
  next
    case False
    then have "stream_inv S L irs u (length u + length (unread (conns k i))) (conn_at i k)" using assms(2) chunk(1) by (simp add: stream_ok_def)
    from stream_inv_chunk [OF this chunk(3)] show ?thesis using chunk(2) by (intro stream_okI) simp
  qed
next
  case (want k u w)
  then show ?thesis using assms(2) stream_inv_cong [of "(conns k i)\<lparr>chunk_wanted := w\<rparr>" "conns k i"] unread_cong [of "(conns k i)\<lparr>chunk_wanted := w\<rparr>" "conns k i"]
    by (simp add: stream_ok_def upd_slot_def)
next
  case (close k u)
  have fin: "stream_ok S L irs i (on_conn i (send_fin st) k) u"
    if "(state (conns k i), st) \<in> {(Established, FinWait1), (CloseWait, LastAck)}" for st
  proof -
    have "stream_inv S L irs u (length u + length (unread (conns k i))) (conn_at i k)" using assms(2) close(1) that by (auto simp: stream_ok_def)
    then have "stream_inv S L irs u (length u + length (unread (conns k i))) (send_fin st (conn_at i k))" using that by (intro stream_inv_send_fin) simp_all
    then show ?thesis by (intro stream_okI) (simp add: on_conn_def)
  qed
  have "stream_ok S L irs i (close_slot i k) u"
    using fin by (auto simp: close_slot_def stream_ok_def free_connection_closed split: TcpState.split)
  then show ?thesis using close by simp
qed

section \<open>Properties\<close>

text \<open>A connection that has just been opened: its receiving side is empty and expects the byte at \<open>irs\<close>.\<close>

definition fresh_stream :: "u32 \<Rightarrow> tcb \<Rightarrow> bool" where
  "fresh_stream irs c \<longleftrightarrow> state c \<in> {SynReceived, Established} \<and> rx_inv c \<and> rx_used c = 0 \<and> pending_chunk c = None
     \<and> ooo c = ooo_new \<and> rcv_nxt c = irs"

lemma fresh_stream_inv:
  assumes "fresh_stream irs c"
  shows "stream_inv S L irs [] 0 c"
proof -
  have "unread c = []" using assms length_rx_content [of c] by (simp add: fresh_stream_def unread_def)
  moreover have "synced S irs 0 c" using assms ooo_inv_new by (simp add: fresh_stream_def synced_def q_genuine_def ooo_new_def)
  ultimately show ?thesis using assms by (auto simp: fresh_stream_def stream_inv_def)
qed

text \<open>C1: The receiver delivers the stream. Whatever of the peer's data and FIN segments arrive, lost, repeated, reordered and cut
  anywhere, and whatever mixture of reads, chunk reads and closes the application does in between, as long as it makes no plain
  read while a chunk is stashed for a chunk read (such a read overtakes the chunk; C9 is a consequence): while the connection is
  not closed, the bytes the application has been given, followed by those waiting for it, are a prefix of the peer's stream; and
  once the connection is in one of the states in which it reports the end of the stream after its data (CLOSE-WAIT, LAST-ACK,
  TIME-WAIT), they are all of it.\<close>

theorem stream_delivered:
  assumes "fresh_stream irs (conns k i)" and "(stream_step S L irs i)\<^sup>*\<^sup>* (k, []) (k', u)" and "state (conns k' i) \<noteq> Closed"
  shows "\<exists>p. u @ unread (conns k' i) = map S [0..<p] \<and> (state (conns k' i) \<in> {CloseWait, LastAck, TimeWait} \<longrightarrow> p = L)"
proof -
  have "stream_ok S L irs i (fst y) (snd y)" if "(stream_step S L irs i)\<^sup>*\<^sup>* (k, []) y" for y
    using that
  proof (induction rule: rtranclp_induct)
    case base
    show ?case using fresh_stream_inv [OF assms(1)] stream_okI by fastforce
  next
    case (step y z)
    then show ?case using stream_step_ok by blast
  qed
  from this [OF assms(2)] have "stream_inv S L irs u (length u + length (unread (conns k' i))) (conns k' i)"
    using assms(3) by (simp add: stream_ok_def)
  then show ?thesis by (auto simp: stream_inv_def)
qed

lemma established_receive:
  assumes "state (conns k i) = Established"
    and l: "lookup_segment s k = Some i" "\<not> has_flag TCP_RST s" "\<not> has_flag TCP_SYN s"
    and "has_flag TCP_ACK s \<longrightarrow> \<not> seq_lt (snd_nxt (conns k i)) (sg_ack s)"
  obtains c where "conns (receive_segment s k) i = tcb.truncate (process_rest Established s c)" "state c = Established"
    "\<And>S L irs u p. stream_inv S L irs u p (conns k i) \<Longrightarrow> stream_inv S L irs u p c"
    "rcv_nxt c = rcv_nxt (conns k i)" "rx_ring c = rx_ring (conns k i)" "rx_used c = rx_used (conns k i)"
    "ooo c = ooo (conns k i)" "pending_chunk c = pending_chunk (conns k i)" "chunk_wanted c = chunk_wanted (conns k i)"
proof -
  have r: "receive_segment s k = receive_synchronized s i k" using l assms(1) by (simp add: receive_segment_def)
  define k1 where "k1 = ack_transition s (seq_lt (snd_una (conns k i)) (sg_ack s)) i (upd_slot i (ack_window s) k)"
  have k1: "stream_inv S L irs u p (conns k1 i)" if "stream_inv S L irs u p (conns k i)" for S L irs u p
    unfolding k1_def by (rule stream_inv_acked [OF that])
  have f: "state (conns k1 i) = Established" "rcv_nxt (conns k1 i) = rcv_nxt (conns k i)" "rx_ring (conns k1 i) = rx_ring (conns k i)"
      "rx_used (conns k1 i) = rx_used (conns k i)" "ooo (conns k1 i) = ooo (conns k i)" "pending_chunk (conns k1 i) = pending_chunk (conns k i)"
      "chunk_wanted (conns k1 i) = chunk_wanted (conns k i)"
    using assms(1) by (simp_all add: k1_def ack_transition_conn Let_def upd_slot_def ack_window_def)
  show thesis
  proof (cases "has_flag TCP_ACK s")
    case True
    define d where "d \<longleftrightarrow> sg_ack s = snd_una (conns k i) \<and> sg_payload_len s = 0 \<and> sg_flags s AND (TCP_SYN OR TCP_FIN) = 0
      \<and> seq_lt (snd_una (conns k i)) (snd_nxt (conns k i))"
    let ?c = "conn_at i (on_conn i (ack_recovery s (snd_una (conns k i)) d) k1)"
    have v: "rx_view ?c = rx_view (conns k1 i)" by (simp add: on_conn_def)
    show thesis
    proof (rule that [of ?c])
      show "conns (receive_segment s k) i = tcb.truncate (process_rest Established s ?c)"
        using True assms(1,5) by (simp add: r receive_synchronized_def process_ack_def Let_def k1_def d_def on_conn_def)
      show "stream_inv S L irs u p ?c" if "stream_inv S L irs u p (conns k i)" for S L irs u p using k1 [OF that] stream_inv_view [OF v] by simp
    qed (use v f in \<open>simp_all add: rx_view_def\<close>)
  next
    case False
    show thesis
      by (rule that [of "conn_at i k"]) (use False assms(1) in \<open>simp_all add: r receive_synchronized_def Let_def on_conn_def\<close>)
  qed
qed

text \<open>C2: In-order data is delivered. On an established connection with room for it, the payload of a genuine segment at the expected
  sequence number joins what waits for the application, at once and as a whole, with nothing before it lost, followed by the early
  data it connects to; the next expected sequence number advances by exactly the bytes that joined, and by one more if the
  segment has the FIN and no early data followed, in which case the connection enters CLOSE-WAIT.\<close>

theorem in_order_data_delivered:
  assumes inv: "stream_inv S L irs u p (conns k i)" and g: "genuine_at S L irs p s" and "state (conns k i) = Established"
    and l: "lookup_segment s k = Some i" "\<not> has_flag TCP_RST s" "\<not> has_flag TCP_SYN s"
    and "has_flag TCP_ACK s \<longrightarrow> \<not> seq_lt (snd_nxt (conns k i)) (sg_ack s)"
    and sq: "sg_seq s = rcv_nxt (conns k i)" and room: "rx_ring (conns k i) \<noteq> None" "0 < sg_payload_len s" "sg_payload_len s \<le> rx_free (conns k i)"
  shows "let c' = conns (receive_segment s k) i
    in \<exists>rest. unread c' = unread (conns k i) @ rx_payload s @ rest
      \<and> state c' = (if has_flag TCP_FIN s \<and> rest = [] then CloseWait else Established)
      \<and> rcv_nxt c' = rcv_nxt (conns k i) + of_nat (sg_payload_len s + length rest) + (if state c' = CloseWait then 1 else 0)"
proof -
  obtain c where c0: "conns (receive_segment s k) i = tcb.truncate (process_rest Established s c)" "state c = Established"
      "\<And>S L irs u p. stream_inv S L irs u p (conns k i) \<Longrightarrow> stream_inv S L irs u p c"
      "rcv_nxt c = rcv_nxt (conns k i)" "rx_ring c = rx_ring (conns k i)" "rx_used c = rx_used (conns k i)"
      "ooo c = ooo (conns k i)" "pending_chunk c = pending_chunk (conns k i)" "chunk_wanted c = chunk_wanted (conns k i)"
    by (rule established_receive [OF assms(3) l assms(7)]) (rule that)
  note c = c0(1) c0(3) [OF inv] c0(2,4,5,6)
  have y: "synced S irs p c" using c(2,3) by (simp add: stream_inv_def)
  obtain q where q: "near p q" "sg_seq s = irs + of_nat q" "length (rx_payload s) = sg_payload_len s" "sg_payload_len s < 65536"
    "rx_payload s = map S [q..<q + sg_payload_len s]" using g by (auto simp: genuine_at_def)
  have "rcv_nxt c = irs + of_nat p" using y by (simp add: synced_def)
  then have qp: "q = p" "sg_seq s = rcv_nxt c" using sq c(4) q(2) near_unat(1) [OF q(1), of irs] by simp_all
  have "rx_free c = rx_free (conns k i)" by (simp add: rx_free_def c(6))
  then obtain p' where p': "p \<le> p'" "p' < p + 131072" "stream_inv S L irs u p' (process_data s c)" "p + sg_payload_len s \<le> p'"
    and est: "state (process_data s c) = Established"
    using process_in_order_stream [OF c(2) y _ q(3,4)] q(5) room c(3,5) qp by (auto simp: process_data_def)
  have "stream_inv S L irs u p' (conns (receive_segment s k) i)"
    unfolding c(1) process_rest_def stream_inv_attach by (rule process_rest_after [OF process_fin_stream [OF p'(3) g p'(1,2)]])
  then have "u @ unread (conns (receive_segment s k) i) = map S [0..<p']" by (simp add: stream_inv_def)
  moreover have "u @ unread (conns k i) = map S [0..<p]" using inv by (simp add: stream_inv_def)
  moreover have "[0..<p'] = [0..<p] @ [p..<p + sg_payload_len s] @ [p + sg_payload_len s..<p']"
    using p'(4) upt_add_eq_append [of 0 p "p' - p"] upt_add_eq_append [of p "p + sg_payload_len s" "p' - (p + sg_payload_len s)"] by simp
  ultimately have "u @ unread (conns (receive_segment s k) i) = (u @ unread (conns k i)) @ rx_payload s @ map S [p + sg_payload_len s..<p']"
    using q(5) qp(1) by (simp only: map_append)
  then have un: "unread (conns (receive_segment s k) i) = unread (conns k i) @ rx_payload s @ map S [p + sg_payload_len s..<p']" by (simp only: append.assoc same_append_eq)
  have r': "rcv_nxt (process_data s c) = irs + of_nat p'" using p'(3) est by (simp add: stream_inv_def synced_def)
  have "sg_seq s + of_nat (sg_payload_len s) = irs + of_nat (p + sg_payload_len s)" using q(2) qp(1) by (simp add: add.assoc)
  moreover have "unat (irs + of_nat p' - (irs + of_nat (p + sg_payload_len s)) :: u32) = p' - (p + sg_payload_len s)"
    using p'(2,4) by (intro unat_of_nat_diff) simp_all
  ultimately have fin: "sg_seq s + of_nat (sg_payload_len s) = rcv_nxt (process_data s c) \<longleftrightarrow> p' = p + sg_payload_len s"
    using p'(4) r' by (metis cancel_comm_monoid_add_class.diff_cancel diff_is_0_eq le_antisym unat_0)
  have v: "rx_view (conns (receive_segment s k) i) = rx_view (process_fin s (process_data s c))"
    unfolding c(1) process_rest_def by (simp add: process_rest_view)
  then have st: "state (conns (receive_segment s k) i) = (if has_flag TCP_FIN s \<and> p' = p + sg_payload_len s then CloseWait else Established)"
    "rcv_nxt (conns (receive_segment s k) i) = irs + of_nat p' + (if has_flag TCP_FIN s \<and> p' = p + sg_payload_len s then 1 else 0)"
    using process_fin_established [OF est, of s] fin r' by (simp_all add: rx_view_def)
  have "irs + of_nat p' = rcv_nxt (conns k i) + of_nat (sg_payload_len s + (p' - (p + sg_payload_len s)))"
    using p'(4) c(4) y by (simp add: synced_def of_nat_diff)
  then show ?thesis using un st p'(4) unfolding Let_def by (intro exI [of _ "map S [p + sg_payload_len s..<p']"]) auto
qed

text \<open>A connection with its ring, and three bytes of a stream.\<close>

definition demo_stream :: core where
  "demo_stream = upd_slot 0 (\<lambda>c. c\<lparr>rx_ring := Some (replicate RX_RING_BYTES 0)\<rparr>) demo_open"

definition demo_data :: rx_seg where
  "demo_data = (demo_ack 0 500 TCP_ACK)\<lparr>sg_payload_len := 3, sg_parts := [replicate 20 0 @ [1, 2, 3]]\<rparr>"

lemma demo_stream_facts:
  "lookup_segment demo_data demo_stream = Some 0" "state (conns demo_stream 0) = Established" "fresh_stream 0 (conns demo_stream 0)"
  "genuine_at (\<lambda>j. of_nat (Suc j)) 3 0 0 demo_data" "\<not> has_flag TCP_RST demo_data" "\<not> has_flag TCP_SYN demo_data" "has_flag TCP_ACK demo_data"
  "\<not> has_flag TCP_FIN demo_data" "snd_nxt (conns demo_stream 0) = 500" "snd_una (conns demo_stream 0) = 500" "sg_ack demo_data = 500"
  "rx_payload demo_data = [1, 2, 3]" "sg_seq demo_data = rcv_nxt (conns demo_stream 0)" "rx_ring (conns demo_stream 0) \<noteq> None"
  "0 < sg_payload_len demo_data" "sg_payload_len demo_data \<le> rx_free (conns demo_stream 0)" "unread (conns demo_stream 0) = []"
proof -
  have "tcp_linear_find a b c demo_stream = tcp_linear_find a b c demo_open" for a b c
    by (auto simp: tcp_linear_find_def demo_stream_def upd_slot_def pool_capacity_def Let_def intro!: arg_cong [where f = "\<lambda>P. find P xs" for xs])
  then have "lookup_segment demo_data demo_stream = lookup_segment (demo_ack 0 500 TCP_ACK) demo_open"
    by (simp add: lookup_segment_def demo_data_def demo_stream_def upd_slot_def cong: option.case_cong)
  then show "lookup_segment demo_data demo_stream = Some 0" by (simp add: demo_open_lookup)
  show p: "rx_payload demo_data = [1, 2, 3]" by (simp add: rx_payload_def concat_payload_parts demo_data_def demo_ack_def demo_syn_def)
  have upt: "[0..<3] = [0, 1, 2 :: nat]" by (simp add: upt_conv_Cons)
  show "genuine_at (\<lambda>j. of_nat (Suc j)) 3 0 0 demo_data"
    unfolding genuine_at_def by (rule exI [of _ 0]) (simp add: near_def p, simp add: demo_data_def demo_ack_def upt)
  show "state (conns demo_stream 0) = Established" "snd_nxt (conns demo_stream 0) = 500" "snd_una (conns demo_stream 0) = 500"
      "rx_ring (conns demo_stream 0) \<noteq> None" "sg_ack demo_data = 500" "0 < sg_payload_len demo_data"
    by (simp_all add: demo_stream_def demo_open_def upd_slot_def demo_data_def demo_ack_def)
  show f: "fresh_stream 0 (conns demo_stream 0)"
    by (simp add: fresh_stream_def demo_stream_def demo_open_def upd_slot_def demo_core_def core_new_def tcb_new_def rx_inv_def RX_RING_BYTES_def)
  show "sg_seq demo_data = rcv_nxt (conns demo_stream 0)" "sg_payload_len demo_data \<le> rx_free (conns demo_stream 0)"
    using f by (simp_all add: fresh_stream_def demo_data_def demo_ack_def rx_free_def RX_RING_BYTES_def)
  show "unread (conns demo_stream 0) = []" using fresh_stream_inv [OF f, of "\<lambda>_. 0" 0] by (simp add: stream_inv_def)
  show "\<not> has_flag TCP_RST demo_data" "\<not> has_flag TCP_SYN demo_data" "has_flag TCP_ACK demo_data" "\<not> has_flag TCP_FIN demo_data"
    by (simp_all add: has_flag_def demo_data_def demo_ack_def TCP_ACK_def TCP_RST_def TCP_FIN_def TCP_SYN_def)
qed

theorem stream_delivered_witness:
  "\<exists>p. unread (conns (receive_segment demo_data demo_stream) 0) = map (\<lambda>j. of_nat (Suc j)) [0..<p]"
proof -
  let ?S = "\<lambda>j. of_nat (Suc j) :: u8"
  note d = demo_stream_facts
  have "stream_step ?S 3 0 0 (demo_stream, []) (receive_segment demo_data demo_stream, [])"
    using d(4,17) by (intro stream_step.arrive d(1,5,6)) simp
  then have t: "(stream_step ?S 3 0 0)\<^sup>*\<^sup>* (demo_stream, []) (receive_segment demo_data demo_stream, [])" by blast
  have "state (conns (receive_segment demo_data demo_stream) 0) \<noteq> Closed"
    using established_window(2) [OF d(1,2,7,5)] d(8-11) by simp
  from stream_delivered [OF d(3) t this] show ?thesis by auto
qed

theorem in_order_data_delivered_witness:
  "\<exists>rest. unread (conns (receive_segment demo_data demo_stream) 0) = [1, 2, 3] @ rest
     \<and> rcv_nxt (conns (receive_segment demo_data demo_stream) 0) = of_nat (3 + length rest)"
proof -
  note d = demo_stream_facts
  have "has_flag TCP_ACK demo_data \<longrightarrow> \<not> seq_lt (snd_nxt (conns demo_stream 0)) (sg_ack demo_data)" by (simp add: d)
  moreover have "rcv_nxt (conns demo_stream 0) = 0" using d(3) by (simp add: fresh_stream_def)
  moreover have "sg_payload_len demo_data = 3" by (simp add: demo_data_def)
  ultimately show ?thesis
    using in_order_data_delivered [OF fresh_stream_inv [OF d(3)] d(4,2,1,5,6) _ d(13-16)] d(8)
    unfolding d(12,17) Let_def by auto
qed

end
