(* ===== verification/Tcp_Send.thy ===== *)
theory Tcp_Send
  imports Tcp_Listener Tcp_Sender Net_Wire
begin

text \<open>
  The data path of \<open>crates/net/tcp/src/send.rs\<close>: \<open>async_try_send_chain\<close> with both of its strategies, a super-segment the device
  cuts (TSO) and a loop of segments of at most one MSS, and \<open>try_send_tso\<close>, which lets the TLS layer write its
  record into the device's buffer.

  The cursor over the caller's chain is the list of bytes it has not read yet. The loop over segments ends
  only for a positive segment size, so it is a partial function; that it returns is a theorem. A super-segment is one entry of the
  trace of the wire, and \<open>tso_splits\<close> records its place there with the segment size given to the device. With the sends
  all operations on a handle are defined, and the last theorem shows that none of them acts on a handle that is stale.
\<close>

section \<open>One segment, or several\<close>

definition TSO_FRAME_BUF_LEN :: nat where
  "TSO_FRAME_BUF_LEN = ETH_HDR_LEN + IPV6_HDR_LEN + TCP_HDR_LEN + 16384 + 24"

definition send_segment_from_cursor :: "SegmentMeta \<Rightarrow> bytes \<Rightarrow> nat \<Rightarrow> env \<Rightarrow> bool \<times> bytes \<times> env" where
  "send_segment_from_cursor m cursor payload_len e =
     (if \<not> mac_known e (sm_dst_ip m) then (False, cursor, e)
      else let n = min payload_len MSS_MAX;
               (ok, e1) = build_and_send_frame m [] (take n cursor) e
           in (ok, if ok then drop n cursor else cursor, e1))"

partial_function (option) per_mss_loop :: "SegmentMeta \<Rightarrow> bytes \<Rightarrow> nat \<Rightarrow> nat \<Rightarrow> nat \<Rightarrow> env \<Rightarrow> (nat \<times> env) option" where
  "per_mss_loop m cursor payload_len mss sent e =
     (if sent < payload_len
      then let chunk = min (payload_len - sent) mss;
               (ok, cursor', e') = send_segment_from_cursor m cursor chunk e
           in if \<not> ok then Some (sent, e')
              else per_mss_loop (m\<lparr>sm_seq := sm_seq m + of_nat chunk\<rparr>) cursor' payload_len mss (sent + chunk) e'
      else Some (sent, e))"

definition send_per_mss_fallback :: "SegmentMeta \<Rightarrow> bytes \<Rightarrow> nat \<Rightarrow> nat \<Rightarrow> env \<Rightarrow> (nat \<times> env) option" where
  "send_per_mss_fallback m cursor payload_len mss e = per_mss_loop m cursor payload_len mss 0 e"

text \<open>\<open>nic::submit_tx_tso\<close>\<close>

definition submit_tx_tso :: "SegmentMeta \<Rightarrow> bytes \<Rightarrow> nat \<Rightarrow> env \<Rightarrow> env" where
  "submit_tx_tso m payload mss e = (push_tx m [] payload e)\<lparr>tso_splits := tso_splits e @ [(length (tx_log e), mss)]\<rparr>"

definition send_super_segment_from_cursor :: "SegmentMeta \<Rightarrow> bytes \<Rightarrow> nat \<Rightarrow> nat \<Rightarrow> env \<Rightarrow> (nat \<times> env) option" where
  "send_super_segment_from_cursor m cursor payload_len mss e =
     (if \<not> mac_known e (sm_dst_ip m) then Some (0, e)
      else let (ok, e1) = acquire_tx_tso_buf e
           in if \<not> ok then send_per_mss_fallback m cursor payload_len mss e1
              else Some (payload_len, submit_tx_tso m (take payload_len cursor) (as_u16 mss) e1))"

section \<open>Sending on a connection\<close>

datatype TcpSendError = SendClosed

definition data_meta :: "'a tcb_scheme \<Rightarrow> SegmentMeta" where
  "data_meta c = seg_of c (snd_nxt c) (TCP_ACK OR TCP_PSH) (as_u16 (rx_free c))"

text \<open>The result, the chain left to the caller, and the connection; \<open>None\<close> when the loop does not end.\<close>

definition try_send_chain :: "bytes list \<Rightarrow> conn \<Rightarrow> ((TcpSendError + nat) \<times> bytes list \<times> conn) option" where
  "try_send_chain bs c =
     (if state c \<noteq> Established then Some (Inl SendClosed, bs, c)
      else let total = length (concat bs)
      in if total = 0 then Some (Inr 0, bs, c)
      else let sendable = min total (usable_window c)
      in if sendable = 0
         then Some (Inr 0, bs, if snd_wnd c = 0 \<and> persist_deadline_ms c = 0 then arm_persist (clock c) c else c)
      else let mss = snd_mss c;
               sent = (if tso_available (cenv c) \<and> sendable > mss \<and> payload_offset (local_ip c) + sendable \<le> TSO_FRAME_BUF_LEN
                       then send_super_segment_from_cursor (data_meta c) (concat bs) sendable mss (cenv c)
                       else send_per_mss_fallback (data_meta c) (concat bs) sendable mss (cenv c))
      in case sent of
           None \<Rightarrow> None
         | Some (n, e) \<Rightarrow>
             let (bs', c') = rtx_on_data_sent bs n (c\<lparr>cenv := e, snd_nxt := snd_nxt c + of_nat n\<rparr>)
             in Some (Inr n, bs', c'))"

definition async_try_send_chain :: "u64 \<Rightarrow> nat \<Rightarrow> bytes list \<Rightarrow> machine \<Rightarrow> ((TcpSendError + nat) \<times> bytes list \<times> machine) option" where
  "async_try_send_chain handle gen bs m =
     (case decode_handle m handle of
        None \<Rightarrow> Some (Inl SendClosed, bs, m)
      | Some (core, slot) \<Rightarrow>
          if generation (conns (m ! core) slot) \<noteq> gen then Some (Inl SendClosed, bs, m)
          else case try_send_chain bs (conn_at slot (m ! core)) of
                 None \<Rightarrow> None
               | Some (r, bs', c) \<Rightarrow> Some (r, bs', m[core := conn_put slot c (m ! core)]))"

text \<open>The record writer \<open>fill\<close> is given the room for the payload and returns what it wrote, or an error.\<close>

definition try_send_tso_conn :: "nat \<Rightarrow> (nat \<Rightarrow> unit + bytes) \<Rightarrow> conn \<Rightarrow> (unit + nat) option \<times> conn" where
  "try_send_tso_conn min_payload fill c =
     (if state c \<noteq> Established \<or> min_payload \<le> snd_mss c \<or> min_payload > usable_window c
         \<or> \<not> mac_known (cenv c) (remote_ip c) then (None, c)
      else let (ok, e) = acquire_tx_tso_buf (cenv c); c1 = c\<lparr>cenv := e\<rparr>
      in if \<not> ok then (None, c1)
      else let max_payload = tso_cap e - payload_offset (local_ip c)
      in case fill max_payload of
           Inl u \<Rightarrow> (Some (Inl ()), c1)
         | Inr payload \<Rightarrow>
             if payload = [] then (Some (Inr 0), c1)
             else if length payload > max_payload then (None, c1)
             else let m = data_meta c1;
                      c2 = rtx_on_data_sent_slice payload (c1\<lparr>snd_nxt := snd_nxt c1 + of_nat (length payload)\<rparr>)
                  in (Some (Inr (length payload)), c2\<lparr>cenv := submit_tx_tso m payload (as_u16 (snd_mss c)) (cenv c2)\<rparr>))"

definition try_send_tso :: "u64 \<Rightarrow> nat \<Rightarrow> nat \<Rightarrow> (nat \<Rightarrow> unit + bytes) \<Rightarrow> machine \<Rightarrow> (unit + nat) option \<times> machine" where
  "try_send_tso handle gen min_payload fill m =
     with_handle handle gen None (\<lambda>slot k. let (r, c) = try_send_tso_conn min_payload fill (conn_at slot k) in (r, conn_put slot c k)) m"

section \<open>What reaches the wire\<close>

text \<open>The reference: a payload cut into pieces of one segment size, each at its sequence number.\<close>

fun split_mss :: "nat \<Rightarrow> u32 \<Rightarrow> bytes \<Rightarrow> (u32 \<times> bytes) list" where
  "split_mss mss sq bs = (if bs = [] \<or> mss = 0 then [] else (sq, take mss bs) # split_mss mss (sq + of_nat mss) (drop mss bs))"

declare split_mss.simps [simp del]

lemma split_mss_Nil [simp]: "split_mss mss sq [] = []"
  by (simp add: split_mss.simps)

lemma split_mss_concat: "0 < mss \<Longrightarrow> concat (map snd (split_mss mss sq bs)) = bs"
  by (induction mss sq bs rule: split_mss.induct) (subst split_mss.simps, auto)

lemma split_mss_bound: "\<forall>g \<in> set (split_mss mss sq bs). 0 < length (snd g) \<and> length (snd g) \<le> mss"
  by (induction mss sq bs rule: split_mss.induct) (subst split_mss.simps, auto)

definition segment_of :: "SegmentMeta \<Rightarrow> u32 \<times> bytes \<Rightarrow> sent_segment" where
  "segment_of m g = \<lparr>seg_meta = m\<lparr>sm_seq := fst g\<rparr>, seg_options = [], seg_payload = snd g\<rparr>"

lemma segment_of_seq [simp]: "segment_of (m\<lparr>sm_seq := q\<rparr>) = segment_of m"
  by (rule ext) (simp add: segment_of_def)

definition takes_frame :: "SegmentMeta \<Rightarrow> env \<Rightarrow> bool" where
  "takes_frame m e \<longleftrightarrow> mac_known e (sm_dst_ip m) \<and> (case txbuf_results e of [] \<Rightarrow> True | b # _ \<Rightarrow> b \<or> \<not> has_direct_fill e)"

lemma send_segment_from_cursor_eq:
  assumes "n \<le> MSS_MAX"
  shows "send_segment_from_cursor m cursor n e =
    (if takes_frame m e
     then (True, drop n cursor, e\<lparr>tx_log := tx_log e @ [segment_of m (sm_seq m, take n cursor)], txbuf_results := tl (txbuf_results e)\<rparr>)
     else (False, cursor, if mac_known e (sm_dst_ip m) then e\<lparr>txbuf_results := tl (txbuf_results e)\<rparr> else e))"
proof -
  have n: "min n MSS_MAX = n" using assms by simp
  show ?thesis
    by (cases e, cases "txbuf_results e") (simp_all add: takes_frame_def send_segment_from_cursor_def n build_and_send_frame_def
      acquire_tx_buf_def push_tx_def segment_of_def Let_def)
qed

lemma send_segment_from_cursor_cases:
  assumes "send_segment_from_cursor m cursor n e = (ok, cursor', e')" "n \<le> MSS_MAX"
  shows "\<exists>r. e' = e\<lparr>tx_log := tx_log e @ (if ok then [segment_of m (sm_seq m, take n cursor)] else []), txbuf_results := r\<rparr>
      \<and> (txbuf_results e = [] \<longrightarrow> r = [])"
    "cursor' = (if ok then drop n cursor else cursor)"
    "mac_known e (sm_dst_ip m) \<Longrightarrow> txbuf_results e = [] \<Longrightarrow> ok"
proof -
  have eq: "(ok, cursor', e') = (if takes_frame m e
     then (True, drop n cursor, e\<lparr>tx_log := tx_log e @ [segment_of m (sm_seq m, take n cursor)], txbuf_results := tl (txbuf_results e)\<rparr>)
     else (False, cursor, if mac_known e (sm_dst_ip m) then e\<lparr>txbuf_results := tl (txbuf_results e)\<rparr> else e))"
    using send_segment_from_cursor_eq [OF assms(2)] assms(1) by (simp only:)
  have same: "e = e\<lparr>tx_log := tx_log e @ [], txbuf_results := txbuf_results e\<rparr>" by simp
  have e': "e' = e\<lparr>tx_log := tx_log e @ (if ok then [segment_of m (sm_seq m, take n cursor)] else []),
      txbuf_results := (if mac_known e (sm_dst_ip m) then tl (txbuf_results e) else txbuf_results e)\<rparr>"
    using eq by (cases "takes_frame m e") (auto simp: takes_frame_def)
  show "\<exists>r. e' = e\<lparr>tx_log := tx_log e @ (if ok then [segment_of m (sm_seq m, take n cursor)] else []), txbuf_results := r\<rparr>
      \<and> (txbuf_results e = [] \<longrightarrow> r = [])"
    by (rule exI [of _ "if mac_known e (sm_dst_ip m) then tl (txbuf_results e) else txbuf_results e"], rule conjI, rule e') simp
  show "cursor' = (if ok then drop n cursor else cursor)" "mac_known e (sm_dst_ip m) \<Longrightarrow> txbuf_results e = [] \<Longrightarrow> ok"
    using eq by (auto simp: takes_frame_def split: if_splits)
qed

lemma per_mss_loop_correct:
  assumes "0 < mss" "mss \<le> MSS_MAX" "sent \<le> len" "len - sent \<le> length cursor"
  shows "\<exists>k r. per_mss_loop m cursor len mss sent e
      = Some (sent + k, e\<lparr>tx_log := tx_log e @ map (segment_of m) (split_mss mss (sm_seq m) (take k cursor)), txbuf_results := r\<rparr>)
    \<and> sent + k \<le> len \<and> (mac_known e (sm_dst_ip m) \<and> txbuf_results e = [] \<longrightarrow> sent + k = len)"
  using assms(3,4)
proof (induction "len - sent" arbitrary: m cursor sent e rule: less_induct)
  case less
  show ?case
  proof (cases "sent < len")
    case False
    then show ?thesis using less.prems by (subst per_mss_loop.simps) (auto intro!: exI [of _ "0 :: nat"] exI [of _ "txbuf_results e"])
  next
    case True
    define n where "n = min (len - sent) mss"
    have n: "0 < n" "n \<le> MSS_MAX" "n \<le> len - sent" "n \<le> length cursor" "n \<le> mss" using True assms(1,2) less.prems by (auto simp: n_def)
    obtain ok cursor' e' where s: "send_segment_from_cursor m cursor n e = (ok, cursor', e')" by (cases "send_segment_from_cursor m cursor n e")
    note sc = send_segment_from_cursor_cases [OF s n(2)]
    then obtain r where e': "e' = e\<lparr>tx_log := tx_log e @ (if ok then [segment_of m (sm_seq m, take n cursor)] else []), txbuf_results := r\<rparr>"
      "txbuf_results e = [] \<longrightarrow> r = []" by blast
    have step: "per_mss_loop m cursor len mss sent e = (if \<not> ok then Some (sent, e')
        else per_mss_loop (m\<lparr>sm_seq := sm_seq m + of_nat n\<rparr>) cursor' len mss (sent + n) e')"
      using True s by (subst per_mss_loop.simps) (simp add: n_def Let_def)
    show ?thesis
    proof (cases ok)
      case False
      then show ?thesis using step e'(1) sc(3) less.prems by (auto intro!: exI [of _ "0 :: nat"] exI [of _ r])
    next
      case ok: True
      let ?m = "m\<lparr>sm_seq := sm_seq m + of_nat n\<rparr>"
      have lt: "len - (sent + n) < len - sent" and pr: "sent + n \<le> len" "len - (sent + n) \<le> length cursor'" using True n less.prems sc(2) ok by auto
      obtain k r' where ih: "per_mss_loop ?m cursor' len mss (sent + n) e'
          = Some (sent + n + k, e'\<lparr>tx_log := tx_log e' @ map (segment_of ?m) (split_mss mss (sm_seq ?m) (take k cursor')), txbuf_results := r'\<rparr>)"
        "sent + n + k \<le> len" "mac_known e' (sm_dst_ip ?m) \<and> txbuf_results e' = [] \<longrightarrow> sent + n + k = len"
        using less.hyps [OF lt pr, of ?m e'] by blast
      have ne: "take (n + k) cursor \<noteq> []" using n by auto
      have "split_mss mss (sm_seq m) (take (n + k) cursor) = (sm_seq m, take n cursor) # split_mss mss (sm_seq ?m) (take k cursor')"
      proof (cases "n = mss")
        case True
        then show ?thesis using assms(1) ne sc(2) ok by (subst split_mss.simps) (simp add: take_drop add.commute)
      next
        case False
        then have "n < mss" "k = 0" using ih(2) n by (auto simp: n_def)
        then show ?thesis using assms(1) ne by (subst split_mss.simps) simp
      qed
      then show ?thesis using step ok ih e' by (intro exI [of _ "n + k"] exI [of _ r']) (auto simp: add.assoc)
    qed
  qed
qed

section \<open>Bookkeeping does not see the trace\<close>

text \<open>A change of the environment that leaves the clock, the timer list and the allocator alone.\<close>

definition seen :: "(env \<Rightarrow> env) \<Rightarrow> conn \<Rightarrow> conn" where
  "seen g c = c\<lparr>cenv := g (cenv c)\<rparr>"

locale env_view =
  fixes g :: "env \<Rightarrow> env"
  assumes view: "alloc_results (g e) = alloc_results e" "now_ms (g e) = now_ms e" "tick_head (g e) = tick_head e"
    and commutes: "g (e\<lparr>alloc_results := x\<rparr>) = (g e)\<lparr>alloc_results := x\<rparr>" "g (e\<lparr>tick_head := y\<rparr>) = (g e)\<lparr>tick_head := y\<rparr>"
begin

lemma seen_fields [simp]:
  "rtx_queue (seen g c) = rtx_queue c" "rtx_deadline_ms (seen g c) = rtx_deadline_ms c" "rtx_alloc_failed (seen g c) = rtx_alloc_failed c"
  "clock (seen g c) = clock c" "snd_nxt (seen g c) = snd_nxt c" "cenv (seen g c) = g (cenv c)"
  by (simp_all add: seen_def clock_def view)

lemma arm_for_tick_seen: "arm_for_tick (seen g c) = seen g (arm_for_tick c)"
  by (simp add: arm_for_tick_def seen_def view commutes)

lemma arm_rtx_seen: "arm_rtx (seen g c) = seen g (arm_rtx c)"
proof -
  have "arm_tlp now (seen g c) = seen g (arm_tlp now c)" "(seen g c)\<lparr>rtx_deadline_ms := x\<rparr> = seen g (c\<lparr>rtx_deadline_ms := x\<rparr>)" "rto_ms (seen g c) = rto_ms c" for now c x
    by (simp_all add: arm_tlp_def pto_ms_def seen_def Let_def)
  then show ?thesis by (simp add: arm_rtx_def arm_for_tick_seen Let_def)
qed

lemma arm_persist_seen: "arm_persist now (seen g c) = seen g (arm_persist now c)"
proof -
  have "(seen g c)\<lparr>persist_deadline_ms := x\<rparr> = seen g (c\<lparr>persist_deadline_ms := x\<rparr>)" "backoff_interval n (seen g c) = backoff_interval n c"
      "persist_backoff (seen g c) = persist_backoff c" for x n
    by (simp_all add: backoff_interval_def estimated_rto_def seen_def)
  then show ?thesis by (simp add: arm_persist_def arm_for_tick_seen)
qed

lemma rtx_push_seen: "rtx_push b sq len now (seen g c) = map_prod id (seen g) (rtx_push b sq len now c)"
proof -
  obtain ok e where a: "try_alloc (cenv c) = (ok, e)" by fastforce
  then have a': "try_alloc (g (cenv c)) = (ok, g e)"
    by (auto simp: try_alloc_def view commutes split: list.splits)
  have u: "(seen g c)\<lparr>cenv := g e\<rparr> = seen g (c\<lparr>cenv := e\<rparr>)" "(seen g d)\<lparr>rtx_alloc_failed := x\<rparr> = seen g (d\<lparr>rtx_alloc_failed := x\<rparr>)" for x d
    by (simp_all add: seen_def)
  have q: "rtx_enqueue b sq len now (seen g c) = seen g (rtx_enqueue b sq len now c)"
      "set_rtt_anchor x now (seen g c) = seen g (set_rtt_anchor x now c)" for c x
    by (simp_all add: rtx_enqueue_def set_rtt_anchor_def seen_def)
  show ?thesis by (simp add: rtx_push_def a a' u q arm_rtx_seen Let_def)
qed

lemma rtx_sent_loop_seen: "rtx_sent_loop now bs tot sq (seen g c) = map_prod id (seen g) (rtx_sent_loop now bs tot sq c)"
proof (induction now bs tot sq c rule: rtx_sent_loop.induct)
  case (2 now b bs tot sq c)
  have oom: "handle_rtx_push_oom (seen g c) = seen g (handle_rtx_push_oom c)" for c by (simp add: handle_rtx_push_oom_def seen_def)
  obtain ok c1 where p: "rtx_push b sq (as_u16 (length b)) now c = (ok, c1)" by fastforce
  obtain ok' c1' where p': "rtx_push (take tot b) sq (as_u16 tot) now c = (ok', c1')" by fastforce
  show ?case using 2 p p' by (simp add: rtx_push_seen oom)
qed simp

lemma rtx_on_data_sent_seen: "rtx_on_data_sent bs tot (seen g c) = map_prod id (seen g) (rtx_on_data_sent bs tot c)"
  by (simp add: rtx_on_data_sent_def rtx_sent_loop_seen)

end

definition retso :: "bool \<Rightarrow> env \<Rightarrow> env" where
  "retso b e = e\<lparr>tso_available := b\<rparr>"

interpretation offload: env_view "retso b" for b
  by unfold_locales (simp_all add: retso_def)

interpretation relog: env_view "\<lambda>e. e\<lparr>tx_log := l, txbuf_results := r, tso_results := q, tso_splits := t, tso_available := a\<rparr>" for l r q t a
  by unfold_locales simp_all

lemma rtx_sent_loop_rest: "concat (fst (rtx_sent_loop now bs tot sq c)) = drop tot (concat bs)"
proof -
  have d: "concat (drain_chain_prefix bs n) = drop n (concat bs)" for bs n
    by (induction bs n rule: drain_chain_prefix.induct) simp_all
  show ?thesis
    by (induction now bs tot sq c rule: rtx_sent_loop.induct) (simp_all add: d Let_def split: prod.splits)
qed

text \<open>Taking the sent prefix over: what it leaves of the chain and of the connection.\<close>

lemma rtx_on_data_sent_frame:
  assumes "rtx_on_data_sent bs n c = (bs', c')"
  shows "concat bs' = drop n (concat bs)" "snd_una c' = snd_una c" "snd_nxt c' = snd_nxt c"
    "tx_log (cenv c') = tx_log (cenv c)" "tso_splits (cenv c') = tso_splits (cenv c)"
proof -
  have d: "concat (drain_chain_prefix bs n) = drop n (concat bs)" for bs n
    by (induction bs n rule: drain_chain_prefix.induct) simp_all
  show "concat bs' = drop n (concat bs)"
    using assms d rtx_sent_loop_rest [of "clock c" bs n "snd_nxt c - of_nat n" c] by (auto simp: rtx_on_data_sent_def split: if_splits)
  show "snd_una c' = snd_una c" "snd_nxt c' = snd_nxt c" "tx_log (cenv c') = tx_log (cenv c)"
    using assms rtx_sent_loop_quiet by (auto simp: rtx_on_data_sent_def split: if_splits)
  let ?g = "\<lambda>e. e\<lparr>tx_log := tx_log (cenv c), txbuf_results := txbuf_results (cenv c), tso_results := tso_results (cenv c),
    tso_splits := tso_splits (cenv c), tso_available := tso_available (cenv c)\<rparr>"
  have "seen ?g c = c" by (simp add: seen_def)
  then have "c' = seen ?g c'" using relog.rtx_on_data_sent_seen [of bs n _ _ _ _ _ c] assms by (metis Pair_inject map_prod_simp)
  then have "tso_splits (cenv c') = tso_splits (cenv (seen ?g c'))" by (simp only:)
  then show "tso_splits (cenv c') = tso_splits (cenv c)" by (simp add: seen_def)
qed

section \<open>The two strategies\<close>

text \<open>The wire once the device has cut the super-segments.\<close>

definition cut :: "(nat \<times> nat) list \<Rightarrow> nat \<Rightarrow> sent_segment \<Rightarrow> (u32 \<times> bytes) list" where
  "cut ts i g = (case map_of ts i of
      None \<Rightarrow> [(sm_seq (seg_meta g), seg_payload g)]
    | Some mss \<Rightarrow> split_mss mss (sm_seq (seg_meta g)) (seg_payload g))"

definition wire_of :: "env \<Rightarrow> (u32 \<times> bytes) list" where
  "wire_of e = concat (map (\<lambda>(i, g). cut (tso_splits e) i g) (enumerate 0 (tx_log e)))"

definition splits_ok :: "env \<Rightarrow> bool" where
  "splits_ok e \<longleftrightarrow> fst ` set (tso_splits e) \<subseteq> {..<length (tx_log e)}"

lemma cut_stable: "i < n \<Longrightarrow> cut (ts @ [(n, mss)]) i g = cut ts i g"
  by (simp add: cut_def map_of_append map_add_def split: option.split)

lemma wire_of_append:
  assumes "splits_ok e"
  shows "wire_of (e\<lparr>tx_log := tx_log e @ gs, txbuf_results := r\<rparr>) = wire_of e @ map (\<lambda>g. (sm_seq (seg_meta g), seg_payload g)) gs"
proof -
  have "map_of (tso_splits e) i = None" if "length (tx_log e) \<le> i" for i
    using assms that by (auto simp: splits_ok_def map_of_eq_None_iff)
  then have "map (\<lambda>(i, g). cut (tso_splits e) i g) (enumerate (length (tx_log e)) gs) = map (\<lambda>g. [(sm_seq (seg_meta g), seg_payload g)]) gs"
    by (intro nth_equalityI) (simp_all add: cut_def nth_enumerate_eq)
  then show ?thesis by (simp add: wire_of_def enumerate_append_eq)
qed

lemma wire_of_super:
  assumes "splits_ok e"
  shows "wire_of (submit_tx_tso m bs mss (e\<lparr>tso_results := q\<rparr>)) = wire_of e @ split_mss mss (sm_seq m) bs"
proof -
  have m: "map (\<lambda>(i, g). cut (tso_splits e @ [(length (tx_log e), mss)]) i g) (enumerate 0 (tx_log e)) = map (\<lambda>(i, g). cut (tso_splits e) i g) (enumerate 0 (tx_log e))"
    by (rule map_cong) (auto simp: in_set_enumerate_eq cut_stable)
  have c: "cut (tso_splits e @ [(length (tx_log e), mss)]) (length (tx_log e)) g = split_mss mss (sm_seq (seg_meta g)) (seg_payload g)" for g
  proof -
    have "map_of (tso_splits e) (length (tx_log e)) = None" using assms by (auto simp: splits_ok_def map_of_eq_None_iff)
    then show ?thesis by (simp add: cut_def map_of_append map_add_def)
  qed
  show ?thesis by (simp add: wire_of_def submit_tx_tso_def push_tx_def enumerate_append_eq m c)
qed

lemma per_mss_wire:
  assumes "0 < mss" "mss \<le> MSS_MAX" "len \<le> length data" "splits_ok e"
  shows "\<exists>n l r. send_per_mss_fallback m data len mss e = Some (n, e\<lparr>tx_log := l, txbuf_results := r\<rparr>) \<and> n \<le> len
    \<and> (mac_known e (sm_dst_ip m) \<and> txbuf_results e = [] \<longrightarrow> n = len) \<and> splits_ok (e\<lparr>tx_log := l, txbuf_results := r\<rparr>)
    \<and> wire_of (e\<lparr>tx_log := l, txbuf_results := r\<rparr>) = wire_of e @ split_mss mss (sm_seq m) (take n data)"
proof -
  have "0 \<le> len" "len - 0 \<le> length data" using assms(3) by simp_all
  from per_mss_loop_correct [OF assms(1,2) this, of m e] obtain n r
    where n: "per_mss_loop m data len mss 0 e = Some (n, e\<lparr>tx_log := tx_log e @ map (segment_of m) (split_mss mss (sm_seq m) (take n data)), txbuf_results := r\<rparr>)"
      "n \<le> len" "mac_known e (sm_dst_ip m) \<and> txbuf_results e = [] \<longrightarrow> n = len" by auto
  have "map (\<lambda>g. (sm_seq (seg_meta g), seg_payload g)) (map (segment_of m) xs) = xs" for xs by (induction xs) (simp_all add: segment_of_def)
  then show ?thesis using n wire_of_append [OF assms(4)] assms(4)
    by (intro exI [of _ n] exI [of _ "tx_log e @ map (segment_of m) (split_mss mss (sm_seq m) (take n data))"] exI [of _ r])
      (auto simp: send_per_mss_fallback_def splits_ok_def)
qed

lemma super_segment_wire:
  assumes "0 < mss" "mss \<le> MSS_MAX" "len \<le> length data" "splits_ok e"
  shows "\<exists>n l r q t. let e' = e\<lparr>tx_log := l, txbuf_results := r, tso_results := q, tso_splits := t\<rparr>
    in send_super_segment_from_cursor m data len mss e = Some (n, e') \<and> n \<le> len
      \<and> (mac_known e (sm_dst_ip m) \<and> txbuf_results e = [] \<longrightarrow> n = len) \<and> splits_ok e'
      \<and> wire_of e' = wire_of e @ split_mss mss (sm_seq m) (take n data)"
proof -
  consider (no) "\<not> mac_known e (sm_dst_ip m)" | (slot) e1 where "mac_known e (sm_dst_ip m)" "acquire_tx_tso_buf e = (True, e1)"
    | (full) e1 where "mac_known e (sm_dst_ip m)" "acquire_tx_tso_buf e = (False, e1)" by (metis (full_types) surj_pair)
  then show ?thesis
  proof cases
    case no
    then show ?thesis using assms(4) unfolding Let_def
      by (intro exI [of _ 0] exI [of _ "tx_log e"] exI [of _ "txbuf_results e"] exI [of _ "tso_results e"] exI [of _ "tso_splits e"])
        (simp add: send_super_segment_from_cursor_def)
  next
    case slot
    obtain q where e1: "e1 = e\<lparr>tso_results := q\<rparr>" using slot(2) by (auto simp: acquire_tx_tso_buf_def split: list.splits intro: that [of "[]"])
    have m: "as_u16 mss = mss" using assms(2) by (simp add: width_simps MSS_MAX_def MSS_V4_def MSS_V6_def)
    have sub: "submit_tx_tso m (take len data) mss (e\<lparr>tso_results := q\<rparr>) = e\<lparr>tx_log := tx_log e @ [\<lparr>seg_meta = m, seg_options = [], seg_payload = take len data\<rparr>],
        txbuf_results := txbuf_results e, tso_results := q, tso_splits := tso_splits e @ [(length (tx_log e), mss)]\<rparr>"
      by (simp add: submit_tx_tso_def push_tx_def)
    have so: "splits_ok (submit_tx_tso m (take len data) mss (e\<lparr>tso_results := q\<rparr>))" using assms(4) by (auto simp: sub splits_ok_def)
    have eq: "send_super_segment_from_cursor m data len mss e = Some (len, submit_tx_tso m (take len data) mss (e\<lparr>tso_results := q\<rparr>))"
      using slot by (simp add: send_super_segment_from_cursor_def m e1)
    note res = so eq wire_of_super [OF assms(4), of m "take len data" mss q]
    show ?thesis unfolding Let_def
      by (rule exI [of _ len], rule exI [of _ "tx_log e @ [\<lparr>seg_meta = m, seg_options = [], seg_payload = take len data\<rparr>]"],
          rule exI [of _ "txbuf_results e"], rule exI [of _ q], rule exI [of _ "tso_splits e @ [(length (tx_log e), mss)]"]) (use res [unfolded sub] in simp)
  next
    case full
    obtain q where e1: "e1 = e\<lparr>tso_results := q\<rparr>" using full(2) by (auto simp: acquire_tx_tso_buf_def split: list.splits)
    have ok: "splits_ok e1" "wire_of e1 = wire_of e" using assms(4) by (simp_all add: e1 splits_ok_def wire_of_def)
    obtain n l r where n: "send_per_mss_fallback m data len mss e1 = Some (n, e1\<lparr>tx_log := l, txbuf_results := r\<rparr>)" "n \<le> len"
      "mac_known e1 (sm_dst_ip m) \<and> txbuf_results e1 = [] \<longrightarrow> n = len" "splits_ok (e1\<lparr>tx_log := l, txbuf_results := r\<rparr>)"
      "wire_of (e1\<lparr>tx_log := l, txbuf_results := r\<rparr>) = wire_of e1 @ split_mss mss (sm_seq m) (take n data)"
      using per_mss_wire [OF assms(1-3) ok(1), of m] by blast
    have e': "e1\<lparr>tx_log := l, txbuf_results := r\<rparr> = e\<lparr>tx_log := l, txbuf_results := r, tso_results := q, tso_splits := tso_splits e\<rparr>" by (simp add: e1)
    have eq: "send_super_segment_from_cursor m data len mss e = Some (n, e1\<lparr>tx_log := l, txbuf_results := r\<rparr>)"
      using full n(1) by (simp add: send_super_segment_from_cursor_def)
    have "mac_known e (sm_dst_ip m) \<and> txbuf_results e = [] \<longrightarrow> n = len" using n(3) by (simp add: e1)
    note res = eq n(2) this n(4) n(5)
    show ?thesis unfolding Let_def
      by (rule exI [of _ n], rule exI [of _ l], rule exI [of _ r], rule exI [of _ q], rule exI [of _ "tso_splits e"])
        (use res [unfolded ok(2) e'] in simp)
  qed
qed

text \<open>A call that finds the window open: what was taken and how the environment changed.\<close>

definition sent_env :: "env \<Rightarrow> sent_segment list \<Rightarrow> bool list \<Rightarrow> bool list \<Rightarrow> (nat \<times> nat) list \<Rightarrow> env" where
  "sent_env e l r q t = e\<lparr>tx_log := l, txbuf_results := r, tso_results := q, tso_splits := t\<rparr>"

lemma try_send_chain_open:
  assumes c: "0 < snd_mss c" "snd_mss c \<le> MSS_MAX" "splits_ok (cenv c)" and st: "state c = Established"
    and open': "min (length (concat bs)) (usable_window c) \<noteq> 0"
  obtains n l r q t where
    "try_send_chain bs c = (case rtx_on_data_sent bs n (c\<lparr>cenv := sent_env (cenv c) l r q t, snd_nxt := snd_nxt c + of_nat n\<rparr>)
       of (bs', c') \<Rightarrow> Some (Inr n, bs', c'))"
    "n \<le> min (length (concat bs)) (usable_window c)"
    "mac_known (cenv c) (remote_ip c) \<and> txbuf_results (cenv c) = [] \<longrightarrow> n = min (length (concat bs)) (usable_window c)"
    "wire_of (sent_env (cenv c) l r q t) = wire_of (cenv c) @ split_mss (snd_mss c) (snd_nxt c) (take n (concat bs))"
proof -
  define len where "len = min (length (concat bs)) (usable_window c)"
  let ?m = "data_meta c"
  define S where "S = (if tso_available (cenv c) \<and> len > snd_mss c \<and> payload_offset (local_ip c) + len \<le> TSO_FRAME_BUF_LEN
      then send_super_segment_from_cursor ?m (concat bs) len (snd_mss c) (cenv c)
      else send_per_mss_fallback ?m (concat bs) len (snd_mss c) (cenv c))"
  have m: "sm_seq ?m = snd_nxt c" "sm_dst_ip ?m = remote_ip c" by (simp_all add: data_meta_def seg_of_def)
  have "len \<le> length (concat bs)" by (simp add: len_def)
  note w = per_mss_wire [OF c(1,2) this c(3), of ?m] super_segment_wire [OF c(1,2) this c(3), of ?m]
  have keep: "e\<lparr>tx_log := l, txbuf_results := r\<rparr> = sent_env e l r (tso_results e) (tso_splits e)" for e l r by (simp add: sent_env_def)
  obtain n l r q t where S: "S = Some (n, sent_env (cenv c) l r q t)" "n \<le> len"
    "mac_known (cenv c) (remote_ip c) \<and> txbuf_results (cenv c) = [] \<longrightarrow> n = len"
    "wire_of (sent_env (cenv c) l r q t) = wire_of (cenv c) @ split_mss (snd_mss c) (snd_nxt c) (take n (concat bs))"
  proof (cases "tso_available (cenv c) \<and> len > snd_mss c \<and> payload_offset (local_ip c) + len \<le> TSO_FRAME_BUF_LEN")
    case True
    then show thesis using w(2) that unfolding S_def m Let_def sent_env_def [symmetric] by (simp only: if_True simp_thms) blast
  next
    case False
    then show thesis using w(1) that unfolding S_def m keep by (simp only: if_False) blast
  qed
  have "length (concat bs) \<noteq> 0" "len \<noteq> 0" using open' by (auto simp: len_def)
  then have "try_send_chain bs c = (case rtx_on_data_sent bs n (c\<lparr>cenv := sent_env (cenv c) l r q t, snd_nxt := snd_nxt c + of_nat n\<rparr>)
      of (bs', c') \<Rightarrow> Some (Inr n, bs', c'))"
    using st S(1) unfolding try_send_chain_def Let_def len_def [symmetric] S_def [symmetric] by auto
  then show thesis using S(2-4) unfolding len_def by (rule that)
qed

lemma try_send_chain_shut:
  assumes "state c = Established" "min (length (concat bs)) (usable_window c) = 0"
  shows "try_send_chain bs c = Some (Inr 0, bs,
    if length (concat bs) \<noteq> 0 \<and> snd_wnd c = 0 \<and> persist_deadline_ms c = 0 then arm_persist (clock c) c else c)"
  using assms unfolding try_send_chain_def Let_def by (cases "length (concat bs) = 0") auto

text \<open>What a call on an established connection leaves behind.\<close>

lemma try_send_chain_cases:
  assumes c: "0 < snd_mss c" "snd_mss c \<le> MSS_MAX" "splits_ok (cenv c)" and st: "state c = Established"
  obtains n bs' c' where "try_send_chain bs c = Some (Inr n, bs', c')" "n \<le> min (length (concat bs)) (usable_window c)"
    "concat bs' = drop n (concat bs)" "snd_una c' = snd_una c" "snd_nxt c' = snd_nxt c + of_nat n"
    "wire_of (cenv c') = wire_of (cenv c) @ split_mss (snd_mss c) (snd_nxt c) (take n (concat bs))"
    "mac_known (cenv c) (remote_ip c) \<and> txbuf_results (cenv c) = [] \<longrightarrow> n = min (length (concat bs)) (usable_window c)"
proof (cases "min (length (concat bs)) (usable_window c) = 0")
  case True
  define c' where "c' = (if length (concat bs) \<noteq> 0 \<and> snd_wnd c = 0 \<and> persist_deadline_ms c = 0 then arm_persist (clock c) c else c)"
  have "try_send_chain bs c = Some (Inr 0, bs, c')" unfolding c'_def by (rule try_send_chain_shut [OF st True])
  moreover have "snd_una c' = snd_una c" "snd_nxt c' = snd_nxt c" "wire_of (cenv c') = wire_of (cenv c)"
    by (simp_all add: c'_def arm_persist_def arm_for_tick_def wire_of_def)
  ultimately show thesis using True by (intro that [of 0 bs c']) simp_all
next
  case False
  obtain n l r q t where S: "try_send_chain bs c = (case rtx_on_data_sent bs n (c\<lparr>cenv := sent_env (cenv c) l r q t, snd_nxt := snd_nxt c + of_nat n\<rparr>)
       of (bs', c') \<Rightarrow> Some (Inr n, bs', c'))"
    "n \<le> min (length (concat bs)) (usable_window c)"
    "mac_known (cenv c) (remote_ip c) \<and> txbuf_results (cenv c) = [] \<longrightarrow> n = min (length (concat bs)) (usable_window c)"
    "wire_of (sent_env (cenv c) l r q t) = wire_of (cenv c) @ split_mss (snd_mss c) (snd_nxt c) (take n (concat bs))"
    by (rule try_send_chain_open [OF c st False]) (rule that)
  obtain bs' c' where r: "rtx_on_data_sent bs n (c\<lparr>cenv := sent_env (cenv c) l r q t, snd_nxt := snd_nxt c + of_nat n\<rparr>) = (bs', c')" by fastforce
  note f = rtx_on_data_sent_frame [OF r]
  have "wire_of (cenv c') = wire_of (sent_env (cenv c) l r q t)" using f(4,5) by (simp add: wire_of_def)
  then show thesis using S r f(1-3) by (intro that [of n bs' c']) simp_all
qed

section \<open>Properties\<close>

text \<open>C3: A send puts a prefix of the caller's bytes on the wire. On an established connection the call returns the number of bytes taken:
  they are within the usable window, they are exactly what reaches the wire, cut into pieces of at most one MSS at
  consecutive sequence numbers, and the chain left to the caller is the rest. With the peer's MAC address known and
  TX buffers free the window is used in full.\<close>

theorem send_takes_prefix:
  assumes "state c = Established" and "0 < snd_mss c" "snd_mss c \<le> MSS_MAX" and "splits_ok (cenv c)"
  shows "\<exists>n bs' c'. try_send_chain bs c = Some (Inr n, bs', c')
    \<and> n \<le> min (length (concat bs)) (usable_window c)
    \<and> concat bs' = drop n (concat bs) \<and> snd_nxt c' = snd_nxt c + of_nat n
    \<and> wire_of (cenv c') = wire_of (cenv c) @ split_mss (snd_mss c) (snd_nxt c) (take n (concat bs))
    \<and> (mac_known (cenv c) (remote_ip c) \<and> txbuf_results (cenv c) = [] \<longrightarrow> n = min (length (concat bs)) (usable_window c))"
proof -
  obtain n bs' c' where s: "try_send_chain bs c = Some (Inr n, bs', c')" "n \<le> min (length (concat bs)) (usable_window c)"
    "concat bs' = drop n (concat bs)" "snd_una c' = snd_una c" "snd_nxt c' = snd_nxt c + of_nat n"
    "wire_of (cenv c') = wire_of (cenv c) @ split_mss (snd_mss c) (snd_nxt c) (take n (concat bs))"
    "mac_known (cenv c) (remote_ip c) \<and> txbuf_results (cenv c) = [] \<longrightarrow> n = min (length (concat bs)) (usable_window c)"
    by (rule try_send_chain_cases [OF assms(2-4,1), of bs]) (rule that)
  then show ?thesis by (intro exI [of _ n] exI [of _ bs'] exI [of _ c']) simp
qed

text \<open>An established connection with its window open.\<close>

definition demo_sending :: "bool \<Rightarrow> conn" where
  "demo_sending tso = attach (tcb_new\<lparr>state := Established, snd_una := 100, snd_nxt := 100, snd_wnd := 5000, cwnd := 4000\<rparr>) (demo_env\<lparr>tso_available := tso\<rparr>)"

lemma demo_sending_facts:
  "state (demo_sending t) = Established" "0 < snd_mss (demo_sending t)" "snd_mss (demo_sending t) \<le> MSS_MAX" "splits_ok (cenv (demo_sending t))"
  "usable_window (demo_sending t) = 4000" "mac_known (cenv (demo_sending t)) ip" "txbuf_results (cenv (demo_sending t)) = []"
  "snd_nxt (demo_sending t) = 100" "wire_of (cenv (demo_sending t)) = []" "cwnd (demo_sending t) = 4000" "flight (demo_sending t) = 0"
  "snd_wnd (demo_sending t) = 5000"
  by (simp_all add: demo_sending_def attach_def tcb.extend_def conn.fields_def tcb_new_def demo_env_def splits_ok_def usable_window_def flight_def wire_of_def
      MSS_MAX_def MSS_V4_def MSS_V6_def)

theorem send_takes_prefix_witness:
  "\<exists>bs' c'. try_send_chain [replicate 3000 1, replicate 3000 2] (demo_sending True) = Some (Inr 4000, bs', c')
    \<and> concat bs' = replicate 2000 2"
  using send_takes_prefix [OF demo_sending_facts(1-4) [of True], of "[replicate 3000 1, replicate 3000 2]"] demo_sending_facts
  by auto

text \<open>C4: The window is respected. Whatever is sent, the bytes in flight afterwards are at most those in flight before or the smaller of the congestion window and
  the peer's window.\<close>

theorem send_within_window:
  assumes "state c = Established" and "0 < snd_mss c" "snd_mss c \<le> MSS_MAX" and "splits_ok (cenv c)"
    and "try_send_chain bs c = Some (r, bs', c')"
  shows "flight c' \<le> max (flight c) (min (cwnd c) (snd_wnd c))"
proof -
  obtain n bs1 c1 where s: "try_send_chain bs c = Some (Inr n, bs1, c1)" "n \<le> min (length (concat bs)) (usable_window c)"
    "concat bs1 = drop n (concat bs)" "snd_una c1 = snd_una c" "snd_nxt c1 = snd_nxt c + of_nat n"
    "wire_of (cenv c1) = wire_of (cenv c) @ split_mss (snd_mss c) (snd_nxt c) (take n (concat bs))"
    "mac_known (cenv c) (remote_ip c) \<and> txbuf_results (cenv c) = [] \<longrightarrow> n = min (length (concat bs)) (usable_window c)"
    by (rule try_send_chain_cases [OF assms(2-4,1), of bs]) (rule that)
  have "c1 = c'" using s(1) assms(5) by simp
  then have "flight c' = unat (snd_nxt c - snd_una c + of_nat n)" using s(4,5) by (simp add: flight_def algebra_simps)
  also have "\<dots> \<le> unat (snd_nxt c - snd_una c) + n"
    by (metis (no_types) unat_plus_if' unat_of_nat add_mono le_refl mod_less_eq_dividend diff_le_self order_trans unat_word_ariths(1))
  finally have "flight c' \<le> flight c + n" by (simp add: flight_def)
  then show ?thesis using s(2) by (cases "n = 0") (auto simp: usable_window_def)
qed

lemma demo_sends:
  obtains bs' c' where "try_send_chain [replicate 9000 1] (demo_sending t) = Some (Inr 4000, bs', c')"
proof -
  note d = demo_sending_facts
  obtain n bs' c' where s: "try_send_chain [replicate 9000 1] (demo_sending t) = Some (Inr n, bs', c')"
    "n = min (length (concat [replicate 9000 (1 :: u8)])) (usable_window (demo_sending t))"
    by (rule try_send_chain_cases [OF d(2-4,1)]) (use d(6,7) that in blast)
  then show thesis using that d(5) by simp
qed

theorem send_within_window_witness:
  "\<exists>bs' c'. try_send_chain [replicate 9000 1] (demo_sending False) = Some (Inr 4000, bs', c') \<and> flight c' \<le> 4000"
proof -
  note d = demo_sending_facts
  obtain bs' c' where s: "try_send_chain [replicate 9000 1] (demo_sending False) = Some (Inr 4000, bs', c')" by (rule demo_sends)
  from send_within_window [OF d(1-4) s] s show ?thesis by (auto simp: d)
qed

text \<open>The loop over segments ends for every positive segment size, whatever the driver answers, so that every call with such a
  segment size returns.\<close>

lemma try_send_chain_total:
  assumes "0 < snd_mss c"
  shows "\<exists>r. try_send_chain bs c = Some r"
proof -
  have loop: "\<exists>r. per_mss_loop m cursor len mss sent e = Some r" if "0 < mss" for m cursor len mss sent e
    using that
  proof (induction "len - sent" arbitrary: m cursor sent e rule: less_induct)
    case less
    obtain ok cursor' e' where s: "send_segment_from_cursor m cursor (min (len - sent) mss) e = (ok, cursor', e')"
      by (cases "send_segment_from_cursor m cursor (min (len - sent) mss) e")
    show ?case
    proof (cases "sent < len")
      case True
      then have "len - (sent + min (len - sent) mss) < len - sent" using less.prems by simp
      from less.hyps [OF this less.prems] show ?thesis using True s by (subst per_mss_loop.simps) (simp add: Let_def)
    qed (subst per_mss_loop.simps, simp)
  qed
  have "\<exists>r. send_per_mss_fallback m d len (snd_mss c) e = Some r" for m d len e
    using loop [OF assms] by (simp add: send_per_mss_fallback_def)
  moreover from this have "\<exists>r. send_super_segment_from_cursor m d len (snd_mss c) e = Some r" for m d len e
    by (simp add: send_super_segment_from_cursor_def split: prod.split)
  ultimately show ?thesis unfolding try_send_chain_def Let_def
    by (auto split: option.split prod.split) (metis option.distinct(1))+
qed

lemma offload_shut:
  assumes "state c = Established" and "min (length (concat bs)) (usable_window c) = 0"
  shows "\<exists>w. \<forall>b. try_send_chain bs (c\<lparr>cenv := (cenv c)\<lparr>tso_available := b\<rparr>\<rparr>) = Some (Inr 0, bs, seen (retso b) w)"
proof -
  define w where "w = (if length (concat bs) \<noteq> 0 \<and> snd_wnd c = 0 \<and> persist_deadline_ms c = 0 then arm_persist (clock c) c else c)"
  define u where "u b = c\<lparr>cenv := (cenv c)\<lparr>tso_available := b\<rparr>\<rparr>" for b
  have u: "state (u b) = Established" "min (length (concat bs)) (usable_window (u b)) = 0" for b
    using assms by (simp_all add: u_def usable_window_def flight_def)
  note shut = try_send_chain_shut [OF u]
  have "u b = seen (retso b) c" for b by (simp add: u_def seen_def retso_def)
  then have "try_send_chain bs (u b) = Some (Inr 0, bs, seen (retso b) w)" for b
    using shut [of b] offload.arm_persist_seen [of "clock c" b c] offload.seen_fields(4) [of b c] by (auto simp: w_def) (simp_all add: seen_def)
  then show ?thesis by (auto simp: u_def)
qed

text \<open>C10: Both strategies are the same to the peer. With the device's buffers free, a send that hands the device one super-segment and a send
  that loops over segments take the same bytes and leave the same chain and the same connection; once the device has cut
  the super-segment, the same segments are on the wire.\<close>

theorem tso_equals_per_mss:
  assumes "state c = Established" and "0 < snd_mss c" "snd_mss c \<le> MSS_MAX" and "splits_ok (cenv c)"
    and "mac_known (cenv c) (remote_ip c)" "txbuf_results (cenv c) = []"
  shows "\<exists>n bs' c1 c2.
      try_send_chain bs (c\<lparr>cenv := (cenv c)\<lparr>tso_available := True\<rparr>\<rparr>) = Some (Inr n, bs', c1)
    \<and> try_send_chain bs (c\<lparr>cenv := (cenv c)\<lparr>tso_available := False\<rparr>\<rparr>) = Some (Inr n, bs', c2)
    \<and> wire_of (cenv c1) = wire_of (cenv c2) \<and> tcb.truncate c1 = tcb.truncate c2"
proof -
  define u where "u b = c\<lparr>cenv := (cenv c)\<lparr>tso_available := b\<rparr>\<rparr>" for b
  have u: "state (u b) = Established" "0 < snd_mss (u b)" "snd_mss (u b) \<le> MSS_MAX" "splits_ok (cenv (u b))"
      "mac_known (cenv (u b)) (remote_ip (u b))" "txbuf_results (cenv (u b)) = []" "usable_window (u b) = usable_window c" for b
    using assms by (simp_all add: u_def splits_ok_def usable_window_def flight_def)
  have wire: "wire_of (cenv (u b)) = wire_of (cenv c)" "snd_mss (u b) = snd_mss c" "snd_nxt (u b) = snd_nxt c" for b by (simp_all add: u_def wire_of_def)
  show ?thesis
  proof (cases "min (length (concat bs)) (usable_window c) = 0")
    case True
    then obtain w where "\<forall>b. try_send_chain bs (u b) = Some (Inr 0, bs, seen (retso b) w)" using offload_shut [OF assms(1)] by (auto simp: u_def)
    then show ?thesis unfolding u_def [symmetric]
      by (intro exI [of _ 0] exI [of _ bs] exI [of _ "seen (retso True) w"] exI [of _ "seen (retso False) w"])
        (simp add: wire_of_def retso_def seen_def tcb.truncate_def)
  next
    case False
    then have op: "min (length (concat bs)) (usable_window (u b)) \<noteq> 0" for b by (simp add: u(7))
    have "\<exists>n l r q t. try_send_chain bs (u b) = (case rtx_on_data_sent bs n ((u b)\<lparr>cenv := sent_env (cenv (u b)) l r q t, snd_nxt := snd_nxt (u b) + of_nat n\<rparr>)
           of (bs', c') \<Rightarrow> Some (Inr n, bs', c'))
        \<and> n = min (length (concat bs)) (usable_window c)
        \<and> wire_of (sent_env (cenv (u b)) l r q t) = wire_of (cenv c) @ split_mss (snd_mss c) (snd_nxt c) (take n (concat bs))" for b
      by (rule try_send_chain_open [OF u(2-4,1) op, of b], unfold u(7) wire) (use u(5,6) [of b] in blast)
    then obtain l r q t l' r' q' t' n where n: "n = min (length (concat bs)) (usable_window c)"
      and T: "try_send_chain bs (u True) = (case rtx_on_data_sent bs n ((u True)\<lparr>cenv := sent_env (cenv (u True)) l r q t, snd_nxt := snd_nxt (u True) + of_nat n\<rparr>)
           of (bs', c') \<Rightarrow> Some (Inr n, bs', c'))"
        "wire_of (sent_env (cenv (u True)) l r q t) = wire_of (cenv c) @ split_mss (snd_mss c) (snd_nxt c) (take n (concat bs))"
      and F: "try_send_chain bs (u False) = (case rtx_on_data_sent bs n ((u False)\<lparr>cenv := sent_env (cenv (u False)) l' r' q' t', snd_nxt := snd_nxt (u False) + of_nat n\<rparr>)
           of (bs', c') \<Rightarrow> Some (Inr n, bs', c'))"
        "wire_of (sent_env (cenv (u False)) l' r' q' t') = wire_of (cenv c) @ split_mss (snd_mss c) (snd_nxt c) (take n (concat bs))"
      by metis
    let ?i = "\<lambda>b e. (u b)\<lparr>cenv := e, snd_nxt := snd_nxt (u b) + of_nat n\<rparr>"
    let ?g = "\<lambda>e. e\<lparr>tx_log := l', txbuf_results := r', tso_results := q', tso_splits := t', tso_available := False\<rparr>"
    obtain bs' c1 where c1: "rtx_on_data_sent bs n (?i True (sent_env (cenv (u True)) l r q t)) = (bs', c1)" by fastforce
    have "?i False (sent_env (cenv (u False)) l' r' q' t') = seen ?g (?i True (sent_env (cenv (u True)) l r q t))" by (simp add: seen_def sent_env_def u_def)
    then have c2: "rtx_on_data_sent bs n (?i False (sent_env (cenv (u False)) l' r' q' t')) = (bs', seen ?g c1)"
      using relog.rtx_on_data_sent_seen [where bs = bs and tot = n] c1 by simp
    have "wire_of (cenv c1) = wire_of (cenv (seen ?g c1))"
      using rtx_on_data_sent_frame(4,5) [OF c1] rtx_on_data_sent_frame(4,5) [OF c2] T(2) F(2) by (simp add: wire_of_def)
    moreover have "tcb.truncate c1 = tcb.truncate (seen ?g c1)" by (simp add: seen_def tcb.truncate_def)
    ultimately show ?thesis unfolding u_def [symmetric] using T(1) F(1) c1 c2
      by (intro exI [of _ n] exI [of _ bs'] exI [of _ c1] exI [of _ "seen ?g c1"]) simp
  qed
qed

theorem tso_equals_per_mss_witness:
  "\<exists>n bs' c1 c2. try_send_chain [replicate 9000 1] (demo_sending True) = Some (Inr n, bs', c1)
    \<and> try_send_chain [replicate 9000 1] (demo_sending False) = Some (Inr n, bs', c2)
    \<and> wire_of (cenv c1) = wire_of (cenv c2)"
proof -
  note d = demo_sending_facts
  have e: "demo_sending b = (demo_sending a)\<lparr>cenv := (cenv (demo_sending a))\<lparr>tso_available := b\<rparr>\<rparr>" for a b
    by (simp add: demo_sending_def attach_def tcb.extend_def conn.fields_def tcb_new_def)
  show ?thesis using tso_equals_per_mss [OF d(1-4,6,7) [of False], of "[replicate 9000 1]", folded e] by blast
qed

text \<open>C11: A send can park with nothing to wake it. With the peer's window open and nothing in flight, a call that finds the peer's MAC
  address unresolved takes nothing and changes nothing: it answers 0 like a call on a shut window, but no timer is
  armed and no segment is out whose acknowledgement would wake the sender.\<close>

theorem blocked_send_unarmed:
  assumes "state c = Established" and "\<not> mac_known (cenv c) (remote_ip c)" and "concat bs \<noteq> []" and "0 < usable_window c" and "0 < snd_mss c"
    and "\<not> armed c"
  shows "try_send_chain bs c = Some (Inr 0, bs, c) \<and> \<not> armed c"
proof -
  have dst: "sm_dst_ip (data_meta c) = remote_ip c" by (simp add: data_meta_def seg_of_def)
  have "send_segment_from_cursor (data_meta c) d n (cenv c) = (False, d, cenv c)" for d n
    using assms(2) by (simp add: send_segment_from_cursor_def dst)
  then have p: "send_per_mss_fallback (data_meta c) d n mss (cenv c) = Some (0, cenv c)" for d n mss
    unfolding send_per_mss_fallback_def by (subst per_mss_loop.simps) (simp add: Let_def)
  have s: "send_super_segment_from_cursor (data_meta c) d n mss (cenv c) = Some (0, cenv c)" for d n mss
    using assms(2) by (simp add: send_super_segment_from_cursor_def dst)
  define len where "len = min (length (concat bs)) (usable_window c)"
  have "concat bs \<noteq> []" "len \<noteq> 0" using assms(3,4) by (auto simp: len_def)
  then show ?thesis using assms(1,6) unfolding try_send_chain_def Let_def len_def [symmetric] p s by (auto simp: rtx_on_data_sent_def)
qed

theorem blocked_send_unarmed_witness:
  "let c = (demo_sending False)\<lparr>cenv := (cenv (demo_sending False))\<lparr>mac_known := \<lambda>_. False\<rparr>\<rparr>
   in try_send_chain [[1, 2, 3]] c = Some (Inr 0, [[1, 2, 3]], c) \<and> flight c = 0"
proof -
  let ?c = "(demo_sending False)\<lparr>cenv := (cenv (demo_sending False))\<lparr>mac_known := \<lambda>_. False\<rparr>\<rparr>"
  have "state ?c = Established" "\<not> mac_known (cenv ?c) (remote_ip ?c)" "concat [[1, 2, 3 :: u8]] \<noteq> []" "0 < usable_window ?c" "0 < snd_mss ?c" "\<not> armed ?c" "flight ?c = 0"
    by (simp_all add: demo_sending_def attach_def tcb.extend_def conn.fields_def tcb_new_def usable_window_def flight_def armed_def MSS_MAX_def MSS_V4_def MSS_V6_def)
  then show ?thesis using blocked_send_unarmed [of ?c "[[1, 2, 3]]"] unfolding Let_def by blast
qed

text \<open>A machine with one core on which an open has just succeeded.\<close>

lemma demo_opened:
  obtains k h g s where "machine_ok [k]" "decode_handle [k] h = Some (0, s)" "in_use s k" "state (conns k s) = SynSent"
    "generation (conns k s) = g"
proof -
  obtain h g k where c: "connect_on_core (V4 0xC0A80102) (V4 0xC0A80101) 49152 demo_core = (Some (h, g), k)"
    using connect_succeeds [OF demo_core_ok demo_port(1) demo_core_allocates] by blast
  obtain s where s: "h = encode_handle (core_id demo_core) s" "in_use s k" "state (conns k s) = SynSent" "generation (conns k s) = g" "core_ok k {}"
    using demo_core_ok c
  proof (cases rule: connect_cases)
    case (yes lp k1 s' g' k3 ring c0 D')
    then show ?thesis using that [of s'] open_slot_ok(1-3) [OF yes(4,6,7)] by (simp add: syn_pending_def Let_def)
  qed simp
  have "h = encode_handle 0 s" using s(1) by (simp add: demo_core_def core_new_def)
  moreover have "slots_ok k" "s < pool_capacity k" using s(2,5) in_use_bound [OF s(5,2)] by (auto simp: core_ok_def pool_ok_def)
  ultimately have "decode_handle [k] h = Some (0, s)" using decode_encode(1) [of 0 "[k]" s] by simp
  moreover have "machine_ok [k]" using s(5) by (auto simp: machine_ok_def)
  ultimately show thesis using that s(2-4) by blast
qed

text \<open>Releasing a slot makes its handle stale.\<close>

lemma freed_handle_stale:
  assumes m: "machine_ok m" and d: "decode_handle m h = Some (c, s)" and s: "in_use s (m ! c)"
  defines "m' \<equiv> m[c := free_connection s (m ! c)]"
  shows "machine_ok m'" "handle_stale m' h (generation (conns (m ! c) s))"
proof -
  have c: "c < length m" using decode_core [OF d] by simp
  obtain D where ok: "core_ok (m ! c) D" using m c by (auto simp: machine_ok_def)
  show "machine_ok m'" unfolding machine_ok_def
  proof (intro allI impI)
    fix i assume "i < length m'"
    then show "\<exists>D. core_ok (m' ! i) D"
      using m c core_ok_free(1) [OF ok s] by (cases "i = c") (auto simp: machine_ok_def m'_def)
  qed
  have "pool_capacity (m' ! c) = pool_capacity (m ! c)"
    unfolding m'_def nth_list_update_eq [OF c] by (rule core_ok_free(2) [OF ok s])
  then have cap: "pool_capacity (m' ! i) = pool_capacity (m ! i)" for i by (cases "i = c") (simp_all add: m'_def)
  have len: "length m' = length m" by (simp add: m'_def)
  have "decode_handle m' h = Some (c, s)" using d by (simp only: decode_handle_def len cap)
  moreover have "generation (conns (m' ! c) s) \<noteq> generation (conns (m ! c) s)"
    using freed_slot(1) [OF ok s] c next_generation by (simp add: m'_def)
  ultimately show "handle_stale m' h (generation (conns (m ! c) s))" by (simp add: handle_stale_def)
qed

text \<open>C29: A freed handle is inert. Freeing a slot, for whatever reason, makes the handle and generation it
  was known by stale, and closing a connection in any state but ESTABLISHED and CLOSE-WAIT frees its slot.
  On every machine on which a handle is stale, that is whose slot has another generation, every operation
  called with it, sends included, answers as for a closed connection, wakes the waker it is given, and
  leaves the state of every core as it is: a second close or a late read cannot touch a connection
  that reuses the slot, until the 16-bit generation has wrapped around.\<close>

theorem freed_handle_inert:
  assumes "machine_ok m" and "decode_handle m h = Some (c, s)" and "in_use s (m ! c)" and "generation (conns (m ! c) s) = g"
  shows "let m' = m[c := free_connection s (m ! c)]
    in machine_ok m' \<and> handle_stale m' h g
     \<and> (state (conns (m ! c) s) \<notin> {Established, CloseWait} \<longrightarrow> tcp_close h g m = m')
     \<and> (\<forall>n. handle_stale n h g \<longrightarrow> tcp_close h g n = n \<and> async_recv h g len n = ([], n) \<and> do_recv_chunk h g n = (None, n)
          \<and> async_try_send_chain h g bs n = Some (Inl SendClosed, bs, n) \<and> try_send_tso h g min_payload fill n = (None, n)
          \<and> register_recv_waker h g w n = (True, n) \<and> register_send_waker h g w n = (True, n)
          \<and> clear_recv_waker h g n = n \<and> clear_send_waker h g n = n
          \<and> set_chunk_buf_slot h g n = n \<and> clear_chunk_buf_slot h g n = n
          \<and> is_readable_or_closed h g n \<and> connect_status h g n = ConnectTimedOut)"
proof -
  have "close_slot s (m ! c) = free_connection s (m ! c)" if "state (conns (m ! c) s) \<notin> {Established, CloseWait}"
    using that by (cases "state (conns (m ! c) s)") (simp_all add: close_slot_def)
  then have "state (conns (m ! c) s) \<notin> {Established, CloseWait} \<longrightarrow> tcp_close h g m = m[c := free_connection s (m ! c)]"
    using assms(4) by (simp add: tcp_close_def with_handle_def assms(2))
  moreover have "async_try_send_chain h g bs n = Some (Inl SendClosed, bs, n)" "is_readable_or_closed h g n"
    "connect_status h g n = ConnectTimedOut" if "handle_stale n h g" for n
    using that by (auto simp: handle_stale_def async_try_send_chain_def is_readable_or_closed_def connect_status_def Let_def split: option.split)
  ultimately show ?thesis using freed_handle_stale [OF assms(1-3)]
    by (simp add: with_handle_stale assms(4) Let_def tcp_close_def async_recv_def do_recv_chunk_def try_send_tso_def register_recv_waker_def
      register_send_waker_def clear_recv_waker_def clear_send_waker_def set_chunk_buf_slot_def clear_chunk_buf_slot_def)
qed

theorem freed_handle_inert_witness:
  "\<exists>m h g. machine_ok m \<and> decode_handle m h \<noteq> None \<and> tcp_close h g m \<noteq> m \<and> handle_stale (tcp_close h g m) h g
     \<and> async_recv h g 16 (tcp_close h g m) = ([], tcp_close h g m)
     \<and> async_try_send_chain h g [[7]] (tcp_close h g m) = Some (Inl SendClosed, [[7]], tcp_close h g m)"
proof -
  obtain k h g s where k: "machine_ok [k]" "decode_handle [k] h = Some (0, s)" "in_use s k" "state (conns k s) = SynSent"
    "generation (conns k s) = g" by (rule demo_opened)
  have "\<not> handle_stale [k] h g" using k(2,5) by (simp add: handle_stale_def)
  then show ?thesis
    using freed_handle_inert [OF k(1,2), of g 16 "[[7]]" 0 "\<lambda>_. Inl ()" 0] k
    by (intro exI [of _ "[k]"] exI [of _ h] exI [of _ g]) (auto simp: Let_def)
qed

end
