(* ===== verification/Tcp_Views.thy ===== *)
theory Tcp_Views
  imports Tcp_Timers Tcp_Receive
begin

text \<open>
  What acknowledgements, retransmissions and timers leave alone, proved once: a view of the connection that no recovery
  field enters and that sending a segment and joining the timer list do not change is the same before and after each of them.
\<close>

locale quiet_view =
  fixes F :: "conn \<Rightarrow> 'b"
  assumes quiet: "F (emit m p opts c) = F c" "F (arm_for_tick c) = F c"
      "F (c\<lparr>cc := x0\<rparr>) = F c" "F (c\<lparr>cwnd := x1\<rparr>) = F c" "F (c\<lparr>dup_acks := x2\<rparr>) = F c"
      "F (c\<lparr>rtx_queue := x3\<rparr>) = F c" "F (c\<lparr>rtx_bytes_in_flight := x4\<rparr>) = F c" "F (c\<lparr>rack_sack_hint := x5\<rparr>) = F c"
      "F (c\<lparr>rack_deadline_ms := x6\<rparr>) = F c" "F (c\<lparr>persist_deadline_ms := x7\<rparr>) = F c" "F (c\<lparr>persist_backoff := x8\<rparr>) = F c"
      "F (c\<lparr>rtx_backoff := x9\<rparr>) = F c" "F (c\<lparr>tlp_count := x10\<rparr>) = F c" "F (c\<lparr>rto_ms := x11\<rparr>) = F c"
      "F (c\<lparr>rtx_deadline_ms := x12\<rparr>) = F c" "F (c\<lparr>tlp_deadline_ms := x13\<rparr>) = F c" "F (c\<lparr>rtx_alloc_failed := x14\<rparr>) = F c"
      "F (c\<lparr>srtt_ms := x15\<rparr>) = F c" "F (c\<lparr>rttvar_ms := x16\<rparr>) = F c" "F (c\<lparr>rtt_seeded := x17\<rparr>) = F c"
      "F (c\<lparr>rtt_anchor_active := x18\<rparr>) = F c" "F (c\<lparr>lifecycle_deadline_ms := x19\<rparr>) = F c" "F (c\<lparr>fin_retx_count := x20\<rparr>) = F c"
begin

lemma view_arm: "F (arm_tlp now c) = F c" "F (arm_rtx c) = F c" "F (arm_persist now c) = F c" "F (arm_fin_timer now c) = F c" "F (arm_time_wait now c) = F c"
  by (simp_all add: arm_tlp_def arm_rtx_def arm_persist_def arm_fin_timer_def arm_time_wait_def Let_def quiet)

lemma view_entry: "F (emit_rtx_entry i c) = F c"
  by (simp add: emit_rtx_entry_def Let_def quiet)

lemma view_holes: "F (emit_holes b h is c) = F c"
  by (induction "is" arbitrary: c) (simp_all add: Let_def view_entry)

lemma view_marked: "F (emit_marked b ls is c) = F c"
  by (induction b ls "is" c rule: emit_marked.induct) (simp_all add: view_entry)

lemma view_rtx_ack: "F (snd (rtx_ack a c)) = F c"
  by (simp add: rtx_ack_def case_prod_beta Let_def quiet)

lemma view_rtx_on_ack: "F (rtx_on_ack u c) = F c"
proof -
  have v: "F (cwnd_on_ack n c) = F c" "F (take_rtt_sample c) = F c" "F (rtx_restart c) = F c" for n c
    by (simp_all add: cwnd_on_ack_def take_rtt_sample_def sample_rtt_def rtx_restart_def Let_def quiet view_arm)
  show ?thesis using view_rtx_ack [of "snd_una c" c] by (simp add: rtx_on_ack_def Let_def case_prod_beta v quiet)
qed

lemma view_dup_ack: "F (on_dup_ack c) = F c" "F (on_new_data_ack c) = F c"
  by (simp_all add: on_dup_ack_def on_new_data_ack_def fast_retransmit_def sack_retransmit_holes_def retransmit_oldest_segment_def
      Let_def quiet view_entry view_holes split: option.split)

lemma view_sack: "F (snd (apply_sack bs c)) = F c"
  by (simp add: apply_sack_def Let_def quiet)

lemma view_rack: "F (rack_detect now c) = F c"
  by (simp add: rack_detect_def Let_def case_prod_beta quiet view_marked split: option.split)

text \<open>The last thing an acknowledgement does is wake the sender.\<close>

lemma view_ack_recovery:
  obtains d where "ack_recovery s u dup c = d \<or> ack_recovery s u dup c = wake_sender d" "F d = F c"
proof -
  define d where "d = (let c1 = rtx_on_ack u c;
      c2 = (if sack_ok c1 \<and> sg_data_offset s > 20 \<and> sacked_blocks s \<noteq> [] then snd (apply_sack (sacked_blocks s) c1) else c1);
      c3 = (if dup then on_dup_ack c2 else if snd_una c2 \<noteq> u then on_new_data_ack c2 else c2);
      c4 = rack_detect (clock c3) c3
    in if snd_wnd c4 > 0 then c4\<lparr>persist_deadline_ms := 0, persist_backoff := 0\<rparr> else c4)"
  have "F d = F c" by (simp add: d_def Let_def quiet view_rtx_on_ack view_sack view_dup_ack view_rack)
  moreover have "ack_recovery s u dup c = (if usable_window d > 0 then wake_sender d else d)" by (simp only: ack_recovery_def d_def Let_def)
  ultimately show thesis using that [of d] by simp
qed

lemma view_timers: "F (retransmit_oldest now c) = F c" "F (send_tlp_probe now c) = F c" "F (send_window_probe now c) = F c" "F (retransmit_fin now c) = F c"
  by (simp_all add: retransmit_oldest_def send_tlp_probe_def send_window_probe_def retransmit_fin_def retransmit_oldest_segment_def congestion_on_rto_def
      Let_def quiet view_entry view_arm)

end

end
