(* ===== verification/Tcp_System.thy ===== *)
theory Tcp_System
  imports Tcp_Views Tcp_Send Tcp_Stream
begin

text \<open>
  One core of the TCP stack as a whole: the calls of the application, the segments and path-MTU reports that
  arrive, the timer tick and the changes of the environment as the steps of one relation. What holds of a core
  when it is set up holds of every core reached from there: the pool, the index, the rings and the timer list are
  well-formed, and every control block is well-typed.
\<close>

section \<open>Well-typed control blocks\<close>

text \<open>The segment size of a block is one that every path carries and that a frame buffer holds.\<close>

definition mss_ok :: "'a tcb_scheme \<Rightarrow> bool" where
  "mss_ok c \<longleftrightarrow> 536 \<le> snd_mss c \<and> snd_mss c \<le> MSS_MAX"

definition slot_ok :: "tcb \<Rightarrow> bool" where
  "slot_ok c \<longleftrightarrow> passive_port c \<and> mss_ok c"

definition type_view :: "'a tcb_scheme \<Rightarrow> TcpState \<times> u16 \<times> nat" where
  "type_view c = (state c, listener_port c, snd_mss c)"

lemma mss_for_bounds: "536 \<le> mss_for ip \<and> mss_for ip \<le> MSS_MAX \<and> mss_for ip < 65536"
  by (cases ip) (simp_all add: tcp_consts MSS_V4_def MSS_V6_def)

interpretation typed_slots: slot_property slot_ok
  by unfold_locales (auto simp: slot_ok_def mss_ok_def passive_port_def tcp_consts MSS_V4_def tcb_new_def reset_preserving_def Let_def)

interpretation typed: quiet_view type_view
  by unfold_locales (simp_all add: type_view_def)

lemma slot_ok_view: "type_view c' = type_view (c :: tcb) \<Longrightarrow> slot_ok (tcb.truncate c') = slot_ok c"
  by (simp add: type_view_def slot_ok_def passive_port_def mss_ok_def)

lemma negotiated_bounds: "536 \<le> negotiated_mss ip p \<and> negotiated_mss ip p \<le> MSS_MAX"
  using mss_for_bounds [of ip] by (auto simp: negotiated_mss_def Let_def as_u16_def split: option.split)

section \<open>Operations on one connection\<close>

interpretation path_mtu_update: quiet_update "\<lambda>c. c\<lparr>snd_mss := m\<rparr>" for m by unfold_locales simp_all

lemma typed_on_conn:
  assumes "all_slots slot_ok k" "slot_ok (conns k i) \<Longrightarrow> slot_ok (tcb.truncate (f (conn_at i k)))"
  shows "all_slots slot_ok (on_conn i f k)"
  using assms by (simp add: all_slots_def on_conn_def)

lemma typed_put:
  assumes "all_slots slot_ok k" "type_view c = type_view (conns k i)"
  shows "all_slots slot_ok (conn_put i c k)"
  using assms slot_ok_view [of c "conns k i"] by (simp add: all_slots_def)

lemma typed_on_conn_view: "all_slots slot_ok k \<Longrightarrow> (\<And>c. type_view (f c) = type_view c) \<Longrightarrow> all_slots slot_ok (on_conn i f k)"
  using typed_put [of k "f (conn_at i k)" i] by (simp add: on_conn_def) (simp add: type_view_def)

lemma typed_upd: "all_slots slot_ok k \<Longrightarrow> (slot_ok (conns k i) \<Longrightarrow> slot_ok (u (conns k i))) \<Longrightarrow> all_slots slot_ok (upd_slot i u k)"
  by (simp add: all_slots_def upd_slot_def)

lemma type_view_reads: "type_view (snd (rx_pop n c)) = type_view c" "type_view (snd (recv_chunk c)) = type_view c"
  "type_view (snd (ensure_rx_ring c)) = type_view c"
proof -
  show r: "type_view (snd (rx_pop n c)) = type_view c" for n c
    by (simp add: type_view_def rx_pop_def maybe_send_window_update_def Let_def split: option.split)
  show "type_view (snd (recv_chunk c)) = type_view c"
    using r by (simp add: recv_chunk_def Let_def case_prod_beta split: option.split) (simp add: type_view_def)
  show "type_view (snd (ensure_rx_ring c)) = type_view c"
    by (simp add: type_view_def ensure_rx_ring_def Let_def case_prod_beta split: option.split)
qed

lemma type_view_queue: "type_view (snd (rtx_push b sq l n c)) = type_view c" "type_view (handle_rtx_push_oom c) = type_view c"
  by (simp_all add: type_view_def rtx_push_def handle_rtx_push_oom_def arm_rtx_def arm_tlp_def rtx_enqueue_def set_rtt_anchor_def Let_def case_prod_beta)

lemma type_view_data_sent: "type_view (snd (rtx_on_data_sent bs n c)) = type_view c" "type_view (rtx_on_data_sent_slice b c) = type_view c"
proof -
  have "type_view (snd (rtx_sent_loop now bs n sq c)) = type_view c" for now bs n sq c
  proof (induction bs arbitrary: n sq c)
    case (Cons b bs)
    then show ?case by (simp add: type_view_queue Let_def case_prod_beta)
  qed simp
  then show "type_view (snd (rtx_on_data_sent bs n c)) = type_view c" by (simp add: rtx_on_data_sent_def)
  show "type_view (rtx_on_data_sent_slice b c) = type_view c"
    by (simp add: rtx_on_data_sent_slice_def Let_def case_prod_beta type_view_queue) (simp add: type_view_def)
qed

lemma touches_data_sent_slice [touching]: "touches c (rtx_on_data_sent_slice b c)"
proof -
  obtain ok e where e: "try_alloc (cenv c) = (ok, e)" by fastforce
  have t: "touches c (c\<lparr>cenv := e\<rparr>)" "touches c (c\<lparr>cenv := e, rtx_alloc_failed := True\<rparr>)"
    using e by (auto simp: touch_defs dest!: try_alloc_cases)
  have p: "touches c (snd (rtx_push b sq l n (c\<lparr>cenv := e\<rparr>)))" for sq l n by (rule touches_trans [OF t(1) touches_rtx_push])
  show ?thesis using touches_refl [of c] p touches_trans [OF t(2) touches_oom] touches_trans [OF p touches_oom] t
    by (simp add: rtx_on_data_sent_slice_def e Let_def case_prod_beta)
qed

section \<open>Sending\<close>

text \<open>The clock, the timer list and the trace of wake-ups are not the sender's.\<close>

definition env_kept :: "env \<Rightarrow> env \<Rightarrow> bool" where
  "env_kept e e' \<longleftrightarrow> tick_head e' = tick_head e \<and> now_ms e' = now_ms e \<and> woken e' = woken e"

lemma env_kept_frame: "send_segment_from_cursor m cur n e = (ok, cur', e') \<Longrightarrow> env_kept e e'"
  by (auto simp: env_kept_def send_segment_from_cursor_def build_and_send_frame_def acquire_tx_buf_def push_tx_def Let_def
      split: if_splits prod.splits list.splits)

lemma env_kept_loop:
  assumes "0 < mss" "per_mss_loop m cur len mss sent e = Some (n, e')"
  shows "env_kept e e'"
  using assms(2)
proof (induction "len - sent" arbitrary: m cur sent e rule: less_induct)
  case less
  obtain ok cur' e1 where s: "send_segment_from_cursor m cur (min (len - sent) mss) e = (ok, cur', e1)"
    by (cases "send_segment_from_cursor m cur (min (len - sent) mss) e")
  note k = env_kept_frame [OF s]
  show ?case
  proof (cases "sent < len \<and> ok")
    case True
    then have "per_mss_loop (m\<lparr>sm_seq := sm_seq m + of_nat (min (len - sent) mss)\<rparr>) cur' len mss (sent + min (len - sent) mss) e1 = Some (n, e')"
      using less.prems s by (subst (asm) per_mss_loop.simps) (simp add: Let_def)
    moreover have "len - (sent + min (len - sent) mss) < len - sent" using True assms(1) by auto
    ultimately have "env_kept e1 e'" using less.hyps by blast
    then show ?thesis using k by (simp add: env_kept_def)
  next
    case False
    then show ?thesis using less.prems s k by (subst (asm) per_mss_loop.simps) (auto simp: Let_def env_kept_def split: if_splits)
  qed
qed

lemma env_kept_super:
  assumes "0 < mss" "send_super_segment_from_cursor m cur len mss e = Some (n, e')"
  shows "env_kept e e'"
proof -
  obtain ok e1 where a: "acquire_tx_tso_buf e = (ok, e1)" by fastforce
  then have "env_kept e e1" by (auto simp: env_kept_def acquire_tx_tso_buf_def split: list.splits if_splits)
  then show ?thesis using assms(2) a env_kept_loop [OF assms(1), of m cur len 0 e1]
    by (auto simp: send_super_segment_from_cursor_def send_per_mss_fallback_def submit_tx_tso_def push_tx_def env_kept_def split: if_splits)
qed

lemma send_shape:
  assumes "try_send_chain bs c = Some (r, bs', c')" "0 < snd_mss c"
  obtains "c' = c" | "c' = arm_persist (clock c) c"
  | n e where "env_kept (cenv c) e" "c' = snd (rtx_on_data_sent bs n (c\<lparr>cenv := e, snd_nxt := snd_nxt c + of_nat n\<rparr>))"
proof -
  define len where "len = min (length (concat bs)) (usable_window c)"
  define S where "S = (if tso_available (cenv c) \<and> len > snd_mss c \<and> payload_offset (local_ip c) + len \<le> TSO_FRAME_BUF_LEN
      then send_super_segment_from_cursor (data_meta c) (concat bs) len (snd_mss c) (cenv c)
      else send_per_mss_fallback (data_meta c) (concat bs) len (snd_mss c) (cenv c))"
  have k: "env_kept (cenv c) e" if "S = Some (n, e)" for n e
    using that env_kept_super [OF assms(2)] env_kept_loop [OF assms(2)] by (simp add: S_def send_per_mss_fallback_def split: if_splits)
  have "c' = c \<or> c' = arm_persist (clock c) c \<or> (\<exists>n e. S = Some (n, e) \<and> c' = snd (rtx_on_data_sent bs n (c\<lparr>cenv := e, snd_nxt := snd_nxt c + of_nat n\<rparr>)))"
    using assms(1) unfolding try_send_chain_def Let_def len_def [symmetric] S_def [symmetric]
    by (auto simp: case_prod_beta split: if_splits option.splits)
  then show thesis using that k by blast
qed

lemma send_tso_shape:
  assumes "try_send_tso_conn mp fill c = (r, c')"
  obtains e where "env_kept (cenv c) e" "c' = c \<or> c' = c\<lparr>cenv := e\<rparr> \<or> (\<exists>b m x. let d = rtx_on_data_sent_slice b (c\<lparr>cenv := e, snd_nxt := snd_nxt c + of_nat (length b)\<rparr>)
      in c' = d\<lparr>cenv := submit_tx_tso m b x (cenv d)\<rparr>)"
proof -
  obtain ok e where a: "acquire_tx_tso_buf (cenv c) = (ok, e)" by fastforce
  then have k: "env_kept (cenv c) e" by (auto simp: env_kept_def acquire_tx_tso_buf_def split: list.splits if_splits)
  show thesis
    by (rule that [OF k]) (use assms a in \<open>auto simp: try_send_tso_conn_def Let_def split: if_splits sum.splits\<close>)
qed

lemma touches_kept: "env_kept (cenv c) e \<Longrightarrow> touches c (c\<lparr>cenv := e\<rparr>)" "env_kept (cenv c) e \<Longrightarrow> touches c (c\<lparr>cenv := e, snd_nxt := x\<rparr>)"
  by (auto simp: env_kept_def touch_defs)

lemma send_touches:
  assumes "try_send_chain bs c = Some (r, bs', c')" "0 < snd_mss c"
  shows "touches c c' \<and> type_view c' = type_view c"
  by (rule send_shape [OF assms])
    (simp_all add: touches_refl touches_arm_persist typed.view_arm type_view_data_sent(1) touches_trans [OF touches_kept(2) touches_rtx_on_data_sent],
     simp add: type_view_def)

lemma send_tso_touches:
  assumes "try_send_tso_conn mp fill c = (r, c')"
  shows "touches c c' \<and> type_view c' = type_view c"
proof (rule send_tso_shape [OF assms])
  fix e assume k: "env_kept (cenv c) e" and c': "c' = c \<or> c' = c\<lparr>cenv := e\<rparr> \<or> (\<exists>b m x. let d = rtx_on_data_sent_slice b (c\<lparr>cenv := e, snd_nxt := snd_nxt c + of_nat (length b)\<rparr>)
      in c' = d\<lparr>cenv := submit_tx_tso m b x (cenv d)\<rparr>)"
  have q: "touches d (d\<lparr>cenv := submit_tx_tso m b x (cenv d)\<rparr>)" "type_view (d\<lparr>cenv := submit_tx_tso m b x (cenv d)\<rparr>) = type_view d" for d m b x
    by (auto simp: touch_defs submit_tx_tso_def push_tx_def type_view_def)
  note t = touches_trans [OF touches_trans [OF touches_kept(2) [OF k] touches_data_sent_slice] q(1)]
  from c' show ?thesis using touches_refl touches_kept(1) [OF k] t
    by (auto simp: Let_def q(2) type_view_data_sent(2)) (simp_all add: type_view_def)
qed

section \<open>Operations on a core\<close>

lemma typed_frame: "all_slots slot_ok k \<Longrightarrow> conns k' = conns k \<Longrightarrow> all_slots slot_ok k'"
  by (simp add: all_slots_def)

lemma typed_close:
  assumes "all_slots slot_ok k"
  shows "all_slots slot_ok (close_slot i k)"
proof -
  have "slot_ok (tcb.truncate (send_fin st (conn_at i k)))" if "st \<in> {FinWait1, LastAck}" "slot_ok (conns k i)" for st
    using that by (auto simp: slot_ok_def passive_port_def mss_ok_def send_fin_def arm_fin_timer_def Let_def)
  then show ?thesis using assms typed_slots.free_connection by (simp add: close_slot_def typed_on_conn split: TcpState.split)
qed

lemma typed_fail: "all_slots slot_ok k \<Longrightarrow> all_slots slot_ok (fail_connect i f k)"
  by (simp add: fail_connect_def all_slots_def Let_def slot_ok_def passive_port_def mss_ok_def)

lemma next_seq_conns: "conns (snd (next_seq k)) = conns k"
  by (simp add: next_seq_def Let_def)

lemma typed_ring:
  assumes "all_slots slot_ok k" "ensure_rx_ring (conn_at i k) = (ok, c)"
  shows "all_slots slot_ok (conn_put i c k)"
  using typed_put [OF assms(1)] type_view_reads(3) [of "conn_at i k"] assms(2) by (simp add: type_view_def)

lemma typed_open_slot:
  assumes "all_slots slot_ok k"
  shows "all_slots slot_ok (open_slot a b p q i k)"
proof -
  obtain iss k4 where n: "next_seq k = (iss, k4)" by fastforce
  define k5 where "k5 = on_conn i (syn_sent_setup a b p q iss) k4"
  have "all_slots slot_ok k4" using assms next_seq_conns [of k] n by (auto intro: typed_frame)
  then have k5: "all_slots slot_ok k5" unfolding k5_def
    by (rule typed_on_conn) (simp add: slot_ok_def passive_port_def mss_ok_def syn_sent_setup_def)
  have "all_slots slot_ok (k5\<lparr>hash := h\<rparr>)" for h using k5 by (rule typed_frame) simp
  then show ?thesis unfolding open_slot_def n Let_def prod.case k5_def [symmetric]
    by (rule typed_on_conn_view) (simp add: typed.view_arm send_syn_def typed.quiet(1))
qed

lemma typed_connect:
  assumes "all_slots slot_ok k"
  shows "all_slots slot_ok (snd (connect_on_core a b q k))"
proof -
  obtain r k1 where p: "alloc_ephemeral_port a b q k = (r, k1)" by fastforce
  obtain x where "k1 = k\<lparr>next_offset := x\<rparr>" using alloc_ephemeral_port_cases(1) [OF p] by blast
  then have k1: "all_slots slot_ok k1" using assms by (auto intro: typed_frame)
  obtain s k2 where al: "alloc_connection k1 = (s, k2)" by fastforce
  note k2 = typed_slots.alloc_connection [OF k1 al]
  show ?thesis
  proof (cases s)
    case None
    then show ?thesis using k1 k2 p al by (cases r) (simp_all add: connect_on_core_def)
  next
    case (Some i)
    obtain ok c where e: "ensure_rx_ring (conn_at i k2) = (ok, c)" by fastforce
    note k3 = typed_ring [OF k2 e]
    show ?thesis using Some p al e k1 typed_slots.free_connection [OF k3, of i] typed_open_slot [OF k3, of a b _ q i]
      by (cases r) (simp_all add: connect_on_core_def Let_def)
  qed
qed

lemma typed_listen:
  assumes "all_slots slot_ok k"
  shows "all_slots slot_ok (snd (listen_on_core p k))"
proof -
  obtain s k1 where al: "alloc_connection k = (s, k1)" by fastforce
  note k1 = typed_slots.alloc_connection [OF assms al]
  have "all_slots slot_ok (upd_slot i (\<lambda>c. c\<lparr>state := Listen, local_port := p\<rparr>) k1)" for i
    by (rule typed_upd [OF k1]) (simp add: slot_ok_def passive_port_def mss_ok_def)
  then have "all_slots slot_ok (listener_register p i (upd_slot i (\<lambda>c. c\<lparr>state := Listen, local_port := p\<rparr>) k1))" for i
    by (rule typed_frame) (simp add: listener_register_frame)
  then show ?thesis using k1 al by (cases s) (simp_all add: listen_on_core_def Let_def)
qed

lemma typed_accept:
  assumes "all_slots slot_ok k" "rings_ok k"
  shows "all_slots slot_ok (snd (accept_on_port_core p k))"
proof -
  obtain r k' where a: "accept_on_port_core p k = (r, k')" by fastforce
  have "slot_ok ((conns k i)\<lparr>accepted := True\<rparr>)" for i using assms(1) by (simp add: all_slots_def slot_ok_def passive_port_def mss_ok_def)
  then show ?thesis using accept_on_port_correct [OF assms(2) a] a assms(1) by (auto simp: all_slots_def split: option.splits)
qed

section \<open>Reception\<close>

lemma typed_refuse: "all_slots slot_ok k \<Longrightarrow> all_slots slot_ok (refuse s k)"
  by (rule typed_frame) (simp_all add: refuse_def)

lemma typed_challenge:
  assumes "all_slots slot_ok k"
  shows "all_slots slot_ok (send_challenge_ack s a b w k)"
  by (rule send_challenge_ack_frame [of s a b w k], rule typed_frame [OF assms]) simp

lemma typed_open_passive:
  assumes "all_slots slot_ok k" "sg_dst_port s \<noteq> 0"
  shows "all_slots slot_ok (open_passive s i k)"
proof -
  obtain isn k4 where n: "next_seq k = (isn, k4)" by fastforce
  define k5 where "k5 = on_conn i (syn_received_setup s isn) k4"
  have "all_slots slot_ok k4" using assms(1) next_seq_conns [of k] n by (auto intro: typed_frame)
  then have k5: "all_slots slot_ok k5" unfolding k5_def
    by (rule typed_on_conn) (use assms(2) negotiated_bounds in \<open>simp add: slot_ok_def passive_port_def mss_ok_def syn_received_setup_def congestion_init_def Let_def\<close>)
  have "all_slots slot_ok (k5\<lparr>hash := h\<rparr>)" for h using k5 by (rule typed_frame) simp
  then show ?thesis unfolding open_passive_def n Let_def prod.case k5_def [symmetric]
    by (rule typed_on_conn_view) (simp add: type_view_def send_syn_ack_def)
qed

lemma typed_admit:
  assumes "all_slots slot_ok k" "sg_dst_port s \<noteq> 0"
  shows "all_slots slot_ok (admit_syn s st k)"
proof -
  define k1 where "k1 = (case st of Some i \<Rightarrow> free_connection i k | None \<Rightarrow> k)"
  have k1: "all_slots slot_ok k1" using assms(1) typed_slots.free_connection by (simp add: k1_def split: option.split)
  obtain q k2 where al: "alloc_connection k1 = (q, k2)" by fastforce
  note k2 = typed_slots.alloc_connection [OF k1 al]
  have step: "all_slots slot_ok (let (ok, c) = ensure_rx_ring (conn_at i k2); k3 = conn_put i c k2
      in if \<not> ok then free_connection i (refuse s k3) else open_passive s i k3)" for i
  proof -
    obtain ok c where e: "ensure_rx_ring (conn_at i k2) = (ok, c)" by fastforce
    note k3 = typed_ring [OF k2 e]
    show ?thesis using e typed_slots.free_connection [OF typed_refuse [OF k3]] typed_open_passive [OF k3 assms(2)] by (simp add: Let_def)
  qed
  show ?thesis using typed_refuse [OF assms(1)] step k2 unfolding admit_syn_def Let_def k1_def [symmetric] al by (cases q) simp_all
qed

lemma typed_rst: "all_slots slot_ok k \<Longrightarrow> all_slots slot_ok (receive_rst s k)"
  using typed_fail typed_slots.free_connection by (simp add: receive_rst_def Let_def split: option.split)

lemma typed_syn: "all_slots slot_ok k \<Longrightarrow> sg_dst_port s \<noteq> 0 \<Longrightarrow> all_slots slot_ok (receive_syn s k)"
  using typed_challenge typed_admit by (simp add: receive_syn_def Let_def split: option.split)

lemma mss_process_rest: "snd_mss (process_rest p s c) = snd_mss c"
proof -
  have "snd_mss (process_data s c) = snd_mss c" for c
    using process_data_frame [of snd_mss] by (simp add: emit_ack_def wake_receiver_def Let_def)
  moreover have "snd_mss (process_fin s c) = snd_mss c" for c
    by (simp add: process_fin_def Let_def bare_ack_def wake_receiver_def arm_time_wait_def split: TcpState.split)
  moreover have "snd_mss (process_time_wait p s c) = snd_mss c" for c
    by (simp add: process_time_wait_def Let_def bare_ack_def arm_time_wait_def)
  moreover have "snd_mss (refresh_reader c) = snd_mss c" for c
    by (simp add: refresh_reader_def Let_def wake_receiver_def maybe_send_window_update_def)
  ultimately show ?thesis by (simp add: process_rest_def)
qed

lemma typed_process_rest: "slot_ok (conns k i) \<Longrightarrow> slot_ok (tcb.truncate (process_rest p s (conn_at i k)))"
  using process_rest_state [of p s "conn_at i k"] by (auto simp: slot_ok_def passive_port_def mss_ok_def mss_process_rest)

lemma type_view_ack_recovery: "type_view (ack_recovery s u d c) = type_view c"
  by (rule typed.view_ack_recovery [of s u d c]) (auto simp: type_view_def wake_sender_def)

lemma typed_ack_transition:
  assumes "all_slots slot_ok k"
  shows "all_slots slot_ok (ack_transition s adv i k)"
proof -
  have e: "all_slots slot_ok (upd_slot i (\<lambda>c. c\<lparr>state := Established, snd_una := a\<rparr>) k)"
    "all_slots slot_ok (upd_slot i (\<lambda>c. c\<lparr>state := FinWait2, snd_una := a, lifecycle_deadline_ms := 0, fin_retx_count := 0\<rparr>) k)"
    "all_slots slot_ok (upd_slot i (\<lambda>c. c\<lparr>snd_una := a\<rparr>) k)" for a
    using assms by (auto simp: all_slots_def upd_slot_def slot_ok_def passive_port_def mss_ok_def)
  have "all_slots slot_ok (deliver_tcp_ready p (accept_ring_push p j (upd_slot i (\<lambda>c. c\<lparr>state := Established, snd_una := a\<rparr>) k)))" for p j a
    by (rule typed_frame [OF e(1)]) (simp add: deliver_tcp_ready_frame)
  then show ?thesis using assms e by (simp add: ack_transition_def Let_def)
qed

lemma typed_process_ack:
  assumes "all_slots slot_ok k" "process_ack s i k = (dn, k')"
  shows "all_slots slot_ok k'"
proof -
  define k1 where "k1 = upd_slot i (ack_window s) k"
  have k1: "all_slots slot_ok k1" unfolding k1_def
    by (rule typed_upd [OF assms(1)]) (simp add: slot_ok_def passive_port_def mss_ok_def ack_window_def)
  have "all_slots slot_ok (on_conn i (ack_recovery s u d) (ack_transition s adv i k1))" for u d adv
    by (rule typed_on_conn_view [OF typed_ack_transition [OF k1] type_view_ack_recovery])
  then show ?thesis using assms typed_challenge typed_slots.free_connection [OF k1] unfolding process_ack_def Let_def k1_def [symmetric]
    by (auto split: if_splits)
qed

lemma typed_receive:
  assumes "all_slots slot_ok k" "\<not> syn_to_zero s"
  shows "all_slots slot_ok (receive_segment s k)"
proof -
  have h: "all_slots slot_ok (on_conn i (handle_syn_sent s) k)" if "state (conns k i) = SynSent" for i
    by (rule typed_on_conn [OF assms(1)]) (use that negotiated_bounds in \<open>simp add: slot_ok_def passive_port_def mss_ok_def handle_syn_sent_def
        establish_active_def wake_receiver_def wake_sender_def bare_ack_def sample_syn_rtt_def congestion_init_def Let_def\<close>)
  have "all_slots slot_ok (receive_synchronized s i k)" for i
  proof -
    obtain dn k1 where a: "(if has_flag TCP_ACK s then process_ack s i k else (False, k)) = (dn, k1)" by fastforce
    then have k1: "all_slots slot_ok k1" using assms(1) typed_process_ack [of k s i dn k1] by (auto split: if_splits)
    show ?thesis unfolding receive_synchronized_def Let_def a using k1 typed_on_conn [OF k1, where f = "process_rest (state (conns k i)) s" and i = i] typed_process_rest by simp
  qed
  moreover have "all_slots slot_ok (receive_syn s k)" if "has_flag TCP_SYN s" "\<not> has_flag TCP_ACK s" "\<not> has_flag TCP_RST s"
    using that assms typed_syn [OF assms(1)] by (simp add: syn_to_zero_def)
  ultimately show ?thesis using assms(1) h typed_rst by (simp add: receive_segment_def Let_def split: option.split)
qed

lemma pmtu_floor_bounds: "536 \<le> pmtu_floor ip"
  by (cases ip) simp_all

lemma typed_path_mtu:
  assumes "all_slots slot_ok k"
  shows "all_slots slot_ok (snd (note_path_mtu ip p q sq cand k))"
proof -
  have "all_slots slot_ok (upd_slot i (\<lambda>c. c\<lparr>snd_mss := m\<rparr>) k)" if "536 \<le> m" "m < snd_mss (conns k i)" for i m
    by (rule typed_upd [OF assms]) (use that in \<open>auto simp: slot_ok_def passive_port_def mss_ok_def\<close>)
  moreover have "536 \<le> max cand (pmtu_floor a)" for a using pmtu_floor_bounds [of a] by simp
  ultimately show ?thesis using assms unfolding note_path_mtu_def Let_def by (simp del: max_less_iff_conj split: option.split)
qed

lemma path_mtu_ok:
  assumes ok: "core_ok k D"
  shows "core_ok (snd (note_path_mtu ip p q sq cand k)) D"
proof -
  have "core_ok (upd_slot i (\<lambda>c. c\<lparr>snd_mss := m\<rparr>) k) D" for i m
    using path_mtu_update.core_ok [OF ok] by simp
  then show ?thesis using ok by (simp add: note_path_mtu_def Let_def split: option.split)
qed

section \<open>The tick\<close>

lemma typed_tick_slot:
  assumes "all_slots slot_ok k"
  shows "all_slots slot_ok (snd (tick_slot now i k))"
proof -
  have v: "type_view (tick_rtx now c) = type_view c" "type_view (tick_rack now c) = type_view c" "type_view (tick_persist now c) = type_view c"
      "type_view (retransmit_syn now c) = type_view c" "type_view (c\<lparr>lifecycle_deadline_ms := 0\<rparr>) = type_view c" for c :: conn
    by (simp_all add: tick_rtx_def tick_rack_def tick_persist_def retransmit_syn_def send_syn_def Let_def typed.view_timers typed.view_rack typed.view_arm typed.quiet)
  have l: "all_slots slot_ok (tick_lifecycle now i k)" if "all_slots slot_ok k" for k
    using that typed_slots.free_connection typed_fail typed_on_conn_view [OF that] v typed.view_timers
    by (simp add: tick_lifecycle_def Let_def split: TcpState.split)
  show ?thesis using assms l typed_slots.free_connection typed_on_conn_view v by (simp add: tick_slot_def Let_def)
qed

lemma typed_tick_walk: "all_slots slot_ok k \<Longrightarrow> tick_walk n now w h k = Some (h', k') \<Longrightarrow> all_slots slot_ok k'"
proof (induction n arbitrary: w h k)
  case (Suc n)
  obtain b k1 where t: "tick_slot now w k = (b, k1)" by fastforce
  then have k1: "all_slots slot_ok k1" using typed_tick_slot [OF Suc.prems(1), of now w] by simp
  obtain h2 k2 where r: "tick_relink w h k1 = (h2, k2)" by fastforce
  then have k2: "all_slots slot_ok k2"
    using k1 typed_slots.tick_next by (auto simp: tick_relink_def Let_def all_slots_def slot_ok_def passive_port_def mss_ok_def split: if_splits)
  show ?case using Suc.prems t r Suc.IH [OF k1] Suc.IH [OF k2] by (auto simp: Let_def split: if_splits)
qed simp

lemma typed_publish: "all_slots slot_ok k \<Longrightarrow> all_slots slot_ok (tick_head_publish h k)"
  using typed_slots.tick_next by (simp add: tick_head_publish_def all_slots_def Let_def)

lemma typed_tick:
  assumes "all_slots slot_ok k" "on_tcp_tick k = Some k'"
  shows "all_slots slot_ok k'"
proof -
  obtain h k1 where t: "tick_head_take k = (h, k1)" by fastforce
  then have "all_slots slot_ok k1" using assms(1) by (auto simp: tick_head_take_def all_slots_def)
  then show ?thesis using assms(2) t typed_tick_walk [of k1] typed_publish by (auto simp: on_tcp_tick_def Let_def)
qed

section \<open>The steps of a core\<close>

text \<open>
  A call on a handle acts on a slot in use; the guard \<open>in_use\<close> stands for the handle's generation check. Between two
  steps the environment may change in every way but for the timer list, which the core owns, and the trace of wake-ups, which grows:
  the clock, the resolved addresses, the outcomes of allocations to come. The label of a step is the slot whose reader takes it, for the
  steps that are a reader's own. Every segment but one kind is a step: a SYN to port 0, which should be refused and is not (C36), puts a
  connection on an accept ring no port has claimed, which no invariant of the rings survives.
\<close>

inductive core_step :: "nat option \<Rightarrow> core \<Rightarrow> core \<Rightarrow> bool" where
  environment: "tick_head e = tick_head (core_env k) \<Longrightarrow> set (woken (core_env k)) \<subseteq> set (woken e) \<Longrightarrow> core_step None k (k\<lparr>core_env := e\<rparr>)"
| listen: "core_step None k (snd (listen_on_core port k))"
| accept: "core_step None k (snd (accept_on_port_core port k))"
| connect: "core_step None k (snd (connect_on_core l_ip r_ip r_port k))"
| recv: "in_use i k \<Longrightarrow> core_step (Some i) k (conn_put i (snd (rx_pop n (conn_at i k))) k)"
| recv_chunk: "in_use i k \<Longrightarrow> core_step (Some i) k (conn_put i (snd (recv_chunk (conn_at i k))) k)"
| set_recv_waker: "core_step (Some i) k (upd_slot i (\<lambda>c. c\<lparr>recv_waker := w\<rparr>) k)"
| set_chunk_wanted: "core_step (Some i) k (upd_slot i (\<lambda>c. c\<lparr>chunk_wanted := b\<rparr>) k)"
| close: "in_use i k \<Longrightarrow> core_step (Some i) k (close_slot i k)"
| set_send_waker: "core_step None k (upd_slot i (\<lambda>c. c\<lparr>send_waker := w\<rparr>) k)"
| send: "in_use i k \<Longrightarrow> try_send_chain bs (conn_at i k) = Some (r, bs', c) \<Longrightarrow> core_step None k (conn_put i c k)"
| send_tso: "in_use i k \<Longrightarrow> try_send_tso_conn mp fill (conn_at i k) = (q, c) \<Longrightarrow> core_step None k (conn_put i c k)"
| segment: "\<not> syn_to_zero s \<Longrightarrow> core_step None k (receive_segment s k)"
| path_mtu: "core_step None k (snd (note_path_mtu r_ip r_port l_port sq cand k))"
| tick: "on_tcp_tick k = Some k' \<Longrightarrow> core_step None k k'"

definition core_next :: "core \<Rightarrow> core \<Rightarrow> bool" where
  "core_next k k' \<longleftrightarrow> (\<exists>a. core_step a k k')"

definition core_typed :: "core \<Rightarrow> bool" where
  "core_typed k \<longleftrightarrow> (\<exists>D. core_ok k D) \<and> all_slots slot_ok k"

lemma core_typed_new: "core_typed (core_new c n isns e)"
  unfolding core_typed_def using core_ok_new typed_slots.new_core by blast

lemma connect_core_ok:
  assumes ok: "core_ok k D"
  shows "\<exists>D'. core_ok (snd (connect_on_core l_ip r_ip r_port k)) D'"
proof -
  obtain res k' where c: "connect_on_core l_ip r_ip r_port k = (res, k')" by fastforce
  show ?thesis
    using ok c
  proof (cases rule: connect_cases)
    case (no D')
    then show ?thesis using c by auto
  next
    case (yes l_port k1 s g k3 ring c0 D')
    show ?thesis unfolding c snd_conv yes(3) using open_slot_ok(1) [OF yes(4,6,7)] by blast
  qed
qed

lemma tick_core_ok:
  assumes "core_ok k D" "on_tcp_tick k = Some k'"
  shows "\<exists>D'. core_ok k' D'"
proof -
  obtain fs ts where p: "pool_ok k fs ts D" "rings_ok k" "all_slots listed k" using assms(1) by (auto elim: core_okE)
  show ?thesis using tick_ok [OF p] assms(2) by (metis option.inject)
qed

lemma typed_reads:
  assumes "core_ok k D" "all_slots slot_ok k" "in_use i k" "touches (conn_at i k) c" "type_view c = type_view (conn_at i k)"
  shows "core_typed (conn_put i c k)"
  using core_ok_put(1) [OF assms(1,3,4)] typed_put [OF assms(2), of c i] assms(5) by (auto simp: core_typed_def type_view_def)

lemma core_step_typed:
  assumes "core_step a k k'" "core_typed k"
  shows "core_typed k'"
proof -
  obtain D where ok: "core_ok k D" "all_slots slot_ok k" using assms(2) by (auto simp: core_typed_def)
  have ci: "core_inv k D" using ok by (simp add: core_inv_def all_slots_def slot_ok_def)
  have mss: "0 < snd_mss (conn_at i k)" for i using ok(2) by (auto simp: all_slots_def slot_ok_def mss_ok_def dest: spec [of _ i])
  from assms(1) show ?thesis
  proof cases
    case (environment e)
    then show ?thesis using ok core_ok_frame [OF ok(1), of k'] typed_frame [OF ok(2), of k'] by (auto simp: core_typed_def)
  next
    case (listen port)
    then show ?thesis using listen_core_ok [OF ok(1), of port] typed_listen [OF ok(2)] by (auto simp: core_typed_def)
  next
    case (accept port)
    then show ?thesis using accept_core_ok [OF ok(1), of port] typed_accept [OF ok(2), of port] ok(1) by (auto simp: core_typed_def core_ok_def)
  next
    case (connect l_ip r_ip r_port)
    then show ?thesis using connect_core_ok [OF ok(1)] typed_connect [OF ok(2)] by (auto simp: core_typed_def)
  next
    case (recv i n)
    then show ?thesis using typed_reads [OF ok recv(3) touches_rx_pop type_view_reads(1)] by simp
  next
    case (recv_chunk i)
    then show ?thesis using typed_reads [OF ok recv_chunk(3) touches_recv_chunk type_view_reads(2)] by simp
  next
    case (set_recv_waker i w)
    then show ?thesis using recv_waker_update.core_ok [OF ok(1)] typed_upd [OF ok(2), of i "\<lambda>c. c\<lparr>recv_waker := w\<rparr>"]
      by (auto simp: core_typed_def slot_ok_def passive_port_def mss_ok_def)
  next
    case (set_send_waker i w)
    then show ?thesis using send_waker_update.core_ok [OF ok(1)] typed_upd [OF ok(2), of i "\<lambda>c. c\<lparr>send_waker := w\<rparr>"]
      by (auto simp: core_typed_def slot_ok_def passive_port_def mss_ok_def)
  next
    case (set_chunk_wanted i b)
    then show ?thesis using chunk_wanted_update.core_ok [OF ok(1)] typed_upd [OF ok(2), of i "\<lambda>c. c\<lparr>chunk_wanted := b\<rparr>"]
      by (auto simp: core_typed_def slot_ok_def passive_port_def mss_ok_def)
  next
    case (send i bs r bs' c)
    then show ?thesis using typed_reads [OF ok send(3)] send_touches [OF send(4) mss] by simp
  next
    case (send_tso i mp fill q c)
    then show ?thesis using typed_reads [OF ok send_tso(3)] send_tso_touches [OF send_tso(4)] by simp
  next
    case (close i)
    then show ?thesis using close_slot_ok [OF ok(1), of i] typed_close [OF ok(2)] by (auto simp: core_typed_def)
  next
    case (segment s)
    then show ?thesis using receive_segment_inv [OF ci segment(3)] typed_receive [OF ok(2) segment(3)] by (auto simp: core_typed_def core_inv_def)
  next
    case (path_mtu r_ip r_port l_port sq cand)
    then show ?thesis unfolding core_typed_def path_mtu(2) using path_mtu_ok [OF ok(1)] typed_path_mtu [OF ok(2)] by blast
  next
    case tick
    then show ?thesis using tick_core_ok [OF ok(1)] typed_tick [OF ok(2)] by (auto simp: core_typed_def)
  qed
qed

section \<open>Reachable cores\<close>

lemma reachable_typed:
  assumes "core_next\<^sup>*\<^sup>* (core_new c n isns e) k"
  shows "core_typed k"
  using assms by (induction rule: rtranclp_induct) (auto simp: core_next_def intro: core_typed_new core_step_typed)

text \<open>C6: Every reachable core is well-typed. Whatever calls the application makes, whatever segments, except a SYN to port 0 (C36), and
  whatever reports arrive, whatever allocations fail and whenever the timer ticks: the slot pool with its free list, the connection index, the accept rings and the armed-timer
  list stay well-formed, every control block has a segment size from the smallest every path carries up to what a frame buffer holds, and
  every half-open connection names the port it came in on.\<close>

theorem reachable_core_typed:
  assumes "core_next\<^sup>*\<^sup>* (core_new c n isns e) k"
  shows "(\<exists>D. core_ok k D) \<and> 536 \<le> snd_mss (conns k i) \<and> snd_mss (conns k i) \<le> MSS_MAX
    \<and> (state (conns k i) = SynReceived \<longrightarrow> listener_port (conns k i) \<noteq> 0)"
  using reachable_typed [OF assms] by (auto simp: core_typed_def all_slots_def slot_ok_def mss_ok_def passive_port_def)

definition demo_run :: core where
  "demo_run = receive_segment (demo_syn 80) (snd (listen_on_core 80 demo_core))"

lemma demo_run_reached: "core_next\<^sup>*\<^sup>* (core_new 0 1 (\<lambda>_. 7) demo_env) demo_run"
proof -
  have "core_step None (snd (listen_on_core 80 demo_core)) demo_run" unfolding demo_run_def by (rule segment) (simp add: syn_to_zero_def demo_syn_def)
  then have "core_next (snd (listen_on_core 80 demo_core)) demo_run" "core_next demo_core (snd (listen_on_core 80 demo_core))"
    using listen [of demo_core 80] by (auto simp: core_next_def)
  then show ?thesis by (simp add: demo_core_def)
qed

theorem reachable_core_typed_witness:
  "core_next\<^sup>*\<^sup>* (core_new 0 1 (\<lambda>_. 7) demo_env) demo_run \<and> (\<exists>D. core_ok demo_run D) \<and> 536 \<le> snd_mss (conns demo_run 0)"
  using demo_run_reached reachable_core_typed [OF demo_run_reached] by blast

end
