(* ===== verification/Tcp_Wakeup.thy ===== *)
theory Tcp_Wakeup
  imports Tcp_System
begin

text \<open>
  No wake-up is lost. A reader parked on an established connection with nothing to read stays parked, with
  nothing to read, or is woken, through every step of the core that is not the reader's own: segments, timers, failing
  allocations, the reclaiming of slots and the calls of other tasks.
\<close>

section \<open>The parked reader\<close>

definition awaits :: "nat \<Rightarrow> 'a tcb_scheme \<Rightarrow> bool" where
  "awaits w c \<longleftrightarrow> recv_waker c = Some w \<and> state c = Established \<and> rx_used c = 0 \<and> pending_chunk c = None"

definition parked :: "nat \<Rightarrow> nat \<Rightarrow> core \<Rightarrow> bool" where
  "parked i w k \<longleftrightarrow> w \<in> set (woken (core_env k)) \<or> i < pool_capacity k \<and> awaits w (conns k i)"

text \<open>What a step on one connection, and a step of the core, does to a reader.\<close>

definition calm :: "conn \<Rightarrow> conn \<Rightarrow> bool" where
  "calm c c' \<longleftrightarrow> set (woken (cenv c)) \<subseteq> set (woken (cenv c')) \<and> (\<forall>w. awaits w c \<longrightarrow> w \<in> set (woken (cenv c')) \<or> awaits w c')"

definition calmly :: "nat \<Rightarrow> core \<Rightarrow> core \<Rightarrow> bool" where
  "calmly i k k' \<longleftrightarrow> set (woken (core_env k)) \<subseteq> set (woken (core_env k')) \<and> pool_capacity k \<le> pool_capacity k'
     \<and> (\<forall>w. i < pool_capacity k \<longrightarrow> awaits w (conns k i) \<longrightarrow> w \<in> set (woken (core_env k')) \<or> awaits w (conns k' i))"

lemma calmly_parked: "calmly i k k' \<Longrightarrow> parked i w k \<Longrightarrow> parked i w k'"
  by (auto simp: calmly_def parked_def)

lemma calm_trans: "calm a b \<Longrightarrow> calm b c \<Longrightarrow> calm a c"
  unfolding calm_def by blast

lemma calmly_trans: "calmly i a b \<Longrightarrow> calmly i b c \<Longrightarrow> calmly i a c"
  unfolding calmly_def by (meson le_trans order_less_le_trans subset_trans subsetD)

lemma calmly_refl: "calmly i k k"
  by (simp add: calmly_def)

lemma calmly_frame: "conns k' = conns k \<Longrightarrow> nsegs k' = nsegs k \<Longrightarrow> woken (core_env k') = woken (core_env k) \<Longrightarrow> calmly i k k'"
  using capacity_cong [of k' k] by (simp add: calmly_def)

lemma awaits_truncate [simp]: "awaits w (tcb.truncate c) = awaits w c" "awaits w (conn_at i k) = awaits w (conns k i)"
  by (simp_all add: awaits_def)

lemma calmly_put: "calm (conn_at j k) c \<Longrightarrow> calmly i k (conn_put j c k)"
  by (auto simp: calmly_def calm_def)

lemma calmly_put_other: "set (woken (core_env k)) \<subseteq> set (woken (cenv c)) \<Longrightarrow> j \<noteq> i \<Longrightarrow> calmly i k (conn_put j c k)"
  by (auto simp: calmly_def)

lemma calmly_upd:
  assumes "\<And>w. awaits w (conns k j) \<Longrightarrow> awaits w (u (conns k j))"
  shows "calmly i k (upd_slot j u k)"
  using assms by (simp add: calmly_def upd_slot_def pool_capacity_def)

lemma calmly_upd_other: "j \<noteq> i \<Longrightarrow> calmly i k (upd_slot j u k)"
  by (simp add: calmly_def upd_slot_def pool_capacity_def)

definition reader_view :: "conn \<Rightarrow> nat option \<times> nat list \<times> TcpState \<times> nat \<times> bytes option" where
  "reader_view c = (recv_waker c, woken (cenv c), state c, rx_used c, pending_chunk c)"

lemma woken_emit [simp]: "woken (cenv (emit m p opts c)) = woken (cenv c)" "woken (cenv (arm_for_tick c)) = woken (cenv c)"
  by (simp_all add: emit_def send_segment_opts_def build_and_send_frame_def acquire_tx_buf_def push_tx_def arm_for_tick_def Let_def
      case_prod_beta split: list.split)

lemma reader_emit [simp]: "recv_waker (emit m p opts c) = recv_waker c" "recv_waker (arm_for_tick c) = recv_waker c"
  "pending_chunk (emit m p opts c) = pending_chunk c" "pending_chunk (arm_for_tick c) = pending_chunk c"
  by (simp_all add: emit_def arm_for_tick_def)

interpretation reader: quiet_view reader_view
  by unfold_locales (simp_all add: reader_view_def)

lemma calm_view: "reader_view c' = reader_view c \<Longrightarrow> calm c c'"
  by (simp add: reader_view_def calm_def awaits_def)

lemma calmly_on_conn: "(\<And>c. reader_view (f c) = reader_view c) \<Longrightarrow> calmly i k (on_conn j f k)"
  unfolding on_conn_def by (intro calmly_put calm_view)

lemma wake_woken [simp]: "set (woken (wake w e)) = set (woken e) \<union> set_option w"
  by (cases w) (auto simp: wake_def)

section \<open>The pool\<close>

lemma tick_unlink_frame:
  "awaits w (conns (tick_unlink j k) i) = awaits w (conns k i)" "woken (core_env (tick_unlink j k)) = woken (core_env k)"
  "nsegs (tick_unlink j k) = nsegs k"
  by (simp_all add: tick_unlink_def Let_def awaits_def split: option.split)

lemma calmly_free: "calmly i k (free_connection j k)"
proof -
  have "recv_waker (conns k j) = Some w \<and> state (conns k j) \<noteq> Closed" if "awaits w (conns k j)" for w using that by (simp add: awaits_def)
  then show ?thesis
    by (cases "i = j") (auto simp: free_connection_def Let_def calmly_def free_slot_def tick_unlink_frame pool_capacity_def)
qed

lemma calmly_fail:
  assumes "state (conns k j) \<noteq> Established"
  shows "calmly i k (fail_connect j f k)"
  using assms by (auto simp: fail_connect_def Let_def calmly_def awaits_def pool_capacity_def)

lemma pool_alloc_woken: "pool_alloc k = (r, k') \<Longrightarrow> woken (core_env k') = woken (core_env k)"
proof (induction k rule: pool_alloc.induct)
  case (1 k)
  have fold: "woken (core_env (fold (\<lambda>i. free_slot (b + i)) is k)) = woken (core_env k)" for b "is" k
    by (induction "is" arbitrary: k) (simp_all add: free_slot_def)
  have t: "woken (snd (try_alloc e)) = woken e" for e by (simp add: try_alloc_def split: list.split)
  obtain b k1 where k1: "grow_segment k = (b, k1)" by fastforce
  then have "woken (core_env k1) = woken (core_env k)" using t [of "core_env k"]
    by (auto simp: grow_segment_def Let_def fold split: if_splits prod.splits)
  then show ?case using 1 k1 by (cases b) (auto simp: pool_alloc_cases [of k] split: if_splits)
qed

lemma alloc_woken:
  assumes "alloc_connection k = (r, k')"
  shows "set (woken (core_env k)) \<subseteq> set (woken (core_env k'))"
proof -
  obtain q k1 where q: "pool_alloc k = (q, k1)" by fastforce
  have "set (woken (core_env k)) \<subseteq> set (woken (core_env (free_connection i k1)))" for i
    using calmly_free [of i k1 i] pool_alloc_woken [OF q] by (simp add: calmly_def)
  then show ?thesis using assms q pool_alloc_woken [OF q] pool_alloc_woken [of "free_connection _ k1" r k']
    by (auto simp: alloc_connection_def Let_def simp del: reclaim_victim.simps split: option.splits)
qed

lemma calmly_alloc:
  assumes ok: "core_ok k D" and a: "alloc_connection k = (r, k')"
  shows "calmly i k k'"
proof -
  obtain D' where al: "core_ok k' D'" "D' \<subseteq> D" "pool_capacity k \<le> pool_capacity k'"
      "\<And>s. r = Some s \<Longrightarrow> in_use s k' \<and> (\<exists>g c. conns k' s = reset_preserving g c)"
      "r = None \<Longrightarrow> \<forall>i<pool_capacity k. state (conns k i) \<notin> {FinWait1, FinWait2, LastAck, TimeWait, CloseWait}"
      "\<And>i. i < pool_capacity k \<Longrightarrow> r \<noteq> Some i \<Longrightarrow> \<exists>t. conns k' i = (conns k i)\<lparr>tick_next := t\<rparr>"
      "\<And>s. r = Some s \<Longrightarrow> s < pool_capacity k \<Longrightarrow> \<not> in_use s k \<or> state (conns k s) \<in> {FinWait1, FinWait2, LastAck, TimeWait, CloseWait}"
    by (rule core_ok_alloc [OF ok a]) (rule that)
  have "awaits w (conns k' i)" if i: "i < pool_capacity k" "awaits w (conns k i)" for w
  proof -
    have st: "state (conns k i) = Established" using i(2) by (simp add: awaits_def)
    then have u: "in_use i k" using not_closed_in_use [OF ok i(1)] by simp
    have "r \<noteq> Some i" using al(7) [of i] i(1) u st by auto
    then have "\<exists>t. conns k' i = (conns k i)\<lparr>tick_next := t\<rparr>" by (rule al(6) [OF i(1)])
    then show ?thesis using i(2) by (auto simp: awaits_def)
  qed
  then show ?thesis using alloc_woken [OF a] al(3) by (simp add: calmly_def)
qed

section \<open>Calls\<close>

text \<open>A slot just taken from the pool has no reader.\<close>

lemma calmly_reset:
  assumes "conns k j = reset_preserving g c0 \<or> (\<exists>r. conns k j = (reset_preserving g c0)\<lparr>rx_ring := r\<rparr>)"
    and "\<And>s. s \<noteq> j \<Longrightarrow> conns k' s = conns k s" "nsegs k' = nsegs k" "set (woken (core_env k)) \<subseteq> set (woken (core_env k'))"
  shows "calmly i k k'"
proof -
  have "\<not> awaits w (conns k j)" for w using assms(1) by (auto simp: awaits_def)
  then show ?thesis using assms(2-4) capacity_cong [of k' k] by (cases "i = j") (auto simp: calmly_def)
qed

lemma ensure_ring_woken: "ensure_rx_ring c = (ok, c') \<Longrightarrow> woken (cenv c') = woken (cenv c)"
  by (auto simp: ensure_rx_ring_def Let_def try_alloc_def split: option.splits if_splits prod.splits list.splits)

lemma open_slot_woken:
  "woken (core_env (open_slot a b p q j k)) = woken (core_env k)" "nsegs (open_slot a b p q j k) = nsegs k"
  "s \<noteq> j \<Longrightarrow> conns (open_slot a b p q j k) s = conns k s"
  by (simp_all add: open_slot_def next_seq_def on_conn_def syn_sent_setup_def send_syn_def arm_fin_timer_def Let_def)

lemma open_passive_woken:
  "woken (core_env (open_passive x j k)) = woken (core_env k)" "nsegs (open_passive x j k) = nsegs k"
  "s \<noteq> j \<Longrightarrow> conns (open_passive x j k) s = conns k s"
  by (simp_all add: open_passive_def next_seq_def on_conn_def syn_received_setup_def send_syn_ack_def congestion_init_def Let_def)

text \<open>From the allocation of a slot to its opening, for both kinds of open.\<close>

lemma calmly_open:
  assumes ok: "core_ok k D" and a: "alloc_connection k = (Some j, k2)" and e: "ensure_rx_ring (conn_at j k2) = (b, c)"
    and k': "k' = (if b then k4 else free_connection j k3)"
    and o: "\<And>s. s \<noteq> j \<Longrightarrow> conns k4 s = conns (conn_put j c k2) s" "nsegs k4 = nsegs k2" "woken (core_env k4) = woken (cenv c)"
    and f: "conns k3 = conns (conn_put j c k2)" "nsegs k3 = nsegs k2" "woken (core_env k3) = woken (cenv c)"
  shows "calmly i k k'"
proof -
  obtain g c0 where g: "conns k2 j = reset_preserving g c0" by (rule core_ok_alloc [OF ok a]) blast
  have w: "woken (cenv c) = woken (core_env k2)" using ensure_ring_woken [OF e] by simp
  note al = calmly_alloc [OF ok a]
  have "calmly i k2 k4" by (rule calmly_reset [of k2 j g c0]) (use g o w in simp_all)
  note c4 = calmly_trans [OF al this]
  have "calmly i k2 k3" by (rule calmly_reset [of k2 j g c0]) (use g f w in simp_all)
  note c3 = calmly_trans [OF calmly_trans [OF al this] calmly_free]
  show ?thesis using k' c4 c3 by (cases b) simp_all
qed

lemma calmly_connect:
  assumes ok: "core_ok k D"
  shows "calmly i k (snd (connect_on_core l r q k))"
proof -
  obtain p k1 where p: "alloc_ephemeral_port l r q k = (p, k1)" by fastforce
  obtain x where k1: "k1 = k\<lparr>next_offset := x\<rparr>" using alloc_ephemeral_port_cases(1) [OF p] by blast
  have ok1: "core_ok k1 D" and c1: "calmly i k k1" using core_ok_frame [OF ok, of k1] k1 by (simp_all add: calmly_frame)
  obtain s k2 where al: "alloc_connection k1 = (s, k2)" by fastforce
  show ?thesis
  proof (cases "p = None \<or> s = None")
    case True
    then show ?thesis using p al c1 calmly_trans [OF c1 calmly_alloc [OF ok1 al]] by (cases p) (auto simp: connect_on_core_def)
  next
    case False
    then obtain lp j where lp: "p = Some lp" "s = Some j" by auto
    obtain b c where e: "ensure_rx_ring (conn_at j k2) = (b, c)" by fastforce
    have "calmly i k1 (snd (connect_on_core l r q k))"
      by (rule calmly_open [OF ok1 al [unfolded lp(2)] e, where ?k4.0 = "open_slot l r lp q j (conn_put j c k2)" and ?k3.0 = "conn_put j c k2"])
        (simp_all add: connect_on_core_def p lp al e open_slot_woken)
    then show ?thesis by (rule calmly_trans [OF c1])
  qed
qed

lemma calmly_listen:
  assumes ok: "core_ok k D"
  shows "calmly i k (snd (listen_on_core p k))"
proof -
  obtain s k1 where al: "alloc_connection k = (s, k1)" by fastforce
  note c1 = calmly_alloc [OF ok al]
  show ?thesis
  proof (cases s)
    case None
    then show ?thesis using al c1 by (simp add: listen_on_core_def)
  next
    case (Some j)
    obtain g c0 where g: "conns k1 j = reset_preserving g c0" by (rule core_ok_alloc [OF ok al]) (use Some in blast)
    have "calmly i k1 (snd (listen_on_core p k))"
      by (rule calmly_reset [of k1 j g c0]) (use g in \<open>simp_all add: listen_on_core_def al Some Let_def listener_register_frame upd_slot_def\<close>)
    then show ?thesis by (rule calmly_trans [OF c1])
  qed
qed

lemma accept_loop_env: "core_env (snd (accept_loop n p k)) = core_env k \<and> nsegs (snd (accept_loop n p k)) = nsegs k"
proof (induction n arbitrary: k)
  case (Suc n)
  have r: "core_env (snd (accept_ring_pop p k)) = core_env k \<and> nsegs (snd (accept_ring_pop p k)) = nsegs k"
    by (simp add: accept_ring_pop_def ring_idx_for_port_def Let_def split: option.split)
  obtain q k1 where q: "accept_ring_pop p k = (q, k1)" by fastforce
  then show ?case using r Suc [of k1] by (cases q) (simp_all add: mark_accepted_def upd_slot_def)
qed simp

lemma calmly_accept:
  assumes ok: "core_ok k D"
  shows "calmly i k (snd (accept_on_port_core p k))"
proof -
  obtain r k' where a: "accept_on_port_core p k = (r, k')" by fastforce
  have "core_env k' = core_env k \<and> nsegs k' = nsegs k"
    using a accept_loop_env [of "ACCEPT_RING_CAPACITY + 1" p k]
    by (auto simp: accept_on_port_core_def mark_accepted_def upd_slot_def split: prod.splits option.splits)
  moreover have "rings_ok k" using ok by (simp add: core_ok_def)
  ultimately show ?thesis using accept_on_port_correct [OF _ a] a capacity_cong [of k' k]
    by (auto simp: calmly_def awaits_def split: option.splits)
qed

section \<open>Sending\<close>

lemma reader_queue: "reader_view (snd (rtx_push b sq l n c)) = reader_view c" "reader_view (handle_rtx_push_oom c) = reader_view c"
proof -
  have t: "woken (snd (try_alloc e)) = woken e" for e by (simp add: try_alloc_def split: list.split)
  show "reader_view (snd (rtx_push b sq l n c)) = reader_view c" "reader_view (handle_rtx_push_oom c) = reader_view c"
    using t by (simp_all add: reader_view_def rtx_push_def handle_rtx_push_oom_def arm_rtx_def arm_tlp_def rtx_enqueue_def
        set_rtt_anchor_def Let_def case_prod_beta)
qed

lemma reader_data_sent: "reader_view (snd (rtx_on_data_sent bs n c)) = reader_view c" "reader_view (rtx_on_data_sent_slice b c) = reader_view c"
proof -
  have "reader_view (snd (rtx_sent_loop now bs n sq c)) = reader_view c" for now bs n sq c
  proof (induction bs arbitrary: n sq c)
    case (Cons b bs)
    then show ?case by (simp add: reader_queue Let_def case_prod_beta)
  qed simp
  then show "reader_view (snd (rtx_on_data_sent bs n c)) = reader_view c" by (simp add: rtx_on_data_sent_def)
  have t: "woken (snd (try_alloc e)) = woken e" for e by (simp add: try_alloc_def split: list.split)
  show "reader_view (rtx_on_data_sent_slice b c) = reader_view c"
    using t by (simp add: rtx_on_data_sent_slice_def Let_def case_prod_beta reader_queue) (simp add: reader_view_def)
qed

lemma reader_kept: "env_kept (cenv c) e \<Longrightarrow> reader_view (c\<lparr>cenv := e\<rparr>) = reader_view c"
  "env_kept (cenv c) e \<Longrightarrow> reader_view (c\<lparr>cenv := e, snd_nxt := x\<rparr>) = reader_view c"
  by (simp_all add: env_kept_def reader_view_def)

lemma calm_send:
  assumes "try_send_chain bs c = Some (r, bs', c')" "0 < snd_mss c"
  shows "calm c c'"
  by (rule calm_view, rule send_shape [OF assms]) (simp_all add: reader.view_arm reader_data_sent(1) reader_kept)

lemma calm_send_tso:
  assumes "try_send_tso_conn mp fill c = (r, c')"
  shows "calm c c'"
proof (rule calm_view, rule send_tso_shape [OF assms])
  fix e assume k: "env_kept (cenv c) e" and c': "c' = c \<or> c' = c\<lparr>cenv := e\<rparr> \<or> (\<exists>b m x. let d = rtx_on_data_sent_slice b (c\<lparr>cenv := e, snd_nxt := snd_nxt c + of_nat (length b)\<rparr>)
      in c' = d\<lparr>cenv := submit_tx_tso m b x (cenv d)\<rparr>)"
  have "reader_view (d\<lparr>cenv := submit_tx_tso m b x (cenv d)\<rparr>) = reader_view d" for d m b x
    by (simp add: reader_view_def submit_tx_tso_def push_tx_def)
  then show "reader_view c' = reader_view c" using c' reader_kept [OF k] by (auto simp: Let_def reader_data_sent(2))
qed

section \<open>Reception\<close>

lemma calmly_refuse: "calmly i k (refuse s k)"
  by (rule calmly_frame) (simp_all add: refuse_def send_rst_def send_segment_def send_segment_opts_def build_and_send_frame_def
      acquire_tx_buf_def push_tx_def Let_def case_prod_beta split: list.split)

lemma calmly_challenge: "calmly i k (send_challenge_ack s a b w k)"
proof -
  obtain ok k1 where c: "challenge_ack_allowed k = (ok, k1)" by fastforce
  obtain t l where k1: "k1 = k\<lparr>challenge_tokens := t, challenge_last_ms := l\<rparr>" using challenge_ack_frame [OF c] by blast
  show ?thesis by (rule calmly_frame) (simp_all add: send_challenge_ack_def c k1 send_segment_def send_segment_opts_def build_and_send_frame_def
      acquire_tx_buf_def push_tx_def Let_def case_prod_beta split: list.split)
qed

lemma calmly_admit:
  assumes k: "core_inv k D" and st: "\<And>j. stale = Some j \<Longrightarrow> in_use j k"
  shows "calmly i k (admit_syn s stale k)"
proof -
  define k1 where "k1 = (case stale of Some j \<Rightarrow> free_connection j k | None \<Rightarrow> k)"
  have c1: "calmly i k k1" using calmly_free calmly_refl by (simp add: k1_def split: option.split)
  have "\<exists>D1. core_ok k1 D1" using k core_inv_free [OF k st] by (cases stale) (auto simp: k1_def core_inv_def)
  then obtain D1 where ok1: "core_ok k1 D1" by blast
  obtain q k2 where al: "alloc_connection k1 = (q, k2)" by fastforce
  have "calmly i k1 (admit_syn s stale k)" if f: "find_listener (sg_dst_port s) k \<noteq> None"
  proof (cases q)
    case None
    then show ?thesis using calmly_alloc [OF ok1 al] f by (auto simp: admit_syn_def k1_def [symmetric] al)
  next
    case (Some j)
    obtain b c where e: "ensure_rx_ring (conn_at j k2) = (b, c)" by fastforce
    have r: "woken (core_env (refuse s k)) = woken (core_env k)" "conns (refuse s k) = conns k" "nsegs (refuse s k) = nsegs k" for k
      by (simp_all add: refuse_def send_rst_def send_segment_def send_segment_opts_def build_and_send_frame_def
      acquire_tx_buf_def push_tx_def Let_def case_prod_beta split: list.split)
    have "admit_syn s stale k = (if b then open_passive s j (conn_put j c k2) else free_connection j (refuse s (conn_put j c k2)))"
      by (subst admit_syn_def, subst if_not_P [OF f]) (simp add: al Some e k1_def [symmetric] Let_def)
    from calmly_open [OF ok1 al [unfolded Some] e this] show ?thesis by (simp add: open_passive_woken r)
  qed
  then have "calmly i k (admit_syn s stale k)" if "find_listener (sg_dst_port s) k \<noteq> None" using calmly_trans [OF c1] that by blast
  moreover have "calmly i k (admit_syn s stale k)" if "find_listener (sg_dst_port s) k = None" using that calmly_refuse by (simp add: admit_syn_def)
  ultimately show ?thesis by blast
qed

lemma calmly_syn:
  assumes k: "core_inv k D"
  shows "calmly i k (receive_syn s k)"
proof (cases "find_tuple (sg_src_ip s) (sg_src_port s) (sg_dst_port s) k")
  case None
  then show ?thesis using calmly_admit [OF k, of None] by (simp add: receive_syn_def)
next
  case (Some j)
  have "calmly i k (admit_syn s (if state (conns k j) \<noteq> Closed \<and> state (conns k j) \<noteq> Listen then Some j else None) k)"
    by (rule calmly_admit [OF k]) (use find_tuple_some(1) [OF k Some] in \<open>simp split: if_splits\<close>)
  then show ?thesis using Some calmly_challenge calmly_refl by (simp add: receive_syn_def Let_def)
qed

lemma calmly_rst: "calmly i k (receive_rst s k)"
  using calmly_free calmly_fail calmly_refl by (simp add: receive_rst_def Let_def split: option.split)

text \<open>Before the last step of reception the reader may have something to read without having been woken.\<close>

definition expects :: "conn \<Rightarrow> conn \<Rightarrow> bool" where
  "expects c c' \<longleftrightarrow> set (woken (cenv c)) \<subseteq> set (woken (cenv c'))
     \<and> (\<forall>w. recv_waker c = Some w \<and> state c = Established \<longrightarrow> w \<in> set (woken (cenv c')) \<or> recv_waker c' = Some w \<and> state c' = Established)"

lemma expects_trans: "expects a b \<Longrightarrow> expects b c \<Longrightarrow> expects a c"
  unfolding expects_def by blast

lemma expects_view: "reader_view c' = reader_view c \<Longrightarrow> expects c c'"
  by (simp add: reader_view_def expects_def)

lemma expects_same: "woken (cenv c') = woken (cenv c) \<Longrightarrow> recv_waker c' = recv_waker c \<Longrightarrow> state c' = state c \<Longrightarrow> expects c c'"
  by (simp add: expects_def)

lemma expects_wake: "expects c (wake_receiver c)"
  by (auto simp: expects_def wake_receiver_def)

definition waiter :: "conn \<Rightarrow> nat list \<times> nat option \<times> TcpState" where
  "waiter c = (woken (cenv c), recv_waker c, state c)"

lemma expects_waiter: "waiter c' = waiter c \<Longrightarrow> expects c c'"
  by (simp add: waiter_def expects_def)

lemma waiter_ack: "waiter (emit_ack s c) = waiter c" "waiter (bare_ack s c) = waiter c"
  by (simp_all add: waiter_def emit_ack_def bare_ack_def Let_def)

lemma expects_in_order: "expects c (process_in_order s c)"
proof -
  obtain n c1 where d: "deliver_in_order s c = (n, c1)" by fastforce
  have c1: "waiter c1 = waiter c"
    using deliver_parts_keeps [of waiter "payload_parts (sg_data_offset s) (sg_parts s)" c] d
    by (auto simp: waiter_def deliver_in_order_def split: if_splits option.splits)
  define c2 where "c2 = c1\<lparr>rcv_nxt := rcv_nxt c1 + of_nat n\<rparr>"
  obtain m c3 where b: "drain_buffered c2 = (m, c3)" by fastforce
  have c3: "waiter c3 = waiter c2" using drain_ooo_loop_keeps [of waiter 0 c2] b
    by (auto simp: waiter_def drain_buffered_def drain_ooo_def split: if_splits)
  define c4 where "c4 = c3\<lparr>rcv_wnd := as_u16 (rx_free c3)\<rparr>"
  have e: "expects c c4" using c1 c3 by (intro expects_waiter) (simp add: waiter_def c2_def c4_def)
  have "process_in_order s c = emit_ack s (if n + m > 0 then wake_receiver c4 else c4)"
    by (simp only: process_in_order_def d prod.case Let_def c2_def [symmetric] b c4_def [symmetric])
  then show ?thesis using expects_trans [OF e expects_waiter [OF waiter_ack(1)]]
      expects_trans [OF expects_trans [OF e expects_wake] expects_waiter [OF waiter_ack(1)]] by simp
qed

lemma expects_data: "expects c (process_data s c)"
proof -
  have t: "woken (snd (try_alloc e)) = woken e" for e by (simp add: try_alloc_def split: list.split)
  have "expects c (process_early s c)"
    unfolding process_early_def Let_def case_prod_beta
    by (rule expects_waiter, simp add: waiter_ack) (simp add: waiter_def t)
  then show ?thesis using expects_in_order expects_waiter waiter_ack(1) by (simp add: process_data_def)
qed

lemma expects_fin: "expects c (process_fin s c)"
proof -
  define c1 where "c1 = bare_ack s (c\<lparr>rcv_nxt := rcv_nxt c + 1\<rparr>)"
  have c1: "woken (cenv c1) = woken (cenv c)" "recv_waker c1 = recv_waker c" "state c1 = state c"
    using waiter_ack(2) [of s "c\<lparr>rcv_nxt := rcv_nxt c + 1\<rparr>"] by (simp_all add: c1_def waiter_def)
  have "expects c (let c2 = (case state c1 of
                       Established \<Rightarrow> c1\<lparr>state := CloseWait\<rparr>
                     | SynReceived \<Rightarrow> c1\<lparr>state := CloseWait\<rparr>
                     | FinWait1 \<Rightarrow> arm_time_wait (clock c1) (c1\<lparr>state := TimeWait, fin_retx_count := 0\<rparr>)
                     | FinWait2 \<Rightarrow> arm_time_wait (clock c1) (c1\<lparr>state := TimeWait, fin_retx_count := 0\<rparr>)
                     | _ \<Rightarrow> c1)
           in if state c2 = CloseWait then wake_receiver c2 else c2)"
    using c1 by (cases "state c1") (auto simp: expects_def wake_receiver_def arm_time_wait_def)
  moreover have "expects c c" by (simp add: expects_def)
  ultimately show ?thesis unfolding process_fin_def Let_def c1_def [symmetric] by simp
qed

lemma waiter_time_wait: "waiter (process_time_wait p s c) = waiter c"
  by (simp add: process_time_wait_def Let_def) (simp add: waiter_def bare_ack_def arm_time_wait_def)

text \<open>The last step wakes a reader that has something to read.\<close>

lemma refresh_reader_calms: "expects c d \<Longrightarrow> calm c (refresh_reader d)"
proof -
  define e where "e = maybe_send_window_update d"
  have e: "woken (cenv e) = woken (cenv d)" "recv_waker e = recv_waker d" "state e = state d"
    by (simp_all add: e_def maybe_send_window_update_def Let_def)
  have "refresh_reader d = (if state d = Established then if rx_used e > 0 \<or> pending_chunk e \<noteq> None then wake_receiver e else e else d)"
    by (simp only: refresh_reader_def Let_def e_def)
  then show "expects c d \<Longrightarrow> calm c (refresh_reader d)"
    using e by (auto simp: expects_def calm_def awaits_def wake_receiver_def)
qed

lemma calm_process_rest: "calm c (process_rest p s c)"
  unfolding process_rest_def
  by (intro refresh_reader_calms expects_trans [OF expects_trans [OF expects_data expects_fin] expects_waiter [OF waiter_time_wait]])

lemma reader_ack_recovery: "calm c (ack_recovery s u d c)"
proof -
  obtain e where e: "ack_recovery s u d c = e \<or> ack_recovery s u d c = wake_sender e" "reader_view e = reader_view c"
    by (rule reader.view_ack_recovery [of s u d c])
  have "calm c e" by (rule calm_view [OF e(2)])
  moreover have "calm e (wake_sender e)" by (auto simp: calm_def awaits_def wake_sender_def)
  ultimately show ?thesis using e(1) calm_trans [of c e "wake_sender e"] by (elim disjE) (simp_all only:)
qed

lemma calmly_ack_transition: "calmly i k (ack_transition s adv j k)"
proof -
  have u: "calmly i k (upd_slot j (\<lambda>c. c\<lparr>state := Established, snd_una := a\<rparr>) k)" for a
    by (rule calmly_upd) (simp add: awaits_def)
  obtain ps rs where r: "accept_ring_push p q k = k\<lparr>ring_ports := ps p q k, rings := rs p q k\<rparr>" for p q k
    using accept_ring_push_frame by metis
  have d: "calmly i k (deliver_tcp_ready p (accept_ring_push p q k))" for p q k
    by (auto simp: calmly_def deliver_tcp_ready_def r pool_capacity_def split: option.split)
  have f: "calmly i k (upd_slot j (\<lambda>c. c\<lparr>state := FinWait2, snd_una := a, lifecycle_deadline_ms := 0, fin_retx_count := 0\<rparr>) k)"
    if "state (conns k j) = FinWait1" for a
    by (rule calmly_upd) (use that in \<open>simp add: awaits_def\<close>)
  have g: "calmly i k (upd_slot j (\<lambda>c. c\<lparr>snd_una := a\<rparr>) k)" for a by (rule calmly_upd) (simp add: awaits_def)
  show ?thesis using calmly_trans [OF u d] f g calmly_refl by (simp add: ack_transition_def Let_def)
qed

lemma calmly_process_ack:
  assumes "process_ack s j k = (dn, k')"
  shows "calmly i k k'"
proof -
  define k1 where "k1 = upd_slot j (ack_window s) k"
  have k1: "calmly i k k1" unfolding k1_def by (rule calmly_upd) (simp add: awaits_def ack_window_def)
  have "calmly i k' (on_conn j (ack_recovery s u d) k')" for u d k' unfolding on_conn_def by (rule calmly_put [OF reader_ack_recovery])
  note a = calmly_trans [OF calmly_trans [OF k1 calmly_ack_transition] this]
  show ?thesis using assms a calmly_challenge calmly_trans [OF k1 calmly_free] unfolding process_ack_def Let_def k1_def [symmetric]
    by (auto split: if_splits)
qed

lemma calmly_receive:
  assumes k: "core_inv k D"
  shows "calmly i k (receive_segment s k)"
proof -
  have h: "calmly i k (on_conn j (handle_syn_sent s) k)" if "state (conns k j) = SynSent" for j
  proof -
    have "cenv (sample_syn_rtt c) = cenv c" for c by (simp add: sample_syn_rtt_def Let_def)
    then have "cenv (establish_active s c) = cenv c" for c by (simp add: establish_active_def congestion_init_def Let_def)
    moreover have "set (woken (cenv d)) \<subseteq> set (woken (cenv (wake_receiver (wake_sender (bare_ack s d)))))" for d
      by (auto simp: wake_receiver_def wake_sender_def bare_ack_def)
    ultimately have "set (woken (cenv c)) \<subseteq> set (woken (cenv (wake_receiver (wake_sender (bare_ack s (establish_active s c))))))" for c
      by metis
    then have "set (woken (cenv c)) \<subseteq> set (woken (cenv (handle_syn_sent s c)))" for c
      by (simp add: handle_syn_sent_def Let_def)
    from this [of "conn_at j k"] show ?thesis unfolding on_conn_def by (intro calmly_put) (use that in \<open>auto simp: calm_def awaits_def\<close>)
  qed
  have "calmly i k (receive_synchronized s j k)" for j
  proof -
    obtain dn k1 where a: "(if has_flag TCP_ACK s then process_ack s j k else (False, k)) = (dn, k1)" by fastforce
    then have k1: "calmly i k k1" using calmly_process_ack [of s j k dn k1] calmly_refl by (auto split: if_splits)
    have "calmly i k1 (on_conn j (process_rest p s) k1)" for p unfolding on_conn_def by (rule calmly_put [OF calm_process_rest])
    from calmly_trans [OF k1 this] show ?thesis unfolding receive_synchronized_def Let_def a using k1 by simp
  qed
  then show ?thesis using h calmly_rst calmly_syn [OF k] calmly_refl by (simp add: receive_segment_def Let_def split: option.split)
qed

section \<open>Timers\<close>

lemma calmly_tick_slot: "calmly i k (snd (tick_slot now j k))"
proof -
  have v: "reader_view (tick_rtx now c) = reader_view c" "reader_view (tick_rack now c) = reader_view c" "reader_view (tick_persist now c) = reader_view c"
      "reader_view (retransmit_syn now c) = reader_view c" "reader_view (c\<lparr>lifecycle_deadline_ms := 0\<rparr>) = reader_view c" for c :: conn
    by (simp_all add: tick_rtx_def tick_rack_def tick_persist_def retransmit_syn_def send_syn_def Let_def reader.view_timers reader.view_rack reader.view_arm reader.quiet)
  have l: "calmly i k (tick_lifecycle now j k)" for k
    using calmly_free calmly_fail calmly_refl calmly_on_conn [OF v(4)] calmly_on_conn [OF v(5)] calmly_on_conn [OF reader.view_timers(4)]
    by (simp add: tick_lifecycle_def Let_def split: TcpState.split)
  note k2 = calmly_trans [OF calmly_on_conn [OF v(1)] calmly_on_conn [OF v(2)]]
  show ?thesis using calmly_free calmly_trans [OF k2 calmly_free] calmly_trans [OF calmly_trans [OF k2 calmly_on_conn [OF v(3)]] l]
    by (simp add: tick_slot_def Let_def)
qed

lemma calmly_relink: "calmly i k (snd (tick_relink j h k))"
  by (simp add: tick_relink_def Let_def calmly_def awaits_def pool_capacity_def)

lemma calmly_tick_walk: "tick_walk n now j h k = Some (h', k') \<Longrightarrow> calmly i k k'"
proof (induction n arbitrary: j h k)
  case (Suc n)
  obtain b k1 where t: "tick_slot now j k = (b, k1)" by fastforce
  obtain h2 k2 where r: "tick_relink j h k1 = (h2, k2)" by fastforce
  have k1: "calmly i k k1" "calmly i k1 k2" using calmly_tick_slot [of i k now j] calmly_relink [of i k1 j h] t r by simp_all
  have "calmly i k k'" if "tick_walk n now x y k1 = Some (h', k')" for x y using calmly_trans [OF k1(1) Suc.IH [OF that]] .
  moreover have "calmly i k k'" if "tick_walk n now x y k2 = Some (h', k')" for x y using calmly_trans [OF calmly_trans [OF k1] Suc.IH [OF that]] .
  ultimately show ?case using Suc.prems t r calmly_refl by (auto simp: Let_def split: if_splits)
qed simp

lemma calmly_tick:
  assumes "on_tcp_tick k = Some k'"
  shows "calmly i k k'"
proof -
  obtain h k1 where t: "tick_head_take k = (h, k1)" by fastforce
  obtain h2 k2 where w: "tick_walk 65536 (now_ms (core_env k)) h NULL_SLOT k1 = Some (h2, k2)" "k' = tick_head_publish h2 k2"
    using assms t by (auto simp: on_tcp_tick_def Let_def)
  have "calmly i k k1" using t by (auto simp: tick_head_take_def calmly_def pool_capacity_def)
  moreover have "calmly i k2 k'" by (simp add: w(2) tick_head_publish_def Let_def calmly_def awaits_def pool_capacity_def)
  ultimately show ?thesis using calmly_trans calmly_tick_walk [OF w(1)] by blast
qed

section \<open>Every step\<close>

lemma core_step_calm:
  assumes "core_step a k k'" "a \<noteq> Some i" "core_typed k"
  shows "calmly i k k'"
proof -
  obtain D where ok: "core_ok k D" "all_slots slot_ok k" using assms(3) by (auto simp: core_typed_def)
  have ci: "core_inv k D" using ok by (simp add: core_inv_def all_slots_def slot_ok_def)
  have mss: "0 < snd_mss (conn_at i k)" for i using ok(2) by (auto simp: all_slots_def slot_ok_def mss_ok_def dest: spec [of _ i])
  have t: "woken (snd (try_alloc e)) = woken e" for e by (simp add: try_alloc_def split: list.split)
  have p: "woken (cenv (snd (rx_pop n c))) = woken (cenv c)" for n c
    by (simp add: rx_pop_def maybe_send_window_update_def Let_def split: option.split)
  from assms(1) show ?thesis
  proof cases
    case (environment e)
    then show ?thesis by (simp add: calmly_def pool_capacity_def)
  next
    case (recv j n)
    then show ?thesis using calmly_put_other [of k "snd (rx_pop n (conn_at j k))" j i] p assms(2) by simp
  next
    case (recv_chunk j)
    have "woken (cenv (snd (Tcp_Listener.recv_chunk c))) = woken (cenv c)" for c
      by (simp add: recv_chunk_def Let_def case_prod_beta p t split: option.split)
    then show ?thesis using recv_chunk calmly_put_other [of k _ j i] assms(2) by simp
  next
    case (close j)
    have "woken (cenv (send_fin st c)) = woken (cenv c)" for st c by (simp add: send_fin_def arm_fin_timer_def Let_def)
    then have "calmly i k (on_conn j (send_fin st) k)" for st
      using calmly_put_other [of k _ j i] close(1) assms(2) by (simp add: on_conn_def)
    then show ?thesis using close(2) calmly_free by (simp add: close_slot_def split: TcpState.split)
  next
    case (set_send_waker j w)
    show ?thesis unfolding set_send_waker(2) by (rule calmly_upd) (simp add: awaits_def)
  next
    case (path_mtu r_ip r_port l_port sq cand)
    have "calmly i k (upd_slot j (\<lambda>c. c\<lparr>snd_mss := m\<rparr>) k)" for j m by (rule calmly_upd) (simp add: awaits_def)
    then show ?thesis using path_mtu(2) calmly_refl by (simp add: note_path_mtu_def Let_def split: option.split)
  qed (use assms(2) calmly_listen [OF ok(1)] calmly_accept [OF ok(1)] calmly_connect [OF ok(1)] calmly_upd_other
      calmly_put [OF calm_send [OF _ mss]] calmly_put [OF calm_send_tso] calmly_receive [OF ci] calmly_tick in auto)
qed

end
