(* ===== verification/Tcp_Reactor.thy ===== *)
theory Tcp_Reactor
  imports Tcp_Wakeup
begin

text \<open>
  The futures an application awaits, from \<open>crates/runtime/executor/src/reactor/tcp.rs\<close>, over the backend that
  \<open>crates/net/stack/src/lib.rs\<close> wires to them: one \<open>poll\<close> and one \<open>drop\<close> per future, on the state of the whole machine. A task's
  waker is an identifier; polling happens on the core \<open>cur\<close>.

  A reader that parks is woken by whatever gives it something to read or ends the connection, and every poll returns. A chunk
  reader that is cancelled after its chunk was stashed, though, leaves the plain reader to report the end of a stream that has not ended.
\<close>

datatype 'a poll = Ready 'a | Pending

section \<open>Reading\<close>

definition tcp_recv_poll :: "u64 \<Rightarrow> nat \<Rightarrow> nat \<Rightarrow> nat \<Rightarrow> machine \<Rightarrow> bytes poll \<times> machine" where
  "tcp_recv_poll h g buf_len w m =
     (let read = (\<lambda>m. let (out, m1) = async_recv h g buf_len (clear_recv_waker h g m) in (Ready out, m1))
      in if is_readable_or_closed h g m then read m
         else let m1 = snd (register_recv_waker h g w m)
              in if is_readable_or_closed h g m1 then read m1 else (Pending, m1))"

definition tcp_recv_drop :: "u64 \<Rightarrow> nat \<Rightarrow> machine \<Rightarrow> machine" where
  "tcp_recv_drop h g m = clear_recv_waker h g m"

definition recv_chunk_poll :: "u64 \<Rightarrow> nat \<Rightarrow> nat \<Rightarrow> machine \<Rightarrow> bytes option poll \<times> machine" where
  "recv_chunk_poll h g w m =
     (let read = (\<lambda>m. let (out, m1) = do_recv_chunk h g (clear_chunk_buf_slot h g (clear_recv_waker h g m)) in (Ready out, m1))
      in if is_readable_or_closed h g m then read m
         else let m1 = snd (register_recv_waker h g w (set_chunk_buf_slot h g m))
              in if is_readable_or_closed h g m1 then read m1 else (Pending, m1))"

definition recv_chunk_drop :: "u64 \<Rightarrow> nat \<Rightarrow> machine \<Rightarrow> machine" where
  "recv_chunk_drop h g m = clear_recv_waker h g (clear_chunk_buf_slot h g m)"

section \<open>Sending\<close>

partial_function (option) send_chain_poll :: "u64 \<Rightarrow> nat \<Rightarrow> nat \<Rightarrow> bytes list \<Rightarrow> machine \<Rightarrow> ((unit + unit) poll \<times> bytes list \<times> machine) option" where
  "send_chain_poll h g w bs m =
     (if bs = [] then Some (Ready (Inr ()), bs, m)
      else case async_try_send_chain h g bs m of
             None \<Rightarrow> None
           | Some (r, bs1, m1) \<Rightarrow>
               (case r of
                  Inl e \<Rightarrow> Some (Ready (Inl ()), [], m1)
                | Inr n \<Rightarrow>
                    if n \<noteq> 0 then send_chain_poll h g w bs1 m1
                    else (case async_try_send_chain h g bs1 (snd (register_send_waker h g w m1)) of
                            None \<Rightarrow> None
                          | Some (r2, bs2, m2) \<Rightarrow>
                              (case r2 of
                                 Inl e \<Rightarrow> Some (Ready (Inl ()), [], m2)
                               | Inr n2 \<Rightarrow> if n2 = 0 then Some (Pending, bs2, m2) else send_chain_poll h g w bs2 m2))))"

definition send_chain_drop :: "u64 \<Rightarrow> nat \<Rightarrow> machine \<Rightarrow> machine" where
  "send_chain_drop h g m = clear_send_waker h g m"

section \<open>Opening and accepting\<close>

text \<open>Dropping a stream closes its connection.\<close>

definition tcp_stream_drop :: "u64 \<times> nat \<Rightarrow> machine \<Rightarrow> machine" where
  "tcp_stream_drop s m = (if fst s = 0 then m else tcp_close (fst s) (snd s) m)"

text \<open>The source address is the configured one; there is no active open for IPv6.\<close>

definition tcp_backend_connect :: "NetConfig \<Rightarrow> nat \<Rightarrow> IpAddr \<Rightarrow> u16 \<Rightarrow> machine \<Rightarrow> (u64 \<times> nat) option \<times> machine" where
  "tcp_backend_connect cfg cur ip port m =
     (case ip of
        V6 _ \<Rightarrow> (None, m)
      | V4 _ \<Rightarrow> let (r, k) = connect_on_core (V4 (cfg_ip cfg)) ip port (m ! cur) in (r, m[cur := k]))"

datatype TcpConnectError = CeRefused | CeTimedOut | CeFailed | CeNoRoute | CeHostUnreachable

text \<open>The result of the poll, the stream the future still holds, and the machine.\<close>

definition connect_decided :: "u64 \<times> nat \<Rightarrow> machine \<Rightarrow> ((TcpConnectError + u64 \<times> nat) \<times> machine) option" where
  "connect_decided s m =
     (case connect_status (fst s) (snd s) m of
        InProgress \<Rightarrow> None
      | ConnectEstablished \<Rightarrow> Some (Inr s, clear_send_waker (fst s) (snd s) m)
      | ConnectRefused \<Rightarrow> Some (Inl CeRefused, tcp_stream_drop s m)
      | ConnectTimedOut \<Rightarrow> Some (Inl CeTimedOut, tcp_stream_drop s m))"

definition tcp_connect_poll :: "NetConfig \<Rightarrow> nat \<Rightarrow> IpAddr \<Rightarrow> u16 \<Rightarrow> (u64 \<times> nat) option \<Rightarrow> nat \<Rightarrow> machine
    \<Rightarrow> (TcpConnectError + u64 \<times> nat) poll \<times> (u64 \<times> nat) option \<times> machine" where
  "tcp_connect_poll cfg cur ip port stream w m =
     (let (stream1, m1) = (case stream of Some s \<Rightarrow> (Some s, m) | None \<Rightarrow> tcp_backend_connect cfg cur ip port m)
      in case stream1 of
           None \<Rightarrow> (Ready (Inl CeFailed), None, m1)
         | Some s \<Rightarrow>
             (case connect_decided s m1 of
                Some (r, m2) \<Rightarrow> (Ready r, None, m2)
              | None \<Rightarrow>
                  let m2 = snd (register_send_waker (fst s) (snd s) w m1)
                  in case connect_decided s m2 of
                       Some (r, m3) \<Rightarrow> (Ready r, None, m3)
                     | None \<Rightarrow> (Pending, Some s, m2)))"

definition tcp_connect_drop :: "(u64 \<times> nat) option \<Rightarrow> machine \<Rightarrow> machine" where
  "tcp_connect_drop stream m =
     (case stream of None \<Rightarrow> m | Some s \<Rightarrow> tcp_stream_drop s (clear_send_waker (fst s) (snd s) m))"

datatype TcpBindError = AllSlotsBusy | PortInUse | InvalidPort | BackendFailed

text \<open>The backend listens on every core; the cores before the one that fails keep their listener.\<close>

fun tcp_backend_listen :: "u16 \<Rightarrow> nat list \<Rightarrow> machine \<Rightarrow> bool \<times> machine" where
  "tcp_backend_listen port [] m = (True, m)"
| "tcp_backend_listen port (i # is) m =
     (let (h, k) = listen_on_core port (m ! i); m1 = m[i := k]
      in if h = 0 then (False, m1) else tcp_backend_listen port is m1)"

text \<open>The registry has one port per entry and one waker per entry and worker; each core has its own copy of the entry.\<close>

definition set_registry :: "nat \<Rightarrow> u16 \<Rightarrow> nat option \<Rightarrow> core \<Rightarrow> core" where
  "set_registry idx port w k = k\<lparr>tcp_registry := (tcp_registry k)[idx := (port, w)]\<rparr>"

definition tcp_listener_bind :: "u16 \<Rightarrow> machine \<Rightarrow> (TcpBindError + nat) \<times> machine" where
  "tcp_listener_bind port m =
     (let reg = tcp_registry (m ! 0)
      in if port = 0 then (Inl InvalidPort, m)
         else if \<exists>i<length reg. fst (reg ! i) = port then (Inl PortInUse, m)
         else case find (\<lambda>i. fst (reg ! i) = 0) [0..<length reg] of
                None \<Rightarrow> (Inl AllSlotsBusy, m)
              | Some idx \<Rightarrow>
                  let (ok, m2) = tcp_backend_listen port [0..<length m] (map (set_registry idx port None) m)
                  in if \<not> ok then (Inl BackendFailed, map (set_registry idx 0 None) m2) else (Inr idx, m2))"

text \<open>The bare-metal backend has no \<open>unlisten\<close>: the listening slots stay.\<close>

definition tcp_listener_drop :: "nat \<Rightarrow> machine \<Rightarrow> machine" where
  "tcp_listener_drop idx m = map (\<lambda>k. set_registry idx 0 (snd (tcp_registry k ! idx)) k) m"

definition tcp_accept_poll :: "u16 \<Rightarrow> nat \<Rightarrow> nat \<Rightarrow> nat \<Rightarrow> machine \<Rightarrow> (u64 \<times> nat) poll \<times> machine" where
  "tcp_accept_poll port idx cur w m =
     (case accept_on_port_core port (m ! cur) of
        (Some s, k) \<Rightarrow> (Ready s, m[cur := k])
      | (None, k) \<Rightarrow>
          let k1 = set_registry idx (fst (tcp_registry k ! idx)) (Some w) k
          in case accept_on_port_core port k1 of
               (Some s, k2) \<Rightarrow> (Ready s, m[cur := set_registry idx (fst (tcp_registry k2 ! idx)) None k2])
             | (None, k2) \<Rightarrow> (Pending, m[cur := k2]))"

section \<open>Handles\<close>

definition current :: "machine \<Rightarrow> u64 \<Rightarrow> nat \<Rightarrow> nat \<Rightarrow> nat \<Rightarrow> bool" where
  "current m h g c i \<longleftrightarrow> decode_handle m h = Some (c, i) \<and> generation (conns (m ! c) i) = g"

lemma current_bounds: "current m h g c i \<Longrightarrow> c < length m \<and> i < pool_capacity (m ! c)"
  by (auto simp: current_def decode_handle_def Let_def split: if_splits)

lemma with_current: "current m h g c i \<Longrightarrow> with_handle h g st f m = (let (r, k) = f i (m ! c) in (r, m[c := k]))"
  by (simp add: current_def with_handle_def)

lemma current_upd: "current m h g c i \<Longrightarrow> generation (conns k i) = g \<Longrightarrow> nsegs k = nsegs (m ! c) \<Longrightarrow> current (m[c := k]) h g c i"
  using current_bounds [of m h g c i] capacity_cong [of k "m ! c"]
  by (auto simp: current_def decode_handle_def Let_def split: if_splits)

lemma current_slot: "current m h g c i \<Longrightarrow> (\<And>c. generation (u c) = generation c) \<Longrightarrow> current (m[c := upd_slot i u (m ! c)]) h g c i"
  by (rule current_upd) (simp_all add: upd_slot_def current_def)

text \<open>What the probe looks at.\<close>

definition readable :: "tcb \<Rightarrow> bool" where
  "readable c \<longleftrightarrow> rx_used c > 0 \<or> pending_chunk c \<noteq> None \<or> state c \<in> {Closed, CloseWait, LastAck, TimeWait}"

lemma probe_current: "current m h g c i \<Longrightarrow> is_readable_or_closed h g m = readable (conns (m ! c) i)"
  by (auto simp: current_def is_readable_or_closed_def readable_def Let_def)

lemma hooks_current:
  assumes "current m h g c i"
  shows "clear_recv_waker h g m = m[c := upd_slot i (\<lambda>x. x\<lparr>recv_waker := None\<rparr>) (m ! c)]"
    "snd (register_recv_waker h g w m) = m[c := upd_slot i (\<lambda>x. x\<lparr>recv_waker := Some w\<rparr>) (m ! c)]"
    "set_chunk_buf_slot h g m = m[c := upd_slot i (\<lambda>x. x\<lparr>chunk_wanted := True\<rparr>) (m ! c)]"
    "clear_chunk_buf_slot h g m = m[c := upd_slot i (\<lambda>x. x\<lparr>chunk_wanted := False\<rparr>) (m ! c)]"
    "async_recv h g n m = (let (out, x) = rx_pop n (conn_at i (m ! c)) in (out, m[c := conn_put i x (m ! c)]))"
  using assms by (simp_all add: clear_recv_waker_def register_recv_waker_def set_chunk_buf_slot_def clear_chunk_buf_slot_def async_recv_def
      with_current case_prod_beta Let_def)

text \<open>A pending poll: the handle is current, there is nothing to read, and the waker is parked.\<close>

lemma recv_poll_pending:
  assumes "tcp_recv_poll h g n w m = (Pending, m')"
  obtains c i where "current m h g c i" "m' = m[c := upd_slot i (\<lambda>x. x\<lparr>recv_waker := Some w\<rparr>) (m ! c)]" "\<not> readable (conns (m ! c) i)"
proof -
  have n: "\<not> is_readable_or_closed h g m" using assms by (auto simp: tcp_recv_poll_def Let_def case_prod_beta split: if_splits)
  then obtain c i where c: "current m h g c i"
    by (auto simp: is_readable_or_closed_def current_def split: option.splits prod.splits) (metis (full_types))
  have "m' = snd (register_recv_waker h g w m)" using assms n by (auto simp: tcp_recv_poll_def Let_def case_prod_beta split: if_splits)
  then show thesis using that [OF c] hooks_current(2) [OF c] n probe_current [OF c] by simp
qed

section \<open>No lost wake-up\<close>

text \<open>The steps of a core that are not the steps of the reader of slot \<open>i\<close>.\<close>

definition others_step :: "nat \<Rightarrow> core \<Rightarrow> core \<Rightarrow> bool" where
  "others_step i k k' \<longleftrightarrow> (\<exists>a. a \<noteq> Some i \<and> core_step a k k')"

lemma others_parked: "(others_step i)\<^sup>*\<^sup>* k k' \<Longrightarrow> core_typed k \<Longrightarrow> parked i w k \<Longrightarrow> core_typed k' \<and> parked i w k'"
  by (induction rule: rtranclp_induct) (auto simp: others_step_def intro: core_step_typed calmly_parked core_step_calm)

text \<open>C7: No wake-up is lost. When a read on an established connection returns pending on a well-typed core, then after
  whatever segments (but a SYN to port 0), timers, failing allocations and calls of other tasks: either the reader's waker has been woken, or it is still
  registered on the connection, which is established with nothing to read.\<close>

theorem no_lost_wakeup:
  assumes "tcp_recv_poll h g n w m = (Pending, m')" and "decode_handle m h = Some (c, i)"
    and "core_typed (m ! c)" and "state (conns (m ! c) i) = Established" and "(others_step i)\<^sup>*\<^sup>* (m' ! c) k"
  shows "w \<in> set (woken (core_env k)) \<or> recv_waker (conns k i) = Some w \<and> state (conns k i) = Established
    \<and> rx_used (conns k i) = 0 \<and> pending_chunk (conns k i) = None"
proof -
  obtain c' i' where p: "current m h g c' i'" "m' = m[c' := upd_slot i' (\<lambda>x. x\<lparr>recv_waker := Some w\<rparr>) (m ! c')]" "\<not> readable (conns (m ! c') i')"
    by (rule recv_poll_pending [OF assms(1)])
  have ci: "c' = c" "i' = i" using p(1) assms(2) by (simp_all add: current_def)
  define k0 where "k0 = upd_slot i (\<lambda>x. x\<lparr>recv_waker := Some w\<rparr>) (m ! c)"
  have m': "m' ! c = k0" and cap: "i < pool_capacity (m ! c)" using p(2) current_bounds [OF p(1)] by (simp_all add: ci k0_def)
  have "core_typed k0" using core_step_typed [OF set_recv_waker assms(3)] by (simp add: k0_def)
  moreover have "parked i w k0" using p(3) assms(4) cap by (auto simp: parked_def awaits_def readable_def k0_def ci upd_slot_def pool_capacity_def)
  ultimately have "parked i w k" using others_parked [of i k0 k w] assms(5) m' by simp
  then show ?thesis by (auto simp: parked_def awaits_def)
qed

lemma demo_parked:
  obtains k i g where "core_typed k" "in_use i k" "state (conns k i) = Established" "generation (conns k i) = g" "\<not> readable (conns k i)"
proof -
  obtain i k2 where a: "alloc_connection demo_core = (Some i, k2)" "alloc_results (core_env k2) = []"
    by (rule alloc_succeeds [OF demo_core_ok demo_core_allocates])
  obtain D where ok2: "core_ok k2 D" "in_use i k2" and "\<exists>g c. conns k2 i = reset_preserving g c"
    by (rule core_ok_alloc [OF demo_core_ok a(1)]) blast
  then obtain g c0 where r: "conns k2 i = reset_preserving g c0" by blast
  define c where "c = (conns k2 i)\<lparr>state := Established\<rparr>"
  define k where "k = conn_put i (attach c (core_env k2)) k2"
  have ok: "core_ok k D" "in_use i k" unfolding k_def using ok2(2) core_ok_put_dead [OF ok2, of "attach c (core_env k2)"]
    by (simp_all add: r c_def attach_def tcb.extend_def conn.fields_def link_def listed_def armed_def)
       (simp_all add: reset_preserving_def tcb_new_def)
  have t: "all_slots slot_ok k2" using typed_slots.alloc_connection [OF _ a(1)] typed_slots.new_core by (simp add: demo_core_def)
  have "all_slots slot_ok k"
    by (rule all_slots_upd [OF t, of c _ i])
      (use t in \<open>auto simp: all_slots_def k_def c_def slot_ok_def passive_port_def mss_ok_def conn_put_attach\<close>)
  then show thesis using that [of k i g] ok by (auto simp: core_typed_def k_def c_def r conn_put_attach readable_def reset_preserving_def tcb_new_def Let_def)
qed

theorem no_lost_wakeup_witness:
  "\<exists>m h g i k. fst (tcp_recv_poll h g 100 7 m) = Pending \<and> state (conns (m ! 0) i) = Established \<and> (others_step i)\<^sup>*\<^sup>* (snd (tcp_recv_poll h g 100 7 m) ! 0) k
    \<and> (7 \<in> set (woken (core_env k)) \<or> recv_waker (conns k i) = Some 7)"
proof -
  obtain k i g where k: "core_typed k" "in_use i k" "state (conns k i) = Established" "generation (conns k i) = g" "\<not> readable (conns k i)"
    by (rule demo_parked)
  obtain D where ok: "core_ok k D" using k(1) by (auto simp: core_typed_def)
  have "i < pool_capacity k" "slots_ok k" using in_use_bound [OF ok k(2)] ok by (auto simp: core_ok_def pool_ok_def)
  then have d: "decode_handle [k] (encode_handle 0 i) = Some (0, i)" using decode_encode(1) [of 0 "[k]" i] by simp
  then have c: "current [k] (encode_handle 0 i) g 0 i" using k(4) by (simp add: current_def)
  let ?h = "encode_handle 0 i" and ?k = "upd_slot i (\<lambda>x. x\<lparr>recv_waker := Some 7\<rparr>) k"
  have c': "current [?k] ?h g 0 i" using current_slot [OF c, of "\<lambda>x. x\<lparr>recv_waker := Some 7\<rparr>"] by simp
  have "readable (conns ?k i) = readable (conns k i)" by (simp add: upd_slot_def readable_def)
  then have p: "tcp_recv_poll ?h g 100 7 [k] = (Pending, [?k])"
    using k(5) probe_current [OF c] probe_current [OF c'] hooks_current(2) [OF c, of 7] by (simp add: tcp_recv_poll_def)
  have "core_step None ?k (?k\<lparr>core_env := (core_env ?k)\<lparr>now_ms := 5000\<rparr>\<rparr>)" by (rule environment) simp_all
  then have "others_step i ([?k] ! 0) (?k\<lparr>core_env := (core_env ?k)\<lparr>now_ms := 5000\<rparr>\<rparr>)" by (auto simp: others_step_def)
  then have s: "(others_step i)\<^sup>*\<^sup>* ([?k] ! 0) (?k\<lparr>core_env := (core_env ?k)\<lparr>now_ms := 5000\<rparr>\<rparr>)" by (rule r_into_rtranclp)
  from no_lost_wakeup [OF p d _ _ s] k(1,3) show ?thesis
    by (intro exI [of _ "[k]"] exI [of _ ?h] exI [of _ g] exI [of _ i] exI [of _ "?k\<lparr>core_env := (core_env ?k)\<lparr>now_ms := 5000\<rparr>\<rparr>"])
      (use s p in auto)
qed

section \<open>Cancelling a chunk read\<close>

text \<open>In-order data for a waiting chunk reader is stashed as a chunk.\<close>

lemma receive_keeps_handle:
  assumes "state (conns k i) = Established" and l: "lookup_segment s k = Some i" "\<not> has_flag TCP_RST s" "\<not> has_flag TCP_SYN s"
    and "has_flag TCP_ACK s \<longrightarrow> \<not> seq_lt (snd_nxt (conns k i)) (sg_ack s)"
  shows "generation (conns (receive_segment s k) i) = generation (conns k i)" "nsegs (receive_segment s k) = nsegs k"
proof -
  have t: "generation c' = generation c" if "touches c c'" for c c' using that by (simp add: touches_def ident_def)
  have r: "receive_segment s k = receive_synchronized s i k" using l assms(1) by (simp add: receive_segment_def)
  have g: "generation (conns (ack_transition s adv i (upd_slot i (ack_window s) k)) i) = generation (conns k i)" for adv
    by (simp add: ack_transition_conn Let_def upd_slot_def ack_window_def)
  have o: "generation (conns (on_conn i f k) i) = generation (conns k i)" "nsegs (on_conn i f k) = nsegs k" if "\<And>c. touches c (f c)" for f k
    using t [OF that [of "conn_at i k"]] by (simp_all add: on_conn_def)
  show "generation (conns (receive_segment s k) i) = generation (conns k i)" "nsegs (receive_segment s k) = nsegs k"
    unfolding r receive_synchronized_def process_ack_def Let_def using assms(1,5) g o(1) [OF touches_process_rest] o(2) [OF touches_process_rest]
      o(1) [OF touches_ack_recovery] o(2) [OF touches_ack_recovery] by (simp_all add: ack_transition_def Let_def upd_slot_def deliver_tcp_ready_frame)
qed

lemma chunk_stashed:
  assumes "state (conns k i) = Established" and l: "lookup_segment s k = Some i" "\<not> has_flag TCP_RST s" "\<not> has_flag TCP_SYN s"
    and "has_flag TCP_ACK s \<longrightarrow> \<not> seq_lt (snd_nxt (conns k i)) (sg_ack s)" and "\<not> has_flag TCP_FIN s"
    and "sg_seq s = rcv_nxt (conns k i)" "0 < sg_payload_len s" "sg_parts s = [b]" "sg_data_offset s \<le> length b"
    and "chunk_wanted (conns k i)" "pending_chunk (conns k i) = None" "rx_used (conns k i) = 0" "ooo_is_empty (ooo (conns k i))"
  shows "state (conns (receive_segment s k) i) = Established" "rx_used (conns (receive_segment s k) i) = 0"
    "pending_chunk (conns (receive_segment s k) i) = Some (take (sg_payload_len s) (drop (sg_data_offset s) b))"
proof -
  obtain c where c: "conns (receive_segment s k) i = tcb.truncate (process_rest Established s c)" "state c = Established"
      "\<And>S L irs u p. stream_inv S L irs u p (conns k i) \<Longrightarrow> stream_inv S L irs u p c"
      "rcv_nxt c = rcv_nxt (conns k i)" "rx_ring c = rx_ring (conns k i)" "rx_used c = rx_used (conns k i)"
      "ooo c = ooo (conns k i)" "pending_chunk c = pending_chunk (conns k i)" "chunk_wanted c = chunk_wanted (conns k i)"
    by (rule established_receive [OF assms(1) l assms(5)]) (rule that)
  have d: "state (process_data s c) = Established" "rx_used (process_data s c) = 0"
      "pending_chunk (process_data s c) = Some (take (sg_payload_len s) (drop (sg_data_offset s) b))"
    using assms(7-14) c(2-9)
    by (simp_all add: process_data_def process_in_order_def deliver_in_order_def narrow_def drain_buffered_def emit_ack_def wake_receiver_def Let_def)
  then show "state (conns (receive_segment s k) i) = Established" "rx_used (conns (receive_segment s k) i) = 0"
      "pending_chunk (conns (receive_segment s k) i) = Some (take (sg_payload_len s) (drop (sg_data_offset s) b))"
    using assms(6) by (simp_all add: c(1) process_rest_def process_fin_def process_time_wait_def refresh_reader_def wake_receiver_def
        maybe_send_window_update_def Let_def)
qed

lemma demo_current: "current [demo_stream] 1 0 0 0" "\<not> readable (conns demo_stream 0)"
  by (simp_all add: current_def readable_def decode_handle_def demo_stream_def demo_open_def upd_slot_def demo_core_def core_new_def
      tcb_new_def pool_capacity_def tcp_consts width_simps)

text \<open>C9: A cancelled chunk read makes the connection look finished. A chunk read is pending on an established connection, one segment of in-order
  data arrives and is stashed for it, and the chunk read is dropped before it runs. A plain read that follows returns zero bytes at once, which
  callers take for the end of the stream, while the connection is established and the data is waiting.\<close>

theorem cancelled_chunk_spurious_eof:
  assumes "current m h g c i" and "state (conns (m ! c) i) = Established"
    and "recv_chunk_poll h g w m = (Pending, m1)" and "ooo_is_empty (ooo (conns (m ! c) i))"
    and "lookup_segment s (m1 ! c) = Some i" "\<not> has_flag TCP_RST s" "\<not> has_flag TCP_SYN s" "\<not> has_flag TCP_FIN s"
    and "has_flag TCP_ACK s \<longrightarrow> \<not> seq_lt (snd_nxt (conns (m ! c) i)) (sg_ack s)"
    and "sg_seq s = rcv_nxt (conns (m ! c) i)" "0 < sg_payload_len s" "sg_parts s = [b]" "sg_data_offset s + sg_payload_len s = length b"
    and "m2 = m1[c := receive_segment s (m1 ! c)]"
  shows "fst (tcp_recv_poll h g n w' (recv_chunk_drop h g m2)) = Ready [] \<and> state (conns (m2 ! c) i) = Established
    \<and> pending_chunk (conns (m2 ! c) i) = Some (drop (sg_data_offset s) b)"
proof -
  define k where "k = upd_slot i (\<lambda>x. x\<lparr>recv_waker := Some w\<rparr>) (upd_slot i (\<lambda>x. x\<lparr>chunk_wanted := True\<rparr>) (m ! c))"
  note cb = current_bounds [OF assms(1)]
  have c1: "current (m[c := upd_slot i (\<lambda>x. x\<lparr>chunk_wanted := True\<rparr>) (m ! c)]) h g c i" by (rule current_slot [OF assms(1)]) simp
  have n: "\<not> readable (conns (m ! c) i)" and m1: "m1 = m[c := k]"
    using assms(3) probe_current [OF assms(1)] hooks_current(3) [OF assms(1)] hooks_current(2) [OF c1, of w] cb
    by (auto simp: recv_chunk_poll_def Let_def case_prod_beta k_def split: if_splits)
  have f: "state (conns k i) = Established" "snd_nxt (conns k i) = snd_nxt (conns (m ! c) i)" "rcv_nxt (conns k i) = rcv_nxt (conns (m ! c) i)"
      "chunk_wanted (conns k i)" "pending_chunk (conns k i) = None" "rx_used (conns k i) = 0" "ooo_is_empty (ooo (conns k i))"
    using assms(2,4) n by (auto simp: k_def upd_slot_def readable_def)
  have k: "m1 ! c = k" "m2 ! c = receive_segment s k" using cb by (simp_all add: m1 assms(14))
  have off: "sg_data_offset s \<le> length b" using assms(13) by linarith
  note st = chunk_stashed [OF f(1) assms(5) [unfolded k(1)] assms(6,7) _ assms(8) _ assms(11,12) off f(4-7)]
  have e: "state (conns (m2 ! c) i) = Established" "rx_used (conns (m2 ! c) i) = 0" "pending_chunk (conns (m2 ! c) i) = Some (drop (sg_data_offset s) b)"
    unfolding k(2) using st assms(9,10,13) f(2,3) by simp_all
  have "generation (conns (m2 ! c) i) = g" "nsegs (m2 ! c) = nsegs (m ! c)"
    using receive_keeps_handle [OF f(1) assms(5) [unfolded k(1)] assms(6,7)] assms(1,9) f(2) unfolding k(2)
    by (simp_all add: k_def upd_slot_def current_def)
  then have cur: "current m2 h g c i" using current_upd [OF assms(1), of "m2 ! c"] assms(14) m1 cb by simp
  define d where "d = recv_chunk_drop h g m2"
  have c2: "current (clear_chunk_buf_slot h g m2) h g c i" unfolding hooks_current(4) [OF cur] by (rule current_slot [OF cur]) simp
  have c3: "current d h g c i" unfolding d_def recv_chunk_drop_def hooks_current(1) [OF c2] by (rule current_slot [OF c2]) simp
  have "d ! c = upd_slot i (\<lambda>x. x\<lparr>recv_waker := None\<rparr>) (upd_slot i (\<lambda>x. x\<lparr>chunk_wanted := False\<rparr>) (m2 ! c))"
    using current_bounds [OF cur] unfolding d_def recv_chunk_drop_def hooks_current(1) [OF c2] unfolding hooks_current(4) [OF cur] by simp
  then have dc: "rx_used (conns (d ! c) i) = 0" "readable (conns (d ! c) i)" using e by (auto simp: upd_slot_def readable_def)
  have c4: "current (clear_recv_waker h g d) h g c i" unfolding hooks_current(1) [OF c3] by (rule current_slot [OF c3]) simp
  have "fst (async_recv h g n (clear_recv_waker h g d)) = []"
    using dc(1) current_bounds [OF c3] unfolding hooks_current(5) [OF c4] by (simp add: hooks_current(1) [OF c3] upd_slot_def rx_pop_def)
  then have "fst (tcp_recv_poll h g n w' d) = Ready []" using dc(2) probe_current [OF c3] by (simp add: tcp_recv_poll_def Let_def case_prod_beta)
  then show ?thesis using e by (simp add: d_def)
qed

theorem cancelled_chunk_spurious_eof_witness:
  "\<exists>m1. recv_chunk_poll 1 0 7 [demo_stream] = (Pending, m1)
    \<and> fst (tcp_recv_poll 1 0 100 8 (recv_chunk_drop 1 0 (m1[0 := receive_segment demo_data (m1 ! 0)]))) = Ready []
    \<and> pending_chunk (conns (m1[0 := receive_segment demo_data (m1 ! 0)] ! 0) 0) = Some [1, 2, 3]"
proof -
  note d = demo_stream_facts and c = demo_current(1)
  let ?m = "[demo_stream]"
  define k where "k = upd_slot 0 (\<lambda>x. x\<lparr>recv_waker := Some 7\<rparr>) (upd_slot 0 (\<lambda>x. x\<lparr>chunk_wanted := True\<rparr>) demo_stream)"
  have c1: "current [upd_slot 0 (\<lambda>x. x\<lparr>chunk_wanted := True\<rparr>) demo_stream] 1 0 0 0" using current_slot [OF c, of "\<lambda>x. x\<lparr>chunk_wanted := True\<rparr>"] by simp
  have c2: "current [k] 1 0 0 0" using current_slot [OF c1, of "\<lambda>x. x\<lparr>recv_waker := Some 7\<rparr>"] by (simp add: k_def)
  have "readable (conns k 0) = readable (conns demo_stream 0)" by (simp add: k_def upd_slot_def readable_def)
  then have p: "recv_chunk_poll 1 0 7 ?m = (Pending, [k])"
    using demo_current(2) probe_current [OF c] probe_current [OF c2] hooks_current(2) [OF c1, of 7] hooks_current(3) [OF c]
    by (simp add: recv_chunk_poll_def Let_def k_def)
  have "tcp_linear_find a b x k = tcp_linear_find a b x demo_stream" for a b x
    by (auto simp: tcp_linear_find_def k_def upd_slot_def pool_capacity_def Let_def intro!: arg_cong [where f = "\<lambda>P. find P xs" for xs])
  then have "lookup_segment demo_data k = lookup_segment demo_data demo_stream" by (simp add: lookup_segment_def k_def upd_slot_def cong: option.case_cong)
  then have l: "lookup_segment demo_data ([k] ! 0) = Some 0" by (simp add: d(1))
  have o: "ooo_is_empty (ooo (conns (?m ! 0) 0))" using d(3) by (simp add: fresh_stream_def ooo_is_empty_def ooo_new_def)
  have x: "sg_parts demo_data = [replicate 20 0 @ [1, 2, 3]]" "sg_data_offset demo_data + sg_payload_len demo_data = length (replicate 20 0 @ [1, 2, 3 :: u8])"
      "sg_data_offset demo_data = 20"
    by (simp_all add: demo_data_def demo_ack_def demo_syn_def)
  have st: "state (conns (?m ! 0) 0) = Established" "sg_seq demo_data = rcv_nxt (conns (?m ! 0) 0)"
      "has_flag TCP_ACK demo_data \<longrightarrow> \<not> seq_lt (snd_nxt (conns (?m ! 0) 0)) (sg_ack demo_data)" using d by simp_all
  from cancelled_chunk_spurious_eof [OF c st(1) p o l d(5,6,8) st(3,2) d(15) x(1,2) refl, of 100 8] p show ?thesis
    by (intro exI [of _ "[k]"]) (simp add: x(3))
qed

section \<open>The send future\<close>

text \<open>What a send takes off the chain, without regard to the wire.\<close>

lemma send_rest:
  assumes "try_send_chain bs c = Some (r, bs', c')" "0 < snd_mss c" "snd_mss c \<le> MSS_MAX"
  shows "case r of Inl _ \<Rightarrow> bs' = bs | Inr n \<Rightarrow> n \<le> length (concat bs) \<and> concat bs' = drop n (concat bs)"
proof -
  define len where "len = min (length (concat bs)) (usable_window c)"
  have l: "len \<le> length (concat bs)" by (simp add: len_def)
  have f: "n \<le> length (concat bs)" if "send_per_mss_fallback m (concat bs) len (snd_mss c) e = Some (n, e')" for m e n e'
    using per_mss_loop_correct [OF assms(2,3), of 0 len "concat bs" m e] that l by (auto simp: send_per_mss_fallback_def simp del: length_concat)
  have s: "n \<le> length (concat bs)" if "send_super_segment_from_cursor m (concat bs) len (snd_mss c) e = Some (n, e')" for m e n e'
    using that f l by (auto simp: send_super_segment_from_cursor_def Let_def split: if_splits prod.splits)
  show ?thesis
    using assms(1) f s rtx_on_data_sent_frame(1) unfolding try_send_chain_def Let_def len_def [symmetric]
    by (auto split: if_splits option.splits prod.splits)
qed

definition all_typed :: "machine \<Rightarrow> bool" where
  "all_typed m \<longleftrightarrow> (\<forall>k \<in> set m. core_typed k)"

lemma all_typed_upd: "all_typed m \<Longrightarrow> core_typed k \<Longrightarrow> all_typed (m[c := k])"
  using set_update_subset_insert [of m c k] by (auto simp: all_typed_def)

lemma register_typed:
  assumes "all_typed m"
  shows "all_typed (snd (register_send_waker h g w m))"
proof -
  have "core_typed (upd_slot i (\<lambda>c. c\<lparr>send_waker := Some w\<rparr>) (m ! c))" if "c < length m" for c i
    using assms that core_step_typed [OF set_send_waker] by (auto simp: all_typed_def)
  moreover have "c < length m" if "decode_handle m h = Some (c, i)" for c i using that by (auto simp: decode_handle_def Let_def split: if_splits)
  ultimately show ?thesis using assms all_typed_upd by (auto simp: register_send_waker_def with_handle_def split: option.split)
qed

lemma async_send_returns:
  assumes t: "all_typed m"
  obtains r bs' m' where "async_try_send_chain h g bs m = Some (r, bs', m')" "all_typed m'"
    "case r of Inl _ \<Rightarrow> True | Inr n \<Rightarrow> n \<le> length (concat bs) \<and> concat bs' = drop n (concat bs)"
proof (cases "\<exists>c i. current m h g c i")
  case False
  then have "async_try_send_chain h g bs m = Some (Inl SendClosed, bs, m)"
    by (auto simp: async_try_send_chain_def current_def split: option.split)
  then show ?thesis using that t by fastforce
next
  case True
  then obtain c i where c: "current m h g c i" by blast
  define k where "k = m ! c"
  have k: "core_typed k" "i < pool_capacity k" using current_bounds [OF c] t by (simp_all add: all_typed_def k_def)
  obtain D where ok: "core_ok k D" "all_slots slot_ok k" using k(1) by (auto simp: core_typed_def)
  have mss: "0 < snd_mss (conn_at i k)" "snd_mss (conn_at i k) \<le> MSS_MAX"
    using ok(2) by (auto simp: all_slots_def slot_ok_def mss_ok_def dest: spec [of _ i])
  obtain r bs' x where s: "try_send_chain bs (conn_at i k) = Some (r, bs', x)" using try_send_chain_total [OF mss(1), of bs] by (metis prod_cases3)
  have "core_typed (conn_put i x k)"
  proof (cases "state (conns k i) = Established")
    case True
    then have "in_use i k" using not_closed_in_use [OF ok(1) k(2)] by simp
    from core_step_typed [OF send [OF this s] k(1)] show ?thesis .
  next
    case False
    then have "x = conn_at i k" using s by (simp add: try_send_chain_def)
    then have "conn_put i x k = k" by (simp add: conn_at_def conn_put_attach)
    then show ?thesis using k(1) by simp
  qed
  moreover have "async_try_send_chain h g bs m = Some (r, bs', m[c := conn_put i x k])"
    using c s by (simp add: async_try_send_chain_def current_def k_def)
  ultimately show ?thesis using that [of r bs' "m[c := conn_put i x k]"] all_typed_upd [OF t] send_rest [OF s mss] by (auto split: sum.splits)
qed

lemma send_chain_poll_returns: "all_typed m \<Longrightarrow> \<exists>r. send_chain_poll h g w bs m = Some r"
proof (induction "length (concat bs)" arbitrary: bs m rule: less_induct)
  case less
  obtain r bs1 m1 where s: "async_try_send_chain h g bs m = Some (r, bs1, m1)" "all_typed m1"
    "case r of Inl _ \<Rightarrow> True | Inr n \<Rightarrow> n \<le> length (concat bs) \<and> concat bs1 = drop n (concat bs)"
    by (rule async_send_returns [OF less.prems])
  have again: "\<exists>r. send_chain_poll h g w bs2 m2 = Some r" if "n \<noteq> 0" "n \<le> length (concat bs)" "concat bs2 = drop n (concat bs)" "all_typed m2" for n bs2 m2
    by (rule less.hyps [OF _ that(4)]) (use that in \<open>simp del: length_concat\<close>)
  show ?case
  proof (cases "\<exists>n. r = Inr n \<and> n = 0")
    case False
    then show ?thesis using s again by (subst send_chain_poll.simps) (auto split: sum.splits)
  next
    case True
    define m2 where "m2 = snd (register_send_waker h g w m1)"
    have m2: "all_typed m2" using register_typed [OF s(2)] by (simp add: m2_def)
    obtain r2 bs2 m3 where s2: "async_try_send_chain h g bs1 m2 = Some (r2, bs2, m3)" "all_typed m3"
      "case r2 of Inl _ \<Rightarrow> True | Inr n \<Rightarrow> n \<le> length (concat bs1) \<and> concat bs2 = drop n (concat bs1)"
      by (rule async_send_returns [OF m2])
    have "concat bs1 = concat bs" using s(3) True by auto
    then show ?thesis using s(1) s2 True again [of _ bs2 m3]
      by (subst send_chain_poll.simps) (auto simp: m2_def [symmetric] split: sum.splits)
  qed
qed

lemma tick_returns: "core_typed k \<Longrightarrow> \<exists>k'. on_tcp_tick k = Some k'"
proof -
  assume "core_typed k"
  then obtain D where "core_ok k D" by (auto simp: core_typed_def)
  then obtain fs ts where "pool_ok k fs ts D" "rings_ok k" "all_slots listed k" by (auto elim: core_okE)
  then show ?thesis using tick_ok by metis
qed

text \<open>C8: The calls of a reachable machine return. On cores reached from their initial state by any steps (no SYN to port 0 among them), a
  poll of a send future ends, whatever chain it has left to send and whatever the driver answers, and the tick walks the timer list of every core to its end.\<close>

theorem reachable_calls_return:
  assumes "\<forall>k \<in> set m. \<exists>c n isns e. core_next\<^sup>*\<^sup>* (core_new c n isns e) k"
  shows "(\<exists>r. send_chain_poll h g w bs m = Some r) \<and> (\<forall>k \<in> set m. \<exists>k'. on_tcp_tick k = Some k')"
proof -
  have "all_typed m" using assms reachable_typed by (auto simp: all_typed_def)
  then show ?thesis using send_chain_poll_returns tick_returns by (auto simp: all_typed_def)
qed

theorem reachable_calls_return_witness:
  "(\<exists>r. send_chain_poll (encode_handle 0 1) 0 7 [replicate 9000 1] [demo_run] = Some r) \<and> (\<exists>k'. on_tcp_tick demo_run = Some k')"
proof -
  have "\<forall>k \<in> set [demo_run]. \<exists>c n isns e. core_next\<^sup>*\<^sup>* (core_new c n isns e) k" using demo_run_reached by auto
  from reachable_calls_return [OF this] show ?thesis by simp
qed

end
