(* ===== verification/Quic_Wire.thy ===== *)
theory Quic_Wire
  imports Prelude
begin

text \<open>
  The wire format of QUIC, \<open>crates/proto/quic/src/wire.rs\<close>: variable-length integers, the long and short headers, and packet
  numbers with their truncation.

  Integers are \<open>nat\<close> except in the packet-number arithmetic, which wraps and masks and is on 64-bit words. A function that
  writes into a caller's buffer is given the room there and returns the bytes it leaves in the buffer's front.
\<close>

section \<open>Constants and errors\<close>

definition QUIC_VERSION_1 :: u32 where "QUIC_VERSION_1 = 1"
definition FIXED_BIT :: u8 where "FIXED_BIT = 0x40"
definition HEADER_FORM_LONG :: u8 where "HEADER_FORM_LONG = 0x80"
definition LONG_INITIAL :: u8 where "LONG_INITIAL = 0"
definition LONG_ZERO_RTT :: u8 where "LONG_ZERO_RTT = 1"
definition LONG_HANDSHAKE :: u8 where "LONG_HANDSHAKE = 2"
definition LONG_RETRY :: u8 where "LONG_RETRY = 3"
definition MAX_CID_LEN :: nat where "MAX_CID_LEN = 20"
definition MAX_VARINT :: nat where "MAX_VARINT = 2 ^ 62 - 1"

datatype WireError = WTruncated | WBadLength | WWrongForm | WBadFixedBit | WUnsupportedVersion u32 | WOutputTooSmall

section \<open>Variable-length integers\<close>

definition varint_len_from_first_byte :: "u8 \<Rightarrow> nat" where
  "varint_len_from_first_byte b = 2 ^ unat (drop_bit 6 b AND 3)"

definition be_value :: "nat \<Rightarrow> bytes \<Rightarrow> nat" where
  "be_value v bs = fold (\<lambda>b v. v * 256 + unat b) bs v"

definition read_varint :: "bytes \<Rightarrow> WireError + nat \<times> nat" where
  "read_varint d =
     (if d = [] then Inl WTruncated
      else let len = varint_len_from_first_byte (d ! 0)
           in if length d < len then Inl WTruncated
              else Inr (be_value (unat (d ! 0 AND 0x3F)) (take (len - 1) (drop 1 d)), len))"

text \<open>The low \<open>len\<close> bytes of a value, the highest first.\<close>

definition be_octets :: "nat \<Rightarrow> nat \<Rightarrow> bytes" where
  "be_octets len v = map (\<lambda>i. of_nat (v div 256 ^ (len - 1 - i))) [0..<len]"

definition write_varint :: "nat \<Rightarrow> nat \<Rightarrow> WireError + bytes" where
  "write_varint v room =
     (if v > MAX_VARINT then Inl WBadLength
      else let (len, prefix) = (if v < 2 ^ 6 then (1, 0x00) else if v < 2 ^ 14 then (2, 0x40)
                                else if v < 2 ^ 30 then (4, 0x80) else (8, 0xC0 :: u8));
               bs = be_octets len v
           in if room < len then Inl WOutputTooSmall else Inr ((bs ! 0 OR prefix) # drop 1 bs))"

section \<open>Headers\<close>

record LongHeaderPreamble =
  lh_first_byte :: u8
  lh_long_type :: u8
  lh_version :: u32
  lh_dcid :: bytes
  lh_scid :: bytes
  lh_tail_offset :: nat

definition parse_long_header_preamble :: "bytes \<Rightarrow> WireError + LongHeaderPreamble" where
  "parse_long_header_preamble d =
     (if d = [] then Inl WTruncated
      else let first = d ! 0
      in if first AND HEADER_FORM_LONG = 0 then Inl WWrongForm
      else if first AND FIXED_BIT = 0 then Inl WBadFixedBit
      else let long_type = drop_bit 4 first AND 3
      in if length d < 1 + 4 + 1 then Inl WTruncated
      else let version = of_nat (be_value 0 (take 4 (drop 1 d)))
      in if version \<noteq> QUIC_VERSION_1 then Inl (WUnsupportedVersion version)
      else let dcid_len = unat (d ! 5)
      in if dcid_len > MAX_CID_LEN then Inl WBadLength
      else if length d < 1 + 4 + 1 + dcid_len + 1 then Inl WTruncated
      else let scid_len = unat (d ! (6 + dcid_len))
      in if scid_len > MAX_CID_LEN then Inl WBadLength
      else let scid_start = 6 + dcid_len + 1; scid_end = scid_start + scid_len
      in if length d < scid_end then Inl WTruncated
      else Inr \<lparr>lh_first_byte = first, lh_long_type = long_type, lh_version = version, lh_dcid = take dcid_len (drop 6 d),
                lh_scid = take scid_len (drop scid_start d), lh_tail_offset = scid_end\<rparr>)"

record InitialHeader =
  ih_preamble :: LongHeaderPreamble
  ih_token :: bytes
  ih_length :: nat
  ih_pn_offset :: nat

definition parse_initial_header :: "bytes \<Rightarrow> WireError + InitialHeader" where
  "parse_initial_header d =
     and_then (parse_long_header_preamble d) (\<lambda>preamble.
       if lh_long_type preamble \<noteq> LONG_INITIAL then Inl WWrongForm
       else let p = lh_tail_offset preamble
       in and_then (read_varint (drop p d)) (\<lambda>(token_len, n).
            let p = p + n
            in if token_len > length d - p then Inl WTruncated
               else let token_end = p + token_len
               in and_then (read_varint (drop token_end d)) (\<lambda>(len, n).
                    Inr \<lparr>ih_preamble = preamble, ih_token = take token_len (drop p d), ih_length = len, ih_pn_offset = token_end + n\<rparr>)))"

record LongPayloadHeader =
  lp_preamble :: LongHeaderPreamble
  lp_length :: nat
  lp_pn_offset :: nat

definition parse_long_payload_header :: "bytes \<Rightarrow> WireError + LongPayloadHeader" where
  "parse_long_payload_header d =
     and_then (parse_long_header_preamble d) (\<lambda>preamble.
       if lh_long_type preamble \<noteq> LONG_HANDSHAKE \<and> lh_long_type preamble \<noteq> LONG_ZERO_RTT then Inl WWrongForm
       else let p = lh_tail_offset preamble
       in and_then (read_varint (drop p d)) (\<lambda>(len, n). Inr \<lparr>lp_preamble = preamble, lp_length = len, lp_pn_offset = p + n\<rparr>))"

record ShortHeader =
  sh_first_byte :: u8
  sh_dcid :: bytes
  sh_pn_offset :: nat

definition parse_short_header :: "bytes \<Rightarrow> nat \<Rightarrow> WireError + ShortHeader" where
  "parse_short_header d dcid_len =
     (if dcid_len > MAX_CID_LEN then Inl WBadLength
      else if d = [] then Inl WTruncated
      else let first = d ! 0
      in if first AND HEADER_FORM_LONG \<noteq> 0 then Inl WWrongForm
      else if first AND FIXED_BIT = 0 then Inl WBadFixedBit
      else if length d < 1 + dcid_len then Inl WTruncated
      else Inr \<lparr>sh_first_byte = first, sh_dcid = take dcid_len (drop 1 d), sh_pn_offset = 1 + dcid_len\<rparr>)"

section \<open>Packet numbers\<close>

definition decode_packet_number :: "u64 \<Rightarrow> u64 \<Rightarrow> nat \<Rightarrow> u64" where
  "decode_packet_number largest_pn truncated_pn truncated_pn_len =
     (let pn_nbits = truncated_pn_len * 8;
          expected_pn = largest_pn + 1;
          pn_win = push_bit pn_nbits 1;
          pn_hwin = pn_win div 2;
          pn_mask = pn_win - 1;
          candidate = (expected_pn AND NOT pn_mask) OR truncated_pn
      in if candidate + pn_hwin \<le> expected_pn \<and> candidate < push_bit 62 1 - pn_win then candidate + pn_win
         else if candidate > expected_pn + pn_hwin \<and> candidate \<ge> pn_win then candidate - pn_win
         else candidate)"

text \<open>\<open>64 - n.leading_zeros()\<close>\<close>

fun significant_bits :: "nat \<Rightarrow> nat" where
  "significant_bits n = (if n = 0 then 0 else Suc (significant_bits (n div 2)))"

declare significant_bits.simps [simp del]

definition packet_number_len :: "u64 \<Rightarrow> u64 option \<Rightarrow> nat" where
  "packet_number_len pn largest_acked =
     (let needed_bits = (case largest_acked of
            None \<Rightarrow> 64
          | Some largest \<Rightarrow>
              let num_unacked = max (unat pn - unat largest) 1;
                  floor = sat_mul64 num_unacked 2 - 1
              in significant_bits floor)
      in if needed_bits \<le> 8 then 1 else if needed_bits \<le> 16 then 2 else if needed_bits \<le> 24 then 3 else 4)"

definition encode_packet_number :: "u64 \<Rightarrow> u64 option \<Rightarrow> nat \<Rightarrow> WireError + bytes" where
  "encode_packet_number pn largest_acked room =
     (if room < 4 then Inl WOutputTooSmall
      else let len = packet_number_len pn largest_acked;
               mask = (if len = 4 then - 1 else push_bit (len * 8) 1 - 1 :: u32);
               truncated = ucast pn AND mask
           in Inr (be_octets len (unat truncated)))"

section \<open>Variable-length integers round trip\<close>

lemma be_value_append: "be_value v (xs @ ys) = be_value (be_value v xs) ys"
  by (simp add: be_value_def)

lemma be_value_Nil [simp]: "be_value v [] = v"
  by (simp add: be_value_def)

lemma be_value_Cons [simp]: "be_value v (b # bs) = be_value (v * 256 + unat b) bs"
  by (simp add: be_value_def)

lemma length_be_octets [simp]: "length (be_octets n v) = n"
  by (simp add: be_octets_def)

lemma be_octets_Suc: "be_octets (Suc n) v = be_octets n (v div 256) @ [of_nat v]"
proof -
  have "v div 256 ^ (n - i) = v div 256 div 256 ^ (n - 1 - i)" if "i < n" for i
  proof -
    have "n - i = Suc (n - 1 - i)" using that by simp
    then show ?thesis by (simp add: div_mult2_eq)
  qed
  then show ?thesis by (simp add: be_octets_def)
qed

lemma be_value_octets: "be_value a (be_octets n v) = a * 256 ^ n + v mod 256 ^ n"
proof (induction n arbitrary: v)
  case 0
  then show ?case by (simp add: be_octets_def)
next
  case (Suc n)
  have "v mod 256 ^ Suc n = 256 * (v div 256 mod 256 ^ n) + v mod 256"
    by (simp add: mod_mult2_eq)
  then show ?case
    by (simp add: be_octets_Suc be_value_append Suc.IH algebra_simps unat_of_nat)
qed

lemma be_octets_front: "be_octets (Suc n) v = of_nat (v div 256 ^ n) # be_octets n v"
  by (simp add: be_octets_def upt_conv_Cons del: upt_Suc) (simp add: map_Suc_upt [symmetric] del: map_Suc_upt upt_Suc)

lemma take_bit_small:
  fixes w :: "'a::len word"
  assumes "unat w < 2 ^ n"
  shows "take_bit n w = w"
  using assms by (simp add: word_unat_eq_iff unsigned_take_bit_eq take_bit_nat_eq_self_iff)

text \<open>A first byte made of a 6-bit value and a 2-bit length prefix gives both back.\<close>

lemma prefixed_byte:
  fixes w p :: u8
  assumes "w < 64" "p < 4"
  shows "unat ((w OR push_bit 6 p) AND 0x3F) = unat w" "varint_len_from_first_byte (w OR push_bit 6 p) = 2 ^ unat p"
proof -
  have w: "take_bit 6 w = w" using assms(1) by (intro take_bit_small) (simp add: word_less_nat_alt)
  have p: "take_bit 2 p = p" using assms(2) by (intro take_bit_small) (simp add: word_less_nat_alt)
  have m: "(0x3F :: u8) = mask 6" "(3 :: u8) = mask 2" by (simp_all add: mask_eq_exp_minus_1)
  have "(take_bit 6 w OR push_bit 6 p) AND mask 6 = take_bit 6 w"
    by (rule bit_word_eqI) (auto simp: bit_simps)
  then show "unat ((w OR push_bit 6 p) AND 0x3F) = unat w" by (simp only: w m)
  have "drop_bit 6 (take_bit 6 w OR push_bit 6 (take_bit 2 p)) AND mask 2 = take_bit 2 p"
    by (rule bit_word_eqI) (auto simp: bit_simps)
  then show "varint_len_from_first_byte (w OR push_bit 6 p) = 2 ^ unat p"
    by (simp only: w p m varint_len_from_first_byte_def)
qed

lemma read_prefixed:
  assumes "v < 64 * 256 ^ n" "p < 4" "2 ^ unat p = Suc n"
  shows "read_varint ((of_nat (v div 256 ^ n) OR push_bit 6 p) # be_octets n v @ rest) = Inr (v, Suc n)"
proof -
  have hi: "v div 256 ^ n < 64" using assms(1) by (simp add: less_mult_imp_div_less)
  then have w: "(of_nat (v div 256 ^ n) :: u8) < 64" "unat (of_nat (v div 256 ^ n) :: u8) = v div 256 ^ n"
    by (simp_all add: word_less_nat_alt unat_of_nat)
  show ?thesis
    using assms(3) w(2) prefixed_byte [OF w(1) assms(2)]
    by (simp add: read_varint_def Let_def be_value_octets div_mult_mod_eq)
qed

lemma write_varint_cases:
  assumes "write_varint v room = Inr bs"
  obtains n p where "v < 64 * 256 ^ n" "p < 4" "2 ^ unat p = Suc n" "n < room"
    "bs = (of_nat (v div 256 ^ n) OR push_bit 6 p) # be_octets n v"
proof -
  have o: "be_octets 1 v = of_nat (v div 256 ^ 0) # be_octets 0 v" "be_octets 2 v = of_nat (v div 256 ^ 1) # be_octets 1 v"
    "be_octets 4 v = of_nat (v div 256 ^ 3) # be_octets 3 v" "be_octets 8 v = of_nat (v div 256 ^ 7) # be_octets 7 v"
    by (simp_all only: be_octets_front [symmetric]) (simp_all add: eval_nat_numeral)
  have p: "(0 :: u8) = push_bit 6 0" "0x40 = push_bit 6 (1 :: u8)" "0x80 = push_bit 6 (2 :: u8)" "0xC0 = push_bit 6 (3 :: u8)"
    by simp_all
  consider "v < 2 ^ 6" | "\<not> v < 2 ^ 6" "v < 2 ^ 14" | "\<not> v < 2 ^ 6" "\<not> v < 2 ^ 14" "v < 2 ^ 30"
    | "\<not> v < 2 ^ 6" "\<not> v < 2 ^ 14" "\<not> v < 2 ^ 30" by blast
  then show thesis
  proof cases
    case 1
    then show thesis using assms that [of 0 0]
      by (simp add: write_varint_def Let_def o be_octets_def del: One_nat_def split: if_splits)
  next
    case 2
    then show thesis using assms that [of 1 1]
      by (simp add: write_varint_def Let_def o del: One_nat_def split: if_splits) simp
  next
    case 3
    then show thesis using assms that [of 3 2]
      by (simp add: write_varint_def Let_def o split: if_splits)
  next
    case 4
    then show thesis using assms that [of 7 3]
      by (simp add: write_varint_def Let_def o MAX_VARINT_def split: if_splits)
  qed
qed

lemma read_written: "write_varint v room = Inr bs \<Longrightarrow> read_varint (bs @ rest) = Inr (v, length bs)"
  by (erule write_varint_cases) (simp add: read_prefixed)

lemma be_value_less: "be_value v bs < Suc v * 256 ^ length bs"
proof (induction bs arbitrary: v)
  case (Cons b bs)
  have "unat b < 2 ^ LENGTH(8)" by (rule unsigned_less)
  then have "Suc (v * 256 + unat b) \<le> Suc v * 256" by simp
  then have "Suc (v * 256 + unat b) * 256 ^ length bs \<le> Suc v * 256 * 256 ^ length bs" by (rule mult_le_mono1)
  then have "be_value (v * 256 + unat b) bs < Suc v * 256 * 256 ^ length bs"
    using Cons.IH [of "v * 256 + unat b"] by (rule less_le_trans [rotated])
  then show ?case by (simp del: mult_Suc add: mult.assoc)
qed simp

lemma varint_len_cases: "varint_len_from_first_byte b \<in> {1, 2, 4, 8}"
proof -
  have "unat (drop_bit 6 b AND 3) \<le> 3"
    by (rule order_trans [OF word_le_nat_alt [THEN iffD1, OF word_and_le1]]) simp
  then have "unat (drop_bit 6 b AND 3) \<in> {0, 1, 2, 3}" by auto
  then show ?thesis by (auto simp: varint_len_from_first_byte_def)
qed

lemma read_varint_bounds:
  assumes "read_varint d = Inr (v, n)"
  shows "1 \<le> n" "n \<le> length d" "v \<le> MAX_VARINT"
proof -
  have n: "n = varint_len_from_first_byte (d ! 0)" "n \<le> length d" "d \<noteq> []"
    and v: "v = be_value (unat (d ! 0 AND 0x3F)) (take (n - 1) (drop 1 d))"
    using assms by (auto simp: read_varint_def Let_def split: if_splits)
  have "unat (d ! 0 AND 0x3F) \<le> 63"
    by (rule order_trans [OF word_le_nat_alt [THEN iffD1, OF word_and_le1]]) simp
  then have "Suc (unat (d ! 0 AND 0x3F)) * 256 ^ (n - 1) \<le> 64 * 256 ^ (n - 1)" by (intro mult_le_mono1) simp
  moreover have "v < Suc (unat (d ! 0 AND 0x3F)) * 256 ^ (n - 1)"
    using be_value_less [of "unat (d ! 0 AND 0x3F)" "take (n - 1) (drop 1 d)"] n(2) unfolding v by simp
  ultimately have "v < 64 * 256 ^ (n - 1)" by (rule less_le_trans [rotated])
  moreover have "n \<in> {1, 2, 4, 8}" using varint_len_cases n(1) by simp
  ultimately show "1 \<le> n" "n \<le> length d" "v \<le> MAX_VARINT" using n(2) by (auto simp: MAX_VARINT_def)
qed

text \<open>variable-length integers round trip: whatever value \<open>write_varint\<close> encodes, \<open>read_varint\<close> reads back from the front of any
  buffer that starts with the encoding, consuming exactly those bytes; a value is refused for its size exactly above \<open>MAX_VARINT\<close>,
  and 8 bytes of room suffice for every other.
\<close>

theorem varint_roundtrip:
  "(write_varint v room = Inr bs \<longrightarrow> read_varint (bs @ rest) = Inr (v, length bs) \<and> length bs \<le> room)
   \<and> (8 \<le> room \<longrightarrow> (\<exists>bs. write_varint v room = Inr bs) = (v \<le> MAX_VARINT))"
proof (intro conjI impI)
  assume "8 \<le> room"
  then show "(\<exists>bs. write_varint v room = Inr bs) = (v \<le> MAX_VARINT)"
    by (simp add: write_varint_def Let_def)
qed (auto simp: read_written elim!: write_varint_cases)

theorem varint_roundtrip_witness: "read_varint ([0x7B, 0xBD] @ [0xFF]) = Inr (15293, 2)"
  using varint_roundtrip [of 15293 2 "[0x7B, 0xBD]" "[0xFF]"] by (simp add: write_varint_def be_octets_def MAX_VARINT_def upt_rec)

section \<open>Packet numbers round trip\<close>

lemma significant_bits_bound: "n < 2 ^ significant_bits n"
proof (induction n rule: significant_bits.induct)
  case (1 n)
  then show ?case by (subst significant_bits.simps) auto
qed

text \<open>The candidate of the decoder: the block of the expected number, with the low bits received.\<close>

lemma unat_shiftl_small:
  fixes e :: u64
  assumes "unat e div 2 ^ n * 2 ^ n < 2 ^ 64"
  shows "unat (push_bit n (drop_bit n e)) = unat e div 2 ^ n * 2 ^ n"
proof -
  have "unat (drop_bit n e) = unat e div 2 ^ n" unfolding unat_drop_bit_eq by (rule drop_bit_eq_div)
  moreover have "unat (push_bit n w) = unat w * 2 ^ n mod 2 ^ 64" for w :: u64
    unfolding unsigned_push_bit_eq by (simp add: push_bit_eq_mult take_bit_eq_mod)
  ultimately show ?thesis using assms by simp
qed

lemma candidate_unat:
  fixes e t :: u64
  assumes "n < 64" "unat t < 2 ^ n"
  shows "unat ((e AND NOT (push_bit n 1 - 1)) OR t) = unat e div 2 ^ n * 2 ^ n + unat t"
proof -
  let ?a = "push_bit n (drop_bit n e)"
  have t: "take_bit n t = t" by (rule take_bit_small) (rule assms(2))
  have m: "push_bit n 1 - 1 = (mask n :: u64)" by (simp add: mask_eq_exp_minus_1 push_bit_eq_mult)
  have a: "e AND NOT (mask n) = ?a" by (rule bit_word_eqI) (auto simp: bit_simps)
  have "?a AND take_bit n t = 0" by (rule bit_word_eqI) (auto simp: bit_simps)
  then have o: "?a OR t = ?a + t" by (simp add: t disjunctive_add_eq_or)
  have "unat e < 2 ^ LENGTH(64)" by (rule unsigned_less)
  then have "unat e div 2 ^ n < 2 ^ (64 - n)"
    using assms(1) by (simp add: less_mult_imp_div_less power_add [symmetric])
  then have "unat e div 2 ^ n * 2 ^ n + unat t < Suc (unat e div 2 ^ n) * 2 ^ n" "Suc (unat e div 2 ^ n) * 2 ^ n \<le> 2 ^ (64 - n) * 2 ^ n"
    using assms(2) by (simp_all del: mult_Suc) simp
  then have lim: "unat e div 2 ^ n * 2 ^ n + unat t < 2 ^ 64" using assms(1) by (simp add: power_add [symmetric])
  have "unat ?a = unat e div 2 ^ n * 2 ^ n"
    using lim by (simp add: unat_shiftl_small)
  then show ?thesis unfolding m a o using lim by (simp add: unat_word_ariths)
qed

text \<open>The decoder on numbers: with no wrap-around it picks the number congruent to the received bits nearest to the expected one.\<close>

lemma nearest_congruent:
  fixes e pn W H :: nat
  assumes "W = 2 * H" "0 < H" "e < pn + H" "pn \<le> e + H" "pn < L"
  defines "c \<equiv> e div W * W + pn mod W"
  shows "(if c + H \<le> e \<and> c < L - W then c + W else if c > e + H \<and> c \<ge> W then c - W else c) = pn"
proof -
  define q k where "q = e div W" and "k = pn div W"
  have W: "0 < W" using assms by simp
  have e: "q * W \<le> e" "e < q * W + W" and p: "pn = k * W + pn mod W" "pn mod W < W" and c: "c = q * W + pn mod W"
    using W dividend_less_div_times [OF W, of e] by (simp_all add: q_def k_def c_def)
  have "k * W \<le> pn" "pn < k * W + W" using p by linarith+
  then have "k * W < Suc (Suc q) * W" "q * W < Suc (Suc k) * W" using assms(1-4) e by simp_all
  then have "k < Suc (Suc q)" "q < Suc (Suc k)" by (simp_all only: mult_less_cancel2)
  then consider "k = q" | "k = Suc q" | "q = Suc k" by linarith
  then show ?thesis
  proof cases
    case 1
    then show ?thesis using assms(1-5) c p by simp
  next
    case 2
    then have "pn = c + W" using c p by simp
    then show ?thesis using assms(1-5) by simp
  next
    case 3
    then have "c = pn + W" using c p by simp
    then show ?thesis using assms(1-5) by simp
  qed
qed

lemma decode_nearest:
  assumes len: "len \<in> {1, 2, 3, 4}"
    and near: "Suc (unat r) < unat pn + 2 ^ (8 * len - 1)" "unat pn \<le> Suc (unat r) + 2 ^ (8 * len - 1)"
    and range: "unat pn < 2 ^ 62" "unat r < 2 ^ 62"
  shows "decode_packet_number r (of_nat (unat pn mod 2 ^ (8 * len))) len = pn"
proof -
  define n where "n = len * 8"
  define t :: u64 where "t = of_nat (unat pn mod 2 ^ n)"
  define c where "c = ((r + 1) AND NOT (push_bit n 1 - 1)) OR t"
  define W H :: nat where "W = 2 ^ n" and "H = 2 ^ (n - 1)"
  have n: "n \<in> {8, 16, 24, 32}" using len by (auto simp: n_def)
  then have WH: "W = 2 * H" "0 < H" "W \<le> 2 ^ 32" by (auto simp: W_def H_def)
  have e: "unat (r + 1) = Suc (unat r)" using range by (simp add: unat_word_ariths)
  have t: "unat t = unat pn mod W" using n by (auto simp: t_def W_def unat_of_nat)
  have c: "unat c = Suc (unat r) div W * W + unat pn mod W"
    unfolding c_def using n t by (subst candidate_unat) (auto simp: e W_def)
  have w: "unat (push_bit n 1 :: u64) = W" "unat (push_bit n 1 div 2 :: u64) = H" "unat (push_bit 62 1 - push_bit n 1 :: u64) = 2 ^ 62 - W"
    using n by (auto simp: W_def H_def unat_div)
  have "Suc (unat r) div W * W \<le> Suc (unat r)" "unat pn mod W < W" using WH(1,2) by simp_all
  then have "unat c < Suc (unat r) + W" unfolding c by linarith
  then have cl: "unat c < 2 ^ 62 + 2 ^ 33" using range WH(3) by simp
  have s: "unat (c + push_bit n 1 div 2) = unat c + H" "unat (r + 1 + push_bit n 1 div 2) = Suc (unat r) + H"
    "unat (c + push_bit n 1) = unat c + W" "W \<le> unat c \<Longrightarrow> unat (c - push_bit n 1) = unat c - W"
    using cl range WH e w by (simp_all add: unat_word_ariths unat_sub_if' del: push_bit_of_1)
  have "unat (decode_packet_number r t len) =
      (if unat c + H \<le> Suc (unat r) \<and> unat c < 2 ^ 62 - W then unat c + W
       else if unat c > Suc (unat r) + H \<and> unat c \<ge> W then unat c - W else unat c)"
    unfolding decode_packet_number_def Let_def n_def [symmetric] c_def [symmetric] word_le_nat_alt word_less_nat_alt
    using s e w by (simp del: push_bit_of_1)
  also have "\<dots> = unat pn"
    unfolding c by (rule nearest_congruent) (use near range WH in \<open>simp_all add: H_def n_def mult.commute\<close>)
  finally show ?thesis by (simp add: word_unat_eq_iff t_def n_def mult.commute)
qed

lemma packet_number_len_bound: "packet_number_len pn la \<in> {1, 2, 3, 4}"
  by (simp add: packet_number_len_def Let_def)

lemma packet_number_len_covers:
  "packet_number_len pn (Some l) = 4 \<or> unat pn \<le> unat l + 2 ^ (8 * packet_number_len pn (Some l) - 1)"
proof -
  define u where "u = max (unat pn - unat l) 1"
  define f where "f = sat_mul64 u 2 - 1"
  have len: "packet_number_len pn (Some l) =
      (if significant_bits f \<le> 8 then 1 else if significant_bits f \<le> 16 then 2 else if significant_bits f \<le> 24 then 3 else 4)"
    by (simp add: packet_number_len_def f_def u_def Let_def)
  have f: "f < 2 ^ k" if "significant_bits f \<le> k" for k
    using significant_bits_bound [of f] by (rule less_le_trans) (simp add: that)
  have "u \<le> 2 ^ (k - 1)" if "f < 2 ^ k" "k \<in> {8, 16, 24}" for k
    using that by (auto simp: f_def sat_mul64_def)
  with f have "u \<le> 2 ^ (k - 1)" if "significant_bits f \<le> k" "k \<in> {8, 16, 24}" for k using that by blast
  from this [of 8] this [of 16] this [of 24] show ?thesis by (auto simp: len u_def le_diff_conv)
qed

lemma encoded_packet_number:
  assumes "encode_packet_number pn la room = Inr bs"
  shows "length bs = packet_number_len pn la" "be_value 0 bs = unat pn mod 2 ^ (8 * packet_number_len pn la)"
proof -
  define len where "len = packet_number_len pn la"
  have l: "len \<in> {1, 2, 3, 4}" by (simp only: len_def packet_number_len_bound)
  have bs: "bs = be_octets len (unat (ucast pn AND (if len = 4 then - 1 else push_bit (len * 8) 1 - 1) :: u32))"
    using assms by (auto simp: encode_packet_number_def Let_def len_def split: if_splits)
  have m: "unat (ucast pn AND mask k :: u32) = unat pn mod 2 ^ 32 mod 2 ^ k" for k
    unfolding take_bit_eq_mask [symmetric] unsigned_take_bit_eq unsigned_ucast_eq by (simp add: take_bit_eq_mod)
  have "(if len = 4 then - 1 else push_bit (len * 8) 1 - 1 :: u32) = mask (len * 8)"
    using l by (auto simp: mask_eq_exp_minus_1)
  then have "be_value 0 bs = unat pn mod 2 ^ 32 mod 2 ^ (len * 8)"
    using l m unfolding bs by (auto simp: be_value_octets)
  then show "be_value 0 bs = unat pn mod 2 ^ (8 * packet_number_len pn la)"
    using l by (auto simp: len_def [symmetric] mod_mod_cancel)
  show "length bs = packet_number_len pn la" by (simp add: bs len_def)
qed

text \<open>C40: packet numbers round trip: the bytes \<open>encode_packet_number\<close> chooses for \<open>pn\<close> decode to \<open>pn\<close> at every receiver whose largest
  number \<open>r\<close> is at or beyond the acknowledged one the sender knows of, as long as the two are within half the window of the chosen length
  (a receiver that runs ahead of \<open>pn\<close>) and \<open>2 ^ 31\<close> packets (one that lags behind it).
\<close>

theorem packet_number_roundtrip:
  assumes "encode_packet_number pn la room = Inr bs"
    and "\<And>l. la = Some l \<Longrightarrow> l \<le> r"
    and "unat pn \<le> unat r + 2 ^ 31" "Suc (unat r) < unat pn + 2 ^ (8 * length bs - 1)"
    and "unat pn < 2 ^ 62" "unat r < 2 ^ 62"
  shows "decode_packet_number r (of_nat (be_value 0 bs)) (length bs) = pn"
proof -
  have "unat pn \<le> unat r + 2 ^ (8 * packet_number_len pn la - 1)"
  proof (cases la)
    case None
    then show ?thesis using assms(3) by (simp add: packet_number_len_def)
  next
    case (Some l)
    then have l: "unat l \<le> unat r" using assms(2) by (simp add: word_le_nat_alt)
    show ?thesis using packet_number_len_covers [of pn l] l assms(3) by (auto simp: Some)
  qed
  then show ?thesis
    using decode_nearest [OF packet_number_len_bound, of r pn] assms encoded_packet_number [OF assms(1)] by simp
qed

theorem packet_number_roundtrip_witness: "decode_packet_number 0xA82F30EA (of_nat (be_value 0 [0x9B, 0x32])) (length [0x9B, 0x32 :: u8]) = 0xA82F9B32"
  using packet_number_roundtrip [of "0xA82F9B32" "Some 0xA82F30EA" 4 "[0x9B, 0x32]" "0xA82F30EA"]
  by (simp add: encode_packet_number_def packet_number_len_def be_octets_def upt_rec significant_bits.simps sat_mul64_def Let_def)

end
