(* ===== verification/Quic_Frame.thy ===== *)
theory Quic_Frame
  imports Quic_Wire
begin

text \<open>
  The frames of QUIC, \<open>crates/proto/quic/src/frame.rs\<close>: the parser of one frame from the front of a decrypted payload, the iterator over the
  ranges of an ACK frame, and the writers.

  A parser reads its fields one after the other at a running position of the body; \<open>varint_at\<close> is the source's
  \<open>let (v, n) = read_varint(&body[p..])?; p += n\<close>. A writer keeps the bytes it has left in the front of the output so far;
  \<open>put_varint\<close> and \<open>put_bytes\<close> append to them as long as there is room.
\<close>

section \<open>Frame types and errors\<close>

definition FT_PADDING :: u8 where "FT_PADDING = 0x00"
definition FT_PING :: u8 where "FT_PING = 0x01"
definition FT_ACK :: u8 where "FT_ACK = 0x02"
definition FT_ACK_ECN :: u8 where "FT_ACK_ECN = 0x03"
definition FT_RESET_STREAM :: u8 where "FT_RESET_STREAM = 0x04"
definition FT_STOP_SENDING :: u8 where "FT_STOP_SENDING = 0x05"
definition FT_CRYPTO :: u8 where "FT_CRYPTO = 0x06"
definition FT_STREAM_BASE :: u8 where "FT_STREAM_BASE = 0x08"
definition FT_STREAM_FLAG_FIN :: u8 where "FT_STREAM_FLAG_FIN = 0x01"
definition FT_STREAM_FLAG_LEN :: u8 where "FT_STREAM_FLAG_LEN = 0x02"
definition FT_STREAM_FLAG_OFF :: u8 where "FT_STREAM_FLAG_OFF = 0x04"
definition FT_STREAM_MAX :: u8 where "FT_STREAM_MAX = 0x0F"
definition FT_NEW_TOKEN :: u8 where "FT_NEW_TOKEN = 0x07"
definition FT_MAX_DATA :: u8 where "FT_MAX_DATA = 0x10"
definition FT_MAX_STREAM_DATA :: u8 where "FT_MAX_STREAM_DATA = 0x11"
definition FT_MAX_STREAMS_BIDI :: u8 where "FT_MAX_STREAMS_BIDI = 0x12"
definition FT_MAX_STREAMS_UNI :: u8 where "FT_MAX_STREAMS_UNI = 0x13"
definition FT_DATA_BLOCKED :: u8 where "FT_DATA_BLOCKED = 0x14"
definition FT_STREAM_DATA_BLOCKED :: u8 where "FT_STREAM_DATA_BLOCKED = 0x15"
definition FT_STREAMS_BLOCKED_BIDI :: u8 where "FT_STREAMS_BLOCKED_BIDI = 0x16"
definition FT_STREAMS_BLOCKED_UNI :: u8 where "FT_STREAMS_BLOCKED_UNI = 0x17"
definition FT_NEW_CONNECTION_ID :: u8 where "FT_NEW_CONNECTION_ID = 0x18"
definition FT_RETIRE_CONNECTION_ID :: u8 where "FT_RETIRE_CONNECTION_ID = 0x19"
definition FT_PATH_CHALLENGE :: u8 where "FT_PATH_CHALLENGE = 0x1A"
definition FT_PATH_RESPONSE :: u8 where "FT_PATH_RESPONSE = 0x1B"
definition FT_CONNECTION_CLOSE_TRANSPORT :: u8 where "FT_CONNECTION_CLOSE_TRANSPORT = 0x1C"
definition FT_CONNECTION_CLOSE_APPLICATION :: u8 where "FT_CONNECTION_CLOSE_APPLICATION = 0x1D"
definition FT_HANDSHAKE_DONE :: u8 where "FT_HANDSHAKE_DONE = 0x1E"

lemmas ftype_defs =
  FT_PADDING_def FT_PING_def FT_ACK_def FT_ACK_ECN_def FT_RESET_STREAM_def FT_STOP_SENDING_def FT_CRYPTO_def FT_STREAM_BASE_def
  FT_STREAM_FLAG_FIN_def FT_STREAM_FLAG_LEN_def FT_STREAM_FLAG_OFF_def FT_STREAM_MAX_def FT_NEW_TOKEN_def FT_MAX_DATA_def
  FT_MAX_STREAM_DATA_def FT_MAX_STREAMS_BIDI_def FT_MAX_STREAMS_UNI_def FT_DATA_BLOCKED_def FT_STREAM_DATA_BLOCKED_def
  FT_STREAMS_BLOCKED_BIDI_def FT_STREAMS_BLOCKED_UNI_def FT_NEW_CONNECTION_ID_def FT_RETIRE_CONNECTION_ID_def
  FT_PATH_CHALLENGE_def FT_PATH_RESPONSE_def FT_CONNECTION_CLOSE_TRANSPORT_def FT_CONNECTION_CLOSE_APPLICATION_def FT_HANDSHAKE_DONE_def

datatype FrameError = FTruncated | FBadLength | FUnknownFrameType u8 | FBadAckRanges | FOutputTooSmall

definition frame_error :: "WireError \<Rightarrow> FrameError" where
  "frame_error e = (case e of WTruncated \<Rightarrow> FTruncated | WBadLength \<Rightarrow> FBadLength | WOutputTooSmall \<Rightarrow> FOutputTooSmall | _ \<Rightarrow> FBadLength)"

section \<open>Frames\<close>

record EcnCounts =
  ect0 :: nat
  ect1 :: nat
  ce :: nat

record AckRanges =
  ar_bytes :: bytes
  ar_count :: nat

datatype Frame =
    Padding
  | Ping
  | Ack (largest_acknowledged: nat) (ack_delay: nat) (first_ack_range: nat) (ack_ranges: AckRanges) (ecn: "EcnCounts option")
  | Crypto (crypto_offset: nat) (crypto_data: bytes)
  | Stream (stream_id: nat) (stream_offset: nat) (stream_data: bytes) (stream_fin: bool)
  | ConnectionCloseTransport nat nat bytes
  | ConnectionCloseApplication nat bytes
  | HandshakeDone
  | PathChallenge bytes
  | MaxData nat
  | MaxStreamData nat nat
  | ResetStream nat nat nat
  | StopSending nat nat
  | Skipped u8

text \<open>The iterator over the ranges: \<open>next\<close>, and all that a loop over it sees.\<close>

definition ack_ranges_next :: "AckRanges \<Rightarrow> ((nat \<times> nat) \<times> AckRanges) option" where
  "ack_ranges_next r =
     (if ar_count r = 0 then None
      else case read_varint (ar_bytes r) of Inl _ \<Rightarrow> None
      | Inr (gap, n) \<Rightarrow> (case read_varint (drop n (ar_bytes r)) of Inl _ \<Rightarrow> None
        | Inr (len, m) \<Rightarrow> Some ((gap, len), r\<lparr>ar_bytes := drop (n + m) (ar_bytes r), ar_count := ar_count r - 1\<rparr>)))"

lemma ack_ranges_next_count: "ack_ranges_next r = Some (x, r') \<Longrightarrow> ar_count r' < ar_count r"
  by (auto simp: ack_ranges_next_def split: if_splits sum.splits prod.splits)

function ack_ranges_list :: "AckRanges \<Rightarrow> (nat \<times> nat) list" where
  "ack_ranges_list r = (case ack_ranges_next r of None \<Rightarrow> [] | Some (x, r') \<Rightarrow> x # ack_ranges_list r')"
  by pat_completeness auto
termination by (relation "measure ar_count") (auto simp: ack_ranges_next_count)

declare ack_ranges_list.simps [simp del]

section \<open>Parsing\<close>

definition varint_at :: "bytes \<Rightarrow> nat \<Rightarrow> FrameError + nat \<times> nat" where
  "varint_at body p = and_then (map_err frame_error (read_varint (drop p body))) (\<lambda>(v, n). Inr (v, p + n))"

definition parse_max_data :: "bytes \<Rightarrow> nat \<Rightarrow> FrameError + Frame \<times> nat" where
  "parse_max_data body header = and_then (varint_at body 0) (\<lambda>(maximum, p). Inr (MaxData maximum, header + p))"

definition parse_max_stream_data :: "bytes \<Rightarrow> nat \<Rightarrow> FrameError + Frame \<times> nat" where
  "parse_max_stream_data body header =
     and_then (varint_at body 0) (\<lambda>(stream_id, p).
     and_then (varint_at body p) (\<lambda>(maximum, p).
     Inr (MaxStreamData stream_id maximum, header + p)))"

definition parse_reset_stream :: "bytes \<Rightarrow> nat \<Rightarrow> FrameError + Frame \<times> nat" where
  "parse_reset_stream body header =
     and_then (varint_at body 0) (\<lambda>(stream_id, p).
     and_then (varint_at body p) (\<lambda>(app_error_code, p).
     and_then (varint_at body p) (\<lambda>(final_size, p).
     Inr (ResetStream stream_id app_error_code final_size, header + p))))"

definition parse_stop_sending :: "bytes \<Rightarrow> nat \<Rightarrow> FrameError + Frame \<times> nat" where
  "parse_stop_sending body header =
     and_then (varint_at body 0) (\<lambda>(stream_id, p).
     and_then (varint_at body p) (\<lambda>(app_error_code, p).
     Inr (StopSending stream_id app_error_code, header + p)))"

definition skip_one_varint :: "bytes \<Rightarrow> u8 \<Rightarrow> nat \<Rightarrow> FrameError + Frame \<times> nat" where
  "skip_one_varint body kind header = and_then (varint_at body 0) (\<lambda>(_, p). Inr (Skipped kind, header + p))"

definition skip_two_varints :: "bytes \<Rightarrow> u8 \<Rightarrow> nat \<Rightarrow> FrameError + Frame \<times> nat" where
  "skip_two_varints body kind header =
     and_then (varint_at body 0) (\<lambda>(_, p). and_then (varint_at body p) (\<lambda>(_, p). Inr (Skipped kind, header + p)))"

definition skip_var_len_field :: "bytes \<Rightarrow> u8 \<Rightarrow> nat \<Rightarrow> FrameError + Frame \<times> nat" where
  "skip_var_len_field body kind header =
     and_then (varint_at body 0) (\<lambda>(token_len, p).
       if token_len > length body - p then Inl FBadLength else Inr (Skipped kind, header + p + token_len))"

definition skip_new_connection_id :: "bytes \<Rightarrow> u8 \<Rightarrow> nat \<Rightarrow> FrameError + Frame \<times> nat" where
  "skip_new_connection_id body kind header =
     and_then (varint_at body 0) (\<lambda>(_, p).
     and_then (varint_at body p) (\<lambda>(_, after_varints).
       if after_varints + 1 > length body then Inl FBadLength
       else let total_after_header = after_varints + 1 + unat (body ! after_varints) + 16
            in if total_after_header > length body then Inl FBadLength else Inr (Skipped kind, header + total_after_header)))"

definition skip_fixed :: "bytes \<Rightarrow> u8 \<Rightarrow> nat \<Rightarrow> nat \<Rightarrow> FrameError + Frame \<times> nat" where
  "skip_fixed body kind n header = (if length body < n then Inl FTruncated else Inr (Skipped kind, header + n))"

definition parse_path_challenge :: "bytes \<Rightarrow> nat \<Rightarrow> FrameError + Frame \<times> nat" where
  "parse_path_challenge body header = (if length body < 8 then Inl FTruncated else Inr (PathChallenge (take 8 body), header + 8))"

text \<open>The loop that walks over the declared number of ranges.\<close>

primrec skip_ranges :: "bytes \<Rightarrow> nat \<Rightarrow> nat \<Rightarrow> FrameError + nat" where
  "skip_ranges body 0 p = Inr p"
| "skip_ranges body (Suc count) p =
     and_then (varint_at body p) (\<lambda>(_, p). and_then (varint_at body p) (\<lambda>(_, p). skip_ranges body count p))"

definition parse_ecn :: "bytes \<Rightarrow> bool \<Rightarrow> nat \<Rightarrow> FrameError + EcnCounts option \<times> nat" where
  "parse_ecn body is_ecn p =
     (if is_ecn
      then and_then (varint_at body p) (\<lambda>(a, p). and_then (varint_at body p) (\<lambda>(b, p). and_then (varint_at body p) (\<lambda>(c, p).
             Inr (Some \<lparr>ect0 = a, ect1 = b, ce = c\<rparr>, p))))
      else Inr (None, p))"

definition parse_ack :: "bytes \<Rightarrow> bool \<Rightarrow> nat \<Rightarrow> FrameError + Frame \<times> nat" where
  "parse_ack body is_ecn header =
     and_then (varint_at body 0) (\<lambda>(largest, p).
     and_then (varint_at body p) (\<lambda>(delay, p).
     and_then (varint_at body p) (\<lambda>(range_count, p).
     and_then (varint_at body p) (\<lambda>(first_range, ranges_start).
     and_then (skip_ranges body range_count ranges_start) (\<lambda>p.
     let ranges = \<lparr>ar_bytes = take (p - ranges_start) (drop ranges_start body), ar_count = range_count\<rparr>
     in and_then (parse_ecn body is_ecn p) (\<lambda>(ecn, p).
     Inr (Ack largest delay first_range ranges ecn, header + p)))))))"

definition parse_crypto :: "bytes \<Rightarrow> nat \<Rightarrow> FrameError + Frame \<times> nat" where
  "parse_crypto body header =
     and_then (varint_at body 0) (\<lambda>(off, p).
     and_then (varint_at body p) (\<lambda>(len, p).
       if len > length body - p then Inl FTruncated else Inr (Crypto off (take len (drop p body)), header + (p + len))))"

definition parse_stream :: "bytes \<Rightarrow> u8 \<Rightarrow> nat \<Rightarrow> FrameError + Frame \<times> nat" where
  "parse_stream body type_byte header =
     (let has_off = (type_byte AND FT_STREAM_FLAG_OFF \<noteq> 0);
          has_len = (type_byte AND FT_STREAM_FLAG_LEN \<noteq> 0);
          fin = (type_byte AND FT_STREAM_FLAG_FIN \<noteq> 0)
      in and_then (varint_at body 0) (\<lambda>(stream_id, p).
         and_then (if has_off then varint_at body p else Inr (0, p)) (\<lambda>(off, p).
         and_then (if has_len
                   then and_then (varint_at body p) (\<lambda>(len, p).
                          if len > length body - p then Inl FTruncated else Inr (take len (drop p body), len, p))
                   else Inr (drop p body, length body - p, p)) (\<lambda>(data, len_consumed, p).
         Inr (Stream stream_id off data fin, header + (p + len_consumed))))))"

definition parse_close_transport :: "bytes \<Rightarrow> nat \<Rightarrow> FrameError + Frame \<times> nat" where
  "parse_close_transport body header =
     and_then (varint_at body 0) (\<lambda>(error_code, p).
     and_then (varint_at body p) (\<lambda>(frame_type, p).
     and_then (varint_at body p) (\<lambda>(reason_len, p).
       if reason_len > length body - p then Inl FTruncated
       else Inr (ConnectionCloseTransport error_code frame_type (take reason_len (drop p body)), header + (p + reason_len)))))"

definition parse_close_application :: "bytes \<Rightarrow> nat \<Rightarrow> FrameError + Frame \<times> nat" where
  "parse_close_application body header =
     and_then (varint_at body 0) (\<lambda>(error_code, p).
     and_then (varint_at body p) (\<lambda>(reason_len, p).
       if reason_len > length body - p then Inl FTruncated
       else Inr (ConnectionCloseApplication error_code (take reason_len (drop p body)), header + (p + reason_len))))"

definition parse_frame :: "bytes \<Rightarrow> FrameError + Frame \<times> nat" where
  "parse_frame data =
     (if data = [] then Inl FTruncated
      else let t = data ! 0; rest = drop 1 data
      in if t = FT_PADDING then Inr (Padding, 1)
      else if t = FT_PING then Inr (Ping, 1)
      else if t = FT_ACK \<or> t = FT_ACK_ECN then parse_ack rest (t = FT_ACK_ECN) 1
      else if t = FT_CRYPTO then parse_crypto rest 1
      else if FT_STREAM_BASE \<le> t \<and> t \<le> FT_STREAM_MAX then parse_stream rest t 1
      else if t = FT_CONNECTION_CLOSE_TRANSPORT then parse_close_transport rest 1
      else if t = FT_CONNECTION_CLOSE_APPLICATION then parse_close_application rest 1
      else if t = FT_HANDSHAKE_DONE then Inr (HandshakeDone, 1)
      else if t = FT_NEW_TOKEN then skip_var_len_field rest t 1
      else if t = FT_RESET_STREAM then parse_reset_stream rest 1
      else if t = FT_STOP_SENDING then parse_stop_sending rest 1
      else if t = FT_MAX_DATA then parse_max_data rest 1
      else if t = FT_MAX_STREAM_DATA then parse_max_stream_data rest 1
      else if t = FT_MAX_STREAMS_BIDI \<or> t = FT_MAX_STREAMS_UNI \<or> t = FT_DATA_BLOCKED \<or> t = FT_STREAMS_BLOCKED_BIDI
          \<or> t = FT_STREAMS_BLOCKED_UNI \<or> t = FT_RETIRE_CONNECTION_ID then skip_one_varint rest t 1
      else if t = FT_STREAM_DATA_BLOCKED then skip_two_varints rest t 1
      else if t = FT_NEW_CONNECTION_ID then skip_new_connection_id rest t 1
      else if t = FT_PATH_CHALLENGE then parse_path_challenge rest 1
      else if t = FT_PATH_RESPONSE then skip_fixed rest t 8 1
      else Inl (FUnknownFrameType t))"

section \<open>Writing\<close>

definition start_frame :: "u8 \<Rightarrow> nat \<Rightarrow> FrameError + bytes" where
  "start_frame t room = (if room = 0 then Inl FOutputTooSmall else Inr [t])"

definition put_varint :: "nat \<Rightarrow> nat \<Rightarrow> bytes \<Rightarrow> FrameError + bytes" where
  "put_varint room v out = and_then (map_err frame_error (write_varint v (room - length out))) (\<lambda>bs. Inr (out @ bs))"

definition put_bytes :: "nat \<Rightarrow> bytes \<Rightarrow> bytes \<Rightarrow> FrameError + bytes" where
  "put_bytes room data out = (if room - length out < length data then Inl FOutputTooSmall else Inr (out @ data))"

definition write_crypto :: "nat \<Rightarrow> bytes \<Rightarrow> nat \<Rightarrow> FrameError + bytes" where
  "write_crypto off data room =
     and_then (start_frame FT_CRYPTO room) (\<lambda>out. and_then (put_varint room off out) (\<lambda>out.
     and_then (put_varint room (length data) out) (put_bytes room data)))"

definition stream_type_byte :: "bool \<Rightarrow> u8" where
  "stream_type_byte fin =
     (let t = FT_STREAM_BASE OR FT_STREAM_FLAG_OFF OR FT_STREAM_FLAG_LEN in if fin then t OR FT_STREAM_FLAG_FIN else t)"

definition write_stream :: "nat \<Rightarrow> nat \<Rightarrow> bool \<Rightarrow> bytes \<Rightarrow> nat \<Rightarrow> FrameError + bytes" where
  "write_stream sid off fin data room =
     and_then (start_frame (stream_type_byte fin) room) (\<lambda>out. and_then (put_varint room sid out) (\<lambda>out.
     and_then (put_varint room off out) (\<lambda>out. and_then (put_varint room (length data) out) (put_bytes room data))))"

text \<open>The header is appended to a vector through an 8-byte scratch buffer.\<close>

definition append_stream_header :: "nat \<Rightarrow> nat \<Rightarrow> bool \<Rightarrow> nat \<Rightarrow> bytes \<Rightarrow> FrameError + bytes" where
  "append_stream_header sid off fin body_len out =
     (let out = out @ [stream_type_byte fin]
      in and_then (map_err frame_error (write_varint sid 8)) (\<lambda>a.
         and_then (map_err frame_error (write_varint off 8)) (\<lambda>b.
         and_then (map_err frame_error (write_varint body_len 8)) (\<lambda>c. Inr (out @ a @ b @ c)))))"

primrec put_ranges :: "nat \<Rightarrow> (nat \<times> nat) list \<Rightarrow> bytes \<Rightarrow> FrameError + bytes" where
  "put_ranges room [] out = Inr out"
| "put_ranges room (r # rs) out =
     and_then (put_varint room (fst r) out) (\<lambda>out. and_then (put_varint room (snd r) out) (put_ranges room rs))"

definition write_ack :: "nat \<Rightarrow> nat \<Rightarrow> nat \<Rightarrow> (nat \<times> nat) list \<Rightarrow> nat \<Rightarrow> FrameError + bytes" where
  "write_ack largest delay first_range additional_ranges room =
     and_then (start_frame FT_ACK room) (\<lambda>out. and_then (put_varint room largest out) (\<lambda>out.
     and_then (put_varint room delay out) (\<lambda>out. and_then (put_varint room (length additional_ranges) out) (\<lambda>out.
     and_then (put_varint room first_range out) (put_ranges room additional_ranges)))))"

definition write_close_transport :: "nat \<Rightarrow> nat \<Rightarrow> bytes \<Rightarrow> nat \<Rightarrow> FrameError + bytes" where
  "write_close_transport error_code frame_type reason room =
     and_then (start_frame FT_CONNECTION_CLOSE_TRANSPORT room) (\<lambda>out. and_then (put_varint room error_code out) (\<lambda>out.
     and_then (put_varint room frame_type out) (\<lambda>out. and_then (put_varint room (length reason) out) (put_bytes room reason))))"

definition write_padding :: "nat \<Rightarrow> FrameError + bytes" where
  "write_padding room = start_frame FT_PADDING room"

definition write_ping :: "nat \<Rightarrow> FrameError + bytes" where
  "write_ping room = start_frame FT_PING room"

definition write_handshake_done :: "nat \<Rightarrow> FrameError + bytes" where
  "write_handshake_done room = start_frame FT_HANDSHAKE_DONE room"

definition write_max_streams_bidi :: "nat \<Rightarrow> nat \<Rightarrow> FrameError + bytes" where
  "write_max_streams_bidi max_streams room = and_then (start_frame FT_MAX_STREAMS_BIDI room) (put_varint room max_streams)"

definition write_max_streams_uni :: "nat \<Rightarrow> nat \<Rightarrow> FrameError + bytes" where
  "write_max_streams_uni max_streams room = and_then (start_frame FT_MAX_STREAMS_UNI room) (put_varint room max_streams)"

definition write_max_data :: "nat \<Rightarrow> nat \<Rightarrow> FrameError + bytes" where
  "write_max_data m room = and_then (start_frame FT_MAX_DATA room) (put_varint room m)"

definition write_reset_stream :: "nat \<Rightarrow> nat \<Rightarrow> nat \<Rightarrow> nat \<Rightarrow> FrameError + bytes" where
  "write_reset_stream sid code final_size room =
     and_then (start_frame FT_RESET_STREAM room) (\<lambda>out. and_then (put_varint room sid out) (\<lambda>out.
     and_then (put_varint room code out) (put_varint room final_size)))"

definition write_stop_sending :: "nat \<Rightarrow> nat \<Rightarrow> nat \<Rightarrow> FrameError + bytes" where
  "write_stop_sending sid code room =
     and_then (start_frame FT_STOP_SENDING room) (\<lambda>out. and_then (put_varint room sid out) (put_varint room code))"

definition write_max_stream_data :: "nat \<Rightarrow> nat \<Rightarrow> nat \<Rightarrow> FrameError + bytes" where
  "write_max_stream_data sid m room =
     and_then (start_frame FT_MAX_STREAM_DATA room) (\<lambda>out. and_then (put_varint room sid out) (put_varint room m))"

section \<open>What the writers leave\<close>

text \<open>\<open>encodes v bs\<close>: the bytes read back as the value, whatever follows.\<close>

definition encodes :: "nat \<Rightarrow> bytes \<Rightarrow> bool" where
  "encodes v bs \<longleftrightarrow> (\<forall>rest. read_varint (bs @ rest) = Inr (v, length bs))"

lemma varint_at_encoded: "encodes v bs \<Longrightarrow> drop p body = bs @ rest \<Longrightarrow> varint_at body p = Inr (v, p + length bs)"
  by (simp add: varint_at_def encodes_def)

lemma field_0: "encodes v a \<Longrightarrow> varint_at (a @ rest) 0 = Inr (v, length a)"
  by (simp add: varint_at_encoded [where bs = a])

lemma field_1: "encodes v b \<Longrightarrow> varint_at (a @ b @ rest) (length a) = Inr (v, length a + length b)"
  by (simp add: varint_at_encoded [where bs = b])

lemma field_2: "encodes v c \<Longrightarrow> varint_at (a @ b @ c @ rest) (length a + length b) = Inr (v, length a + length b + length c)"
  by (simp add: varint_at_encoded [where bs = c])

lemma field_3: "encodes v d \<Longrightarrow>
    varint_at (a @ b @ c @ d @ rest) (length a + length b + length c) = Inr (v, length a + length b + length c + length d)"
  by (simp add: varint_at_encoded [where bs = d])

lemma write_varint_encodes: "write_varint v room = Inr bs \<Longrightarrow> encodes v bs"
  by (simp add: encodes_def read_written)

lemma put_varint_Inr: "put_varint room v out = Inr out' \<Longrightarrow> \<exists>bs. out' = out @ bs \<and> encodes v bs"
  by (auto simp: put_varint_def and_then_Inr intro: write_varint_encodes)

lemma put_bytes_Inr: "put_bytes room data out = Inr out' \<Longrightarrow> out' = out @ data"
  by (simp add: put_bytes_def split: if_splits)

lemma start_frame_Inr: "start_frame t room = Inr out \<Longrightarrow> out = [t]"
  by (simp add: start_frame_def split: if_splits)

lemma varint_at_bounds: "varint_at body p = Inr (v, q) \<Longrightarrow> p \<le> length body \<Longrightarrow> p < q \<and> q \<le> length body"
  by (force simp: varint_at_def and_then_Inr dest: read_varint_bounds(1,2))

lemmas writer_defs = write_crypto_def write_stream_def write_close_transport_def write_padding_def write_ping_def write_handshake_done_def
  write_max_streams_bidi_def write_max_streams_uni_def write_max_data_def write_reset_stream_def write_stop_sending_def
  write_max_stream_data_def

lemmas writer_dests = put_varint_Inr put_bytes_Inr start_frame_Inr

text \<open>The frame a call of a writer stands for; an append of a header is completed by the body the caller appends.\<close>

inductive written :: "Frame \<Rightarrow> bytes \<Rightarrow> bool" where
  "write_padding room = Inr bs \<Longrightarrow> written Padding bs"
| "write_ping room = Inr bs \<Longrightarrow> written Ping bs"
| "write_handshake_done room = Inr bs \<Longrightarrow> written HandshakeDone bs"
| "write_crypto off data room = Inr bs \<Longrightarrow> written (Crypto off data) bs"
| "write_stream sid off fin data room = Inr bs \<Longrightarrow> written (Stream sid off data fin) bs"
| "append_stream_header sid off fin (length data) [] = Inr bs \<Longrightarrow> written (Stream sid off data fin) (bs @ data)"
| "write_close_transport code ty reason room = Inr bs \<Longrightarrow> written (ConnectionCloseTransport code ty reason) bs"
| "write_max_streams_bidi m room = Inr bs \<Longrightarrow> written (Skipped FT_MAX_STREAMS_BIDI) bs"
| "write_max_streams_uni m room = Inr bs \<Longrightarrow> written (Skipped FT_MAX_STREAMS_UNI) bs"
| "write_max_data m room = Inr bs \<Longrightarrow> written (MaxData m) bs"
| "write_reset_stream sid code final_size room = Inr bs \<Longrightarrow> written (ResetStream sid code final_size) bs"
| "write_stop_sending sid code room = Inr bs \<Longrightarrow> written (StopSending sid code) bs"
| "write_max_stream_data sid m room = Inr bs \<Longrightarrow> written (MaxStreamData sid m) bs"

text \<open>The arm of the match for each type byte the writers use.\<close>

lemma parse_frame_arms:
  "parse_frame (FT_PADDING # body) = Inr (Padding, 1)"
  "parse_frame (FT_PING # body) = Inr (Ping, 1)"
  "parse_frame (FT_ACK # body) = parse_ack body False 1"
  "parse_frame (FT_CRYPTO # body) = parse_crypto body 1"
  "parse_frame (stream_type_byte fin # body) = parse_stream body (stream_type_byte fin) 1"
  "parse_frame (FT_CONNECTION_CLOSE_TRANSPORT # body) = parse_close_transport body 1"
  "parse_frame (FT_HANDSHAKE_DONE # body) = Inr (HandshakeDone, 1)"
  "parse_frame (FT_RESET_STREAM # body) = parse_reset_stream body 1"
  "parse_frame (FT_STOP_SENDING # body) = parse_stop_sending body 1"
  "parse_frame (FT_MAX_DATA # body) = parse_max_data body 1"
  "parse_frame (FT_MAX_STREAM_DATA # body) = parse_max_stream_data body 1"
  "parse_frame (FT_MAX_STREAMS_BIDI # body) = skip_one_varint body FT_MAX_STREAMS_BIDI 1"
  "parse_frame (FT_MAX_STREAMS_UNI # body) = skip_one_varint body FT_MAX_STREAMS_UNI 1"
  by (simp_all add: parse_frame_def stream_type_byte_def ftype_defs)

lemma stream_type_flags:
  "stream_type_byte fin AND FT_STREAM_FLAG_OFF \<noteq> 0" "stream_type_byte fin AND FT_STREAM_FLAG_LEN \<noteq> 0"
  "(stream_type_byte fin AND FT_STREAM_FLAG_FIN \<noteq> 0) = fin"
  by (simp_all add: stream_type_byte_def ftype_defs)

lemma parse_stream_written:
  assumes e: "encodes sid a" "encodes off b" "encodes (length data) c"
  shows "parse_frame (stream_type_byte fin # a @ b @ c @ data @ rest) =
    Inr (Stream sid off data fin, Suc (length a + length b + length c + length data))"
  by (simp add: parse_frame_arms parse_stream_def stream_type_flags field_0 [OF e(1)] field_1 [OF e(2)] field_2 [OF e(3)])

lemma parse_written: "written f bs \<Longrightarrow> parse_frame (bs @ rest) = Inr (f, length bs)"
proof (induction rule: written.induct)
  case (4 off data room bs)
  then obtain a b where e: "encodes off a" "encodes (length data) b" and "bs = FT_CRYPTO # a @ b @ data"
    by (auto simp: writer_defs and_then_Inr dest!: writer_dests)
  then show ?case by (simp add: parse_frame_arms parse_crypto_def field_0 [OF e(1)] field_1 [OF e(2)])
next
  case (5 sid off fin data room bs)
  then obtain a b c where "encodes sid a" "encodes off b" "encodes (length data) c" and "bs = stream_type_byte fin # a @ b @ c @ data"
    by (auto simp: writer_defs and_then_Inr dest!: writer_dests)
  then show ?case by (simp add: parse_stream_written)
next
  case (6 sid off fin data bs)
  then obtain a b c where "encodes sid a" "encodes off b" "encodes (length data) c" and "bs = stream_type_byte fin # a @ b @ c"
    by (auto simp: append_stream_header_def and_then_Inr dest!: write_varint_encodes)
  then show ?case by (simp add: parse_stream_written)
next
  case (7 code ty reason room bs)
  then obtain a b c where e: "encodes code a" "encodes ty b" "encodes (length reason) c"
    and "bs = FT_CONNECTION_CLOSE_TRANSPORT # a @ b @ c @ reason"
    by (auto simp: writer_defs and_then_Inr dest!: writer_dests)
  then show ?case by (simp add: parse_frame_arms parse_close_transport_def field_0 [OF e(1)] field_1 [OF e(2)] field_2 [OF e(3)])
next
  case (8 m room bs)
  then obtain a where e: "encodes m a" and "bs = FT_MAX_STREAMS_BIDI # a"
    by (auto simp: writer_defs and_then_Inr dest!: writer_dests)
  then show ?case by (simp add: parse_frame_arms skip_one_varint_def field_0 [OF e])
next
  case (9 m room bs)
  then obtain a where e: "encodes m a" and "bs = FT_MAX_STREAMS_UNI # a"
    by (auto simp: writer_defs and_then_Inr dest!: writer_dests)
  then show ?case by (simp add: parse_frame_arms skip_one_varint_def field_0 [OF e])
next
  case (10 m room bs)
  then obtain a where e: "encodes m a" and "bs = FT_MAX_DATA # a"
    by (auto simp: writer_defs and_then_Inr dest!: writer_dests)
  then show ?case by (simp add: parse_frame_arms parse_max_data_def field_0 [OF e])
next
  case (11 sid code final_size room bs)
  then obtain a b c where e: "encodes sid a" "encodes code b" "encodes final_size c" and "bs = FT_RESET_STREAM # a @ b @ c"
    by (auto simp: writer_defs and_then_Inr dest!: writer_dests)
  then show ?case by (simp add: parse_frame_arms parse_reset_stream_def field_0 [OF e(1)] field_1 [OF e(2)] field_2 [OF e(3)])
next
  case (12 sid code room bs)
  then obtain a b where e: "encodes sid a" "encodes code b" and "bs = FT_STOP_SENDING # a @ b"
    by (auto simp: writer_defs and_then_Inr dest!: writer_dests)
  then show ?case by (simp add: parse_frame_arms parse_stop_sending_def field_0 [OF e(1)] field_1 [OF e(2)])
next
  case (13 sid m room bs)
  then obtain a b where e: "encodes sid a" "encodes m b" and "bs = FT_MAX_STREAM_DATA # a @ b"
    by (auto simp: writer_defs and_then_Inr dest!: writer_dests)
  then show ?case by (simp add: parse_frame_arms parse_max_stream_data_def field_0 [OF e(1)] field_1 [OF e(2)])
qed (auto simp: writer_defs parse_frame_arms dest!: start_frame_Inr)

section \<open>ACK ranges\<close>

text \<open>The bytes of a list of ranges, one encoded pair after the other.\<close>

inductive range_bytes :: "(nat \<times> nat) list \<Rightarrow> bytes \<Rightarrow> bool" where
  "range_bytes [] []"
| "encodes g a \<Longrightarrow> encodes l b \<Longrightarrow> range_bytes rs bs \<Longrightarrow> range_bytes ((g, l) # rs) (a @ b @ bs)"

lemma put_ranges_Inr: "put_ranges room rs out = Inr out' \<Longrightarrow> \<exists>bs. out' = out @ bs \<and> range_bytes rs bs"
proof (induction rs arbitrary: out)
  case Nil
  then show ?case by (simp add: range_bytes.intros(1))
next
  case (Cons r rs)
  then obtain a b bs where "encodes (fst r) a" "encodes (snd r) b" "range_bytes rs bs" "out' = out @ a @ b @ bs"
    by (auto simp: and_then_Inr dest!: put_varint_Inr Cons.IH)
  then show ?case using range_bytes.intros(2) [of "fst r" a "snd r" b rs bs] by auto
qed

lemma skip_range_bytes: "range_bytes rs bs \<Longrightarrow> drop p body = bs @ rest \<Longrightarrow> skip_ranges body (length rs) p = Inr (p + length bs)"
proof (induction rs bs arbitrary: p rule: range_bytes.induct)
  case (2 g a l b rs bs)
  have d: "drop (p + n) body = drop n (a @ b @ bs @ rest)" for n
    using 2 by (metis add.commute append.assoc drop_drop)
  have "varint_at body p = Inr (g, p + length a)" using 2 by (intro varint_at_encoded [where bs = a]) simp_all
  moreover have "varint_at body (p + length a) = Inr (l, p + length a + length b)"
    using 2 d [of "length a"] by (intro varint_at_encoded [where bs = b]) simp_all
  moreover have "drop (p + length a + length b) body = bs @ rest"
    using d [of "length a + length b"] by (simp add: add.assoc)
  ultimately show ?case using 2 by (simp add: add.assoc)
qed simp

lemma ack_ranges_list_bytes:
  "range_bytes rs bs \<Longrightarrow> ack_ranges_list \<lparr>ar_bytes = bs, ar_count = length rs\<rparr> = rs"
proof (induction rule: range_bytes.induct)
  case (2 g a l b rs bs)
  then show ?case
    by (subst ack_ranges_list.simps) (simp add: ack_ranges_next_def encodes_def)
qed (simp add: ack_ranges_list.simps ack_ranges_next_def)

lemma write_ack_Inr:
  assumes "write_ack largest delay first_range ranges room = Inr bs"
  obtains a b c d rb where "encodes largest a" "encodes delay b" "encodes (length ranges) c" "encodes first_range d" "range_bytes ranges rb"
    "bs = FT_ACK # a @ b @ c @ d @ rb"
  using assms by (auto simp: write_ack_def and_then_Inr dest!: writer_dests put_ranges_Inr)

lemma parse_written_ack:
  assumes "write_ack largest delay first_range ranges room = Inr bs"
  shows "\<exists>r. parse_frame (bs @ rest) = Inr (Ack largest delay first_range r None, length bs) \<and> ack_ranges_list r = ranges"
proof -
  obtain a b c d rb where e: "encodes largest a" "encodes delay b" "encodes (length ranges) c" "encodes first_range d"
    and rb: "range_bytes ranges rb" and bs: "bs = FT_ACK # a @ b @ c @ d @ rb"
    by (rule write_ack_Inr [OF assms]) (rule that)
  let ?body = "a @ b @ c @ d @ rb @ rest" and ?p = "length a + length b + length c + length d"
  have "skip_ranges ?body (length ranges) ?p = Inr (?p + length rb)" by (rule skip_range_bytes [OF rb]) simp
  then have "parse_frame (bs @ rest) = Inr (Ack largest delay first_range \<lparr>ar_bytes = rb, ar_count = length ranges\<rparr> None, length bs)"
    by (simp add: bs parse_frame_arms parse_ack_def Let_def parse_ecn_def field_0 [OF e(1)] field_1 [OF e(2)] field_2 [OF e(3)] field_3 [OF e(4)])
  then show ?thesis using ack_ranges_list_bytes [OF rb] by blast
qed

section \<open>Bounds of the parser\<close>

lemma read_encodes:
  assumes "read_varint d = Inr (v, n)"
  shows "encodes v (take n d)"
proof -
  have n: "1 \<le> n" "n \<le> length d" using read_varint_bounds [OF assms] by simp_all
  then obtain b r where d: "take n d = b # r" by (cases "take n d") auto
  then have "d ! 0 = b" using n by (metis nth_Cons_0 nth_take less_eq_Suc_le One_nat_def)
  moreover from d have "take (n - 1) (drop 1 d) = r" by (metis drop_take drop_Suc_Cons drop_0 One_nat_def)
  moreover have "length r = n - 1" using d n by (metis diff_Suc_1 length_Cons length_take min.absorb2)
  ultimately show ?thesis using assms n
    by (auto simp: encodes_def read_varint_def Let_def d split: if_splits)
qed

lemma varint_at_encodes:
  "varint_at body p = Inr (v, q) \<Longrightarrow> p \<le> length body \<Longrightarrow> p < q \<and> q \<le> length body \<and> encodes v (take (q - p) (drop p body))"
  using varint_at_bounds by (fastforce simp: varint_at_def and_then_Inr dest: read_encodes)

lemma take_split: "p \<le> q \<Longrightarrow> q \<le> r \<Longrightarrow> take (r - p) (drop p xs) = take (q - p) (drop p xs) @ take (r - q) (drop q xs)"
  using take_add [of "q - p" "r - q" "drop p xs"] by simp

lemma skip_ranges_valid:
  "skip_ranges body n p = Inr q \<Longrightarrow> p \<le> length body \<Longrightarrow>
    p \<le> q \<and> q \<le> length body \<and> (\<exists>rs. length rs = n \<and> range_bytes rs (take (q - p) (drop p body)))"
proof (induction n arbitrary: p)
  case 0
  then show ?case by (auto intro: range_bytes.intros(1))
next
  case (Suc n)
  then obtain g p1 l p2 where g: "varint_at body p = Inr (g, p1)" and l: "varint_at body p1 = Inr (l, p2)"
    and s: "skip_ranges body n p2 = Inr q" by (auto simp: and_then_Inr)
  note g' = varint_at_encodes [OF g Suc.prems(2)]
  then have l': "p1 < p2 \<and> p2 \<le> length body \<and> encodes l (take (p2 - p1) (drop p1 body))" using varint_at_encodes [OF l] by simp
  then obtain rs where q: "p2 \<le> q" "q \<le> length body" and rs: "length rs = n" "range_bytes rs (take (q - p2) (drop p2 body))"
    using Suc.IH [OF s] by auto
  have "range_bytes ((g, l) # rs) (take (q - p) (drop p body))"
    using range_bytes.intros(2) [of g _ l _ rs] g' l' rs(2) q by (simp add: take_split [of p p1 q] take_split [of p1 p2 q])
  then show ?case using g' l' q rs(1) by (intro conjI exI [of _ "(g, l) # rs"]) simp_all
qed

lemma parse_ecn_bounds: "parse_ecn body e p = Inr (x, q) \<Longrightarrow> p \<le> length body \<Longrightarrow> p \<le> q \<and> q \<le> length body"
  by (fastforce simp: parse_ecn_def and_then_Inr split: if_splits dest!: varint_at_bounds)

lemma parse_ack_bounds:
  assumes "parse_ack body is_ecn header = Inr (f, n)"
  shows "header \<le> n \<and> n \<le> header + length body \<and> length (ack_ranges_list (ack_ranges f)) = ar_count (ack_ranges f)"
proof -
  obtain p0 p1 count p2 p3 p4 p5 a b c e where v: "varint_at body 0 = Inr (a, p0)" "varint_at body p0 = Inr (b, p1)"
      "varint_at body p1 = Inr (count, p2)" "varint_at body p2 = Inr (c, p3)"
    and s: "skip_ranges body count p3 = Inr p4" and e: "parse_ecn body is_ecn p4 = Inr (e, p5)" and n: "n = header + p5"
    and f: "f = Ack a b c \<lparr>ar_bytes = take (p4 - p3) (drop p3 body), ar_count = count\<rparr> e"
    using assms by (auto simp: parse_ack_def and_then_Inr Let_def)
  have "p3 \<le> length body" using varint_at_bounds [OF v(1)] varint_at_bounds [OF v(2)] varint_at_bounds [OF v(3)] varint_at_bounds [OF v(4)]
    by simp
  with skip_ranges_valid [OF s] obtain rs where p4: "p4 \<le> length body" and rs: "length rs = count"
    "range_bytes rs (take (p4 - p3) (drop p3 body))" by auto
  have "length (ack_ranges_list (ack_ranges f)) = ar_count (ack_ranges f)"
    using ack_ranges_list_bytes [OF rs(2)] rs(1) by (simp add: f)
  then show ?thesis using parse_ecn_bounds [OF e p4] n by simp
qed

text \<open>What every arm of the match promises of a body of the given length.\<close>

definition fits :: "nat \<Rightarrow> FrameError + Frame \<times> nat \<Rightarrow> bool" where
  "fits len r \<longleftrightarrow> (\<forall>f n. r = Inr (f, n) \<longrightarrow>
     1 \<le> n \<and> n \<le> 1 + len \<and> (is_Ack f \<longrightarrow> length (ack_ranges_list (ack_ranges f)) = ar_count (ack_ranges f)))"

lemma fits_intros:
  "fits len (Inl e)" "\<not> is_Ack f \<Longrightarrow> fits len (Inr (f, 1))" "fits len a \<Longrightarrow> fits len b \<Longrightarrow> fits len (if c then a else b)"
  by (simp_all add: fits_def)

lemma fits_parse_ack: "fits (length body) (parse_ack body is_ecn 1)"
  by (auto simp: fits_def dest!: parse_ack_bounds)

lemma fits_arms:
  "fits (length body) (parse_crypto body 1)" "fits (length body) (parse_stream body t 1)" "fits (length body) (parse_close_transport body 1)"
  "fits (length body) (parse_close_application body 1)" "fits (length body) (skip_var_len_field body t 1)"
  "fits (length body) (parse_reset_stream body 1)" "fits (length body) (parse_stop_sending body 1)" "fits (length body) (parse_max_data body 1)"
  "fits (length body) (parse_max_stream_data body 1)" "fits (length body) (skip_one_varint body t 1)" "fits (length body) (skip_two_varints body t 1)"
  "fits (length body) (skip_new_connection_id body t 1)" "fits (length body) (parse_path_challenge body 1)" "fits (length body) (skip_fixed body t k 1)"
  by (fastforce simp: fits_def parse_crypto_def parse_stream_def parse_close_transport_def parse_close_application_def skip_var_len_field_def
      parse_reset_stream_def parse_stop_sending_def parse_max_data_def parse_max_stream_data_def skip_one_varint_def skip_two_varints_def
      skip_new_connection_id_def parse_path_challenge_def skip_fixed_def and_then_Inr Let_def split: if_splits dest!: varint_at_bounds)+

lemma fits_parse_frame: "fits (length d - 1) (parse_frame d)"
  unfolding parse_frame_def Let_def length_drop [symmetric] by (intro fits_intros fits_arms fits_parse_ack) simp_all

lemma parse_frame_valid:
  assumes "parse_frame d = Inr (f, n)"
  shows "1 \<le> n" "n \<le> length d" "is_Ack f \<Longrightarrow> length (ack_ranges_list (ack_ranges f)) = ar_count (ack_ranges f)"
proof -
  have "d \<noteq> []" using assms by (auto simp: parse_frame_def)
  moreover note fits_parse_frame [of d]
  ultimately show "1 \<le> n" "n \<le> length d" "is_Ack f \<Longrightarrow> length (ack_ranges_list (ack_ranges f)) = ar_count (ack_ranges f)"
    using assms by (cases d; simp add: fits_def)+
qed

text \<open>C38: frames round trip: whatever frame a writer puts out, \<open>parse_frame\<close> reads back from the front of any payload that starts with it and
  consumes exactly its bytes; for an ACK the iterator over the parsed ranges gives back the ranges written.
\<close>

theorem frame_roundtrip:
  "(written f bs \<longrightarrow> parse_frame (bs @ rest) = Inr (f, length bs))
   \<and> (write_ack largest delay first_range ranges room = Inr bs \<longrightarrow>
        (\<exists>r. parse_frame (bs @ rest) = Inr (Ack largest delay first_range r None, length bs) \<and> ack_ranges_list r = ranges))"
  using parse_written parse_written_ack by blast

theorem frame_roundtrip_witness:
  "parse_frame ([0x0F, 0x04, 0x05, 0x02, 0x68, 0x69] @ [0x00]) = Inr (Stream 4 5 [0x68, 0x69] True, 6)"
proof -
  have "written (Stream 4 5 [0x68, 0x69] True) [0x0F, 0x04, 0x05, 0x02, 0x68, 0x69]"
    by (rule written.intros(5) [where room = 100])
      (simp add: write_stream_def start_frame_def put_varint_def put_bytes_def write_varint_def be_octets_def stream_type_byte_def ftype_defs
        MAX_VARINT_def)
  then show ?thesis
    using frame_roundtrip [of "Stream 4 5 [0x68, 0x69] True" "[0x0F, 0x04, 0x05, 0x02, 0x68, 0x69]" "[0x00]"] by simp
qed

text \<open>C39: the frame parser is total and stays inside its input: on any bytes it returns an error or a frame with a length of at least one byte and at
  most the payload, so the dispatch loop always advances; and the ranges of a parsed ACK frame are well formed, so the iterator yields exactly
  the declared number of them.
\<close>

theorem parse_frame_sound:
  assumes "parse_frame d = Inr (f, n)"
  shows "1 \<le> n \<and> n \<le> length d \<and> (is_Ack f \<longrightarrow> length (ack_ranges_list (ack_ranges f)) = ar_count (ack_ranges f))"
  using parse_frame_valid [OF assms] by simp

theorem parse_frame_sound_witness:
  "\<exists>f n. parse_frame [0x02, 0x40, 0x64, 0x00, 0x01, 0x05, 0x01, 0x03] = Inr (f, n) \<and> is_Ack f \<and> 1 \<le> n \<and> n \<le> 8
     \<and> ar_count (ack_ranges f) = 1 \<and> length (ack_ranges_list (ack_ranges f)) = 1"
proof -
  let ?f = "Ack 100 0 5 \<lparr>ar_bytes = [0x01, 0x03], ar_count = 1\<rparr> None"
  have "parse_frame [0x02, 0x40, 0x64, 0x00, 0x01, 0x05, 0x01, 0x03] = Inr (?f, 8)"
    by (simp add: parse_frame_def parse_ack_def parse_ecn_def varint_at_def read_varint_def varint_len_from_first_byte_def ftype_defs Let_def)
  from this parse_frame_sound [OF this] show ?thesis by (intro exI [of _ ?f] exI [of _ 8]) simp
qed

end
