(* ===== verification/Quic_Streams.thy ===== *)
theory Quic_Streams
  imports Prelude
begin

text \<open>
  The two halves of a QUIC stream, \<open>crates/proto/quic/src/streams.rs\<close>: the receive half reassembles the frames of the peer into bytes in
  order, the send half cuts the bytes the application queues into frames.

  Offsets are \<open>nat\<close>: a frame's offset is a variable-length integer and its length fits a datagram, so their 64-bit sum does not wrap.
  The \<open>BTreeMap\<close> of early frames is an association list in ascending order of its keys, whose first entry is what
  \<open>iter().next()\<close> returns. A queued \<open>IOBuf\<close> is its visible bytes; sharing its storage and narrowing the view to a slice of it is \<open>take\<close> and
  \<open>drop\<close>.
\<close>

section \<open>The receive half\<close>

definition INITIAL_MAX_STREAM_DATA :: nat where "INITIAL_MAX_STREAM_DATA = 2097152"

definition INITIAL_MAX_DATA :: nat where "INITIAL_MAX_DATA = 8388608"

definition is_client_initiated :: "nat \<Rightarrow> bool" where "is_client_initiated sid = (sid AND 1 = 0)"

definition is_bidirectional :: "nat \<Rightarrow> bool" where "is_bidirectional sid = (sid AND 2 = 0)"

datatype RecvState = ROpen | RFinSeen nat | RClosed nat

record RecvStream =
  rs_buffer :: bytes
  rs_offset :: nat
  rs_gap_buffer :: "(nat \<times> bytes) list"
  rs_state :: RecvState
  rs_rx_us :: nat
  rs_recv_max :: nat
  rs_recv_high :: nat

definition default_recv :: RecvStream where
  "default_recv = \<lparr>rs_buffer = [], rs_offset = 0, rs_gap_buffer = [], rs_state = ROpen, rs_rx_us = 0,
     rs_recv_max = INITIAL_MAX_STREAM_DATA, rs_recv_high = 0\<rparr>"

definition recv_reset_for_reuse :: "RecvStream \<Rightarrow> RecvStream" where
  "recv_reset_for_reuse s = s\<lparr>rs_buffer := [], rs_offset := 0, rs_gap_buffer := [], rs_state := ROpen, rs_rx_us := 0,
     rs_recv_max := INITIAL_MAX_STREAM_DATA, rs_recv_high := 0\<rparr>"

definition fin_offset :: "RecvStream \<Rightarrow> nat option" where
  "fin_offset s = (case rs_state s of ROpen \<Rightarrow> None | RFinSeen f \<Rightarrow> Some f | RClosed f \<Rightarrow> Some f)"

definition is_closed :: "RecvStream \<Rightarrow> bool" where
  "is_closed s = (case rs_state s of RClosed _ \<Rightarrow> True | _ \<Rightarrow> False)"

definition consumed :: "RecvStream \<Rightarrow> nat" where
  "consumed s = rs_offset s - length (rs_buffer s)"

definition record_fin :: "nat \<Rightarrow> RecvStream \<Rightarrow> RecvStream" where
  "record_fin end_off s =
     (let f = (case rs_state s of ROpen \<Rightarrow> end_off | RFinSeen f \<Rightarrow> max f end_off | RClosed f \<Rightarrow> max f end_off)
      in s\<lparr>rs_state := if rs_offset s \<ge> f then RClosed f else RFinSeen f\<rparr>)"

definition maybe_close :: "RecvStream \<Rightarrow> RecvStream" where
  "maybe_close s = (case rs_state s of RFinSeen f \<Rightarrow> if rs_offset s \<ge> f then s\<lparr>rs_state := RClosed f\<rparr> else s | _ \<Rightarrow> s)"

text \<open>The ordered map of early frames.\<close>

fun gap_insert :: "nat \<Rightarrow> bytes \<Rightarrow> (nat \<times> bytes) list \<Rightarrow> (nat \<times> bytes) list" where
  "gap_insert k v [] = [(k, v)]"
| "gap_insert k v ((k', v') # g) =
     (if k < k' then (k, v) # (k', v') # g else if k = k' then (k, v) # g else (k', v') # gap_insert k v g)"

text \<open>The loop that folds early frames in, from the lowest offset, up to the first one that still leaves a gap.\<close>

fun fold_gaps :: "(nat \<times> bytes) list \<Rightarrow> bytes \<Rightarrow> nat \<Rightarrow> bool \<Rightarrow> (nat \<times> bytes) list \<times> bytes \<times> nat \<times> bool" where
  "fold_gaps [] buf off produced = ([], buf, off, produced)"
| "fold_gaps ((next_off, v) # g) buf off produced =
     (if next_off > off then ((next_off, v) # g, buf, off, produced)
      else let skip = off - next_off
           in if skip < length v
              then let tail = drop skip v in fold_gaps g (buf @ tail) (off + length tail) True
              else fold_gaps g buf off produced)"

definition ingest :: "nat \<Rightarrow> bytes \<Rightarrow> bool \<Rightarrow> RecvStream \<Rightarrow> bool \<times> RecvStream" where
  "ingest frame_offset data fin s =
     (if frame_offset + length data \<le> rs_offset s
      then (False, if fin then record_fin (frame_offset + length data) s else s)
      else
        let skip = rs_offset s - frame_offset;
            frame_offset = frame_offset + skip;
            data = drop skip data;
            (produced, s) =
              (if frame_offset = rs_offset s
               then let (g, buf, off, produced) =
                          fold_gaps (rs_gap_buffer s) (rs_buffer s @ data) (rs_offset s + length data) (data \<noteq> [])
                    in (produced, s\<lparr>rs_buffer := buf, rs_offset := off, rs_gap_buffer := g\<rparr>)
               else if data \<noteq> []
               then let keep = (case map_of (rs_gap_buffer s) frame_offset of Some existing \<Rightarrow> length existing < length data | None \<Rightarrow> True)
                    in (False, if keep then s\<lparr>rs_gap_buffer := gap_insert frame_offset data (rs_gap_buffer s)\<rparr> else s)
               else (False, s))
        in (produced, if fin then record_fin (frame_offset + length data) s else maybe_close s))"

definition apply_reset :: "nat \<Rightarrow> RecvStream \<Rightarrow> RecvStream" where
  "apply_reset final_size s =
     s\<lparr>rs_buffer := [], rs_gap_buffer := [], rs_offset := final_size, rs_recv_high := final_size, rs_state := RClosed final_size\<rparr>"

definition drain :: "nat \<Rightarrow> RecvStream \<Rightarrow> (bytes \<times> bool) \<times> RecvStream" where
  "drain room s =
     (let n = min room (length (rs_buffer s));
          s' = s\<lparr>rs_buffer := drop n (rs_buffer s)\<rparr>
      in ((take n (rs_buffer s), is_closed s' \<and> rs_buffer s' = []), s'))"

section \<open>The send half\<close>

datatype SendState = SOpen | SClosing | SFinSent | SResetSent

record SendStream =
  ss_outbound :: "bytes list"
  ss_head_consumed :: nat
  ss_send_offset :: nat
  ss_state :: SendState
  ss_rx_us :: nat
  ss_peer_max_stream_data :: nat

definition default_send :: SendStream where
  "default_send = \<lparr>ss_outbound = [], ss_head_consumed = 0, ss_send_offset = 0, ss_state = SOpen, ss_rx_us = 0, ss_peer_max_stream_data = 0\<rparr>"

definition send_reset_for_reuse :: "SendStream \<Rightarrow> SendStream" where
  "send_reset_for_reuse s = s\<lparr>ss_outbound := [], ss_head_consumed := 0, ss_send_offset := 0, ss_state := SOpen, ss_rx_us := 0,
     ss_peer_max_stream_data := 0\<rparr>"

definition fin_sent :: "SendStream \<Rightarrow> bool" where
  "fin_sent s \<longleftrightarrow> ss_state s = SFinSent \<or> ss_state s = SResetSent"

definition abort :: "SendStream \<Rightarrow> nat \<times> SendStream" where
  "abort s = (ss_send_offset s, s\<lparr>ss_outbound := [], ss_head_consumed := 0, ss_state := SResetSent, ss_rx_us := 0\<rparr>)"

text \<open>The latency sample recorded here is a diagnostic.\<close>

definition enter_fin_sent :: "SendStream \<Rightarrow> SendStream" where
  "enter_fin_sent s = s\<lparr>ss_state := SFinSent, ss_rx_us := 0\<rparr>"

definition write_iobuf :: "bytes \<Rightarrow> SendStream \<Rightarrow> SendStream" where
  "write_iobuf data s =
     (if ss_state s = SFinSent \<or> ss_state s = SResetSent \<or> data = [] then s else s\<lparr>ss_outbound := ss_outbound s @ [data]\<rparr>)"

definition buffered_len :: "SendStream \<Rightarrow> nat" where
  "buffered_len s = sum_list (map length (ss_outbound s)) - ss_head_consumed s"

definition close :: "SendStream \<Rightarrow> SendStream" where
  "close s = (case ss_state s of SOpen \<Rightarrow> s\<lparr>ss_state := SClosing\<rparr> | _ \<Rightarrow> s)"

definition head_remaining_len :: "SendStream \<Rightarrow> nat" where
  "head_remaining_len s = (case ss_outbound s of [] \<Rightarrow> 0 | b # _ \<Rightarrow> length b - ss_head_consumed s)"

definition advance_head :: "nat \<Rightarrow> SendStream \<Rightarrow> SendStream" where
  "advance_head n s =
     (let hc = ss_head_consumed s + n
      in case ss_outbound s of
           [] \<Rightarrow> s\<lparr>ss_head_consumed := hc\<rparr>
         | b # bs \<Rightarrow> if hc = length b then s\<lparr>ss_outbound := bs, ss_head_consumed := 0\<rparr> else s\<lparr>ss_head_consumed := hc\<rparr>)"

definition pop_chunk :: "nat \<Rightarrow> SendStream \<Rightarrow> (nat \<times> bytes \<times> bool) option \<times> SendStream" where
  "pop_chunk max_bytes s =
     (if ss_state s = SFinSent \<or> ss_state s = SResetSent \<or> ss_state s = SOpen \<and> ss_outbound s = [] then (None, s)
      else let off = ss_send_offset s
      in case ss_outbound s of
           [] \<Rightarrow> (Some (off, [], True), enter_fin_sent s)
         | head # _ \<Rightarrow>
             let n = min (head_remaining_len s) max_bytes;
                 view = take n (drop (ss_head_consumed s) head);
                 s = advance_head n s;
                 s = s\<lparr>ss_send_offset := ss_send_offset s + n\<rparr>;
                 fin = (ss_state s = SClosing \<and> ss_outbound s = [])
             in (Some (off, view, fin), if fin then enter_fin_sent s else s))"

section \<open>Reassembly\<close>

text \<open>A frame that carries a piece of the stream \<open>S\<close>, with the FIN only at its end.\<close>

definition frame_of :: "bytes \<Rightarrow> nat \<times> bytes \<times> bool \<Rightarrow> bool" where
  "frame_of S f \<longleftrightarrow> (case f of (off, data, fin) \<Rightarrow>
     off + length data \<le> length S \<and> data = take (length data) (drop off S) \<and> (fin \<longrightarrow> off + length data = length S))"

definition span :: "nat \<times> bytes \<Rightarrow> nat set" where
  "span e = {fst e..<fst e + length (snd e)}"

definition spans :: "(nat \<times> bytes) list \<Rightarrow> nat set" where
  "spans g = (\<Union>e\<in>set g. span e)"

definition gap_ok :: "bytes \<Rightarrow> (nat \<times> bytes) list \<Rightarrow> bool" where
  "gap_ok S g \<longleftrightarrow> sorted_wrt (<) (map fst g) \<and> (\<forall>(k, v)\<in>set g. v \<noteq> [] \<and> k + length v \<le> length S \<and> v = take (length v) (drop k S))"

text \<open>
  The state of a receiver of \<open>S\<close> that has the bytes at the positions \<open>R\<close>, whose application has read \<open>out\<close>, and that knows the end of the stream
  when \<open>fin\<close>.
\<close>

definition recv_data :: "bytes \<Rightarrow> nat set \<Rightarrow> bytes \<Rightarrow> RecvStream \<Rightarrow> bool" where
  "recv_data S R out s \<longleftrightarrow>
     out @ rs_buffer s = take (rs_offset s) S \<and> rs_offset s \<le> length S \<and> gap_ok S (rs_gap_buffer s)
     \<and> (\<forall>k\<in>fst ` set (rs_gap_buffer s). rs_offset s < k)
     \<and> {..<rs_offset s} \<union> spans (rs_gap_buffer s) = R"

definition recv_ok :: "bytes \<Rightarrow> nat set \<Rightarrow> bool \<Rightarrow> bytes \<Rightarrow> RecvStream \<Rightarrow> bool" where
  "recv_ok S R fin out s \<longleftrightarrow> recv_data S R out s
     \<and> rs_state s = (if fin then if rs_offset s = length S then RClosed (length S) else RFinSeen (length S) else ROpen)"

lemma spans_Cons [simp]: "spans (e # g) = span e \<union> spans g"
  by (simp add: spans_def)

lemma spans_Nil [simp]: "spans [] = {}"
  by (simp add: spans_def)

lemma piece_drop:
  assumes "v = take (length v) (drop k S)" "k \<le> off"
  shows "drop (off - k) v = take (length v - (off - k)) (drop off S)"
  by (subst assms(1)) (simp add: drop_take assms(2))

lemma gap_ok_Cons:
  "gap_ok S ((k, v) # g) \<longleftrightarrow> (\<forall>k'\<in>fst ` set g. k < k') \<and> v \<noteq> [] \<and> k + length v \<le> length S \<and> v = take (length v) (drop k S) \<and> gap_ok S g"
  by (auto simp: gap_ok_def)

lemma fold_gaps_ok:
  assumes "fold_gaps g buf off produced = (g', buf', off', produced')" "gap_ok S g" "off \<le> length S" "out @ buf = take off S"
  shows "gap_ok S g' \<and> off \<le> off' \<and> off' \<le> length S \<and> out @ buf' = take off' S \<and> (\<forall>k\<in>fst ` set g'. off' < k)
    \<and> {..<off'} \<union> spans g' = {..<off} \<union> spans g"
  using assms
proof (induction g buf off produced rule: fold_gaps.induct)
  case (2 k v g buf off produced)
  have g: "\<forall>k'\<in>fst ` set g. k < k'" "k + length v \<le> length S" "gap_ok S g" and v: "v = take (length v) (drop k S)"
    using "2.prems"(2) unfolding gap_ok_Cons by blast+
  consider "off < k" | "k \<le> off" "off - k < length v" | "k \<le> off" "length v \<le> off - k" by linarith
  then show ?case
  proof cases
    case 1
    then show ?thesis using "2.prems" g(1) by fastforce
  next
    case 2
    define off2 where "off2 = off + (length v - (off - k))"
    have off2: "off2 = k + length v" using 2 by (simp add: off2_def)
    have "out @ buf @ drop (off - k) v = take off2 S"
      using "2.prems"(4) by (simp add: piece_drop [OF v 2(1)] off2_def take_add flip: append_assoc)
    moreover have "fold_gaps g (buf @ drop (off - k) v) off2 True = (g', buf', off', produced')"
      using "2.prems"(1) 2 by (simp add: Let_def off2_def)
    ultimately have "gap_ok S g' \<and> off2 \<le> off' \<and> off' \<le> length S \<and> out @ buf' = take off' S \<and> (\<forall>k\<in>fst ` set g'. off' < k)
        \<and> {..<off'} \<union> spans g' = {..<off2} \<union> spans g"
      using "2.IH"(1) [of "off - k" "drop (off - k) v"] 2 g off2 by (simp add: off2_def)
    moreover have "{..<off2} = {..<off} \<union> span (k, v)" using 2 off2 by (auto simp: span_def)
    moreover have "off \<le> off2" by (simp add: off2_def)
    ultimately show ?thesis by (auto simp: Un_assoc)
  next
    case 3
    have "span (k, v) \<subseteq> {..<off}" using 3 by (auto simp: span_def)
    moreover have "fold_gaps g buf off produced = (g', buf', off', produced')" using "2.prems"(1) 3 by (simp add: Let_def)
    then have "gap_ok S g' \<and> off \<le> off' \<and> off' \<le> length S \<and> out @ buf' = take off' S \<and> (\<forall>k\<in>fst ` set g'. off' < k)
        \<and> {..<off'} \<union> spans g' = {..<off} \<union> spans g"
      using "2.IH"(2) [of "off - k"] 3 g "2.prems" by simp
    ultimately show ?thesis by auto
  qed
qed (auto simp: gap_ok_def)

lemma gap_insert_fst: "fst ` set (gap_insert k v g) = insert k (fst ` set g)"
  by (induction k v g rule: gap_insert.induct) auto

lemma gap_insert_ok:
  "gap_ok S g \<Longrightarrow> v \<noteq> [] \<Longrightarrow> k + length v \<le> length S \<Longrightarrow> v = take (length v) (drop k S) \<Longrightarrow> gap_ok S (gap_insert k v g)"
proof (induction k v g rule: gap_insert.induct)
  case (2 k v k' v' g)
  then show ?case by (auto simp: gap_ok_Cons gap_insert_fst)
qed (simp add: gap_ok_Cons gap_ok_def)

lemma gap_insert_spans:
  assumes "gap_ok S g" "\<And>old. map_of g k = Some old \<Longrightarrow> length old \<le> length v"
  shows "spans (gap_insert k v g) = span (k, v) \<union> spans g"
  using assms
proof (induction k v g rule: gap_insert.induct)
  case (2 k v k' v' g)
  then show ?case by (auto simp: gap_ok_Cons span_def split: if_splits)
qed simp

lemma recv_data_state [simp]: "recv_data S R out (s\<lparr>rs_state := x\<rparr>) = recv_data S R out s"
  by (simp add: recv_data_def)

lemma recv_ok_fin:
  assumes "recv_data S R out s" "rs_state s = (if fin then if off = length S then RClosed (length S) else RFinSeen (length S) else ROpen)"
    "off \<le> rs_offset s"
  shows "recv_ok S R (fin \<or> f) out (if f then record_fin (length S) s else maybe_close s)"
proof -
  have "rs_offset s \<le> length S" using assms(1) by (simp add: recv_data_def)
  then show ?thesis using assms
    by (auto simp: recv_ok_def record_fin_def maybe_close_def Let_def split: RecvState.splits)
qed

lemma ingest_contiguous:
  assumes s: "recv_data S R out s" and d: "rs_offset s + length data \<le> length S" "data = take (length data) (drop (rs_offset s) S)"
    and f: "fold_gaps (rs_gap_buffer s) (rs_buffer s @ data) (rs_offset s + length data) b = (g, buf, off, p)"
  shows "recv_data S (R \<union> {rs_offset s..<rs_offset s + length data}) out (s\<lparr>rs_buffer := buf, rs_offset := off, rs_gap_buffer := g\<rparr>)
    \<and> rs_offset s + length data \<le> off"
proof -
  have "out @ rs_buffer s @ data = take (rs_offset s + length data) S"
    using s d(2) by (simp add: recv_data_def take_add flip: append_assoc)
  then have "gap_ok S g \<and> rs_offset s + length data \<le> off \<and> off \<le> length S \<and> out @ buf = take off S \<and> (\<forall>k\<in>fst ` set g. off < k)
    \<and> {..<off} \<union> spans g = {..<rs_offset s + length data} \<union> spans (rs_gap_buffer s)"
    using fold_gaps_ok [OF f, of S out] s d(1) by (simp add: recv_data_def)
  moreover have "{..<rs_offset s + length data} = {..<rs_offset s} \<union> {rs_offset s..<rs_offset s + length data}" by auto
  ultimately show ?thesis using s by (auto simp: recv_data_def)
qed

lemma ingest_early:
  assumes s: "recv_data S R out s" and off: "rs_offset s < off"
    and d: "data \<noteq> []" "off + length data \<le> length S" "data = take (length data) (drop off S)"
  shows "recv_data S (R \<union> span (off, data)) out
    (if case map_of (rs_gap_buffer s) off of Some existing \<Rightarrow> length existing < length data | None \<Rightarrow> True
     then s\<lparr>rs_gap_buffer := gap_insert off data (rs_gap_buffer s)\<rparr> else s)"
proof -
  have g: "gap_ok S (rs_gap_buffer s)" and R: "R = {..<rs_offset s} \<union> spans (rs_gap_buffer s)" using s by (auto simp: recv_data_def)
  show ?thesis
  proof (cases "case map_of (rs_gap_buffer s) off of Some existing \<Rightarrow> length existing < length data | None \<Rightarrow> True")
    case True
    then have "spans (gap_insert off data (rs_gap_buffer s)) = span (off, data) \<union> spans (rs_gap_buffer s)"
      by (intro gap_insert_spans [OF g]) (auto split: option.splits)
    moreover have "\<forall>k\<in>fst ` set (gap_insert off data (rs_gap_buffer s)). rs_offset s < k"
      unfolding gap_insert_fst using s off by (simp add: recv_data_def)
    ultimately show ?thesis
      using True s gap_insert_ok [OF g d] unfolding recv_data_def R by (simp add: Un_ac)
  next
    case False
    then obtain old where old: "map_of (rs_gap_buffer s) off = Some old" "length data \<le> length old" by (auto split: option.splits)
    have "span (off, data) \<subseteq> spans (rs_gap_buffer s)"
      using map_of_SomeD [OF old(1)] old(2) by (force simp: spans_def span_def)
    then have "R \<union> span (off, data) = R" unfolding R by blast
    then show ?thesis using False s by simp
  qed
qed

lemma ingest_ok:
  assumes s: "recv_ok S R fin out s" and f: "frame_of S (off, data, f)"
  shows "recv_ok S (R \<union> span (off, data)) (fin \<or> f) out (snd (ingest off data f s))"
proof -
  have d: "off + length data \<le> length S" "data = take (length data) (drop off S)" "f \<Longrightarrow> off + length data = length S"
    using f by (auto simp: frame_of_def)
  have rd: "recv_data S R out s" "rs_offset s \<le> length S" and st: "rs_state s = (if fin then if rs_offset s = length S then RClosed (length S) else RFinSeen (length S) else ROpen)"
    using s by (auto simp: recv_ok_def recv_data_def)
  consider "off + length data \<le> rs_offset s" | "off \<le> rs_offset s" "rs_offset s < off + length data" | "rs_offset s < off" "data \<noteq> []"
    | "rs_offset s < off" "data = []" by linarith
  then show ?thesis
  proof cases
    case 1
    then have "R \<union> span (off, data) = R" using rd(1) by (auto simp: recv_data_def span_def)
    moreover have "ingest off data f s = (False, if f then record_fin (length S) s else s)" using 1 d(3) by (simp add: ingest_def)
    ultimately show ?thesis using s recv_ok_fin [OF rd(1) st order_refl, of f] by (cases f) simp_all
  next
    case 2
    define data' where "data' = drop (rs_offset s - off) data"
    have l: "rs_offset s + length data' = off + length data" using 2 by (simp add: data'_def)
    have d': "data' = take (length data') (drop (rs_offset s) S)" unfolding data'_def length_drop by (rule piece_drop [OF d(2) 2(1)])
    obtain g buf o2 p where fg: "fold_gaps (rs_gap_buffer s) (rs_buffer s @ data') (rs_offset s + length data') (data' \<noteq> []) = (g, buf, o2, p)"
      by (metis prod_cases4)
    let ?s = "s\<lparr>rs_buffer := buf, rs_offset := o2, rs_gap_buffer := g\<rparr>"
    have i: "snd (ingest off data f s) = (if f then record_fin (length S) ?s else maybe_close ?s)"
      using 2 d(3) fg l by (cases f) (simp_all add: ingest_def Let_def data'_def add.commute)
    have "R \<union> {rs_offset s..<rs_offset s + length data'} = R \<union> span (off, data)"
      using 2 rd(1) l by (auto simp: recv_data_def span_def)
    with ingest_contiguous [OF rd(1) _ d' fg] d(1) l
    have "recv_data S (R \<union> span (off, data)) out ?s" "rs_offset s \<le> o2" by simp_all
    then show ?thesis unfolding i using st by (intro recv_ok_fin [where off = "rs_offset s"]) simp_all
  next
    case 3
    let ?s = "if case map_of (rs_gap_buffer s) off of Some existing \<Rightarrow> length existing < length data | None \<Rightarrow> True
      then s\<lparr>rs_gap_buffer := gap_insert off data (rs_gap_buffer s)\<rparr> else s"
    have i: "snd (ingest off data f s) = (if f then record_fin (length S) ?s else maybe_close ?s)"
      using 3 d(3) by (simp add: ingest_def Let_def split: option.splits)
    show ?thesis unfolding i using ingest_early [OF rd(1) 3 d(1,2)] st by (intro recv_ok_fin [where off = "rs_offset s"]) simp_all
  next
    case 4
    then have i: "snd (ingest off data f s) = (if f then record_fin (length S) s else maybe_close s)"
      using d(3) by (simp add: ingest_def)
    show ?thesis unfolding i using recv_ok_fin [OF rd(1) st order_refl] 4 by (simp add: span_def)
  qed
qed

lemma recv_ok_closed: "recv_ok S R fin out s \<Longrightarrow> is_closed s \<longleftrightarrow> fin \<and> rs_offset s = length S"
  by (simp add: recv_ok_def is_closed_def)

lemma drain_ok:
  assumes ok: "recv_ok S R fin out s" and d: "drain room s = ((bs, eof), s')"
  shows "recv_ok S R fin (out @ bs) s'" "eof \<longleftrightarrow> fin \<and> out @ bs = S"
proof -
  define n where "n = min room (length (rs_buffer s))"
  have s': "s' = s\<lparr>rs_buffer := drop n (rs_buffer s)\<rparr>" and bs: "bs = take n (rs_buffer s)"
    and eof: "eof \<longleftrightarrow> is_closed s' \<and> rs_buffer s' = []"
    using d by (auto simp: drain_def Let_def n_def)
  show ok': "recv_ok S R fin (out @ bs) s'" using ok by (simp add: recv_ok_def recv_data_def s' bs)
  have "out @ bs @ rs_buffer s' = take (rs_offset s') S" "rs_offset s' \<le> length S" using ok' by (simp_all add: recv_ok_def recv_data_def)
  moreover from this have "length (out @ bs) + length (rs_buffer s') = rs_offset s'" by (metis append.assoc length_append length_take min.absorb2)
  ultimately show "eof \<longleftrightarrow> fin \<and> out @ bs = S"
    unfolding eof recv_ok_closed [OF ok'] by fastforce
qed

text \<open>What arrives, STREAM and RESET_STREAM frames, and what the application does, in any order.\<close>

datatype recv_event = Arrive nat bytes bool | Reset nat | Read nat

text \<open>The run of a receiver: the bytes read, the end-of-stream flags its reads returned, and the stream at the end.\<close>

fun recv_run :: "recv_event list \<Rightarrow> RecvStream \<Rightarrow> bytes \<times> bool list \<times> RecvStream" where
  "recv_run [] s = ([], [], s)"
| "recv_run (Arrive off data fin # es) s = recv_run es (snd (ingest off data fin s))"
| "recv_run (Reset n # es) s = recv_run es (apply_reset n s)"
| "recv_run (Read room # es) s =
     (let ((bs, eof), s) = drain room s; (out, flags, s) = recv_run es s in (bs @ out, eof # flags, s))"

fun arrivals :: "recv_event list \<Rightarrow> (nat \<times> bytes \<times> bool) list" where
  "arrivals [] = []"
| "arrivals (Arrive off data fin # es) = (off, data, fin) # arrivals es"
| "arrivals (Reset n # es) = arrivals es"
| "arrivals (Read room # es) = arrivals es"

fun resets :: "recv_event list \<Rightarrow> nat list" where
  "resets [] = []"
| "resets (Arrive off data fin # es) = resets es"
| "resets (Reset n # es) = n # resets es"
| "resets (Read room # es) = resets es"

definition positions :: "(nat \<times> bytes \<times> bool) list \<Rightarrow> nat set" where
  "positions fs = (\<Union>(off, data, fin)\<in>set fs. {off..<off + length data})"

definition has_fin :: "(nat \<times> bytes \<times> bool) list \<Rightarrow> bool" where
  "has_fin fs \<longleftrightarrow> (\<exists>(off, data, fin)\<in>set fs. fin)"

text \<open>A receiver whose stream was reset at \<open>n\<close>: nothing is left to read, and frames from before the reset change nothing.\<close>

definition reset_at :: "nat \<Rightarrow> RecvStream \<Rightarrow> bool" where
  "reset_at n s \<longleftrightarrow> rs_buffer s = [] \<and> rs_offset s = n \<and> rs_state s = RClosed n"

definition below :: "nat \<Rightarrow> (nat \<times> bytes \<times> bool) list \<Rightarrow> bool" where
  "below n fs \<longleftrightarrow> (\<forall>(off, data, fin)\<in>set fs. off + length data \<le> n)"

lemma reset_at_apply: "reset_at n (apply_reset n s)"
  by (simp add: reset_at_def apply_reset_def)

lemma reset_at_ingest: "reset_at n s \<Longrightarrow> off + length data \<le> n \<Longrightarrow> reset_at n (snd (ingest off data fin s))"
  by (simp add: reset_at_def ingest_def record_fin_def Let_def)

lemma reset_at_drain: "reset_at n s \<Longrightarrow> drain room s = (([], True), s)"
  by (simp add: reset_at_def drain_def is_closed_def Let_def)

lemma recv_run_reset:
  assumes "reset_at n s" "below n (arrivals es)" "\<forall>m\<in>set (resets es). m = n" "recv_run es s = (out, flags, s')"
  shows "out = [] \<and> reset_at n s'"
  using assms
proof (induction es arbitrary: s out flags)
  case (Cons e es)
  show ?case
  proof (cases e)
    case (Arrive off data f)
    then have "reset_at n (snd (ingest off data f s))" using Cons.prems by (intro reset_at_ingest) (simp_all add: below_def)
    then show ?thesis using Cons.IH [of "snd (ingest off data f s)"] Cons.prems Arrive by (simp add: below_def)
  next
    case (Reset m)
    then show ?thesis using Cons.IH [OF reset_at_apply] Cons.prems by simp
  next
    case (Read room)
    then show ?thesis using Cons.IH [OF Cons.prems(1)] Cons.prems reset_at_drain [OF Cons.prems(1), of room]
      by (auto split: prod.splits)
  qed
qed simp

lemma recv_run_ok:
  assumes "recv_ok S R fin out0 s" "\<forall>f\<in>set (arrivals es). frame_of S f" "recv_run es s = (out, flags, s')" "resets es = []"
  shows "recv_ok S (R \<union> positions (arrivals es)) (fin \<or> has_fin (arrivals es)) (out0 @ out) s' \<and> (True \<in> set flags \<longrightarrow> out0 @ out = S)"
  using assms
proof (induction es arbitrary: R fin out0 s out flags)
  case (Cons e es)
  show ?case
  proof (cases e)
    case (Arrive off data f)
    have "recv_ok S (R \<union> span (off, data)) (fin \<or> f) out0 (snd (ingest off data f s))"
      using Cons.prems Arrive by (intro ingest_ok) simp_all
    from Cons.IH [OF this] show ?thesis
      using Cons.prems Arrive by (simp add: positions_def has_fin_def span_def Un_assoc)
  next
    case (Reset n)
    then show ?thesis using Cons.prems(4) by simp
  next
    case (Read room)
    obtain bs eof s1 where d: "drain room s = ((bs, eof), s1)" by (metis prod.exhaust)
    obtain out1 flags1 where r: "recv_run es s1 = (out1, flags1, s')" "out = bs @ out1" "flags = eof # flags1"
      using Cons.prems(3) by (auto simp: Read d split: prod.splits)
    have ih: "recv_ok S (R \<union> positions (arrivals es)) (fin \<or> has_fin (arrivals es)) ((out0 @ bs) @ out1) s'
        \<and> (True \<in> set flags1 \<longrightarrow> (out0 @ bs) @ out1 = S)"
      using Cons.IH [OF drain_ok(1) [OF Cons.prems(1) d] _ r(1)] Cons.prems(2,4) Read by simp
    moreover have "out1 = []" if "out0 @ bs = S"
    proof -
      have e: "((out0 @ bs) @ out1) @ rs_buffer s' = take (rs_offset s') S" using ih by (simp only: recv_ok_def recv_data_def)
      have "length (((out0 @ bs) @ out1) @ rs_buffer s') \<le> length S" unfolding e by simp
      then show ?thesis unfolding that by simp
    qed
    ultimately show ?thesis using drain_ok(2) [OF Cons.prems(1) d] Read r by auto
  qed
qed (simp add: positions_def has_fin_def)

text \<open>A run in which a reset arrives: what was read is still a prefix.\<close>

lemma recv_run_prefix:
  assumes "recv_ok S R fin out0 s" "\<forall>f\<in>set (arrivals es). frame_of S f" "recv_run es s = (out, flags, s')"
    "below n (arrivals es)" "\<forall>m\<in>set (resets es). m = n" "resets es \<noteq> []"
  shows "(\<exists>rest. S = out0 @ out @ rest) \<and> reset_at n s'"
  using assms
proof (induction es arbitrary: R fin out0 s out flags)
  case (Cons e es)
  show ?case
  proof (cases e)
    case (Arrive off data f)
    have "recv_ok S (R \<union> span (off, data)) (fin \<or> f) out0 (snd (ingest off data f s))"
      using Cons.prems Arrive by (intro ingest_ok) simp_all
    from Cons.IH [OF this] show ?thesis using Cons.prems Arrive by (simp add: below_def)
  next
    case (Reset m)
    then have "out = [] \<and> reset_at n s'" using recv_run_reset [OF reset_at_apply] Cons.prems by simp
    moreover have "out0 @ rs_buffer s = take (rs_offset s) S" using Cons.prems(1) by (simp add: recv_ok_def recv_data_def)
    then have "S = out0 @ rs_buffer s @ drop (rs_offset s) S" by (metis append.assoc append_take_drop_id)
    ultimately show ?thesis by auto
  next
    case (Read room)
    obtain bs eof s1 where d: "drain room s = ((bs, eof), s1)" by (metis prod.exhaust)
    obtain out1 flags1 where r: "recv_run es s1 = (out1, flags1, s')" "out = bs @ out1"
      using Cons.prems(3) by (auto simp: Read d split: prod.splits)
    show ?thesis using Cons.IH [OF drain_ok(1) [OF Cons.prems(1) d] _ r(1)] Cons.prems(2,4-6) Read r(2) by simp
  qed
qed simp

section \<open>What the sender emits\<close>

datatype send_event = Write bytes | Finish | Pop nat | Cancel

text \<open>The run of a sender: the bytes accepted, the STREAM frames and the final sizes of the RESET_STREAM frames emitted, and the stream
  at the end.\<close>

definition send_apply :: "send_event \<Rightarrow> SendStream \<Rightarrow> bytes \<times> (nat \<times> bytes \<times> bool) list \<times> nat list \<times> SendStream" where
  "send_apply e s = (case e of
     Write data \<Rightarrow> (if fin_sent s then [] else data, [], [], write_iobuf data s)
   | Finish \<Rightarrow> ([], [], [], close s)
   | Pop n \<Rightarrow> (case pop_chunk n s of (None, s) \<Rightarrow> ([], [], [], s) | (Some f, s) \<Rightarrow> ([], [f], [], s))
   | Cancel \<Rightarrow> (let (final_size, s) = abort s in ([], [], [final_size], s)))"

fun send_run :: "send_event list \<Rightarrow> SendStream \<Rightarrow> bytes \<times> (nat \<times> bytes \<times> bool) list \<times> nat list \<times> SendStream" where
  "send_run [] s = ([], [], [], s)"
| "send_run (e # es) s =
     (let (w, f, n, s) = send_apply e s; (ws, fs, ns, s) = send_run es s in (w @ ws, f @ fs, n @ ns, s))"

text \<open>
  A sender that has accepted \<open>W\<close> and emitted \<open>fs\<close> and resets at \<open>ns\<close>: the frames are consecutive pieces of \<open>W\<close> up to the send offset, the
  queue holds the rest, a FIN is the end of it all, and a reset names the send offset, beyond which nothing is sent any more.
\<close>

definition send_ok :: "bytes \<Rightarrow> (nat \<times> bytes \<times> bool) list \<Rightarrow> nat list \<Rightarrow> SendStream \<Rightarrow> bool" where
  "send_ok W fs ns s \<longleftrightarrow>
     (\<forall>n\<in>set ns. n = ss_send_offset s \<and> ss_state s = SResetSent) \<and> below (ss_send_offset s) fs
     \<and> ss_send_offset s \<le> length W \<and> (\<forall>f\<in>set fs. frame_of W f) \<and> positions fs = {..<ss_send_offset s}
     \<and> (has_fin fs \<longrightarrow> fin_sent s) \<and> (ss_state s = SFinSent \<longrightarrow> has_fin fs \<and> ss_outbound s = [])
     \<and> (ss_state s \<noteq> SResetSent \<longrightarrow> drop (ss_send_offset s) W = drop (ss_head_consumed s) (concat (ss_outbound s)))
     \<and> [] \<notin> set (ss_outbound s)
     \<and> (case ss_outbound s of [] \<Rightarrow> ss_head_consumed s = 0 | b # _ \<Rightarrow> ss_head_consumed s < length b)"

lemma send_ok_default: "send_ok [] [] [] default_send"
  by (simp add: send_ok_def default_send_def positions_def has_fin_def below_def)

lemma frame_of_append: "frame_of W (off, data, fin) \<Longrightarrow> \<not> fin \<Longrightarrow> frame_of (W @ X) (off, data, fin)"
  by (auto simp: frame_of_def)

lemma send_write_ok:
  assumes "send_ok W fs ns s"
  shows "send_ok (W @ (if fin_sent s then [] else data)) fs ns (write_iobuf data s)"
proof (cases "fin_sent s \<or> data = []")
  case True
  then show ?thesis using assms by (auto simp: write_iobuf_def fin_sent_def)
next
  case False
  then have "\<forall>f\<in>set fs. frame_of (W @ data) f"
    using assms by (auto simp: send_ok_def has_fin_def intro!: frame_of_append)
  moreover have "write_iobuf data s = s\<lparr>ss_outbound := ss_outbound s @ [data]\<rparr>" "\<not> has_fin fs"
    using False assms by (auto simp: write_iobuf_def fin_sent_def send_ok_def)
  ultimately show ?thesis using assms False
    by (cases "ss_outbound s") (auto simp: send_ok_def fin_sent_def)
qed

lemma send_close_ok: "send_ok W fs ns s \<Longrightarrow> send_ok W fs ns (close s)"
  by (auto simp: send_ok_def close_def fin_sent_def split: SendState.splits list.splits)

lemma send_abort_ok: "send_ok W fs ns s \<Longrightarrow> send_ok W fs (ns @ [fst (abort s)]) (snd (abort s))"
  by (simp add: send_ok_def abort_def fin_sent_def)

lemma positions_snoc [simp]: "positions (fs @ [(off, data, fin)]) = positions fs \<union> {off..<off + length data}"
  by (auto simp: positions_def)

lemma has_fin_snoc [simp]: "has_fin (fs @ [(off, data, fin)]) \<longleftrightarrow> has_fin fs \<or> fin"
  by (auto simp: has_fin_def)

lemma below_snoc: "below n (fs @ [(off, data, fin)]) \<longleftrightarrow> below n fs \<and> off + length data \<le> n"
  by (auto simp: below_def)

lemma below_mono: "below n fs \<Longrightarrow> n \<le> m \<Longrightarrow> below m fs"
  unfolding below_def case_prod_beta by (meson order_trans)

lemma advance_head_ok:
  assumes "ss_outbound s = b # bs" "ss_head_consumed s < length b" "n \<le> length b - ss_head_consumed s" "[] \<notin> set (ss_outbound s)"
  shows "drop n (drop (ss_head_consumed s) (concat (ss_outbound s))) =
      drop (ss_head_consumed (advance_head n s)) (concat (ss_outbound (advance_head n s)))"
    "[] \<notin> set (ss_outbound (advance_head n s))"
    "case ss_outbound (advance_head n s) of [] \<Rightarrow> ss_head_consumed (advance_head n s) = 0
      | b # _ \<Rightarrow> ss_head_consumed (advance_head n s) < length b"
    "ss_state (advance_head n s) = ss_state s" "ss_send_offset (advance_head n s) = ss_send_offset s"
  using assms by (auto simp: advance_head_def Let_def add.commute split: list.splits)

lemma send_pop_ok:
  assumes ok: "send_ok W fs ns s" and p: "pop_chunk n s = (Some f, s')"
  shows "send_ok W (fs @ [f]) ns s'"
proof -
  have ns: "ns = []" and lo: "below (ss_send_offset s) fs"
    using ok p by (cases ns; auto simp: send_ok_def pop_chunk_def split: if_splits)+
  have st: "\<not> fin_sent s" and nofin: "\<not> has_fin fs" and q: "drop (ss_send_offset s) W = drop (ss_head_consumed s) (concat (ss_outbound s))"
    and fs: "ss_send_offset s \<le> length W" "\<forall>f\<in>set fs. frame_of W f" "positions fs = {..<ss_send_offset s}" "[] \<notin> set (ss_outbound s)"
    using ok p by (auto simp: send_ok_def fin_sent_def pop_chunk_def split: if_splits)
  show ?thesis
  proof (cases "ss_outbound s")
    case Nil
    then have f: "f = (ss_send_offset s, [], True)" "s' = enter_fin_sent s" using p by (auto simp: pop_chunk_def Let_def split: if_splits)
    have "ss_send_offset s = length W" "ss_head_consumed s = 0" using q fs(1) ok Nil by (simp_all add: send_ok_def)
    then show ?thesis using fs Nil ns lo unfolding f
      by (simp add: send_ok_def enter_fin_sent_def fin_sent_def frame_of_def below_snoc)
  next
    case (Cons b bs)
    define m where "m = min (length b - ss_head_consumed s) n"
    define a where "a = advance_head m s"
    define fin where "fin \<longleftrightarrow> ss_state s = SClosing \<and> ss_outbound a = []"
    have hc: "ss_head_consumed s < length b" using ok Cons by (simp add: send_ok_def)
    note a = advance_head_ok [OF Cons hc, of m, OF _ fs(4), folded a_def]
    have m: "m \<le> length b - ss_head_consumed s" by (simp add: m_def)
    define view where "view = take m (drop (ss_head_consumed s) b)"
    have f: "f = (ss_send_offset s, view, fin)"
      "s' = (let t = a\<lparr>ss_send_offset := ss_send_offset a + m\<rparr> in if fin then enter_fin_sent t else t)"
      using p Cons a(4) [OF m] st
      by (auto simp: pop_chunk_def head_remaining_len_def Let_def m_def [symmetric] a_def [symmetric] fin_def view_def fin_sent_def split: if_splits)
    have v: "view = take m (drop (ss_send_offset s) W)" "length view = m" using m hc by (simp_all add: view_def q Cons)
    have "drop (ss_send_offset s + m) W = drop m (drop (ss_send_offset s) W)" by (simp add: add.commute)
    also have "\<dots> = drop (ss_head_consumed a) (concat (ss_outbound a))" unfolding q by (rule a(1) [OF m])
    finally have q': "drop (ss_send_offset s + m) W = drop (ss_head_consumed a) (concat (ss_outbound a))" .
    have "length view \<le> length W - ss_send_offset s" by (simp add: v(1))
    then have l: "ss_send_offset s + m \<le> length W" using fs(1) v(2) by linarith
    have e: "ss_send_offset s + m = length W" if fin using q' l that by (simp add: fin_def)
    have fr: "frame_of W f" using v l e by (simp add: f(1) frame_of_def)
    have "{..<ss_send_offset s} \<union> {ss_send_offset s..<ss_send_offset s + m} = {..<ss_send_offset s + m}" by auto
    moreover have "below (ss_send_offset s + m) (fs @ [f])"
      using below_mono [OF lo] v(2) by (simp add: f(1) below_snoc)
    ultimately show ?thesis
      using fs fr st nofin l q' a(2,3) [OF m] a(4,5) [OF m] v(2) e ns
      by (cases fin) (auto simp: send_ok_def f Let_def enter_fin_sent_def fin_sent_def fin_def split: list.splits)
  qed
qed

lemma pop_chunk_None: "pop_chunk n s = (None, s') \<Longrightarrow> s' = s"
  by (auto simp: pop_chunk_def Let_def split: if_splits list.splits)

lemma send_apply_ok:
  assumes "send_ok W fs ns s" "send_apply e s = (w, f, n, s')"
  shows "send_ok (W @ w) (fs @ f) (ns @ n) s'"
  using assms send_write_ok send_close_ok send_abort_ok [of W fs ns s] send_pop_ok
  by (cases e) (auto simp: send_apply_def split: prod.splits option.splits dest!: pop_chunk_None)

lemma send_run_ok: "send_ok W0 fs0 ns0 s \<Longrightarrow> send_run es s = (W, fs, ns, s') \<Longrightarrow> send_ok (W0 @ W) (fs0 @ fs) (ns0 @ ns) s'"
proof (induction es arbitrary: W0 fs0 ns0 s W fs ns)
  case (Cons e es)
  obtain w f n s1 ws gs ms where "send_apply e s = (w, f, n, s1)" "send_run es s1 = (ws, gs, ms, s')" "W = w @ ws" "fs = f @ gs" "ns = n @ ms"
    using Cons.prems(2) by (auto split: prod.splits)
  then show ?case using Cons.IH [OF send_apply_ok [OF Cons.prems(1)]] by simp
qed simp

section \<open>Delivery\<close>

lemma recv_ok_default: "recv_ok S {} False [] default_recv"
  by (simp add: recv_ok_def recv_data_def default_recv_def gap_ok_def)

text \<open>All that was sent has arrived: the receiver has no gap below the send offset.\<close>

lemma recv_all:
  assumes "recv_ok S {..<n} fin out s" "n \<le> length S"
  shows "rs_offset s = n"
proof -
  note ok = assms(1) [unfolded recv_ok_def recv_data_def]
  have g: "{..<rs_offset s} \<union> spans (rs_gap_buffer s) = {..<n}" using ok by (elim conjE) assumption
  have k: "\<forall>k\<in>fst ` set (rs_gap_buffer s). rs_offset s < k" using ok by (elim conjE) assumption
  have "rs_offset s \<notin> spans (rs_gap_buffer s)" using k by (auto simp: spans_def span_def)
  then have "rs_offset s \<notin> {..<rs_offset s} \<union> spans (rs_gap_buffer s)" by simp
  then have "\<not> rs_offset s < n" unfolding g by simp
  moreover have "{..<rs_offset s} \<subseteq> {..<n}" unfolding g [symmetric] by (rule Un_upper1)
  ultimately show ?thesis by simp
qed

text \<open>C5: a QUIC stream delivers: whatever the application writes, closes or cancels and however the packet builder cuts the queue into frames, if
  the STREAM and RESET_STREAM frames that arrive are among those emitted (lost, duplicated or reordered in any way) then the bytes the peer reads, in
  pieces of any size and at any moment, are a prefix of the bytes accepted, and an end of stream is reported only after all of them unless a reset
  arrived. Without a reset, once every emitted frame has arrived the receiver holds everything sent, and if the sender has sent its FIN, one more read hands
  over the rest with the end of stream. Once a reset has arrived nothing is left to read, whatever frames arrive later, and the final size is what the
  sender had sent.
\<close>

theorem quic_stream_delivered:
  assumes "send_run evs default_send = (W, fs, ns, s)" and "recv_run es default_recv = (out, flags, r)"
    and "set (arrivals es) \<subseteq> set fs" and "set (resets es) \<subseteq> set ns"
  shows "(\<exists>rest. W = out @ rest) \<and> (True \<in> set flags \<and> resets es = [] \<longrightarrow> out = W)
    \<and> (resets es = [] \<and> set fs \<subseteq> set (arrivals es) \<longrightarrow> out @ rs_buffer r = take (ss_send_offset s) W
        \<and> (ss_state s = SFinSent \<longrightarrow> fst (drain (length W) r) = (drop (length out) W, True)))
    \<and> (resets es \<noteq> [] \<longrightarrow> fst (drain room r) = ([], True) \<and> fin_offset r = Some (ss_send_offset s))"
proof (cases "resets es = []")
  case False
  have snd: "send_ok W fs ns s" using send_run_ok [OF send_ok_default assms(1)] by simp
  then have fs: "below (ss_send_offset s) fs" "\<forall>n\<in>set ns. n = ss_send_offset s" "\<forall>f\<in>set fs. frame_of W f" by (simp_all add: send_ok_def)
  then have "below (ss_send_offset s) (arrivals es)" "\<forall>n\<in>set (resets es). n = ss_send_offset s" "\<forall>f\<in>set (arrivals es). frame_of W f"
    using assms(3,4) unfolding below_def by blast+
  from recv_run_prefix [OF recv_ok_default this(3) assms(2) this(1,2) False] show ?thesis
    using False by (auto simp: reset_at_drain reset_at_def fin_offset_def)
next
  case True
  have snd: "send_ok W fs ns s" using send_run_ok [OF send_ok_default assms(1)] by simp
  then have "\<forall>f\<in>set (arrivals es). frame_of W f" using assms(3) by (auto simp: send_ok_def)
  from recv_run_ok [OF recv_ok_default this assms(2) True]
  have rcv: "recv_ok W (positions (arrivals es)) (has_fin (arrivals es)) out r" and fl: "True \<in> set flags \<longrightarrow> out = W" by simp_all
  have o: "out @ rs_buffer r = take (rs_offset r) W" using rcv by (simp add: recv_ok_def recv_data_def)
  have "W = out @ rs_buffer r @ drop (rs_offset r) W" using append_take_drop_id [of "rs_offset r" W] by (simp flip: o)
  moreover have "out @ rs_buffer r = take (ss_send_offset s) W
      \<and> (ss_state s = SFinSent \<longrightarrow> fst (drain (length W) r) = (drop (length out) W, True))" if "set fs \<subseteq> set (arrivals es)"
  proof -
    have "set (arrivals es) = set fs" using that assms(3) by blast
    then have "positions (arrivals es) = {..<ss_send_offset s}" and hf: "has_fin (arrivals es) = has_fin fs"
      using snd by (simp_all add: positions_def has_fin_def send_ok_def)
    then have off: "rs_offset r = ss_send_offset s" using recv_all [of W] rcv snd by (simp add: send_ok_def)
    moreover have "fst (drain (length W) r) = (drop (length out) W, True)" if "ss_state s = SFinSent"
    proof -
      have "ss_send_offset s = length W" "has_fin fs" using snd that by (auto simp: send_ok_def)
      then have W: "W = out @ rs_buffer r" using o off by simp
      obtain bs eof r' where d: "drain (length W) r = ((bs, eof), r')" by (metis prod.exhaust)
      have "bs = rs_buffer r" using d W by (auto simp: drain_def Let_def)
      then show ?thesis using drain_ok(2) [OF rcv d] W \<open>has_fin fs\<close> hf d by simp
    qed
    ultimately show ?thesis using o by simp
  qed
  ultimately show ?thesis using fl True by blast
qed

lemma demo_send:
  "\<exists>s. send_run [Write [0x61, 0x62, 0x63], Pop 2, Finish, Pop 5] default_send =
      ([0x61, 0x62, 0x63], [(0, [0x61, 0x62], False), (2, [0x63], True)], [], s) \<and> ss_state s = SFinSent"
  "\<exists>s. send_run [Write [0x61, 0x62, 0x63], Pop 2, Cancel] default_send =
      ([0x61, 0x62, 0x63], [(0, [0x61, 0x62], False)], [2], s)"
  by (simp_all add: send_apply_def write_iobuf_def pop_chunk_def close_def abort_def head_remaining_len_def advance_head_def enter_fin_sent_def
      default_send_def fin_sent_def Let_def)

lemma demo_recv:
  "\<exists>r. recv_run [Arrive 2 [0x63] True, Read 9, Arrive 0 [0x61, 0x62] False] default_recv = ([], [False], r)"
  "\<exists>r. recv_run [Reset 2, Arrive 0 [0x61, 0x62] False] default_recv = ([], [], r)"
  by (simp_all add: ingest_def drain_def is_closed_def record_fin_def default_recv_def Let_def)

text \<open>One stream that is finished, with its second frame first, and one that is cancelled, with the reset first.\<close>

theorem quic_stream_delivered_witness:
  "fst (drain 3 (snd (snd (recv_run [Arrive 2 [0x63] True, Read 9, Arrive 0 [0x61, 0x62] False] default_recv)))) = ([0x61, 0x62, 0x63], True)
   \<and> fst (drain 3 (snd (snd (recv_run [Reset 2, Arrive 0 [0x61, 0x62] False] default_recv)))) = ([], True)"
proof
  obtain s where s: "send_run [Write [0x61, 0x62, 0x63], Pop 2, Finish, Pop 5] default_send =
      ([0x61, 0x62, 0x63], [(0, [0x61, 0x62], False), (2, [0x63], True)], [], s)" "ss_state s = SFinSent"
    using demo_send(1) by blast
  obtain r where r: "recv_run [Arrive 2 [0x63] True, Read 9, Arrive 0 [0x61, 0x62] False] default_recv = ([], [False], r)"
    using demo_recv(1) by blast
  show "fst (drain 3 (snd (snd (recv_run [Arrive 2 [0x63] True, Read 9, Arrive 0 [0x61, 0x62] False] default_recv)))) = ([0x61, 0x62, 0x63], True)"
    using quic_stream_delivered [OF s(1) r] s(2) r by (simp add: numeral_3_eq_3)
  obtain s where s: "send_run [Write [0x61, 0x62, 0x63], Pop 2, Cancel] default_send =
      ([0x61, 0x62, 0x63], [(0, [0x61, 0x62], False)], [2], s)" using demo_send(2) by blast
  obtain r where r: "recv_run [Reset 2, Arrive 0 [0x61, 0x62] False] default_recv = ([], [], r)" using demo_recv(2) by blast
  show "fst (drain 3 (snd (snd (recv_run [Reset 2, Arrive 0 [0x61, 0x62] False] default_recv)))) = ([], True)"
    using quic_stream_delivered [OF s r, of 3] r by simp
qed

end
