(* ===== verification/Spec2Isabelle.thy ===== *)
theory Spec2Isabelle
  imports Prelude Congestion Loss_Detection Tcp_Types Ooo_Queue Tcp_Conn Tcp_Rtx Tcp_Sender Tcp_Hash Tcp_Pool Tcp_Slots Net_Wire Tcp_Options Tcp_Core Tcp_Connect Tcp_Listener Tcp_Timers Tcp_Receive Tcp_Handshake Tcp_Stream Tcp_Send Tcp_Views Tcp_System Tcp_Wakeup Tcp_Reactor Quic_Wire Quic_Frame Quic_Streams
begin

text \<open>
  A verification development for \<open>waitless\<close>, a unikernel runtime with its own network stack.

  \<^bold>\<open>The program.\<close> Each core of the machine runs an executor, polls its NIC queue and owns its connections. A received frame is
  classified by its flow hash (\<open>crates/net/src/classify.rs\<close>), moved to the core that owns the flow, and handed to TCP
  (\<open>crates/net/tcp\<close>) or, over UDP, to QUIC (\<open>crates/proto/quic\<close>). TCP keeps a pool of control blocks per core, an index from
  4-tuples to slots, and a list of the connections with an armed timer; the reactor (\<open>crates/runtime/executor/src/reactor/tcp.rs\<close>)
  turns its operations into futures. Both transports share the congestion controllers and the loss detection of
  \<open>crates/net/cc\<close>. TLS, HTTP/1, HTTP/2 and HTTP/3 run above them; drivers, kernel and boot code below.

  \<^bold>\<open>Theories, in the order the program composes its parts.\<close>

  \<^item> \<open>Prelude\<close>: integer widths, saturation and casts, sequence numbers, results, list lemmas.
  \<^item> \<open>Congestion\<close> (\<open>crates/net/cc/src/lib.rs\<close>): NewReno, CUBIC and the \<open>Controller\<close> enum. The trait is the locale
    \<open>congestion_control\<close>, interpreted on all three; the window stays within its bounds, is reduced once per loss episode, and grows by
    at most what is acknowledged.
  \<^item> \<open>Loss_Detection\<close> (\<open>crates/net/cc/src/loss.rs\<close>): one pass over a flight gives the per-packet verdicts of RFC 9002.
  \<^item> \<open>Tcp_Types\<close>, \<open>Ooo_Queue\<close>, \<open>Tcp_Conn\<close>, \<open>Tcp_Rtx\<close> (\<open>crates/net/tcp/src/state.rs\<close>): the control block with its receive ring (a FIFO,
    by the locale \<open>byte_queue\<close>), its out-of-order queue, its retransmission queue and its timers. \<open>Tcp_Sender\<close> runs the send side through any
    sequence of events: the queue covers exactly the unacknowledged bytes, and a timer is armed while there are any, for parts of fewer than 65536
    bytes.
  \<^item> \<open>Tcp_Hash\<close>, \<open>Tcp_Pool\<close>, \<open>Tcp_Slots\<close>, \<open>Tcp_Core\<close> (\<open>pool.rs\<close>): the index (a finite map, by the locale \<open>bounded_map\<close>), the slot pool,
    the timer list and the accept rings of one core, and the invariant \<open>core_ok\<close> that every operation keeps. \<open>slot_property\<close> is the interface
    through which an invariant of single control blocks becomes one of the core.
  \<^item> \<open>Net_Wire\<close>, \<open>Tcp_Options\<close> (\<open>crates/net/src\<close>, \<open>send.rs\<close>, \<open>receive.rs\<close>): headers, checksums, classification and TCP options, with
    what is written read back.
  \<^item> \<open>Tcp_Connect\<close> (\<open>connect.rs\<close>, \<open>ephemeral.rs\<close>), \<open>Tcp_Listener\<close> (\<open>listener.rs\<close>), \<open>Tcp_Timers\<close> (\<open>retransmit.rs\<close>), \<open>Tcp_Receive\<close>
    (\<open>receive.rs\<close>), \<open>Tcp_Send\<close> (\<open>send.rs\<close>): the operations, each a function on the state of a core or of one slot. \<open>Tcp_Handshake\<close>
    has the state machine's promises and two places where it breaks them; \<open>Tcp_Stream\<close> the delivery of the peer's byte stream.
  \<^item> \<open>Tcp_Views\<close>, \<open>Tcp_System\<close>, \<open>Tcp_Wakeup\<close>, \<open>Tcp_Reactor\<close>: a core as one labelled step relation \<open>core_step\<close> over all of these, the
    invariants of every reachable state, and the futures (\<open>reactor/tcp.rs\<close>): no wake-up of a reader is lost and every poll returns. The one
    segment that is not a step is a SYN to port 0, whose admission is a defect that the accept rings do not survive.
  \<^item> \<open>Quic_Wire\<close> (\<open>wire.rs\<close>), \<open>Quic_Frame\<close> (\<open>frame.rs\<close>), \<open>Quic_Streams\<close> (\<open>streams.rs\<close>): variable-length integers, headers and packet numbers;
    frames, with every writer read back by the parser; and the two halves of a stream, which together deliver what is written, or up to a
    reset a prefix of it, whatever the network does with the frames.

  \<^bold>\<open>Conventions.\<close> State is passed explicitly. Counts, windows, deadlines and indices are \<open>nat\<close> with the saturation, the casts and, where the code
  relies on it, the wrap-around of their Rust width written out; sequence numbers are 32-bit words and packet numbers 64-bit words. An error is the left side of a
  sum, an absent value \<open>None\<close>. What happens outside a handler is an input: the clock, MAC resolution, and the outcomes of allocations and of buffer
  acquisitions as lists of flags still to come. A waker is an identifier, a buffer the bytes it exposes, and the frames sent are a trace.
  Arithmetic is that of the release profile, and diagnostic counters and traces are left out.

  \<^bold>\<open>Bounds.\<close> The walk of the timer list follows links, so it carries fuel: 65536 units for at most 65472 slots, which suffices because the
  walk visits each slot of a well-formed list once, and one that was given up a second time. The loop over segments of a send and the retry loop of a send future are partial functions, and they are proved to return for every
  reachable connection, whose segment size is positive. The probe loops of the index run at most once around the table, and removal is proved to end because the table always has an empty entry. All other loops are structural or
  have a measure.

  \<^bold>\<open>Where the code falls short.\<close> Some theorems prove a defect and not a promise: a part of 65536 bytes or more is not covered by retransmission; a give-up at the head
  of the timer list orphans the connections behind it; a send refused with nothing in flight arms no timer; a cancelled chunk read makes the next
  read report an end of stream; port 0 counts as listening; and the send window is taken from segments outside the receive window.

  \<^bold>\<open>Not modelled.\<close> The memory model: a core owns its connections, so the operations of one core are sequential, and the lock-free structures
  (\<open>crates/util/tagged-treiber\<close>, the deques and rings of \<open>crates/kernel/core\<close>, the \<open>ConfigStore\<close> seqlock) need a semantics of atomics that a shallow embedding
  does not give. The drivers, kernel and boot code are MMIO, interrupts and page tables. The cryptography is instruction intrinsics and external crates, and TLS and the
  packet protection of QUIC rest on it. ARP, NDP, ICMPv6, DHCP and UDP, the QUIC connection state machine beyond its streams, and the HTTP layers are
  plain protocol code that this development does not reach yet. Applications, benchmarks and tools are clients of the library.
\<close>

end
